(* ===== verification/Xv6_Prelude.thy ===== *)
theory Xv6_Prelude
  imports Main "HOL-Library.Word" "HOL-Library.Signed_Division"
begin

text \<open>
  Shared vocabulary of the development.

  \<^item> \<open>'a res\<close> is the outcome of a kernel function: it returns a value, or the kernel stops in
    \<open>panic\<close> (kernel/printf.c) with the message of the call.
  \<^item> \<open>search\<close> is the C loop \<open>for (; i < n; i++) if (P(i)) break;\<close>, the shape of every table scan
    of the kernel.
  \<^item> \<open>ld64\<close> and \<open>st64\<close> are the 64-bit little-endian load and store on byte-addressed memory;
    \<open>ld_bytes\<close> and \<open>st_bytes\<close> move runs of bytes.
  The theory also holds the lemma collections the component theories extend and the generic
  lemmas on loops, words and memory that they share.
\<close>

unbundle bit_operations_syntax

section \<open>Names of the C types\<close>

type_synonym uint8 = "8 word"
type_synonym uint32 = "32 word"
type_synonym uint64 = "64 word"

section \<open>Outcomes of kernel functions\<close>

datatype 'a res = Panic string | Ok 'a

primrec bindr :: "'a res \<Rightarrow> ('a \<Rightarrow> 'b res) \<Rightarrow> 'b res" where
  "bindr (Panic e) f = Panic e"
| "bindr (Ok x) f = f x"

primrec is_ok :: "'a res \<Rightarrow> bool" where
  "is_ok (Panic e) = False"
| "is_ok (Ok x) = True"

lemma bindr_Ok_iff [simp]: "bindr m f = Ok y \<longleftrightarrow> (\<exists>x. m = Ok x \<and> f x = Ok y)"
  by (cases m) auto

lemma Ok_bindr_iff [simp]: "Ok y = bindr m f \<longleftrightarrow> (\<exists>x. m = Ok x \<and> f x = Ok y)"
  by (cases m) auto

lemma bindr_assoc: "bindr (bindr m f) g = bindr m (\<lambda>x. bindr (f x) g)"
  by (cases m) auto

lemma bindr_cong [fundef_cong]:
  "m = m' \<Longrightarrow> (\<And>x. m' = Ok x \<Longrightarrow> f x = f' x) \<Longrightarrow> bindr m f = bindr m' f'"
  by (cases m') auto

lemma is_ok_iff: "is_ok r \<longleftrightarrow> (\<exists>x. r = Ok x)"
  by (cases r) auto

lemma bindr_split: "P (bindr m f) \<longleftrightarrow> (\<forall>e. m = Panic e \<longrightarrow> P (Panic e)) \<and> (\<forall>x. m = Ok x \<longrightarrow> P (f x))"
  by (cases m) auto

text \<open>A \<open>for\<close> loop over a list of indices whose body may panic.\<close>

primrec loop_res :: "('i \<Rightarrow> 's \<Rightarrow> 's res) \<Rightarrow> 'i list \<Rightarrow> 's \<Rightarrow> 's res" where
  "loop_res f [] s = Ok s"
| "loop_res f (i # is) s = bindr (f i s) (loop_res f is)"

lemma loop_res_append: "loop_res f (xs @ ys) s = bindr (loop_res f xs s) (loop_res f ys)"
  by (induction xs arbitrary: s) (auto simp: bindr_assoc cong: bindr_cong)

lemma loop_res_upt_induct:
  assumes "P 0 s"
    and "\<And>i s. i < n \<Longrightarrow> P i s \<Longrightarrow> \<exists>s'. f i s = Ok s' \<and> P (Suc i) s'"
  shows "\<exists>s'. loop_res f [0..<n] s = Ok s' \<and> P n s'"
  using assms(2)
proof (induction n)
  case 0
  then show ?case using assms(1) by simp
next
  case (Suc n)
  then obtain s1 where s1: "loop_res f [0..<n] s = Ok s1" "P n s1" by force
  then obtain s2 where "f n s1 = Ok s2" "P (Suc n) s2" using Suc.prems [of n s1] by auto
  with s1 show ?case by (auto simp: loop_res_append)
qed

section \<open>Table scans\<close>

function search :: "(nat \<Rightarrow> bool) \<Rightarrow> nat \<Rightarrow> nat \<Rightarrow> nat option" where
  "search P i n = (if i < n then (if P i then Some i else search P (Suc i) n) else None)"
  by pat_completeness auto
termination
  by (relation "measure (\<lambda>(P, i, n). n - i)") auto

declare search.simps [simp del]

lemma search_hit [simp]: "i < n \<Longrightarrow> P i \<Longrightarrow> search P i n = Some i"
  by (simp add: search.simps)

lemma search_miss: "i < n \<Longrightarrow> \<not> P i \<Longrightarrow> search P i n = search P (Suc i) n"
  by (simp add: search.simps)

lemma search_end [simp]: "n \<le> i \<Longrightarrow> search P i n = None"
  by (simp add: search.simps)

lemma search_SomeD:
  "search P i n = Some j \<Longrightarrow> i \<le> j \<and> j < n \<and> P j \<and> (\<forall>k. i \<le> k \<and> k < j \<longrightarrow> \<not> P k)"
proof (induction P i n rule: search.induct)
  case (1 P i n)
  show ?case
  proof (cases "i < n \<and> \<not> P i")
    case True
    with "1.prems" have "search P (Suc i) n = Some j" by (simp add: search_miss)
    with "1.IH" True have *: "Suc i \<le> j \<and> j < n \<and> P j \<and> (\<forall>k. Suc i \<le> k \<and> k < j \<longrightarrow> \<not> P k)"
      by blast
    then have "\<not> P k" if "i \<le> k \<and> k < j" for k
      using that True by (cases "k = i") auto
    with * show ?thesis by auto
  next
    case False
    with "1.prems" show ?thesis by (cases "i < n") auto
  qed
qed

lemma search_NoneD: "search P i n = None \<Longrightarrow> i \<le> k \<Longrightarrow> k < n \<Longrightarrow> \<not> P k"
proof (induction P i n rule: search.induct)
  case (1 P i n)
  then show ?case
    by (cases "k = i") (auto simp: search.simps [of P i n] split: if_splits)
qed

lemma search_Some_iff:
  "search P i n = Some j \<longleftrightarrow> i \<le> j \<and> j < n \<and> P j \<and> (\<forall>k. i \<le> k \<and> k < j \<longrightarrow> \<not> P k)"
proof
  assume R: "i \<le> j \<and> j < n \<and> P j \<and> (\<forall>k. i \<le> k \<and> k < j \<longrightarrow> \<not> P k)"
  show "search P i n = Some j"
  proof (cases "search P i n")
    case None
    with R search_NoneD [OF None, of j] show ?thesis by auto
  next
    case (Some m)
    with R search_SomeD [OF Some] show ?thesis
      by (metis linorder_neqE_nat)
  qed
qed (rule search_SomeD)

lemma search_None_iff: "search P i n = None \<longleftrightarrow> (\<forall>k. i \<le> k \<and> k < n \<longrightarrow> \<not> P k)"
proof
  assume "\<forall>k. i \<le> k \<and> k < n \<longrightarrow> \<not> P k"
  then show "search P i n = None"
    by (cases "search P i n") (auto simp: search_Some_iff)
qed (auto dest: search_NoneD)

lemma search_cong:
  assumes "\<And>k. i \<le> k \<Longrightarrow> k < n \<Longrightarrow> P k = Q k"
  shows "search P i n = search Q i n"
proof (cases "search Q i n")
  case None
  then have "search P i n = None" using assms by (auto simp: search_None_iff)
  with None show ?thesis by simp
next
  case (Some j)
  then have "search P i n = Some j" using assms by (auto simp: search_Some_iff)
  with Some show ?thesis by simp
qed

section \<open>Counting table entries\<close>

definition count_upto :: "(nat \<Rightarrow> bool) \<Rightarrow> nat \<Rightarrow> nat" where
  "count_upto P n = card {i. i < n \<and> P i}"

lemma count_upto_le: "count_upto P n \<le> n"
proof -
  have "card {i. i < n \<and> P i} \<le> card {i. i < n}" by (rule card_mono) auto
  then show ?thesis by (simp add: count_upto_def)
qed

lemma count_upto_cong: "(\<And>i. i < n \<Longrightarrow> P i = Q i) \<Longrightarrow> count_upto P n = count_upto Q n"
  unfolding count_upto_def by (rule arg_cong [where f = card]) auto

lemma count_upto_set:
  assumes "i < n" "\<not> P i"
  shows "count_upto (P(i := True)) n = Suc (count_upto P n)"
proof -
  have "{j. j < n \<and> (P(i := True)) j} = insert i {j. j < n \<and> P j}" using assms by auto
  then show ?thesis using assms by (simp add: count_upto_def)
qed

lemma count_upto_clear:
  assumes "i < n" "P i"
  shows "Suc (count_upto (P(i := False)) n) = count_upto P n"
proof -
  have "{j. j < n \<and> P j} = insert i {j. j < n \<and> (P(i := False)) j}" using assms by auto
  then show ?thesis using assms by (simp add: count_upto_def)
qed

lemma count_upto_full: "count_upto P n = n \<longleftrightarrow> (\<forall>i < n. P i)"
proof
  assume "count_upto P n = n"
  then have "card {i. i < n \<and> P i} = card {i. i < n}" by (simp add: count_upto_def)
  moreover have "{i. i < n \<and> P i} \<subseteq> {i. i < n}" by auto
  ultimately have "{i. i < n \<and> P i} = {i. i < n}" by (metis card_subset_eq finite_Collect_less_nat)
  then show "\<forall>i < n. P i" by auto
next
  assume "\<forall>i < n. P i"
  then have "{i. i < n \<and> P i} = {i. i < n}" by auto
  then show "count_upto P n = n" by (simp add: count_upto_def)
qed

lemma count_upto_not_full: "count_upto P n < n \<Longrightarrow> \<exists>i < n. \<not> P i"
  using count_upto_full [of P n] by auto

lemma count_upto_upd:
  assumes "i < n"
  shows "int (count_upto (\<lambda>j. Q ((F(i := f)) j)) n) =
    int (count_upto (\<lambda>j. Q (F j)) n) - of_bool (Q (F i)) + of_bool (Q f)"
proof -
  let ?P = "\<lambda>j. Q (F j)"
  have eq: "(\<lambda>j. Q ((F(i := f)) j)) = ?P(i := Q f)" by auto
  consider "Q f = Q (F i)" | "Q f" "\<not> Q (F i)" | "\<not> Q f" "Q (F i)" by blast
  then show ?thesis
  proof cases
    case 1
    then show ?thesis unfolding eq by (simp add: fun_upd_idem)
  next
    case 2
    then show ?thesis unfolding eq using count_upto_set [OF assms, of ?P] by simp
  next
    case 3
    then show ?thesis unfolding eq using count_upto_clear [OF assms, of ?P] by simp
  qed
qed

section \<open>C integer division\<close>

text \<open>C's \<open>/\<close> and \<open>%\<close> truncate towards zero; on non-negative operands they are \<open>div\<close> and \<open>mod\<close>.\<close>

lemma c_div_nonneg [simp]: "0 \<le> a \<Longrightarrow> 0 < b \<Longrightarrow> (a :: int) sdiv b = a div b"
  by (auto simp: signed_divide_int_def sgn_if)

lemma c_mod_nonneg [simp]: "0 \<le> a \<Longrightarrow> 0 < b \<Longrightarrow> (a :: int) smod b = a mod b"
  by (cases "a = 0") (auto simp: signed_modulo_int_def signed_divide_int_def minus_div_mult_eq_mod)

section \<open>Byte-addressed memory\<close>

type_synonym bytemem = "uint64 \<Rightarrow> uint8"

definition ld64 :: "bytemem \<Rightarrow> uint64 \<Rightarrow> uint64" where
  "ld64 m a =
     ucast (m a) OR push_bit 8 (ucast (m (a + 1))) OR push_bit 16 (ucast (m (a + 2)))
     OR push_bit 24 (ucast (m (a + 3))) OR push_bit 32 (ucast (m (a + 4)))
     OR push_bit 40 (ucast (m (a + 5))) OR push_bit 48 (ucast (m (a + 6)))
     OR push_bit 56 (ucast (m (a + 7)))"

definition st64 :: "bytemem \<Rightarrow> uint64 \<Rightarrow> uint64 \<Rightarrow> bytemem" where
  "st64 m a v = (\<lambda>x. if x - a < 8 then ucast (drop_bit (8 * unat (x - a)) v) else m x)"

definition ld_bytes :: "bytemem \<Rightarrow> uint64 \<Rightarrow> nat \<Rightarrow> uint8 list" where
  "ld_bytes m a n = map (\<lambda>i. m (a + of_nat i)) [0..<n]"

definition st_bytes :: "bytemem \<Rightarrow> uint64 \<Rightarrow> uint8 list \<Rightarrow> bytemem" where
  "st_bytes m a bs = (\<lambda>x. if unat (x - a) < length bs then bs ! unat (x - a) else m x)"

lemma ld64_st64_same [simp]: "ld64 (st64 m a v) a = v"
proof (rule bit_eqI)
  fix n assume "possible_bit TYPE(64 word) n"
  then have n: "n < 64" by simp
  consider "n < 8" | "8 \<le> n \<and> n < 16" | "16 \<le> n \<and> n < 24" | "24 \<le> n \<and> n < 32"
    | "32 \<le> n \<and> n < 40" | "40 \<le> n \<and> n < 48" | "48 \<le> n \<and> n < 56" | "56 \<le> n \<and> n < 64"
    using n by linarith
  then show "bit (ld64 (st64 m a v) a) n = bit v n"
    by cases (auto simp add: ld64_def st64_def bit_simps)
qed

lemma aligned_diff_ge: 
  fixes a x :: uint64
  assumes "unat a mod 8 = 0" "unat x mod 8 = 0" "a \<noteq> x" "unat k < 8"
  shows "8 \<le> unat ((x + k) - a)"
proof -
  define d where "d = x - a"
  have "unat x = (unat d + unat a) mod 2 ^ 64"
    using unat_word_ariths(1) [of d a] by (simp add: d_def)
  then have "unat x mod 8 = (unat d + unat a) mod 8"
    by (simp add: mod_mod_cancel)
  then have m: "unat d mod 8 = 0"
    using assms(1,2) by (metis add.right_neutral mod_add_right_eq)
  have "d \<noteq> 0" using assms(3) by (simp add: d_def)
  then have p: "unat d \<noteq> 0" by (simp add: unat_eq_0)
  with m have "8 \<le> unat d" by (meson dvd_imp_le mod_eq_0_iff_dvd neq0_conv)
  have "unat d < 2 ^ 64" using unsigned_less [of d, where ?'a=nat] by simp
  moreover obtain q where q: "unat d = 8 * q" using m by auto
  ultimately have "q < 2 ^ 61" by simp
  then have "unat d \<le> 2 ^ 64 - 8" using q by simp
  with assms(4) have "unat d + unat k < 2 ^ 64" by simp
  then have "unat (d + k) = unat d + unat k" by (subst unat_add_lem [THEN iffD1]) simp_all
  moreover have e: "(x + k) - a = d + k" by (simp add: d_def)
  ultimately show ?thesis unfolding e using \<open>8 \<le> unat d\<close> by simp
qed

lemma ld64_st64_other:
  assumes "unat a mod 8 = 0" "unat x mod 8 = 0" "a \<noteq> x"
  shows "ld64 (st64 m a v) x = ld64 m x"
proof -
  have "\<not> (x + k) - a < 8" if "unat k < 8" for k
    using aligned_diff_ge [OF assms that] by (simp add: word_less_nat_alt)
  from this [of 0] this [of 1] this [of 2] this [of 3] this [of 4] this [of 5] this [of 6] this [of 7]
  show ?thesis by (simp add: ld64_def st64_def)
qed

lemma length_ld_bytes [simp]: "length (ld_bytes m a n) = n"
  by (simp add: ld_bytes_def)

lemma nth_ld_bytes [simp]: "i < n \<Longrightarrow> ld_bytes m a n ! i = m (a + of_nat i)"
  by (simp add: ld_bytes_def)

lemma ld_bytes_st_bytes_same:
  assumes "length bs < 2 ^ 64"
  shows "ld_bytes (st_bytes m a bs) a (length bs) = bs"
proof (rule nth_equalityI)
  fix i assume "i < length (ld_bytes (st_bytes m a bs) a (length bs))"
  then have i: "i < length bs" by simp
  with assms have "unat (of_nat i :: uint64) = i" by (simp add: unat_of_nat)
  with i show "ld_bytes (st_bytes m a bs) a (length bs) ! i = bs ! i"
    by (simp add: st_bytes_def)
qed simp

lemma st_bytes_outside: "length bs \<le> unat (x - a) \<Longrightarrow> st_bytes m a bs x = m x"
  by (simp add: st_bytes_def)

lemma ld_bytes_cong: "(\<And>i. i < n \<Longrightarrow> m (a + of_nat i) = m' (a + of_nat i)) \<Longrightarrow> ld_bytes m a n = ld_bytes m' a n"
  by (simp add: ld_bytes_def)

end
