(* ===== verification/Riscv_Layout.thy ===== *)
theory Riscv_Layout
  imports Xv6_Prelude
begin

text \<open>
  The constants and address macros of kernel/riscv.h, kernel/memlayout.h and kernel/param.h that
  the memory subsystem is written in, and their arithmetic: rounding to pages, the encoding of a
  physical address and of a swap slot in a page-table entry, and the split of a virtual address
  into the three indices of an Sv39 walk.
\<close>

unbundle bit_operations_syntax

section \<open>kernel/param.h and kernel/memlayout.h\<close>

abbreviation (input) NPROC :: nat where "NPROC \<equiv> 64"

abbreviation (input) NCPU :: nat where "NCPU \<equiv> 8"

abbreviation (input) NOFILE :: nat where "NOFILE \<equiv> 16"

abbreviation (input) PGSIZE :: uint64 where "PGSIZE \<equiv> 4096"

abbreviation (input) KERNBASE :: uint64 where "KERNBASE \<equiv> 0x80000000"

abbreviation (input) PHYSTOP :: uint64 where "PHYSTOP \<equiv> 0x88000000"

abbreviation (input) MAXVA :: uint64 where "MAXVA \<equiv> 0x4000000000"

abbreviation (input) TRAMPOLINE :: uint64 where "TRAMPOLINE \<equiv> 0x3FFFFFF000"

abbreviation (input) TRAPFRAME :: uint64 where "TRAPFRAME \<equiv> 0x3FFFFFE000"

abbreviation (input) MAX_FRAMES :: nat where "MAX_FRAMES \<equiv> 64"

abbreviation (input) MAX_SWAP :: nat where "MAX_SWAP \<equiv> 16384"

definition KSTACK :: "nat \<Rightarrow> uint64" where
  "KSTACK p = TRAMPOLINE - (of_nat p + 1) * 2 * PGSIZE"

section \<open>kernel/riscv.h\<close>

definition PGROUNDUP :: "uint64 \<Rightarrow> uint64" where
  "PGROUNDUP sz = (sz + PGSIZE - 1) AND NOT (PGSIZE - 1)"

definition PGROUNDDOWN :: "uint64 \<Rightarrow> uint64" where
  "PGROUNDDOWN a = a AND NOT (PGSIZE - 1)"

abbreviation (input) PTE_V :: uint64 where "PTE_V \<equiv> 1"

abbreviation (input) PTE_R :: uint64 where "PTE_R \<equiv> 2"

abbreviation (input) PTE_W :: uint64 where "PTE_W \<equiv> 4"

abbreviation (input) PTE_X :: uint64 where "PTE_X \<equiv> 8"

abbreviation (input) PTE_U :: uint64 where "PTE_U \<equiv> 16"

abbreviation (input) PTE_A :: uint64 where "PTE_A \<equiv> 64"

abbreviation (input) PTE_S :: uint64 where "PTE_S \<equiv> 256"

definition PA2PTE :: "uint64 \<Rightarrow> uint64" where
  "PA2PTE pa = push_bit 10 (drop_bit 12 pa)"

definition PTE2PA :: "uint64 \<Rightarrow> uint64" where
  "PTE2PA pte = push_bit 12 (drop_bit 10 pte)"

definition PTE_FLAGS :: "uint64 \<Rightarrow> uint64" where
  "PTE_FLAGS pte = pte AND 0x3FF"

definition PX :: "nat \<Rightarrow> uint64 \<Rightarrow> uint64" where
  "PX level va = drop_bit (12 + 9 * level) va AND 0x1FF"

section \<open>Rounding to pages\<close>

lemma mask_4095: "(4095 :: uint64) = mask 12"
  by (simp add: mask_eq_exp_minus_1)

lemma mask_1023: "(1023 :: uint64) = mask 10"
  by (simp add: mask_eq_exp_minus_1)

lemma mask_511: "(511 :: uint64) = mask 9"
  by (simp add: mask_eq_exp_minus_1)

lemma PGROUNDDOWN_eq: "PGROUNDDOWN a = push_bit 12 (drop_bit 12 a)"
  by (rule bit_eqI) (auto simp: PGROUNDDOWN_def mask_4095 bit_simps)

lemma PTE_FLAGS_eq: "PTE_FLAGS pte = take_bit 10 pte"
  by (simp add: PTE_FLAGS_def mask_1023 take_bit_eq_mask)

lemma PX_eq: "PX level va = take_bit 9 (drop_bit (12 + 9 * level) va)"
  by (simp add: PX_def mask_511 take_bit_eq_mask)

lemma unat_drop: "unat (drop_bit n (w :: uint64)) = unat w div 2 ^ n"
  by (subst unat_drop_bit_eq) (rule drop_bit_eq_div)

lemma unat_PGROUNDDOWN: "unat (PGROUNDDOWN a) = 4096 * (unat a div 4096)"
proof -
  have "4096 * (unat a div 4096) \<le> unat a" by simp
  also have "\<dots> < 2 ^ 64" using unsigned_less [of a, where ?'a = nat] by simp
  finally have "4096 * (unat a div 4096) < 2 ^ 64" .
  moreover have "unat (PGROUNDDOWN a) = take_bit 64 (push_bit 12 (unat a div 2 ^ 12))"
    by (simp only: PGROUNDDOWN_eq unsigned_push_bit_eq unat_drop) simp
  ultimately show ?thesis by (simp add: take_bit_eq_mod push_bit_eq_mult mult.commute)
qed

definition page_aligned :: "uint64 \<Rightarrow> bool" where
  "page_aligned a \<longleftrightarrow> unat a mod 4096 = 0"

lemma page_aligned_iff_take_bit: "page_aligned a \<longleftrightarrow> take_bit 12 a = 0"
proof -
  have "unat (take_bit 12 a) = unat a mod 2 ^ 12"
    by (subst unsigned_take_bit_eq) (rule take_bit_eq_mod)
  then show ?thesis by (auto simp: page_aligned_def word_unat_eq_iff)
qed

lemma page_aligned_PGROUNDDOWN [simp]: "page_aligned (PGROUNDDOWN a)"
  by (simp add: page_aligned_def unat_PGROUNDDOWN)

lemma PGROUNDDOWN_aligned [simp]: "page_aligned a \<Longrightarrow> PGROUNDDOWN a = a"
  by (simp add: word_unat_eq_iff unat_PGROUNDDOWN page_aligned_def)
     (metis add.right_neutral mult_div_mod_eq)

lemma PGROUNDDOWN_le: "PGROUNDDOWN a \<le> a"
  by (simp add: word_le_nat_alt unat_PGROUNDDOWN)

lemma PGROUNDDOWN_offset: "unat (a - PGROUNDDOWN a) = unat a mod 4096"
  by (simp add: unat_sub [OF PGROUNDDOWN_le] unat_PGROUNDDOWN minus_mult_div_eq_mod)

text \<open>\<open>PGROUNDUP\<close> is the next multiple of the page size, unless the sum wraps around.\<close>

lemma unat_PGROUNDUP:
  assumes "unat sz + 4095 < 2 ^ 64"
  shows "unat (PGROUNDUP sz) = 4096 * ((unat sz + 4095) div 4096)"
proof -
  have "PGROUNDUP sz = PGROUNDDOWN (sz + 4095)"
    by (simp add: PGROUNDUP_def PGROUNDDOWN_def algebra_simps)
  moreover have "unat (sz + 4095) = unat sz + 4095"
    using assms by (subst unat_add_lem [THEN iffD1]) simp_all
  ultimately show ?thesis by (simp add: unat_PGROUNDDOWN)
qed

lemma page_aligned_PGROUNDUP [simp]: "page_aligned (PGROUNDUP sz)"
proof -
  have "PGROUNDUP sz = PGROUNDDOWN (sz + 4095)"
    by (simp add: PGROUNDUP_def PGROUNDDOWN_def algebra_simps)
  then show ?thesis by simp
qed

section \<open>Page-table entries\<close>

text \<open>A mapped page: the entry gives back the page's address and its permission bits.\<close>

lemma PTE2PA_PA2PTE:
  assumes "page_aligned pa" "f = take_bit 10 f"
  shows "PTE2PA (PA2PTE pa OR f) = pa"
proof (rule bit_eqI)
  fix n assume "possible_bit TYPE(64 word) n"
  have "\<not> bit pa n" if "n < 12"
    using assms(1) that by (metis bit_take_bit_iff page_aligned_iff_take_bit bit_0_eq bot_apply bot_bool_def)
  moreover have "\<not> bit f k" if "10 \<le> k" for k
    using assms(2) that by (metis bit_take_bit_iff linorder_not_le)
  ultimately show "bit (PTE2PA (PA2PTE pa OR f)) n = bit pa n"
    by (cases "n < 12") (auto simp: PTE2PA_def PA2PTE_def bit_simps dest: bit_imp_le_length)
qed

lemma PTE_FLAGS_PA2PTE: "PTE_FLAGS (PA2PTE pa OR f) = take_bit 10 f"
  by (rule bit_eqI) (auto simp: PTE_FLAGS_eq PA2PTE_def bit_simps)

text \<open>A swapped-out page: \<open>swapout\<close> keeps the slot number where the address was.\<close>

lemma swap_pte_slot:
  assumes "f = take_bit 10 f" "i < 2 ^ 54"
  shows "drop_bit 10 (push_bit 10 i OR PTE_S OR (f AND NOT PTE_V)) = (i :: uint64)"
proof (rule bit_eqI)
  fix n assume "possible_bit TYPE(64 word) n"
  have "\<not> bit f k" if "10 \<le> k" for k
    using assms(1) that by (metis bit_take_bit_iff linorder_not_le)
  moreover have "\<not> bit i k" if "54 \<le> k" for k
    using assms(2) that by (metis less_mask_eq bit_take_bit_iff linorder_not_le take_bit_eq_mask)
  moreover have "(256 :: uint64) = push_bit 8 1" by simp
  ultimately show "bit (drop_bit 10 (push_bit 10 i OR PTE_S OR (f AND NOT PTE_V))) n = bit i n"
    by (cases "n < 54") (auto simp: bit_simps dest: bit_imp_le_length)
qed

section \<open>The indices of a walk\<close>

text \<open>Two page-aligned addresses below \<open>MAXVA\<close> with the same three indices are the same page.\<close>

lemma PX_bits: "bit (PX l va) n \<longleftrightarrow> n < 9 \<and> bit va (12 + 9 * l + n)"
  by (auto simp: PX_eq bit_simps)

lemma PX_inject:
  assumes "page_aligned va" "page_aligned vb" "va < MAXVA" "vb < MAXVA"
    and "PX 2 va = PX 2 vb" "PX 1 va = PX 1 vb" "PX 0 va = PX 0 vb"
  shows "va = vb"
proof (rule bit_eqI)
  fix n assume "possible_bit TYPE(64 word) n"
  have low: "\<not> bit v n" if "n < 12" "page_aligned v" for v
    using that by (metis bit_take_bit_iff page_aligned_iff_take_bit bit_0_eq bot_apply bot_bool_def)
  have high: "\<not> bit v n" if "38 \<le> n" "v < MAXVA" for v :: uint64
  proof -
    have "v < 2 ^ 38" using that(2) by simp
    then have "v = take_bit 38 v" by (metis less_mask_eq take_bit_eq_mask)
    then show ?thesis using that(1) by (metis bit_take_bit_iff linorder_not_le)
  qed
  have px: "bit va (12 + 9 * l + k) = bit vb (12 + 9 * l + k)" if "PX l va = PX l vb" "k < 9" for l k
    using that PX_bits by metis
  consider "n < 12" | "12 \<le> n" "n < 21" | "21 \<le> n" "n < 30" | "30 \<le> n" "n < 38" | "38 \<le> n"
    by linarith
  then show "bit va n = bit vb n"
  proof cases
    case 2 then show ?thesis using px [OF assms(7), of "n - 12"] by simp
  next
    case 3 then show ?thesis using px [OF assms(6), of "n - 21"] by simp
  next
    case 4 then show ?thesis using px [OF assms(5), of "n - 30"] by simp
  qed (use low high assms in auto)
qed

end
