(* ===== verification/Asm.thy ===== *)
theory Asm
  imports Riscv_Layout
begin

text \<open>The assembly code of the kernel: the trampoline (\<open>kernel/trampoline.S\<close>), the context switch (\<open>kernel/swtch.S\<close>), the trap vector of
  supervisor mode (\<open>kernel/kernelvec.S\<close>) and the entry point (\<open>kernel/entry.S\<close>).

  Each is a list of instructions, in the order of the source, for a machine with the integer registers, the control
  registers the code uses and physical memory. Loads and stores go through the address translation \<open>tr\<close>, a function
  of \<open>satp\<close>, which is a parameter; it takes effect at once, so \<open>sfence.vma\<close> has no effect of its own. The address that a
  linked jump leaves in \<open>ra\<close> is a parameter of the instruction.

  All these sequences save registers to words of an area of memory or load them from there. The lemmas on \<open>stores\<close> and
  \<open>loads\<close> treat such sequences in general.\<close>

section \<open>Model\<close>

datatype reg = RA | SP | GP | TP | T0 | T1 | T2 | T3 | T4 | T5 | T6 | A0 | A1 | A2 | A3 | A4 | A5 | A6 | A7
  | S0 | S1 | S2 | S3 | S4 | S5 | S6 | S7 | S8 | S9 | S10 | S11

datatype csr = Sscratch | Satp | Sepc | Mhartid

record machine =
  gpr :: "reg \<Rightarrow> uint64"
  csrs :: "csr \<Rightarrow> uint64"
  pcr :: uint64
  pmem :: bytemem

datatype instr =
    Sd reg nat reg
  | Ld reg nat reg
  | Li reg uint64
  | Addi reg reg uint64
  | Add reg reg reg
  | Mul reg reg reg
  | Csrw csr reg
  | Csrr reg csr
  | Sfence
  | Jalr reg uint64
  | Call uint64 uint64
  | Ret
  | Sret

definition set_reg :: "reg \<Rightarrow> uint64 \<Rightarrow> machine \<Rightarrow> machine" where
  "set_reg r v m = m\<lparr>gpr := (gpr m)(r := v)\<rparr>"

fun exec1 :: "(uint64 \<Rightarrow> uint64 \<Rightarrow> uint64) \<Rightarrow> instr \<Rightarrow> machine \<Rightarrow> machine" where
  "exec1 tr (Sd r k b) m = m\<lparr>pmem := st64 (pmem m) (tr (csrs m Satp) (gpr m b + of_nat k)) (gpr m r)\<rparr>"
| "exec1 tr (Ld r k b) m = set_reg r (ld64 (pmem m) (tr (csrs m Satp) (gpr m b + of_nat k))) m"
| "exec1 tr (Li r v) m = set_reg r v m"
| "exec1 tr (Addi r a v) m = set_reg r (gpr m a + v) m"
| "exec1 tr (Add r a b) m = set_reg r (gpr m a + gpr m b) m"
| "exec1 tr (Mul r a b) m = set_reg r (gpr m a * gpr m b) m"
| "exec1 tr (Csrw c r) m = m\<lparr>csrs := (csrs m)(c := gpr m r)\<rparr>"
| "exec1 tr (Csrr r c) m = set_reg r (csrs m c) m"
| "exec1 tr Sfence m = m"
| "exec1 tr (Jalr r link) m = (set_reg RA link m)\<lparr>pcr := gpr m r\<rparr>"
| "exec1 tr (Call f link) m = (set_reg RA link m)\<lparr>pcr := f\<rparr>"
| "exec1 tr Ret m = m\<lparr>pcr := gpr m RA\<rparr>"
| "exec1 tr Sret m = m\<lparr>pcr := csrs m Sepc\<rparr>"

definition exec :: "(uint64 \<Rightarrow> uint64 \<Rightarrow> uint64) \<Rightarrow> instr list \<Rightarrow> machine \<Rightarrow> machine" where
  "exec tr is m = fold (exec1 tr) is m"

text \<open>\<open>userret\<close> follows \<open>uservec\<close>: its address is what the jump to \<open>usertrap\<close> leaves in \<open>ra\<close>.\<close>

definition uservec :: "uint64 \<Rightarrow> instr list" where
  "uservec userret_va =
    [Csrw Sscratch A0, Li A0 TRAPFRAME,
     Sd RA 40 A0, Sd SP 48 A0, Sd GP 56 A0, Sd TP 64 A0, Sd T0 72 A0, Sd T1 80 A0, Sd T2 88 A0, Sd S0 96 A0, Sd S1 104 A0,
     Sd A1 120 A0, Sd A2 128 A0, Sd A3 136 A0, Sd A4 144 A0, Sd A5 152 A0, Sd A6 160 A0, Sd A7 168 A0,
     Sd S2 176 A0, Sd S3 184 A0, Sd S4 192 A0, Sd S5 200 A0, Sd S6 208 A0, Sd S7 216 A0, Sd S8 224 A0, Sd S9 232 A0, Sd S10 240 A0,
     Sd S11 248 A0, Sd T3 256 A0, Sd T4 264 A0, Sd T5 272 A0, Sd T6 280 A0,
     Csrr T0 Sscratch, Sd T0 112 A0,
     Ld SP 8 A0, Ld TP 32 A0, Ld T0 16 A0, Ld T1 0 A0,
     Sfence, Csrw Satp T1, Sfence,
     Jalr T0 userret_va]"

definition userret :: "instr list" where
  "userret =
    [Sfence, Csrw Satp A0, Sfence, Li A0 TRAPFRAME,
     Ld RA 40 A0, Ld SP 48 A0, Ld GP 56 A0, Ld TP 64 A0, Ld T0 72 A0, Ld T1 80 A0, Ld T2 88 A0, Ld S0 96 A0, Ld S1 104 A0,
     Ld A1 120 A0, Ld A2 128 A0, Ld A3 136 A0, Ld A4 144 A0, Ld A5 152 A0, Ld A6 160 A0, Ld A7 168 A0,
     Ld S2 176 A0, Ld S3 184 A0, Ld S4 192 A0, Ld S5 200 A0, Ld S6 208 A0, Ld S7 216 A0, Ld S8 224 A0, Ld S9 232 A0, Ld S10 240 A0,
     Ld S11 248 A0, Ld T3 256 A0, Ld T4 264 A0, Ld T5 272 A0, Ld T6 280 A0,
     Ld A0 112 A0, Sret]"

definition swtch :: "instr list" where
  "swtch =
    [Sd RA 0 A0, Sd SP 8 A0, Sd S0 16 A0, Sd S1 24 A0, Sd S2 32 A0, Sd S3 40 A0, Sd S4 48 A0, Sd S5 56 A0, Sd S6 64 A0, Sd S7 72 A0,
     Sd S8 80 A0, Sd S9 88 A0, Sd S10 96 A0, Sd S11 104 A0,
     Ld RA 0 A1, Ld SP 8 A1, Ld S0 16 A1, Ld S1 24 A1, Ld S2 32 A1, Ld S3 40 A1, Ld S4 48 A1, Ld S5 56 A1, Ld S6 64 A1, Ld S7 72 A1,
     Ld S8 80 A1, Ld S9 88 A1, Ld S10 96 A1, Ld S11 104 A1,
     Ret]"

text \<open>\<open>kernelvec\<close> up to the call of \<open>kerneltrap\<close>, and from its return on.\<close>

definition kernelvec_save :: "uint64 \<Rightarrow> uint64 \<Rightarrow> instr list" where
  "kernelvec_save kerneltrap_va back =
    [Addi SP SP (- 256),
     Sd RA 0 SP, Sd GP 16 SP, Sd TP 24 SP, Sd T0 32 SP, Sd T1 40 SP, Sd T2 48 SP, Sd A0 72 SP, Sd A1 80 SP, Sd A2 88 SP, Sd A3 96 SP,
     Sd A4 104 SP, Sd A5 112 SP, Sd A6 120 SP, Sd A7 128 SP, Sd T3 216 SP, Sd T4 224 SP, Sd T5 232 SP, Sd T6 240 SP,
     Call kerneltrap_va back]"

definition kernelvec_restore :: "instr list" where
  "kernelvec_restore =
    [Ld RA 0 SP, Ld GP 16 SP, Ld T0 32 SP, Ld T1 40 SP, Ld T2 48 SP, Ld A0 72 SP, Ld A1 80 SP, Ld A2 88 SP, Ld A3 96 SP,
     Ld A4 104 SP, Ld A5 112 SP, Ld A6 120 SP, Ld A7 128 SP, Ld T3 216 SP, Ld T4 224 SP, Ld T5 232 SP, Ld T6 240 SP,
     Addi SP SP 256, Sret]"

text \<open>The entry point, up to the jump to \<open>start\<close>.\<close>

definition entry_code :: "uint64 \<Rightarrow> uint64 \<Rightarrow> uint64 \<Rightarrow> instr list" where
  "entry_code stack0 start_va spin =
    [Li SP stack0, Li A0 (1024 * 4), Csrr A1 Mhartid, Addi A1 A1 1, Mul A0 A0 A1, Add SP SP A0, Call start_va spin]"

text \<open>\<open>struct trapframe\<close> and \<open>struct context\<close>: the offset of the field of a register.\<close>

fun tf_reg :: "reg \<Rightarrow> nat" where
  "tf_reg RA = 40" | "tf_reg SP = 48" | "tf_reg GP = 56" | "tf_reg TP = 64" | "tf_reg T0 = 72" | "tf_reg T1 = 80" | "tf_reg T2 = 88"
| "tf_reg S0 = 96" | "tf_reg S1 = 104" | "tf_reg A0 = 112" | "tf_reg A1 = 120" | "tf_reg A2 = 128" | "tf_reg A3 = 136" | "tf_reg A4 = 144"
| "tf_reg A5 = 152" | "tf_reg A6 = 160" | "tf_reg A7 = 168" | "tf_reg S2 = 176" | "tf_reg S3 = 184" | "tf_reg S4 = 192" | "tf_reg S5 = 200"
| "tf_reg S6 = 208" | "tf_reg S7 = 216" | "tf_reg S8 = 224" | "tf_reg S9 = 232" | "tf_reg S10 = 240" | "tf_reg S11 = 248" | "tf_reg T3 = 256"
| "tf_reg T4 = 264" | "tf_reg T5 = 272" | "tf_reg T6 = 280"

fun ctx_reg :: "reg \<Rightarrow> nat option" where
  "ctx_reg RA = Some 0" | "ctx_reg SP = Some 8" | "ctx_reg S0 = Some 16" | "ctx_reg S1 = Some 24" | "ctx_reg S2 = Some 32"
| "ctx_reg S3 = Some 40" | "ctx_reg S4 = Some 48" | "ctx_reg S5 = Some 56" | "ctx_reg S6 = Some 64" | "ctx_reg S7 = Some 72"
| "ctx_reg S8 = Some 80" | "ctx_reg S9 = Some 88" | "ctx_reg S10 = Some 96" | "ctx_reg S11 = Some 104" | "ctx_reg _ = None"

section \<open>Saving and loading registers\<close>

lemma exec_simps [simp]: "exec tr [] m = m" "exec tr (i # is) m = exec tr is (exec1 tr i m)"
  by (simp_all add: exec_def)

lemma exec_append: "exec tr (is @ js) m = exec tr js (exec tr is m)"
  by (simp add: exec_def)

definition stores :: "(reg \<times> nat) list \<Rightarrow> reg \<Rightarrow> instr list" where
  "stores ps b = map (\<lambda>(r, k). Sd r k b) ps"

definition loads :: "(reg \<times> nat) list \<Rightarrow> reg \<Rightarrow> instr list" where
  "loads ps b = map (\<lambda>(r, k). Ld r k b) ps"

text \<open>The area at virtual address \<open>v\<close> is the words at the physical address \<open>p\<close>.\<close>

definition area :: "(uint64 \<Rightarrow> uint64 \<Rightarrow> uint64) \<Rightarrow> uint64 \<Rightarrow> uint64 \<Rightarrow> uint64 \<Rightarrow> nat \<Rightarrow> bool" where
  "area tr pt v p n \<longleftrightarrow> unat p mod 8 = 0 \<and> n < 2 ^ 32 \<and> (\<forall>k < n. k mod 8 = 0 \<longrightarrow> tr pt (v + of_nat k) = p + of_nat k)"

definition words :: "(reg \<times> nat) list \<Rightarrow> nat \<Rightarrow> bool" where
  "words ps n \<longleftrightarrow> (\<forall>(r, k) \<in> set ps. k mod 8 = 0 \<and> k < n) \<and> distinct (map snd ps) \<and> distinct (map fst ps)"

lemma areaD: "area tr pt v p n \<Longrightarrow> k < n \<Longrightarrow> k mod 8 = 0 \<Longrightarrow> tr pt (v + of_nat k) = p + of_nat k"
  by (simp add: area_def)

lemma word_aligned:
  fixes p :: uint64
  assumes "unat p mod 8 = 0" "k mod 8 = 0"
  shows "unat (p + of_nat k) mod 8 = 0"
proof -
  have "unat (p + of_nat k) = (unat p + k) mod 2 ^ 64" by (simp add: unat_word_ariths unat_of_nat mod_simps)
  moreover have "(unat p + k) mod 2 ^ 64 mod 8 = (unat p + k) mod 8" by (simp add: mod_mod_cancel)
  moreover have "(unat p + k) mod 8 = 0" using assms by (metis add.right_neutral mod_add_right_eq)
  ultimately show ?thesis by simp
qed

lemma word_offset_inj:
  assumes "j < 2 ^ 32" "k < 2 ^ 32" "(p :: uint64) + of_nat j = p + of_nat k"
  shows "j = k"
proof -
  have "unat (of_nat j :: uint64) = unat (of_nat k :: uint64)" using assms(3) by simp
  then show ?thesis using assms(1,2) by (simp add: unat_of_nat)
qed

lemma stores_ok:
  assumes "area tr (csrs m Satp) (gpr m b) p n" "words ps n"
  shows "gpr (exec tr (stores ps b) m) = gpr m \<and> csrs (exec tr (stores ps b) m) = csrs m \<and> pcr (exec tr (stores ps b) m) = pcr m \<and>
    (\<forall>r k. (r, k) \<in> set ps \<longrightarrow> ld64 (pmem (exec tr (stores ps b) m)) (p + of_nat k) = gpr m r) \<and>
    (\<forall>x. unat x mod 8 = 0 \<longrightarrow> (\<forall>r k. (r, k) \<in> set ps \<longrightarrow> x \<noteq> p + of_nat k) \<longrightarrow> ld64 (pmem (exec tr (stores ps b) m)) x = ld64 (pmem m) x)"
  using assms
proof (induction ps arbitrary: m)
  case Nil
  then show ?case by (simp add: stores_def)
next
  case (Cons q ps)
  obtain r k where q: "q = (r, k)" by force
  have k: "k mod 8 = 0" "k < n" "words ps n" "k \<notin> snd ` set ps" using Cons.prems(2) by (auto simp: words_def q)
  define m1 where "m1 = exec1 tr (Sd r k b) m"
  have m1: "gpr m1 = gpr m" "csrs m1 = csrs m" "pcr m1 = pcr m" "pmem m1 = st64 (pmem m) (p + of_nat k) (gpr m r)"
    using Cons.prems(1) k(1,2) by (simp_all add: m1_def area_def)
  have e: "exec tr (stores (q # ps) b) m = exec tr (stores ps b) m1" by (simp add: stores_def q m1_def)
  have al: "unat (p + of_nat k) mod 8 = 0" using Cons.prems(1) k(1) word_aligned by (simp add: area_def)
  note IH = Cons.IH [of m1, unfolded m1(1-3), OF Cons.prems(1) k(3)]
  have new: "p + of_nat k \<noteq> p + of_nat j" if "(r', j) \<in> set ps" for r' j
  proof
    assume "p + of_nat k = p + of_nat j"
    moreover have "j < n" "n < 2 ^ 32" using that k(3) Cons.prems(1) by (auto simp: words_def area_def)
    ultimately have "k = j" using k(2) word_offset_inj [of k j p] by simp
    then show False using that k(4) by force
  qed
  have rest: "ld64 (pmem (exec tr (stores ps b) m1)) x = ld64 (pmem m1) x" if "unat x mod 8 = 0" "\<And>r k. (r, k) \<in> set ps \<Longrightarrow> x \<noteq> p + of_nat k" for x
    using IH that by simp
  have "ld64 (pmem (exec tr (stores ps b) m1)) (p + of_nat k) = ld64 (pmem m1) (p + of_nat k)" by (rule rest [OF al new])
  then have "ld64 (pmem (exec tr (stores ps b) m1)) (p + of_nat k) = gpr m r" by (simp add: m1(4))
  moreover have "ld64 (pmem (exec tr (stores ps b) m1)) x = ld64 (pmem m) x"
    if "unat x mod 8 = 0" "\<forall>r k. (r, k) \<in> set (q # ps) \<longrightarrow> x \<noteq> p + of_nat k" for x
    using rest [OF that(1)] that(2) ld64_st64_other [OF al that(1), of "pmem m" "gpr m r"] by (auto simp: m1(4) q)
  ultimately show ?case unfolding e using IH by (simp add: q)
qed

lemma stores_word: "area tr (csrs m Satp) (gpr m b) p n \<Longrightarrow> words ps n \<Longrightarrow> (r, k) \<in> set ps \<Longrightarrow>
    ld64 (pmem (exec tr (stores ps b) m)) (p + of_nat k) = gpr m r"
  using stores_ok by simp

lemma stores_other: "area tr (csrs m Satp) (gpr m b) p n \<Longrightarrow> words ps n \<Longrightarrow> unat x mod 8 = 0 \<Longrightarrow>
    (\<And>r k. (r, k) \<in> set ps \<Longrightarrow> x \<noteq> p + of_nat k) \<Longrightarrow> ld64 (pmem (exec tr (stores ps b) m)) x = ld64 (pmem m) x"
  using stores_ok by simp

lemma loads_ok:
  assumes "area tr (csrs m Satp) (gpr m b) p n" "words ps n" "b \<notin> fst ` set ps"
  shows "pmem (exec tr (loads ps b) m) = pmem m \<and> csrs (exec tr (loads ps b) m) = csrs m \<and> pcr (exec tr (loads ps b) m) = pcr m \<and>
    (\<forall>r k. (r, k) \<in> set ps \<longrightarrow> gpr (exec tr (loads ps b) m) r = ld64 (pmem m) (p + of_nat k)) \<and>
    (\<forall>r. r \<notin> fst ` set ps \<longrightarrow> gpr (exec tr (loads ps b) m) r = gpr m r)"
  using assms
proof (induction ps arbitrary: m)
  case Nil
  then show ?case by (simp add: loads_def)
next
  case (Cons q ps)
  obtain r k where q: "q = (r, k)" by force
  have k: "k mod 8 = 0" "k < n" "words ps n" "r \<notin> fst ` set ps" "b \<noteq> r" "b \<notin> fst ` set ps" using Cons.prems(2,3) by (auto simp: words_def q)
  define m1 where "m1 = exec1 tr (Ld r k b) m"
  have m1: "gpr m1 = (gpr m)(r := ld64 (pmem m) (p + of_nat k))" "csrs m1 = csrs m" "pcr m1 = pcr m" "pmem m1 = pmem m"
    using Cons.prems(1) k(1,2) by (simp_all add: m1_def area_def set_reg_def)
  have e: "exec tr (loads (q # ps) b) m = exec tr (loads ps b) m1" by (simp add: loads_def q m1_def)
  have "area tr (csrs m1 Satp) (gpr m1 b) p n" using Cons.prems(1) k(5) by (simp add: m1)
  note IH = Cons.IH [OF this k(3,6)]
  show ?case unfolding e using IH k(4) by (auto simp: m1 q)
qed

section \<open>Traps from user space\<close>

definition tf_table :: "(reg \<times> nat) list" where
  "tf_table = map (\<lambda>r. (r, tf_reg r)) [RA, SP, GP, TP, T0, T1, T2, S0, S1, A1, A2, A3, A4, A5, A6, A7, S2, S3, S4, S5, S6, S7, S8, S9, S10, S11, T3, T4, T5, T6]"

lemma tf_table_ok: "words tf_table 288"
  by (simp add: words_def tf_table_def)

lemma tf_table_all: "r \<noteq> A0 \<Longrightarrow> (r, tf_reg r) \<in> set tf_table" "A0 \<notin> fst ` set tf_table"
  by (cases r) (simp_all add: tf_table_def)

lemma tf_table_mem: "(r, k) \<in> set tf_table \<Longrightarrow> r \<noteq> A0 \<and> k = tf_reg r"
  by (auto simp: tf_table_def)

lemma uservec_split: "uservec v = [Csrw Sscratch A0, Li A0 TRAPFRAME] @ stores tf_table A0 @ [Csrr T0 Sscratch] @ stores [(T0, 112)] A0 @
    loads [(SP, 8), (TP, 32), (T0, 16), (T1, 0)] A0 @ [Sfence, Csrw Satp T1, Sfence, Jalr T0 v]"
  by (simp add: uservec_def stores_def loads_def tf_table_def)

lemma userret_split: "userret = [Sfence, Csrw Satp A0, Sfence, Li A0 TRAPFRAME] @ loads tf_table A0 @ [Ld A0 112 A0, Sret]"
  by (simp add: userret_def loads_def tf_table_def)

lemma tf_reg_facts: "tf_reg r mod 8 = 0" "40 \<le> tf_reg r" "tf_reg r < 288"
  by (cases r; simp)+

lemma tf_reg_inj: "tf_reg r = tf_reg q \<Longrightarrow> r = q"
  by (cases r; cases q; simp)

lemma uservec_saves:
  fixes v :: uint64
  assumes a: "area tr (csrs m Satp) TRAPFRAME p 288"
  defines "t \<equiv> exec tr (uservec v) m"
  shows "ld64 (pmem t) (p + of_nat (tf_reg r)) = gpr m r" "gpr t SP = ld64 (pmem m) (p + 8)" "gpr t TP = ld64 (pmem m) (p + 32)"
    "csrs t Satp = ld64 (pmem m) p" "pcr t = ld64 (pmem m) (p + 16)" "gpr t RA = v"
    "unat x mod 8 = 0 \<Longrightarrow> (\<And>r. x \<noteq> p + of_nat (tf_reg r)) \<Longrightarrow> ld64 (pmem t) x = ld64 (pmem m) x"
proof -
  define m1 where "m1 = exec tr [Csrw Sscratch A0, Li A0 TRAPFRAME] m"
  have m1: "gpr m1 = (gpr m)(A0 := TRAPFRAME)" "csrs m1 = (csrs m)(Sscratch := gpr m A0)" "pmem m1 = pmem m" by (simp_all add: m1_def set_reg_def)
  have a1: "area tr (csrs m1 Satp) (gpr m1 A0) p 288" using a by (simp add: m1)
  define m2 where "m2 = exec tr (stores tf_table A0) m1"
  note s2 = stores_ok [OF a1 tf_table_ok, folded m2_def]
  define m3 where "m3 = exec tr [Csrr T0 Sscratch] m2"
  have m3: "gpr m3 = (gpr m1)(T0 := gpr m A0)" "csrs m3 = csrs m1" "pmem m3 = pmem m2" using s2 by (simp_all add: m3_def set_reg_def m1)
  have a3: "area tr (csrs m3 Satp) (gpr m3 A0) p 288" using a by (simp add: m3 m1)
  define m4 where "m4 = exec tr (stores [(T0, 112)] A0) m3"
  have "words [(T0, 112)] 288" by (simp add: words_def)
  note s4 = stores_ok [OF a3 this, folded m4_def]
  have a4: "area tr (csrs m4 Satp) (gpr m4 A0) p 288" using a3 s4 by simp
  define m5 where "m5 = exec tr (loads [(SP, 8), (TP, 32), (T0, 16), (T1, 0)] A0) m4"
  have "words [(SP, 8), (TP, 32), (T0, 16), (T1, 0)] 288" by (simp add: words_def)
  note s5 = loads_ok [OF a4 this, folded m5_def]
  have t: "t = exec tr [Sfence, Csrw Satp T1, Sfence, Jalr T0 v] m5"
    unfolding t_def uservec_split exec_append m1_def m2_def m3_def m4_def m5_def ..
  have mem: "pmem t = pmem m4" using s5 by (simp add: t set_reg_def)
  have old: "ld64 (pmem m4) x = ld64 (pmem m) x" if "unat x mod 8 = 0" "\<And>r. x \<noteq> p + of_nat (tf_reg r)" for x
  proof -
    have "ld64 (pmem m4) x = ld64 (pmem m2) x" using s4 that(1) that(2) [of A0] by (simp add: m3)
    moreover have "ld64 (pmem m2) x = ld64 (pmem m1) x"
      unfolding m2_def by (rule stores_other [OF a1 tf_table_ok that(1)]) (use that(2) tf_table_mem in blast)
    ultimately show ?thesis by (simp add: m1)
  qed
  show "ld64 (pmem t) x = ld64 (pmem m) x" if "unat x mod 8 = 0" "\<And>r. x \<noteq> p + of_nat (tf_reg r)" using old [OF that] by (simp add: mem)
  have p8: "unat p mod 8 = 0" using a by (simp add: area_def)
  have ker: "ld64 (pmem m4) (p + of_nat k) = ld64 (pmem m) (p + of_nat k)" if "k < 40" "k mod 8 = 0" for k
  proof (rule old [OF word_aligned [OF p8 that(2)]])
    fix r show "p + of_nat k \<noteq> p + of_nat (tf_reg r)" using word_offset_inj [of k "tf_reg r" p] that(1) tf_reg_facts [of r] by auto
  qed
  show "gpr t SP = ld64 (pmem m) (p + 8)" "gpr t TP = ld64 (pmem m) (p + 32)" "csrs t Satp = ld64 (pmem m) p" "pcr t = ld64 (pmem m) (p + 16)" "gpr t RA = v"
    using s5 ker [of 8] ker [of 32] ker [of 0] ker [of 16] by (simp_all add: t set_reg_def)
  show "ld64 (pmem t) (p + of_nat (tf_reg r)) = gpr m r"
  proof (cases "r = A0")
    case True
    then show ?thesis using s4 by (simp add: mem m3)
  next
    case False
    have "p + of_nat (tf_reg r) \<noteq> p + 112" using word_offset_inj [of "tf_reg r" 112 p] tf_reg_inj [of r A0] tf_reg_facts(3) [of r] False by auto
    then have "ld64 (pmem m4) (p + of_nat (tf_reg r)) = ld64 (pmem m2) (p + of_nat (tf_reg r))"
      using s4 word_aligned [OF p8 tf_reg_facts(1)] by (simp add: m3)
    moreover have "ld64 (pmem m2) (p + of_nat (tf_reg r)) = gpr m1 r" unfolding m2_def by (rule stores_word [OF a1 tf_table_ok tf_table_all(1) [OF False]])
    ultimately show ?thesis using False by (simp add: mem m1)
  qed
qed

lemma userret_restores:
  assumes a: "area tr (gpr m A0) TRAPFRAME p 288"
  defines "t \<equiv> exec tr userret m"
  shows "gpr t r = ld64 (pmem m) (p + of_nat (tf_reg r))" "csrs t Satp = gpr m A0" "pcr t = csrs m Sepc" "pmem t = pmem m"
proof -
  define m1 where "m1 = exec tr [Sfence, Csrw Satp A0, Sfence, Li A0 TRAPFRAME] m"
  have m1: "gpr m1 = (gpr m)(A0 := TRAPFRAME)" "csrs m1 = (csrs m)(Satp := gpr m A0)" "pmem m1 = pmem m" by (simp_all add: m1_def set_reg_def)
  have a1: "area tr (csrs m1 Satp) (gpr m1 A0) p 288" using a by (simp add: m1)
  define m2 where "m2 = exec tr (loads tf_table A0) m1"
  note s2 = loads_ok [OF a1 tf_table_ok tf_table_all(2), folded m2_def]
  have t: "t = exec tr [Ld A0 112 A0, Sret] m2" unfolding t_def userret_split exec_append m1_def m2_def ..
  have "gpr m2 A0 = TRAPFRAME" using s2 tf_table_all(2) by (simp add: m1)
  moreover have "tr (gpr m A0) (TRAPFRAME + of_nat 112) = p + of_nat 112" by (rule areaD [OF a]) simp_all
  ultimately have a0: "gpr t = (gpr m2)(A0 := ld64 (pmem m) (p + 112))" using s2 by (simp add: t set_reg_def m1)
  show "gpr t r = ld64 (pmem m) (p + of_nat (tf_reg r))"
  proof (cases "r = A0")
    case False
    have "gpr m2 r = ld64 (pmem m1) (p + of_nat (tf_reg r))" using s2 tf_table_all(1) [OF False] by blast
    then show ?thesis using False by (simp add: a0 m1)
  qed (simp add: a0)
  show "csrs t Satp = gpr m A0" "pcr t = csrs m Sepc" "pmem t = pmem m" using s2 by (simp_all add: t set_reg_def m1)
qed

text \<open>C9: A trap is invisible to the registers of a process. When the trapframe page is mapped, \<open>uservec\<close> saves every register of the
  process in the field of the trapframe for it, changes no other word of memory, and enters the kernel at the trap
  handler, with the stack, the hart number and the page table that the kernel has left in the trapframe. From any later
  state in which these fields are as they were saved and \<open>a0\<close> holds the page table of the process, \<open>userret\<close> goes back to
  the address in \<open>sepc\<close> on this page table with the value of every register as it was at the trap.\<close>

theorem user_registers_roundtrip:
  assumes "area tr (csrs m Satp) TRAPFRAME p 288"
  shows "(\<forall>r. ld64 (pmem (exec tr (uservec v) m)) (p + of_nat (tf_reg r)) = gpr m r) \<and>
    (\<forall>x. unat x mod 8 = 0 \<longrightarrow> (\<forall>r. x \<noteq> p + of_nat (tf_reg r)) \<longrightarrow> ld64 (pmem (exec tr (uservec v) m)) x = ld64 (pmem m) x) \<and>
    pcr (exec tr (uservec v) m) = ld64 (pmem m) (p + 16) \<and> gpr (exec tr (uservec v) m) RA = v \<and>
    gpr (exec tr (uservec v) m) SP = ld64 (pmem m) (p + 8) \<and> gpr (exec tr (uservec v) m) TP = ld64 (pmem m) (p + 32) \<and>
    csrs (exec tr (uservec v) m) Satp = ld64 (pmem m) p \<and>
    (\<forall>m'. gpr m' A0 = csrs m Satp \<longrightarrow>
       (\<forall>r. ld64 (pmem m') (p + of_nat (tf_reg r)) = ld64 (pmem (exec tr (uservec v) m)) (p + of_nat (tf_reg r))) \<longrightarrow>
       gpr (exec tr userret m') = gpr m \<and> csrs (exec tr userret m') Satp = csrs m Satp \<and> pcr (exec tr userret m') = csrs m' Sepc)"
proof (intro conjI allI impI)
  note u = uservec_saves [OF assms, where v = v]
  fix m' :: machine assume m': "gpr m' A0 = csrs m Satp"
    "\<forall>r. ld64 (pmem m') (p + of_nat (tf_reg r)) = ld64 (pmem (exec tr (uservec v) m)) (p + of_nat (tf_reg r))"
  note r = userret_restores [OF assms [folded m'(1)]]
  show "gpr (exec tr userret m') = gpr m" by (intro ext) (simp add: r(1) m'(2) u(1))
  show "csrs (exec tr userret m') Satp = csrs m Satp" "pcr (exec tr userret m') = csrs m' Sepc" using r(2,3) m'(1) by simp_all
qed (use uservec_saves [OF assms, where v = v] in auto)

text \<open>A machine with the identity as its translation.\<close>

definition mach0 :: machine where
  "mach0 = \<lparr>gpr = (\<lambda>r. if r = A0 then 5 else 7), csrs = (\<lambda>_. 0), pcr = 0, pmem = (\<lambda>_. 0)\<rparr>"

lemma area_id: "unat p mod 8 = 0 \<Longrightarrow> n < 2 ^ 32 \<Longrightarrow> area (\<lambda>_ a. a) pt p p n"
  by (simp add: area_def)

theorem user_registers_roundtrip_witness:
  "ld64 (pmem (exec (\<lambda>_ a. a) (uservec 0) mach0)) (TRAPFRAME + 112) = 5 \<and>
    gpr (exec (\<lambda>_ a. a) userret (set_reg A0 0 (exec (\<lambda>_ a. a) (uservec 0) mach0))) A0 = 5"
proof -
  have "area (\<lambda>_ a. a) (csrs mach0 Satp) TRAPFRAME TRAPFRAME 288" by (rule area_id) simp_all
  from user_registers_roundtrip [OF this, of 0]
  have t: "\<forall>r. ld64 (pmem (exec (\<lambda>_ a. a) (uservec 0) mach0)) (TRAPFRAME + of_nat (tf_reg r)) = gpr mach0 r"
    "\<forall>m'. gpr m' A0 = csrs mach0 Satp \<longrightarrow>
       (\<forall>r. ld64 (pmem m') (TRAPFRAME + of_nat (tf_reg r)) = ld64 (pmem (exec (\<lambda>_ a. a) (uservec 0) mach0)) (TRAPFRAME + of_nat (tf_reg r))) \<longrightarrow>
       gpr (exec (\<lambda>_ a. a) userret m') = gpr mach0 \<and> csrs (exec (\<lambda>_ a. a) userret m') Satp = csrs mach0 Satp \<and>
       pcr (exec (\<lambda>_ a. a) userret m') = csrs m' Sepc" by blast+
  have "gpr (exec (\<lambda>_ a. a) userret (set_reg A0 0 (exec (\<lambda>_ a. a) (uservec 0) mach0))) = gpr mach0"
    by (rule t(2) [rule_format, THEN conjunct1]) (simp_all add: set_reg_def mach0_def del: of_nat_numeral)
  then show ?thesis using t(1) [rule_format, of A0] by (simp add: mach0_def)
qed

section \<open>The context switch\<close>

definition ctx_table :: "(reg \<times> nat) list" where
  "ctx_table = [(RA, 0), (SP, 8), (S0, 16), (S1, 24), (S2, 32), (S3, 40), (S4, 48), (S5, 56), (S6, 64), (S7, 72), (S8, 80), (S9, 88),
     (S10, 96), (S11, 104)]"

lemma ctx_table_ok: "words ctx_table 112" "A0 \<notin> fst ` set ctx_table" "A1 \<notin> fst ` set ctx_table" "(r, k) \<in> set ctx_table \<longleftrightarrow> ctx_reg r = Some k"
  "r \<in> fst ` set ctx_table \<longleftrightarrow> ctx_reg r \<noteq> None"
  by (simp_all add: words_def ctx_table_def) (cases r; auto)+

lemma swtch_split: "swtch = stores ctx_table A0 @ loads ctx_table A1 @ [Ret]"
  by (simp add: swtch_def stores_def loads_def ctx_table_def)

text \<open>Two contexts with no word in common.\<close>

definition apart :: "uint64 \<Rightarrow> uint64 \<Rightarrow> bool" where
  "apart p q \<longleftrightarrow> (\<forall>j < 112. \<forall>k < 112. p + of_nat j \<noteq> q + of_nat k)"

lemma swtch_ok:
  assumes old: "area tr (csrs m Satp) (gpr m A0) p 112" and new: "area tr (csrs m Satp) (gpr m A1) q 112" and d: "apart p q"
  defines "t \<equiv> exec tr swtch m"
  shows "ctx_reg r = Some k \<Longrightarrow> ld64 (pmem t) (p + of_nat k) = gpr m r" "ctx_reg r = Some k \<Longrightarrow> gpr t r = ld64 (pmem m) (q + of_nat k)"
    "ctx_reg r = None \<Longrightarrow> gpr t r = gpr m r" "pcr t = ld64 (pmem m) q" "csrs t = csrs m"
proof -
  define m1 where "m1 = exec tr (stores ctx_table A0) m"
  note s1 = stores_ok [OF old ctx_table_ok(1), folded m1_def]
  have a1: "area tr (csrs m1 Satp) (gpr m1 A1) q 112" using new s1 by simp
  define m2 where "m2 = exec tr (loads ctx_table A1) m1"
  note s2 = loads_ok [OF a1 ctx_table_ok(1,3), folded m2_def]
  have t: "t = exec tr [Ret] m2" unfolding t_def swtch_split exec_append m1_def m2_def ..
  have k: "k < 112" "k mod 8 = 0" if "(r, k) \<in> set ctx_table" for r k using that ctx_table_ok(1) by (auto simp: words_def)
  have q: "ld64 (pmem m1) (q + of_nat k) = ld64 (pmem m) (q + of_nat k)" if "(r, k) \<in> set ctx_table" for r k
    unfolding m1_def
  proof (rule stores_other [OF old ctx_table_ok(1)])
    show "unat (q + of_nat k) mod 8 = 0" using new k(2) [OF that] word_aligned by (simp add: area_def)
    show "q + of_nat k \<noteq> p + of_nat j" if j: "(r', j) \<in> set ctx_table" for r' j
      using d k(1) [OF j] k(1) [OF \<open>(r, k) \<in> set ctx_table\<close>] unfolding apart_def by metis
  qed
  have g: "gpr t r = ld64 (pmem m) (q + of_nat k)" if "(r, k) \<in> set ctx_table" for r k using s2 that q [OF that] by (simp add: t)
  show "ctx_reg r = Some k \<Longrightarrow> ld64 (pmem t) (p + of_nat k) = gpr m r" using s1 s2 ctx_table_ok(4) by (simp add: t)
  show "ctx_reg r = Some k \<Longrightarrow> gpr t r = ld64 (pmem m) (q + of_nat k)" using g ctx_table_ok(4) by simp
  show "ctx_reg r = None \<Longrightarrow> gpr t r = gpr m r" using s1 s2 ctx_table_ok(5) [of r] by (simp add: t)
  show "pcr t = ld64 (pmem m) q" using g [of RA 0] by (simp add: t ctx_table_def)
  show "csrs t = csrs m" using s1 s2 by (simp add: t)
qed

text \<open>C16: Switching away and back is a return. \<open>swtch\<close> saves the registers that a C function may rely on in the old context and continues
  where the new context was saved, with its registers. When later a \<open>swtch\<close> to the old context is made, by any
  thread and with any registers, and the context has not been overwritten, it returns to the caller of the first one, with
  the stack and the saved registers as they were.\<close>

theorem swtch_resumes:
  assumes "area tr (csrs m Satp) (gpr m A0) p 112" "area tr (csrs m Satp) (gpr m A1) q 112" "apart p q"
  shows "pcr (exec tr swtch m) = ld64 (pmem m) q \<and>
    (\<forall>r k. ctx_reg r = Some k \<longrightarrow> gpr (exec tr swtch m) r = ld64 (pmem m) (q + of_nat k)) \<and>
    (\<forall>m' p'. area tr (csrs m' Satp) (gpr m' A0) p' 112 \<longrightarrow> area tr (csrs m' Satp) (gpr m' A1) p 112 \<longrightarrow> apart p' p \<longrightarrow>
       (\<forall>r k. ctx_reg r = Some k \<longrightarrow> ld64 (pmem m') (p + of_nat k) = ld64 (pmem (exec tr swtch m)) (p + of_nat k)) \<longrightarrow>
       pcr (exec tr swtch m') = gpr m RA \<and> (\<forall>r. ctx_reg r \<noteq> None \<longrightarrow> gpr (exec tr swtch m') r = gpr m r))"
proof (intro conjI allI impI)
  note first = swtch_ok [OF assms]
  show "pcr (exec tr swtch m) = ld64 (pmem m) q" by (rule first(4))
  show "gpr (exec tr swtch m) r = ld64 (pmem m) (q + of_nat k)" if "ctx_reg r = Some k" for r k by (rule first(2) [OF that])
  fix m' :: machine and p' assume m': "area tr (csrs m' Satp) (gpr m' A0) p' 112" "area tr (csrs m' Satp) (gpr m' A1) p 112" "apart p' p"
    and same: "\<forall>r k. ctx_reg r = Some k \<longrightarrow> ld64 (pmem m') (p + of_nat k) = ld64 (pmem (exec tr swtch m)) (p + of_nat k)"
  note again = swtch_ok [OF m']
  have g: "gpr (exec tr swtch m') r = gpr m r" if "ctx_reg r = Some k" for r k
    using again(2) [OF that] same that first(1) [OF that] by simp
  then show "gpr (exec tr swtch m') r = gpr m r" if "ctx_reg r \<noteq> None" for r using that by auto
  show "pcr (exec tr swtch m') = gpr m RA" using again(2) [of RA 0] again(4) g [of RA 0] by simp
qed

lemma apart_gap: "apart 0x80001000 0x80002000"
  unfolding apart_def
proof (intro allI impI notI)
  fix j k :: nat assume jk: "j < 112" "k < 112" "(0x80001000 :: uint64) + of_nat j = 0x80002000 + of_nat k"
  have "unat ((0x80001000 :: uint64) + of_nat j) = 0x80001000 + j" "unat ((0x80002000 :: uint64) + of_nat k) = 0x80002000 + k"
    using jk(1,2) by (simp_all add: unat_word_ariths unat_of_nat)
  then show False using jk by simp
qed

text \<open>A caller with return address \<open>0x80000100\<close> switches from the context at \<open>0x80001000\<close> to the one at \<open>0x80002000\<close>.\<close>

definition mach1 :: machine where
  "mach1 = \<lparr>gpr = (\<lambda>_. 0)(A0 := 0x80001000, A1 := 0x80002000, RA := 0x80000100, S0 := 3), csrs = (\<lambda>_. 0), pcr = 0, pmem = (\<lambda>_. 0)\<rparr>"

theorem swtch_resumes_witness:
  "\<exists>t. t = exec (\<lambda>_ a. a) swtch (set_reg A0 0x80002000 (set_reg A1 0x80001000 (exec (\<lambda>_ a. a) swtch mach1))) \<and>
    pcr t = 0x80000100 \<and> gpr t S0 = 3"
proof -
  let ?id = "\<lambda>_ a. a" and ?m' = "set_reg A0 0x80002000 (set_reg A1 0x80001000 (exec (\<lambda>_ a. a) swtch mach1))"
  have a: "area ?id pt 0x80001000 0x80001000 112" "area ?id pt 0x80002000 0x80002000 112" for pt by (rule area_id; simp)+
  have g: "gpr mach1 A0 = 0x80001000" "gpr mach1 A1 = 0x80002000" "gpr mach1 RA = 0x80000100" "gpr mach1 S0 = 3" by (simp_all add: mach1_def)
  have sym: "apart 0x80002000 0x80001000" using apart_gap unfolding apart_def by metis
  note th = swtch_resumes [of ?id mach1 "0x80001000" "0x80002000", unfolded g, OF a apart_gap, THEN conjunct2, THEN conjunct2, rule_format,
      of ?m' "0x80002000"]
  have m': "gpr ?m' A0 = 0x80002000" "gpr ?m' A1 = 0x80001000" "pmem ?m' = pmem (exec ?id swtch mach1)" by (simp_all add: set_reg_def)
  have "pcr (exec ?id swtch ?m') = 0x80000100 \<and> (\<forall>r. ctx_reg r \<noteq> None \<longrightarrow> gpr (exec ?id swtch ?m') r = gpr mach1 r)"
    by (rule th) (simp_all only: m' a sym)
  then show ?thesis using g(4) by simp
qed

section \<open>Traps in the kernel\<close>

definition kv_table :: "(reg \<times> nat) list" where
  "kv_table = [(RA, 0), (GP, 16), (TP, 24), (T0, 32), (T1, 40), (T2, 48), (A0, 72), (A1, 80), (A2, 88), (A3, 96), (A4, 104), (A5, 112), (A6, 120),
     (A7, 128), (T3, 216), (T4, 224), (T5, 232), (T6, 240)]"

definition callee_saved :: "reg set" where
  "callee_saved = {S0, S1, S2, S3, S4, S5, S6, S7, S8, S9, S10, S11}"

text \<open>An interrupt in the kernel keeps every register but \<open>tp\<close>, provided that the handler, compiled C code, keeps the stack
  pointer, the registers of its caller and the frame on the stack. The thread may have moved to another hart, whose number
  is in \<open>tp\<close>.\<close>

theorem kernelvec_transparent:
  fixes f v :: uint64
  assumes a: "area tr (csrs m Satp) (gpr m SP - 256) p 256"
  defines "m1 \<equiv> exec tr (kernelvec_save f v) m"
  assumes h: "gpr m2 SP = gpr m1 SP" "\<And>r. r \<in> callee_saved \<Longrightarrow> gpr m2 r = gpr m1 r" "csrs m2 Satp = csrs m1 Satp"
    "\<And>k. k < 256 \<Longrightarrow> k mod 8 = 0 \<Longrightarrow> ld64 (pmem m2) (p + of_nat k) = ld64 (pmem m1) (p + of_nat k)"
  shows "pcr m1 = f" "gpr m1 RA = v" "r \<noteq> TP \<Longrightarrow> gpr (exec tr kernelvec_restore m2) r = gpr m r"
    "gpr (exec tr kernelvec_restore m2) TP = gpr m2 TP" "pcr (exec tr kernelvec_restore m2) = csrs m2 Sepc"
proof -
  let ?rt = "filter (\<lambda>(r, k). r \<noteq> TP) kv_table"
  define m0 where "m0 = set_reg SP (gpr m SP - 256) m"
  have a0: "area tr (csrs m0 Satp) (gpr m0 SP) p 256" using a by (simp add: m0_def set_reg_def)
  have w: "words kv_table 256" "words ?rt 256" "SP \<notin> fst ` set ?rt" by (simp_all add: words_def kv_table_def)
  have s: "kernelvec_save f v = [Addi SP SP (- 256)] @ stores kv_table SP @ [Call f v]"
    "kernelvec_restore = loads ?rt SP @ [Addi SP SP 256, Sret]"
    by (simp_all add: kernelvec_save_def kernelvec_restore_def stores_def loads_def kv_table_def)
  define n where "n = exec tr (stores kv_table SP) m0"
  note s1 = stores_ok [OF a0 w(1), folded n_def]
  have m1: "m1 = exec tr [Call f v] n" unfolding m1_def s(1) exec_append n_def m0_def by simp
  show "pcr m1 = f" "gpr m1 RA = v" by (simp_all add: m1 set_reg_def)
  have "csrs m2 Satp = csrs m0 Satp" "gpr m2 SP = gpr m0 SP" using h(1,3) s1 by (simp_all add: m1 set_reg_def)
  then have a2: "area tr (csrs m2 Satp) (gpr m2 SP) p 256" using a0 by simp
  note s2 = loads_ok [OF a2 w(2,3)]
  define z where "z = exec tr (loads ?rt SP) m2"
  have e: "exec tr kernelvec_restore m2 = exec tr [Addi SP SP 256, Sret] z" unfolding s(2) exec_append z_def ..
  have sp_z: "gpr z SP = gpr m SP - 256" using s2 w(3) \<open>gpr m2 SP = gpr m0 SP\<close> by (simp add: z_def m0_def set_reg_def)
  have "TP \<notin> fst ` set ?rt" by auto
  then show "gpr (exec tr kernelvec_restore m2) TP = gpr m2 TP" "pcr (exec tr kernelvec_restore m2) = csrs m2 Sepc"
    using s2 by (simp_all add: e set_reg_def z_def)
  show "gpr (exec tr kernelvec_restore m2) r = gpr m r" if r: "r \<noteq> TP"
  proof -
    consider "r = SP" | "r \<in> callee_saved" | k where "(r, k) \<in> set kv_table" using r by (cases r) (auto simp: callee_saved_def kv_table_def)
    then show ?thesis
    proof cases
      case 1
      then show ?thesis by (simp add: e set_reg_def sp_z)
    next
      case 2
      then have n: "r \<notin> fst ` set ?rt" "r \<noteq> SP" "r \<noteq> RA" by (auto simp: callee_saved_def kv_table_def)
      then have "gpr z r = gpr m2 r" using s2 by (simp add: z_def)
      then show ?thesis using h(2) [OF 2] s1 n by (simp add: e m1 set_reg_def m0_def)
    next
      case 3
      then have k: "(r, k) \<in> set ?rt" "k < 256" "k mod 8 = 0" "r \<noteq> SP" using r w(1) by (auto simp: words_def kv_table_def)
      have "gpr z r = ld64 (pmem m2) (p + of_nat k)" using s2 k(1) by (simp add: z_def)
      also have "\<dots> = ld64 (pmem n) (p + of_nat k)" using h(4) [OF k(2,3)] by (simp add: m1 set_reg_def)
      also have "\<dots> = gpr m0 r" unfolding n_def by (rule stores_word [OF a0 w(1) 3])
      finally show ?thesis using k(4) by (simp add: e set_reg_def m0_def)
    qed
  qed
qed

section \<open>The entry point\<close>

text \<open>Every hart starts with its own 4096 bytes of \<open>stack0\<close>.\<close>

lemma entry_stack:
  "gpr (exec tr (entry_code stack0 start_va spin) m) SP = stack0 + 4096 * (csrs m Mhartid + 1)"
  "pcr (exec tr (entry_code stack0 start_va spin) m) = start_va"
  by (simp_all add: entry_code_def set_reg_def)

end
