(* ===== verification/Spinlock.thy ===== *)
theory Spinlock
  imports Xv6_Prelude
begin

text \<open>Spin locks (\<open>kernel/spinlock.c\<close>, \<open>kernel/spinlock.h\<close>) on any number of CPUs. \<open>initlock\<close>, \<open>holding\<close>,
  \<open>push_off\<close> and \<open>pop_off\<close> are functions; \<open>acquire\<close> and \<open>release\<close> are split at their accesses to shared memory
  (the atomic swap, the stores to \<open>lk->cpu\<close>, the store that frees the lock word) into the step relation \<open>lstep\<close>,
  so that the steps of the CPUs interleave freely. The names of locks are left out; they are used for debugging
  only. The other theories follow one kernel path and see its locks as the set \<open>held\<close>, which is \<open>held_by\<close> here.\<close>

unbundle bit_operations_syntax

section \<open>Model\<close>

record spinlock =
  locked :: bool
  lcpu :: "nat option"

text \<open>Per CPU: \<open>noff\<close> and \<open>intena\<close> of \<open>struct cpu\<close>, and the interrupt enable bit of \<open>sstatus\<close>.\<close>

record cpu =
  noff :: int
  intena :: bool
  sie :: bool

definition initlock :: spinlock where
  "initlock = \<lparr>locked = False, lcpu = None\<rparr>"

definition holding :: "spinlock \<Rightarrow> nat \<Rightarrow> bool" where
  "holding lk c \<longleftrightarrow> locked lk \<and> lcpu lk = Some c"

definition push_off :: "cpu \<Rightarrow> cpu" where
  "push_off c =
     (let old = sie c;
          c = c\<lparr>sie := False\<rparr>;
          c = (if noff c = 0 then c\<lparr>intena := old\<rparr> else c)
      in c\<lparr>noff := noff c + 1\<rparr>)"

definition pop_off :: "cpu \<Rightarrow> cpu res" where
  "pop_off c =
     (if sie c then Panic ''pop_off - interruptible''
      else if noff c < 1 then Panic ''pop_off''
      else
        let c = c\<lparr>noff := noff c - 1\<rparr>
        in Ok (if noff c = 0 \<and> intena c then c\<lparr>sie := True\<rparr> else c))"

text \<open>Where a CPU is inside \<open>acquire\<close> or \<open>release\<close>: spinning, between the swap and the store of \<open>lk->cpu\<close>,
  between the reset of \<open>lk->cpu\<close> and the release of the lock word, or stopped in \<open>panic\<close>.\<close>

datatype pc = Idle | Spin nat | SetCpu nat | Unlock nat | Stopped string

record smp =
  lks :: "nat \<Rightarrow> spinlock"
  cpus :: "nat \<Rightarrow> cpu"
  pcs :: "nat \<Rightarrow> pc"

definition upd_lk :: "nat \<Rightarrow> (spinlock \<Rightarrow> spinlock) \<Rightarrow> smp \<Rightarrow> smp" where
  "upd_lk l f s = s\<lparr>lks := (lks s)(l := f (lks s l))\<rparr>"

definition upd_cpu :: "nat \<Rightarrow> (cpu \<Rightarrow> cpu) \<Rightarrow> smp \<Rightarrow> smp" where
  "upd_cpu c f s = s\<lparr>cpus := (cpus s)(c := f (cpus s c))\<rparr>"

definition goto :: "nat \<Rightarrow> pc \<Rightarrow> smp \<Rightarrow> smp" where
  "goto c p s = s\<lparr>pcs := (pcs s)(c := p)\<rparr>"

text \<open>The atomic steps of the CPUs, interleaved.\<close>

inductive lstep :: "smp \<Rightarrow> smp \<Rightarrow> bool" where
  acquire_check: "pcs s c = Idle \<Longrightarrow>
    lstep s (goto c (if holding (lks s l) c then Stopped ''acquire'' else Spin l) (upd_cpu c push_off s))"
| acquire_spin: "pcs s c = Spin l \<Longrightarrow> locked (lks s l) \<Longrightarrow> lstep s s"
| acquire_swap: "pcs s c = Spin l \<Longrightarrow> \<not> locked (lks s l) \<Longrightarrow>
    lstep s (goto c (SetCpu l) (upd_lk l (\<lambda>lk. lk\<lparr>locked := True\<rparr>) s))"
| acquire_done: "pcs s c = SetCpu l \<Longrightarrow> lstep s (goto c Idle (upd_lk l (\<lambda>lk. lk\<lparr>lcpu := Some c\<rparr>) s))"
| release_check: "pcs s c = Idle \<Longrightarrow> \<not> holding (lks s l) c \<Longrightarrow> lstep s (goto c (Stopped ''release'') s)"
| release_cpu: "pcs s c = Idle \<Longrightarrow> holding (lks s l) c \<Longrightarrow>
    lstep s (goto c (Unlock l) (upd_lk l (\<lambda>lk. lk\<lparr>lcpu := None\<rparr>) s))"
| release_done: "pcs s c = Unlock l \<Longrightarrow>
    lstep s (case pop_off (cpus s c) of
       Panic e \<Rightarrow> goto c (Stopped e) (upd_lk l (\<lambda>lk. lk\<lparr>locked := False\<rparr>) s)
     | Ok k \<Rightarrow> goto c Idle (upd_cpu c (\<lambda>_. k) (upd_lk l (\<lambda>lk. lk\<lparr>locked := False\<rparr>) s)))"

inductive_cases lstepE: "lstep s t"

definition boot :: smp where
  "boot = \<lparr>lks = (\<lambda>_. initlock), cpus = (\<lambda>_. \<lparr>noff = 0, intena = False, sie = True\<rparr>), pcs = (\<lambda>_. Idle)\<rparr>"

section \<open>Mutual exclusion\<close>

text \<open>The locks a CPU holds, as the other theories see them, and the CPU that is inside \<open>acquire\<close> or
  \<open>release\<close> of a lock with the lock word set.\<close>

definition held_by :: "smp \<Rightarrow> nat \<Rightarrow> nat set" where
  "held_by s c = {l. holding (lks s l) c}"

definition midway :: "smp \<Rightarrow> nat \<Rightarrow> nat \<Rightarrow> bool" where
  "midway s c l \<longleftrightarrow> pcs s c = SetCpu l \<or> pcs s c = Unlock l"

definition busy :: "pc \<Rightarrow> int" where
  "busy p = (case p of Spin _ \<Rightarrow> 1 | SetCpu _ \<Rightarrow> 1 | Unlock _ \<Rightarrow> 1 | _ \<Rightarrow> 0)"

definition stopped :: "pc \<Rightarrow> bool" where
  "stopped p \<longleftrightarrow> (\<exists>e. p = Stopped e)"

definition lock_inv :: "smp \<Rightarrow> bool" where
  "lock_inv s \<longleftrightarrow>
     (\<forall>l. \<not> locked (lks s l) \<longrightarrow> lcpu (lks s l) = None \<and> (\<forall>c. \<not> midway s c l)) \<and>
     (\<forall>l c d. midway s c l \<longrightarrow> midway s d l \<longrightarrow> c = d) \<and>
     (\<forall>l c. midway s c l \<longrightarrow> lcpu (lks s l) = None) \<and>
     (\<forall>c. finite (held_by s c)) \<and>
     (\<forall>c. \<not> stopped (pcs s c) \<longrightarrow> noff (cpus s c) = int (card (held_by s c)) + busy (pcs s c)) \<and>
     (\<forall>c. 0 < noff (cpus s c) \<longrightarrow> \<not> sie (cpus s c)) \<and>
     (\<forall>c. pcs s c \<noteq> Stopped ''pop_off'' \<and> pcs s c \<noteq> Stopped ''pop_off - interruptible'')"

lemma lock_inv_boot: "lock_inv boot"
  by (simp add: lock_inv_def boot_def initlock_def midway_def held_by_def holding_def busy_def)

lemmas smp_upd = upd_lk_def upd_cpu_def goto_def

lemma held_upd:
  "held_by (upd_cpu c f s) d = held_by s d" "held_by (goto c p s) d = held_by s d"
  by (simp_all add: held_by_def smp_upd)

lemma held_lk:
  "held_by (upd_lk l f s) d = (if holding (f (lks s l)) d then insert l (held_by s d) else held_by s d - {l})"
  by (auto simp: held_by_def smp_upd)

lemma push_off_facts: "noff (push_off c) = noff c + 1" "\<not> sie (push_off c)"
  by (simp_all add: push_off_def Let_def)

lemma pop_off_ok:
  "1 \<le> noff c \<Longrightarrow> \<not> sie c \<Longrightarrow> \<exists>k. pop_off c = Ok k \<and> noff k = noff c - 1 \<and> (0 < noff k \<longrightarrow> \<not> sie k)"
  by (auto simp: pop_off_def Let_def)

lemma lock_invD:
  assumes "lock_inv s"
  shows "\<not> locked (lks s l) \<Longrightarrow> lcpu (lks s l) = None" "\<not> locked (lks s l) \<Longrightarrow> \<not> midway s c l"
    "midway s c l \<Longrightarrow> midway s d l \<Longrightarrow> c = d" "midway s c l \<Longrightarrow> lcpu (lks s l) = None" "finite (held_by s c)"
    "\<not> stopped (pcs s c) \<Longrightarrow> noff (cpus s c) = int (card (held_by s c)) + busy (pcs s c)"
    "0 < noff (cpus s c) \<Longrightarrow> \<not> sie (cpus s c)"
    "pcs s c \<noteq> Stopped ''pop_off''" "pcs s c \<noteq> Stopped ''pop_off - interruptible''"
  using assms unfolding lock_inv_def by blast+

lemma lock_invI:
  assumes "\<And>l. \<not> locked (lks s l) \<Longrightarrow> lcpu (lks s l) = None" "\<And>l c. \<not> locked (lks s l) \<Longrightarrow> \<not> midway s c l"
    "\<And>l c d. midway s c l \<Longrightarrow> midway s d l \<Longrightarrow> c = d" "\<And>l c. midway s c l \<Longrightarrow> lcpu (lks s l) = None"
    "\<And>c. finite (held_by s c)"
    "\<And>c. \<not> stopped (pcs s c) \<Longrightarrow> noff (cpus s c) = int (card (held_by s c)) + busy (pcs s c)"
    "\<And>c. 0 < noff (cpus s c) \<Longrightarrow> \<not> sie (cpus s c)"
    "\<And>c. pcs s c \<noteq> Stopped ''pop_off'' \<and> pcs s c \<noteq> Stopped ''pop_off - interruptible''"
  shows "lock_inv s"
  using assms unfolding lock_inv_def by simp

lemma nonneg_noff: "lock_inv s \<Longrightarrow> \<not> stopped (pcs s c) \<Longrightarrow> 0 \<le> noff (cpus s c)"
  using lock_invD(6) [of s c] by (simp add: busy_def split: pc.splits)

lemma inv_acquire_check:
  assumes I: "lock_inv s" and pc: "pcs s c = Idle"
  shows "lock_inv (goto c (if holding (lks s l) c then Stopped ''acquire'' else Spin l) (upd_cpu c push_off s))" (is "lock_inv ?t")
proof (rule lock_invI)
  have mid: "midway ?t d k \<longleftrightarrow> midway s d k" for d k using pc by (simp add: midway_def smp_upd)
  have lk: "lks ?t = lks s" by (simp add: smp_upd)
  have h: "held_by ?t d = held_by s d" for d by (simp add: held_upd)
  show "lcpu (lks ?t k) = None" "\<not> midway ?t d k" if "\<not> locked (lks ?t k)" for k d
    using that lock_invD(1,2) [OF I] unfolding lk mid by blast+
  show "d = e" if "midway ?t d k" "midway ?t e k" for d e k using that lock_invD(3) [OF I] unfolding mid by blast
  show "lcpu (lks ?t k) = None" if "midway ?t d k" for d k using that lock_invD(4) [OF I] unfolding mid lk by blast
  show "finite (held_by ?t d)" for d unfolding h by (rule lock_invD(5) [OF I])
  show "noff (cpus ?t d) = int (card (held_by ?t d)) + busy (pcs ?t d)" if "\<not> stopped (pcs ?t d)" for d
    using that lock_invD(6) [OF I, of d] pc unfolding h
    by (cases "d = c") (auto simp: smp_upd push_off_facts busy_def stopped_def split: if_splits)
  show "\<not> sie (cpus ?t d)" if "0 < noff (cpus ?t d)" for d
    using that lock_invD(7) [OF I, of d] by (cases "d = c") (auto simp: smp_upd push_off_facts)
  show "pcs ?t d \<noteq> Stopped ''pop_off'' \<and> pcs ?t d \<noteq> Stopped ''pop_off - interruptible''" for d
    using lock_invD(8,9) [OF I, of d] by (auto simp: smp_upd)
qed

lemma inv_acquire_swap:
  assumes I: "lock_inv s" and pc: "pcs s c = Spin l" "\<not> locked (lks s l)"
  shows "lock_inv (goto c (SetCpu l) (upd_lk l (\<lambda>lk. lk\<lparr>locked := True\<rparr>) s))" (is "lock_inv ?t")
proof (rule lock_invI)
  have mid: "midway ?t d k \<longleftrightarrow> midway s d k \<or> d = c \<and> k = l" for d k using pc by (auto simp: midway_def smp_upd)
  have free: "lcpu (lks s l) = None" "\<not> midway s d l" for d using lock_invD(1,2) [OF I pc(2)] by blast+
  have lk: "locked (lks ?t k) \<longleftrightarrow> locked (lks s k) \<or> k = l" "lcpu (lks ?t k) = lcpu (lks s k)" for k
    by (auto simp: smp_upd)
  have h: "held_by ?t d = held_by s d" for d using free(1) pc(2) by (auto simp: held_by_def holding_def smp_upd)
  show "lcpu (lks ?t k) = None" "\<not> midway ?t d k" if "\<not> locked (lks ?t k)" for k d
    using that lock_invD(1,2) [OF I, of k] unfolding lk mid by auto
  show "d = e" if "midway ?t d k" "midway ?t e k" for d e k
    using that lock_invD(3) [OF I, of d k e] free(2) unfolding mid by blast
  show "lcpu (lks ?t k) = None" if "midway ?t d k" for d k
    using that lock_invD(4) [OF I, of d k] free(1) unfolding mid lk by blast
  show "finite (held_by ?t d)" for d unfolding h by (rule lock_invD(5) [OF I])
  show "noff (cpus ?t d) = int (card (held_by ?t d)) + busy (pcs ?t d)" if "\<not> stopped (pcs ?t d)" for d
    using that lock_invD(6) [OF I, of d] pc unfolding h by (cases "d = c") (auto simp: smp_upd busy_def stopped_def)
  show "\<not> sie (cpus ?t d)" if "0 < noff (cpus ?t d)" for d
    using that lock_invD(7) [OF I, of d] by (simp add: smp_upd)
  show "pcs ?t d \<noteq> Stopped ''pop_off'' \<and> pcs ?t d \<noteq> Stopped ''pop_off - interruptible''" for d
    using lock_invD(8,9) [OF I, of d] by (auto simp: smp_upd)
qed

lemma inv_acquire_done:
  assumes I: "lock_inv s" and pc: "pcs s c = SetCpu l"
  shows "lock_inv (goto c Idle (upd_lk l (\<lambda>lk. lk\<lparr>lcpu := Some c\<rparr>) s))" (is "lock_inv ?t")
proof (rule lock_invI)
  have ml: "midway s c l" using pc by (simp add: midway_def)
  have mid: "midway ?t d k \<longleftrightarrow> midway s d k \<and> d \<noteq> c" for d k by (auto simp: midway_def smp_upd)
  have lkd: "locked (lks s l)" "lcpu (lks s l) = None" using lock_invD(2,4) [OF I] ml by blast+
  have h: "held_by ?t d = (if d = c then insert l (held_by s c) else held_by s d)" "l \<notin> held_by s d" for d
    using lkd by (auto simp: held_by_def holding_def smp_upd)
  show "lcpu (lks ?t k) = None" "\<not> midway ?t d k" if "\<not> locked (lks ?t k)" for k d
    using that lock_invD(1,2) [OF I, of k] lkd unfolding mid by (auto simp: smp_upd split: if_splits)
  show "d = e" if "midway ?t d k" "midway ?t e k" for d e k using that lock_invD(3) [OF I, of d k e] unfolding mid by blast
  show "lcpu (lks ?t k) = None" if "midway ?t d k" for d k
    using that lock_invD(4) [OF I, of d k] lock_invD(3) [OF I, of d l c] ml unfolding mid by (auto simp: smp_upd)
  show "finite (held_by ?t d)" for d unfolding h using lock_invD(5) [OF I] by simp
  show "noff (cpus ?t d) = int (card (held_by ?t d)) + busy (pcs ?t d)" if "\<not> stopped (pcs ?t d)" for d
    using that lock_invD(6) [OF I, of d] pc lock_invD(5) [OF I, of c] h(2) [of c] unfolding h(1)
    by (cases "d = c") (auto simp: smp_upd busy_def stopped_def)
  show "\<not> sie (cpus ?t d)" if "0 < noff (cpus ?t d)" for d
    using that lock_invD(7) [OF I, of d] by (simp add: smp_upd)
  show "pcs ?t d \<noteq> Stopped ''pop_off'' \<and> pcs ?t d \<noteq> Stopped ''pop_off - interruptible''" for d
    using lock_invD(8,9) [OF I, of d] by (auto simp: smp_upd)
qed

lemma inv_release_check:
  assumes I: "lock_inv s" and pc: "pcs s c = Idle"
  shows "lock_inv (goto c (Stopped ''release'') s)" (is "lock_inv ?t")
proof (rule lock_invI)
  have mid: "midway ?t d k \<longleftrightarrow> midway s d k" for d k using pc by (simp add: midway_def smp_upd)
  have lk: "lks ?t = lks s" "cpus ?t = cpus s" by (simp_all add: smp_upd)
  have h: "held_by ?t d = held_by s d" for d by (simp add: held_upd)
  show "lcpu (lks ?t k) = None" "\<not> midway ?t d k" if "\<not> locked (lks ?t k)" for k d
    using that lock_invD(1,2) [OF I] unfolding lk mid by blast+
  show "d = e" if "midway ?t d k" "midway ?t e k" for d e k using that lock_invD(3) [OF I] unfolding mid by blast
  show "lcpu (lks ?t k) = None" if "midway ?t d k" for d k using that lock_invD(4) [OF I] unfolding mid lk by blast
  show "finite (held_by ?t d)" for d unfolding h by (rule lock_invD(5) [OF I])
  show "noff (cpus ?t d) = int (card (held_by ?t d)) + busy (pcs ?t d)" if "\<not> stopped (pcs ?t d)" for d
    using that lock_invD(6) [OF I, of d] unfolding h lk by (cases "d = c") (auto simp: smp_upd stopped_def)
  show "\<not> sie (cpus ?t d)" if "0 < noff (cpus ?t d)" for d
    using that lock_invD(7) [OF I, of d] unfolding lk by simp
  show "pcs ?t d \<noteq> Stopped ''pop_off'' \<and> pcs ?t d \<noteq> Stopped ''pop_off - interruptible''" for d
    using lock_invD(8,9) [OF I, of d] by (auto simp: smp_upd)
qed

lemma inv_release_cpu:
  assumes I: "lock_inv s" and pc: "pcs s c = Idle" "holding (lks s l) c"
  shows "lock_inv (goto c (Unlock l) (upd_lk l (\<lambda>lk. lk\<lparr>lcpu := None\<rparr>) s))" (is "lock_inv ?t")
proof (rule lock_invI)
  have nm: "\<not> midway s d l" for d using lock_invD(4) [OF I, of d l] pc(2) by (auto simp: holding_def)
  have mid: "midway ?t d k \<longleftrightarrow> midway s d k \<or> d = c \<and> k = l" for d k using pc(1) by (auto simp: midway_def smp_upd)
  have h: "held_by ?t d = (if d = c then held_by s c - {l} else held_by s d)" for d
    using pc(2) by (auto simp: held_by_def holding_def smp_upd)
  have lc: "l \<in> held_by s c" using pc(2) by (simp add: held_by_def)
  show "lcpu (lks ?t k) = None" "\<not> midway ?t d k" if "\<not> locked (lks ?t k)" for k d
    using that lock_invD(1,2) [OF I, of k] pc(2) unfolding mid by (auto simp: smp_upd holding_def split: if_splits)
  show "d = e" if "midway ?t d k" "midway ?t e k" for d e k
    using that lock_invD(3) [OF I, of d k e] nm unfolding mid by blast
  show "lcpu (lks ?t k) = None" if "midway ?t d k" for d k
    using that lock_invD(4) [OF I, of d k] unfolding mid by (auto simp: smp_upd)
  show "finite (held_by ?t d)" for d unfolding h using lock_invD(5) [OF I] by simp
  show "noff (cpus ?t d) = int (card (held_by ?t d)) + busy (pcs ?t d)" if "\<not> stopped (pcs ?t d)" for d
  proof (cases "d = c")
    case True
    have "card (held_by s c) = Suc (card (held_by s c - {l}))"
      by (rule card.remove [OF lock_invD(5) [OF I] lc])
    then show ?thesis using lock_invD(6) [OF I, of c] pc(1) True h by (simp add: smp_upd busy_def stopped_def)
  next
    case False
    then show ?thesis using that lock_invD(6) [OF I, of d] h by (simp add: smp_upd)
  qed
  show "\<not> sie (cpus ?t d)" if "0 < noff (cpus ?t d)" for d
    using that lock_invD(7) [OF I, of d] by (simp add: smp_upd)
  show "pcs ?t d \<noteq> Stopped ''pop_off'' \<and> pcs ?t d \<noteq> Stopped ''pop_off - interruptible''" for d
    using lock_invD(8,9) [OF I, of d] by (auto simp: smp_upd)
qed

lemma inv_release_done:
  assumes I: "lock_inv s" and pc: "pcs s c = Unlock l"
    and k: "pop_off (cpus s c) = Ok k" "noff k = noff (cpus s c) - 1" "0 < noff k \<longrightarrow> \<not> sie k"
  shows "lock_inv (goto c Idle (upd_cpu c (\<lambda>_. k) (upd_lk l (\<lambda>lk. lk\<lparr>locked := False\<rparr>) s)))" (is "lock_inv ?t")
proof (rule lock_invI)
  have ml: "midway s c l" using pc by (simp add: midway_def)
  have only: "d = c" if "midway s d l" for d using lock_invD(3) [OF I that ml] .
  have mid: "midway ?t d j \<longleftrightarrow> midway s d j \<and> d \<noteq> c" for d j by (auto simp: midway_def smp_upd)
  have free: "lcpu (lks s l) = None" using lock_invD(4) [OF I ml] .
  have lk: "lcpu (lks ?t j) = lcpu (lks s j)" "locked (lks ?t j) \<longleftrightarrow> locked (lks s j) \<and> j \<noteq> l" for j by (auto simp: smp_upd)
  have h: "held_by ?t d = held_by s d" for d using free by (auto simp: held_by_def holding_def smp_upd)
  show "lcpu (lks ?t j) = None" "\<not> midway ?t d j" if "\<not> locked (lks ?t j)" for j d
    using that lock_invD(1,2) [OF I, of j] free only unfolding mid lk by blast+
  show "d = e" if "midway ?t d j" "midway ?t e j" for d e j using that lock_invD(3) [OF I, of d j e] unfolding mid by blast
  show "lcpu (lks ?t j) = None" if "midway ?t d j" for d j using that lock_invD(4) [OF I, of d j] unfolding mid lk by blast
  show "finite (held_by ?t d)" for d unfolding h by (rule lock_invD(5) [OF I])
  show "noff (cpus ?t d) = int (card (held_by ?t d)) + busy (pcs ?t d)" if "\<not> stopped (pcs ?t d)" for d
    using that lock_invD(6) [OF I, of d] pc k(2) unfolding h by (cases "d = c") (auto simp: smp_upd busy_def stopped_def)
  show "\<not> sie (cpus ?t d)" if "0 < noff (cpus ?t d)" for d
    using that lock_invD(7) [OF I, of d] k(3) by (cases "d = c") (auto simp: smp_upd)
  show "pcs ?t d \<noteq> Stopped ''pop_off'' \<and> pcs ?t d \<noteq> Stopped ''pop_off - interruptible''" for d
    using lock_invD(8,9) [OF I, of d] by (auto simp: smp_upd)
qed

lemma lock_inv_step:
  assumes "lstep s t" "lock_inv s"
  shows "lock_inv t"
  using assms(1)
proof cases
  case (release_done c l)
  have "noff (cpus s c) = int (card (held_by s c)) + 1"
    using lock_invD(6) [OF assms(2), of c] release_done(2) by (simp add: busy_def stopped_def)
  then obtain k where k: "pop_off (cpus s c) = Ok k" "noff k = noff (cpus s c) - 1" "0 < noff k \<longrightarrow> \<not> sie k"
    using pop_off_ok [of "cpus s c"] lock_invD(7) [OF assms(2), of c] by auto
  then show ?thesis using inv_release_done [OF assms(2) release_done(2) k] release_done(1) by simp
qed (use assms(2) inv_acquire_check inv_acquire_swap inv_acquire_done inv_release_check inv_release_cpu in blast)+

lemma lock_inv_reachable: "lstep\<^sup>*\<^sup>* boot s \<Longrightarrow> lock_inv s"
  by (induction rule: rtranclp_induct) (auto intro: lock_inv_boot lock_inv_step)

text \<open>A reachable state: CPU 0 has taken lock 7.\<close>

definition took7 :: smp where
  "took7 = goto 0 Idle (upd_lk 7 (\<lambda>lk. lk\<lparr>lcpu := Some 0\<rparr>)
     (goto 0 (SetCpu 7) (upd_lk 7 (\<lambda>lk. lk\<lparr>locked := True\<rparr>) (goto 0 (Spin 7) (upd_cpu 0 push_off boot)))))"

lemma took7_reachable: "lstep\<^sup>*\<^sup>* boot took7"
proof -
  let ?a = "goto 0 (Spin 7) (upd_cpu 0 push_off boot)"
  let ?b = "goto 0 (SetCpu 7) (upd_lk 7 (\<lambda>lk. lk\<lparr>locked := True\<rparr>) ?a)"
  have "lstep boot ?a" using acquire_check [of boot 0 7] by (simp add: boot_def holding_def initlock_def)
  moreover have "lstep ?a ?b" by (rule acquire_swap) (simp_all add: smp_upd boot_def initlock_def)
  moreover have "lstep ?b took7" unfolding took7_def by (rule acquire_done) (simp add: smp_upd)
  ultimately show ?thesis by (meson converse_rtranclp_into_rtranclp rtranclp.rtrancl_refl)
qed

lemma took7_held: "held_by took7 0 = {7}" "pcs took7 0 = Idle"
  by (auto simp: took7_def smp_upd boot_def held_by_def holding_def initlock_def)

text \<open>C7: Spin locks exclude each other, for any number of CPUs and any interleaving of the steps of \<open>acquire\<close> and
  \<open>release\<close>. In every reachable state no lock is held by two CPUs, a CPU that holds a lock has interrupts
  disabled and its \<open>noff\<close> counts the locks it holds plus the one it is working on, and the panics of
  \<open>pop_off\<close> never happen.\<close>

theorem spinlock_mutual_exclusion:
  assumes "lstep\<^sup>*\<^sup>* boot s"
  shows "(c \<noteq> d \<longrightarrow> held_by s c \<inter> held_by s d = {}) \<and>
    (\<not> stopped (pcs s c) \<longrightarrow> noff (cpus s c) = int (card (held_by s c)) + busy (pcs s c)) \<and>
    (held_by s c \<noteq> {} \<and> \<not> stopped (pcs s c) \<longrightarrow> \<not> sie (cpus s c)) \<and>
    pcs s c \<noteq> Stopped ''pop_off'' \<and> pcs s c \<noteq> Stopped ''pop_off - interruptible''"
proof -
  note I = lock_inv_reachable [OF assms]
  have "\<not> sie (cpus s c)" if "held_by s c \<noteq> {}" "\<not> stopped (pcs s c)"
  proof -
    have "0 < card (held_by s c)" using that(1) lock_invD(5) [OF I, of c] by (simp add: card_gt_0_iff)
    moreover have "0 \<le> busy (pcs s c)" by (simp add: busy_def split: pc.split)
    ultimately show ?thesis using lock_invD(6,7) [OF I, of c] that(2) by simp
  qed
  then show ?thesis
    using lock_invD(6,8,9) [OF I, of c] by (auto simp: held_by_def holding_def)
qed

theorem spinlock_mutual_exclusion_witness:
  "held_by took7 0 = {7} \<and> 7 \<notin> held_by took7 1 \<and> \<not> sie (cpus took7 0) \<and> noff (cpus took7 0) = 1"
  using spinlock_mutual_exclusion [OF took7_reachable, of 0 1] by (simp add: took7_held stopped_def busy_def)

end
