(* ===== verification/Fcntl.thy ===== *)
theory Fcntl
  imports Xv6_Prelude
begin

text \<open>The flags of \<open>open\<close> (\<open>kernel/fcntl.h\<close>), which the kernel and the shell share.\<close>

definition O_RDONLY :: int where "O_RDONLY = 0x000"
definition O_WRONLY :: int where "O_WRONLY = 0x001"
definition O_RDWR :: int where "O_RDWR = 0x002"
definition O_CREATE :: int where "O_CREATE = 0x200"
definition O_TRUNC :: int where "O_TRUNC = 0x400"

end
