(* ===== verification/Shell.thy ===== *)
theory Shell
  imports Fcntl
begin

text \<open>The shell (\<open>user/sh.c\<close>): reading a line, the tokenizer and the recursive descent parser, the null
  termination of the words in the line buffer, and \<open>runcmd\<close> as the tree of its system calls.

  The line buffer is a \<open>string\<close>, a pointer into it an offset, and \<open>es\<close> the offset of the terminating null byte.
  Command structures are values of \<open>'w cmd\<close>; \<open>malloc\<close> is taken to succeed, as the source does not check it. An exit
  through \<open>panic\<close> is a \<open>Panic\<close> outcome of the parser.\<close>

unbundle bit_operations_syntax


section \<open>Text and tokens\<close>

abbreviation NUL :: char where "NUL \<equiv> CHR 0x00"

text \<open>The byte at an offset of the line buffer; past the text there is the terminating null byte.\<close>

definition byte :: "string \<Rightarrow> nat \<Rightarrow> char" where
  "byte b i = (if i < length b then b ! i else NUL)"

definition text_len :: "string \<Rightarrow> nat" where
  "text_len b = length (takeWhile (\<lambda>c. c \<noteq> NUL) b)"

definition strchr :: "string \<Rightarrow> char \<Rightarrow> bool" where
  "strchr t c \<longleftrightarrow> c \<noteq> NUL \<and> c \<in> set t"

definition whitespace :: string where
  "whitespace = [CHR '' '', CHR 0x09, CHR 0x0D, CHR 0x0A, CHR 0x0B]"

definition symbols :: string where
  "symbols = ''<|>&;()''"

text \<open>The loops \<open>while(s < es && ...) s++\<close>.\<close>

function skip_while :: "(char \<Rightarrow> bool) \<Rightarrow> string \<Rightarrow> nat \<Rightarrow> nat \<Rightarrow> nat" where
  "skip_while P b es s = (if s < es \<and> P (byte b s) then skip_while P b es (s + 1) else s)"
  by pat_completeness auto
termination
  by (relation "measure (\<lambda>(P, b, es, s). es - s)") auto

declare skip_while.simps [simp del]

definition gettoken :: "string \<Rightarrow> nat \<Rightarrow> nat \<Rightarrow> char \<times> (nat \<times> nat) \<times> nat" where
  "gettoken b es ps =
     (let s = skip_while (strchr whitespace) b es ps;
          q = s;
          c = byte b s;
          (ret, s) =
            (if c = NUL then (c, s)
             else if c \<in> set ''|();&<'' then (c, s + 1)
             else if c = CHR ''>'' then
               (if byte b (s + 1) = CHR ''>'' then (CHR ''+'', s + 2) else (c, s + 1))
             else (CHR ''a'', skip_while (\<lambda>c. \<not> strchr whitespace c \<and> \<not> strchr symbols c) b es s));
          eq = s
      in (ret, (q, eq), skip_while (strchr whitespace) b es s))"

definition peek :: "string \<Rightarrow> nat \<Rightarrow> string \<Rightarrow> nat \<Rightarrow> bool \<times> nat" where
  "peek b es toks ps =
     (let s = skip_while (strchr whitespace) b es ps
      in (byte b s \<noteq> NUL \<and> strchr toks (byte b s), s))"

section \<open>Commands\<close>

text \<open>A parsed command. A counted string \<open>argv[i]\<close> to \<open>eargv[i]\<close>, or \<open>file\<close> to \<open>efile\<close>, is a value of \<open>'w\<close>: the
  parser builds commands over pairs of offsets, \<open>nat \<times> nat\<close>, and what a command means is a command over \<open>string\<close>.\<close>

datatype 'w cmd =
  EXEC "'w list"
| REDIR "'w cmd" 'w int int
| PIPE "'w cmd" "'w cmd"
| LIST "'w cmd" "'w cmd"
| BACK "'w cmd"

definition MAXARGS :: nat where "MAXARGS = 10"

definition execcmd :: "'w cmd" where "execcmd = EXEC []"
definition redircmd :: "'w cmd \<Rightarrow> 'w \<Rightarrow> int \<Rightarrow> int \<Rightarrow> 'w cmd" where "redircmd subcmd file mode fd = REDIR subcmd file mode fd"
definition pipecmd :: "'w cmd \<Rightarrow> 'w cmd \<Rightarrow> 'w cmd" where "pipecmd left right = PIPE left right"
definition listcmd :: "'w cmd \<Rightarrow> 'w cmd \<Rightarrow> 'w cmd" where "listcmd left right = LIST left right"
definition backcmd :: "'w cmd \<Rightarrow> 'w cmd" where "backcmd subcmd = BACK subcmd"

lemmas cmd_defs = execcmd_def redircmd_def pipecmd_def listcmd_def backcmd_def

section \<open>Parser\<close>

lemma skip_while_ge: "s \<le> skip_while P b es s"
  by (induction P b es s rule: skip_while.induct) (subst skip_while.simps, auto)

lemma byte_in: "byte b i \<noteq> NUL \<Longrightarrow> i < length b"
  by (auto simp: byte_def split: if_splits)

lemma skip_while_le: "s \<le> es \<Longrightarrow> skip_while P b es s \<le> es"
  by (induction P b es s rule: skip_while.induct) (subst skip_while.simps, auto)

lemma skip_while_id: "\<not> P (byte b s) \<Longrightarrow> skip_while P b es s = s"
  by (subst skip_while.simps) simp

lemma skip_while_stop: "skip_while P b es s < es \<Longrightarrow> \<not> P (byte b (skip_while P b es s))"
proof (induction P b es s rule: skip_while.induct)
  case (1 P b es s)
  show ?case
  proof (cases "s < es \<and> P (byte b s)")
    case True
    then have "skip_while P b es s = skip_while P b es (s + 1)" by (subst skip_while.simps) simp
    then show ?thesis using 1 True by simp
  next
    case False
    then have "skip_while P b es s = s" by (subst skip_while.simps) auto
    then show ?thesis using 1(2) False by simp
  qed
qed

lemma peek_ge: "peek b es toks ps = (r, ps') \<Longrightarrow> ps \<le> ps'"
  using skip_while_ge by (auto simp: peek_def Let_def)

lemma gettoken_sym:
  assumes "byte b s \<in> set symbols" "gettoken b es s = (tok, w, ps')"
  shows "s < ps'" "s < length b"
proof -
  have nn: "byte b s \<noteq> NUL" "\<not> strchr whitespace (byte b s)"
    using assms(1) by (auto simp: symbols_def strchr_def whitespace_def)
  then show "s < length b" by (rule_tac byte_in)
  have ge: "k \<le> skip_while P b es k" for P k by (rule skip_while_ge)
  show "s < ps'" using assms nn(1) ge [of "s + 1" "strchr whitespace"] ge [of "s + 2" "strchr whitespace"]
    by (auto simp: gettoken_def Let_def skip_while_id [of "strchr whitespace", OF nn(2)] symbols_def split: if_splits)
qed

lemma peek_hit: "peek b es toks ps = (True, ps') \<Longrightarrow> byte b ps' \<in> set toks"
  by (auto simp: peek_def Let_def strchr_def)

function parseredirs :: "string \<Rightarrow> nat \<Rightarrow> (nat \<times> nat) cmd \<Rightarrow> nat \<Rightarrow> ((nat \<times> nat) cmd \<times> nat) res" where
  "parseredirs b es cmd ps =
     (case peek b es ''<>'' ps of (more, ps) \<Rightarrow>
      if \<not> more then Ok (cmd, ps)
      else case gettoken b es ps of (tok, _, ps) \<Rightarrow>
        case gettoken b es ps of (tok', w, ps) \<Rightarrow>
        if tok' \<noteq> CHR ''a'' then Panic ''missing file for redirection''
        else if tok = CHR ''<'' then parseredirs b es (redircmd cmd w O_RDONLY 0) ps
        else if tok = CHR ''>'' then parseredirs b es (redircmd cmd w (O_WRONLY OR O_CREATE OR O_TRUNC) 1) ps
        else if tok = CHR ''+'' then parseredirs b es (redircmd cmd w (O_WRONLY OR O_CREATE) 1) ps
        else parseredirs b es cmd ps)"
  by pat_completeness auto

lemma gettoken_ge:
  assumes "gettoken b es ps = (tok, w, ps')"
  shows "ps \<le> ps'"
proof -
  let ?s = "skip_while (strchr whitespace) b es ps"
  have a: "ps \<le> ?s" by (rule skip_while_ge)
  have b: "ps \<le> skip_while P b es k" if "?s \<le> k" for P k
    using that a skip_while_ge [of k] le_trans by blast
  show ?thesis using assms skip_while_ge [of ?s] by (auto simp: gettoken_def Let_def split: if_splits intro: b)
qed

lemma redirs_progress:
  assumes "(True, p1) = peek b es ''<>'' ps" "(tok, w, p2) = gettoken b es p1" "(tok', w', p3) = gettoken b es p2"
  shows "length b - p3 < length b - ps"
proof -
  have "byte b p1 \<in> set symbols" using peek_hit [OF assms(1) [symmetric]] by (auto simp: symbols_def)
  then have "p1 < p2" "p1 < length b" using gettoken_sym [OF _ assms(2) [symmetric]] by blast+
  moreover have "ps \<le> p1" "p2 \<le> p3" using peek_ge [OF assms(1) [symmetric]] gettoken_ge [OF assms(3) [symmetric]] by blast+
  ultimately show ?thesis by linarith
qed

termination parseredirs
  by (relation "measure (\<lambda>(b, es, cmd, ps). length b - ps)") (auto intro: redirs_progress)

declare parseredirs.simps [simp del]

text \<open>\<open>parseexec\<close> keeps two pointers, \<open>ret\<close> to the command with its redirections and \<open>cmd\<close> to the \<open>execcmd\<close> at the
  bottom of it, whose argument vector it fills; \<open>push_arg\<close> is the store through \<open>cmd\<close>.\<close>

primrec push_arg :: "'w \<Rightarrow> 'w cmd \<Rightarrow> 'w cmd" where
  "push_arg w (EXEC argv) = EXEC (argv @ [w])"
| "push_arg w (REDIR c file mode fd) = REDIR (push_arg w c) file mode fd"
| "push_arg w (PIPE l r) = PIPE l r"
| "push_arg w (LIST l r) = LIST l r"
| "push_arg w (BACK c) = BACK c"

function parseargs :: "string \<Rightarrow> nat \<Rightarrow> nat \<Rightarrow> (nat \<times> nat) cmd \<Rightarrow> nat \<Rightarrow> ((nat \<times> nat) cmd \<times> nat) res" where
  "parseargs b es argc ret ps =
     (case peek b es ''|)&;'' ps of (stop, ps) \<Rightarrow>
      if stop then Ok (ret, ps)
      else case gettoken b es ps of (tok, w, ps) \<Rightarrow>
        if tok = NUL then Ok (ret, ps)
        else if tok \<noteq> CHR ''a'' then Panic ''syntax''
        else if argc + 1 \<ge> MAXARGS then Panic ''too many args''
        else bindr (parseredirs b es (push_arg w ret) ps) (\<lambda>(ret, ps). parseargs b es (argc + 1) ret ps))"
  by pat_completeness auto
termination
  by (relation "measure (\<lambda>(b, es, argc, ret, ps). MAXARGS - argc)") auto

declare parseargs.simps [simp del]

function back_loop :: "string \<Rightarrow> nat \<Rightarrow> (nat \<times> nat) cmd \<Rightarrow> nat \<Rightarrow> (nat \<times> nat) cmd \<times> nat" where
  "back_loop b es cmd ps =
     (case peek b es ''&'' ps of (more, ps) \<Rightarrow>
      if more then (case gettoken b es ps of (_, _, ps) \<Rightarrow> back_loop b es (backcmd cmd) ps) else (cmd, ps))"
  by pat_completeness auto

lemma sym_progress:
  assumes "(True, p1) = peek b es toks ps" "(tok, w, p2) = gettoken b es p1" "set toks \<subseteq> set symbols"
  shows "length b - p2 < length b - ps" "ps < p2" "ps < length b"
proof -
  have "byte b p1 \<in> set symbols" using peek_hit [OF assms(1) [symmetric]] assms(3) by blast
  then have "p1 < p2" "p1 < length b" using gettoken_sym [OF _ assms(2) [symmetric]] by blast+
  moreover have "ps \<le> p1" using peek_ge [OF assms(1) [symmetric]] .
  ultimately show "length b - p2 < length b - ps" "ps < p2" "ps < length b" by linarith+
qed

termination back_loop
  by (relation "measure (\<lambda>(b, es, cmd, ps). length b - ps)") (auto intro: sym_progress(1) simp: symbols_def)

declare back_loop.simps [simp del]

text \<open>The mutually recursive functions run on fuel, the depth of the recursion; \<open>None\<close> is running out of it.\<close>

type_synonym parse = "((nat \<times> nat) cmd \<times> nat) res option"

definition andthen :: "'a res option \<Rightarrow> ('a \<Rightarrow> 'b res option) \<Rightarrow> 'b res option" where
  "andthen m f = (case m of None \<Rightarrow> None | Some (Panic e) \<Rightarrow> Some (Panic e) | Some (Ok x) \<Rightarrow> f x)"

function (sequential) parseline :: "nat \<Rightarrow> string \<Rightarrow> nat \<Rightarrow> nat \<Rightarrow> parse"
  and parsepipe :: "nat \<Rightarrow> string \<Rightarrow> nat \<Rightarrow> nat \<Rightarrow> parse"
  and parseexec :: "nat \<Rightarrow> string \<Rightarrow> nat \<Rightarrow> nat \<Rightarrow> parse"
  and parseblock :: "nat \<Rightarrow> string \<Rightarrow> nat \<Rightarrow> nat \<Rightarrow> parse" where
  "parseline 0 b es ps = None"
| "parseline (Suc n) b es ps =
     andthen (parsepipe n b es ps) (\<lambda>(cmd, ps).
     case back_loop b es cmd ps of (cmd, ps) \<Rightarrow>
     case peek b es '';'' ps of (more, ps) \<Rightarrow>
     if more then
       case gettoken b es ps of (_, _, ps) \<Rightarrow>
       andthen (parseline n b es ps) (\<lambda>(right, ps). Some (Ok (listcmd cmd right, ps)))
     else Some (Ok (cmd, ps)))"
| "parsepipe 0 b es ps = None"
| "parsepipe (Suc n) b es ps =
     andthen (parseexec n b es ps) (\<lambda>(cmd, ps).
     case peek b es ''|'' ps of (more, ps) \<Rightarrow>
     if more then
       case gettoken b es ps of (_, _, ps) \<Rightarrow>
       andthen (parsepipe n b es ps) (\<lambda>(right, ps). Some (Ok (pipecmd cmd right, ps)))
     else Some (Ok (cmd, ps)))"
| "parseexec 0 b es ps = None"
| "parseexec (Suc n) b es ps =
     (case peek b es ''('' ps of (block, ps) \<Rightarrow>
      if block then parseblock n b es ps
      else Some (bindr (parseredirs b es execcmd ps) (\<lambda>(ret, ps). parseargs b es 0 ret ps)))"
| "parseblock 0 b es ps = None"
| "parseblock (Suc n) b es ps =
     (case peek b es ''('' ps of (ok, ps) \<Rightarrow>
      if \<not> ok then Some (Panic ''parseblock'')
      else case gettoken b es ps of (_, _, ps) \<Rightarrow>
        andthen (parseline n b es ps) (\<lambda>(cmd, ps).
        case peek b es '')'' ps of (ok, ps) \<Rightarrow>
        if \<not> ok then Some (Panic ''syntax - missing )'')
        else case gettoken b es ps of (_, _, ps) \<Rightarrow> Some (parseredirs b es cmd ps)))"
  by pat_completeness simp_all
termination
  by (relation "measure (\<lambda>x. case x of Inl (Inl (n, _)) \<Rightarrow> n | Inl (Inr (n, _)) \<Rightarrow> n | Inr (Inl (n, _)) \<Rightarrow> n | Inr (Inr (n, _)) \<Rightarrow> n)") simp_all

text \<open>Writes a null byte after every counted string.\<close>

primrec nulterminate :: "(nat \<times> nat) cmd \<Rightarrow> string \<Rightarrow> string" where
  "nulterminate (EXEC argv) b = foldl (\<lambda>b w. b[snd w := NUL]) b argv"
| "nulterminate (REDIR c w mode fd) b = (nulterminate c b)[snd w := NUL]"
| "nulterminate (PIPE l r) b = nulterminate r (nulterminate l b)"
| "nulterminate (LIST l r) b = nulterminate r (nulterminate l b)"
| "nulterminate (BACK c) b = nulterminate c b"

definition parse_fuel :: "string \<Rightarrow> nat" where
  "parse_fuel b = 4 * length b + 4"

definition parsecmd :: "string \<Rightarrow> ((nat \<times> nat) cmd \<times> string) res option" where
  "parsecmd b =
     (let es = text_len b
      in andthen (parseline (parse_fuel b) b es 0) (\<lambda>(cmd, s).
         case peek b es [] s of (_, s) \<Rightarrow>
         if s \<noteq> es then Some (Panic ''syntax'')
         else Some (Ok (cmd, nulterminate cmd b))))"

section \<open>Running commands\<close>

text \<open>A program as the tree of its system calls: the node is the call with its arguments, the branches are what the
  program does for each result. \<open>Exec\<close> continues only when the call fails; \<open>Pipe\<close> returns its status and the two
  descriptors it stored.\<close>

datatype prog =
  Exit int
| Exec string "string list" prog
| Close int prog
| Open string int "int \<Rightarrow> prog"
| Dup int prog
| Pipe "int \<Rightarrow> int \<Rightarrow> int \<Rightarrow> prog"
| Fork "int \<Rightarrow> prog"
| Wait prog
| Print int string prog

abbreviation newline :: string where "newline \<equiv> [CHR 0x0A]"

definition panic :: "string \<Rightarrow> prog" where
  "panic s = Print 2 (s @ newline) (Exit 1)"

definition fork1 :: "(int \<Rightarrow> prog) \<Rightarrow> prog" where
  "fork1 k = Fork (\<lambda>pid. if pid = -1 then panic ''fork'' else k pid)"

primrec runcmd :: "string cmd \<Rightarrow> prog" where
  "runcmd (EXEC argv) =
     (case argv of [] \<Rightarrow> Exit 1
      | arg0 # _ \<Rightarrow> Exec arg0 argv (Print 2 (''exec '' @ arg0 @ '' failed'' @ newline) (Exit 0)))"
| "runcmd (REDIR c file mode fd) =
     Close fd (Open file mode (\<lambda>r.
       if r < 0 then Print 2 (''open '' @ file @ '' failed'' @ newline) (Exit 1)
       else runcmd c))"
| "runcmd (LIST left right) = fork1 (\<lambda>pid. if pid = 0 then runcmd left else Wait (runcmd right))"
| "runcmd (PIPE left right) =
     Pipe (\<lambda>r p0 p1.
       if r < 0 then panic ''pipe''
       else fork1 (\<lambda>pid.
         if pid = 0 then Close 1 (Dup p1 (Close p0 (Close p1 (runcmd left))))
         else fork1 (\<lambda>pid.
           if pid = 0 then Close 0 (Dup p0 (Close p0 (Close p1 (runcmd right))))
           else Close p0 (Close p1 (Wait (Wait (Exit 0)))))))"
| "runcmd (BACK c) = fork1 (\<lambda>pid. if pid = 0 then runcmd c else Exit 0)"

text \<open>\<open>gets\<close> on the bytes that reads of the console will return, an empty list being the end of input; it stores at
  most \<open>n - 1\<close> bytes and the null byte. What is left of the input comes with the line.\<close>

fun gets :: "string \<Rightarrow> nat \<Rightarrow> string \<times> string" where
  "gets [] n = ([], [])"
| "gets (c # inp) n =
     (if n \<le> 1 then ([], c # inp)
      else if c = CHR 0x0A \<or> c = CHR 0x0D then ([c], inp)
      else case gets inp (n - 1) of (l, inp) \<Rightarrow> (c # l, inp))"

definition getcmd :: "string \<Rightarrow> nat \<Rightarrow> int \<times> string \<times> string" where
  "getcmd inp nbuf = (case gets inp nbuf of (buf, inp) \<Rightarrow> (if byte buf 0 = NUL then -1 else 0, buf, inp))"

text \<open>What the loop of \<open>main\<close> does with a line: nothing, \<open>chdir\<close> in the shell itself, or parse and run in a child.\<close>

datatype line_action = Blank | Chdir string | Run string

definition line_action :: "string \<Rightarrow> line_action" where
  "line_action buf =
     (let cmd = dropWhile (\<lambda>c. c = CHR '' '' \<or> c = CHR 0x09) buf
      in if byte cmd 0 = CHR 0x0A then Blank
         else if byte cmd 0 = CHR ''c'' \<and> byte cmd 1 = CHR ''d'' \<and> byte cmd 2 = CHR '' '' then
           Chdir (drop 3 (cmd[text_len cmd - 1 := NUL]))
         else Run cmd)"

lemma gets_bound: "length (fst (gets inp n)) \<le> n - 1"
  by (induction inp n rule: gets.induct) (auto split: prod.split)

lemma gets_prefix: "fst (gets inp n) @ snd (gets inp n) = inp"
  by (induction inp n rule: gets.induct) (auto split: prod.splits)

section \<open>Every counted string is a word of the text\<close>

definition delim :: "char \<Rightarrow> bool" where
  "delim c \<longleftrightarrow> strchr whitespace c \<or> strchr symbols c"

definition word_ok :: "string \<Rightarrow> nat \<Rightarrow> nat \<times> nat \<Rightarrow> bool" where
  "word_ok b es w \<longleftrightarrow> fst w < snd w \<and> snd w \<le> es \<and> (\<forall>i. fst w \<le> i \<and> i < snd w \<longrightarrow> \<not> delim (byte b i)) \<and>
     (snd w = es \<or> delim (byte b (snd w)))"

definition redir_ok :: "int \<Rightarrow> int \<Rightarrow> bool" where
  "redir_ok mode fd \<longleftrightarrow> (mode, fd) \<in>
     {(O_RDONLY, 0), (O_WRONLY OR O_CREATE OR O_TRUNC, 1), (O_WRONLY OR O_CREATE, 1)}"

text \<open>Every counted string satisfies \<open>W\<close>, every argument vector leaves room for its null pointer, and every
  redirection opens its file in one of the three modes of the syntax.\<close>

primrec cmd_ok :: "('w \<Rightarrow> bool) \<Rightarrow> 'w cmd \<Rightarrow> bool" where
  "cmd_ok W (EXEC argv) \<longleftrightarrow> length argv < MAXARGS \<and> (\<forall>w \<in> set argv. W w)"
| "cmd_ok W (REDIR c w mode fd) \<longleftrightarrow> cmd_ok W c \<and> W w \<and> redir_ok mode fd"
| "cmd_ok W (PIPE l r) \<longleftrightarrow> cmd_ok W l \<and> cmd_ok W r"
| "cmd_ok W (LIST l r) \<longleftrightarrow> cmd_ok W l \<and> cmd_ok W r"
| "cmd_ok W (BACK c) \<longleftrightarrow> cmd_ok W c"

text \<open>An \<open>execcmd\<close> with \<open>k\<close> arguments under redirections.\<close>

primrec simple :: "nat \<Rightarrow> 'w cmd \<Rightarrow> bool" where
  "simple k (EXEC argv) \<longleftrightarrow> length argv = k"
| "simple k (REDIR c w mode fd) \<longleftrightarrow> simple k c"
| "simple k (PIPE l r) \<longleftrightarrow> False"
| "simple k (LIST l r) \<longleftrightarrow> False"
| "simple k (BACK c) \<longleftrightarrow> False"

lemma push_arg_ok:
  assumes "simple k c" "cmd_ok W c" "W w" "k + 1 < MAXARGS"
  shows "simple (k + 1) (push_arg w c)" "cmd_ok W (push_arg w c)"
  using assms(1,2) by (induction c) (use assms(3,4) in auto)

lemma text_len_le: "text_len b \<le> length b"
  by (simp add: text_len_def length_takeWhile_le)

lemma byte_strlen: "byte b (text_len b) = NUL"
  using nth_length_takeWhile [of "\<lambda>c. c \<noteq> NUL" b] by (auto simp: byte_def text_len_def)

lemma byte_text: "i < text_len b \<Longrightarrow> byte b i \<noteq> NUL"
  using nth_mem [of i "takeWhile (\<lambda>c. c \<noteq> NUL) b"] set_takeWhileD [of "b ! i" "\<lambda>c. c \<noteq> NUL" b]
    text_len_le [of b]
  by (auto simp: byte_def text_len_def takeWhile_nth)

lemma in_text: "byte b i \<noteq> NUL \<Longrightarrow> i \<le> text_len b \<Longrightarrow> i < text_len b"
  using byte_strlen by (cases "i = text_len b") auto

lemma skip_while_all: "s \<le> i \<Longrightarrow> i < skip_while P b es s \<Longrightarrow> P (byte b i)"
proof (induction P b es s rule: skip_while.induct)
  case (1 P b es s)
  show ?case
  proof (cases "s < es \<and> P (byte b s)")
    case True
    then have "skip_while P b es s = skip_while P b es (s + 1)" by (subst skip_while.simps) simp
    then show ?thesis using 1 True by (cases "i = s") auto
  next
    case False
    then have "skip_while P b es s = s" by (subst skip_while.simps) auto
    then show ?thesis using 1(2,3) by simp
  qed
qed

lemma peek_ok:
  assumes "peek b (text_len b) toks ps = (r, ps')" "ps \<le> text_len b"
  shows "ps \<le> ps'" "ps' \<le> text_len b"
  using assms skip_while_ge skip_while_le by (auto simp: peek_def Let_def)

lemma word_end:
  assumes q: "q < text_len b" "\<not> delim (byte b q)"
  shows "word_ok b (text_len b) (q, skip_while (\<lambda>c. \<not> strchr whitespace c \<and> \<not> strchr symbols c) b (text_len b) q)"
    (is "word_ok b _ (q, skip_while ?P b _ q)")
proof -
  let ?e = "skip_while ?P b (text_len b) q"
  have P: "?P = (\<lambda>c. \<not> delim c)" by (auto simp: delim_def)
  have "?e = skip_while ?P b (text_len b) (q + 1)" using q by (subst skip_while.simps) (simp add: delim_def)
  then have "q < ?e" using skip_while_ge [of "q + 1" ?P b "text_len b"] by simp
  moreover have "?e \<le> text_len b" using skip_while_le q(1) by simp
  moreover have "\<not> delim (byte b i)" if "q \<le> i" "i < ?e" for i
    using skip_while_all [OF that] by (simp add: delim_def)
  moreover have "delim (byte b ?e)" if "?e < text_len b"
    using skip_while_stop [OF that] by (auto simp: delim_def)
  ultimately show ?thesis unfolding word_ok_def by fastforce
qed

lemma gettoken_ok:
  assumes g: "gettoken b (text_len b) ps = (tok, w, ps')" and ps: "ps \<le> text_len b"
  shows "ps \<le> ps'" "ps' \<le> text_len b" "tok = CHR ''a'' \<Longrightarrow> word_ok b (text_len b) w"
proof -
  let ?ws = "strchr whitespace"
  let ?s = "skip_while ?ws b (text_len b) ps"
  show "ps \<le> ps'" by (rule gettoken_ge [OF g])
  have s: "?s \<le> text_len b" using skip_while_le ps by blast
  have nws: "\<not> ?ws (byte b ?s)" if "byte b ?s \<noteq> NUL"
    using skip_while_stop in_text [OF that s] by blast
  have lt: "?s < text_len b" if "byte b ?s \<noteq> NUL" using in_text [OF that s] .
  have lt2: "?s + 1 < text_len b" if "byte b ?s \<noteq> NUL" "byte b (?s + 1) \<noteq> NUL"
    using in_text [OF that(2)] lt [OF that(1)] by simp
  have sk: "skip_while P b (text_len b) k \<le> text_len b" if "k \<le> text_len b" for P k using skip_while_le that by blast
  show "ps' \<le> text_len b"
    using g s lt lt2 ps by (auto simp: gettoken_def Let_def split: if_splits intro!: sk)
  show "word_ok b (text_len b) w" if "tok = CHR ''a''"
  proof -
    have c: "byte b ?s \<noteq> NUL" "byte b ?s \<notin> set symbols"
      and w: "w = (?s, skip_while (\<lambda>c. \<not> strchr whitespace c \<and> \<not> strchr symbols c) b (text_len b) ?s)"
      using g that by (auto simp: gettoken_def Let_def symbols_def split: if_splits)
    show ?thesis unfolding w using c nws lt by (intro word_end) (auto simp: delim_def strchr_def)
  qed
qed

lemma parseredirs_inv:
  assumes "parseredirs b (text_len b) cmd ps = Ok (c', ps')" "ps \<le> text_len b" "Q cmd"
    and Q: "\<And>c w m f. Q c \<Longrightarrow> word_ok b (text_len b) w \<Longrightarrow> redir_ok m f \<Longrightarrow> Q (REDIR c w m f)"
  shows "Q c' \<and> ps \<le> ps' \<and> ps' \<le> text_len b"
  using assms(1-3)
proof (induction "length b - ps" arbitrary: cmd ps rule: less_induct)
  case less
  obtain more p1 where p: "peek b (text_len b) ''<>'' ps = (more, p1)" by fastforce
  obtain tok w1 p2 where t: "gettoken b (text_len b) p1 = (tok, w1, p2)" by (metis surj_pair)
  obtain tok' w2 p3 where t': "gettoken b (text_len b) p2 = (tok', w2, p3)" by (metis surj_pair)
  note pk = peek_ok [OF p less.prems(2)]
  note g1 = gettoken_ok [OF t pk(2)]
  note g2 = gettoken_ok [OF t' g1(2)]
  show ?case
  proof (cases more)
    case False
    then show ?thesis using less.prems p pk by (simp add: parseredirs.simps [of b _ _ ps])
  next
    case True
    have a: "tok' = CHR ''a''" using less.prems(1) p t t' True
      by (auto simp: parseredirs.simps [of b _ _ ps] split: if_splits)
    have dec: "length b - p3 < length b - ps"
      using redirs_progress [of p1 b "text_len b" ps tok w1 p2 tok' w2 p3] p t t' True by simp
    have "\<exists>c2. parseredirs b (text_len b) c2 p3 = Ok (c', ps') \<and> Q c2"
      using less.prems(1,3) p t t' True a Q [OF _ g2(3) [OF a]]
      by (auto simp: parseredirs.simps [of b _ _ ps] redircmd_def redir_ok_def split: if_splits)
    then obtain c2 where "parseredirs b (text_len b) c2 p3 = Ok (c', ps')" "Q c2" by blast
    from less.hyps [OF dec this(1) g2(2) this(2)] show ?thesis using pk g1 g2 by linarith
  qed
qed

lemma parseargs_inv:
  assumes "parseargs b (text_len b) argc ret ps = Ok (c', ps')" "ps \<le> text_len b"
    "simple argc ret" "cmd_ok (word_ok b (text_len b)) ret"
  shows "cmd_ok (word_ok b (text_len b)) c' \<and> ps \<le> ps' \<and> ps' \<le> text_len b"
  using assms
proof (induction "MAXARGS - argc" arbitrary: argc ret ps rule: less_induct)
  case less
  let ?W = "word_ok b (text_len b)"
  obtain stop p1 where p: "peek b (text_len b) ''|)&;'' ps = (stop, p1)" by fastforce
  obtain tok w p2 where t: "gettoken b (text_len b) p1 = (tok, w, p2)" by (metis surj_pair)
  note pk = peek_ok [OF p less.prems(2)]
  note g = gettoken_ok [OF t pk(2)]
  show ?case
  proof (cases "stop \<or> tok = NUL")
    case True
    then show ?thesis using less.prems p t pk g by (auto simp: parseargs.simps [of b _ _ _ ps] split: if_splits)
  next
    case False
    then have a: "tok = CHR ''a''" "argc + 1 < MAXARGS"
      using less.prems(1) p t by (auto simp: parseargs.simps [of b _ _ _ ps] split: if_splits)
    then obtain r2 p3 where r: "parseredirs b (text_len b) (push_arg w ret) p2 = Ok (r2, p3)"
      and rec: "parseargs b (text_len b) (argc + 1) r2 p3 = Ok (c', ps')"
      using less.prems(1) p t False
      by (cases "parseredirs b (text_len b) (push_arg w ret) p2") (auto simp: parseargs.simps [of b _ _ _ ps])
    note po = push_arg_ok [OF less.prems(3,4) g(3) [OF a(1)] a(2)]
    have i: "(simple (argc + 1) r2 \<and> cmd_ok ?W r2) \<and> p2 \<le> p3 \<and> p3 \<le> text_len b"
      by (rule parseredirs_inv [OF r g(2), where Q = "\<lambda>c. simple (argc + 1) c \<and> cmd_ok ?W c"]) (use po in simp_all)
    have "MAXARGS - (argc + 1) < MAXARGS - argc" using a(2) by simp
    from less.hyps [OF this rec] show ?thesis using i pk g by auto
  qed
qed

lemma back_loop_inv:
  assumes "back_loop b (text_len b) cmd ps = (c', ps')" "ps \<le> text_len b" "cmd_ok W cmd"
  shows "cmd_ok W c' \<and> ps \<le> ps' \<and> ps' \<le> text_len b"
  using assms
proof (induction "length b - ps" arbitrary: cmd ps rule: less_induct)
  case less
  obtain more p1 where p: "peek b (text_len b) ''&'' ps = (more, p1)" by fastforce
  obtain tok w p2 where t: "gettoken b (text_len b) p1 = (tok, w, p2)" by (metis surj_pair)
  note pk = peek_ok [OF p less.prems(2)]
  note g = gettoken_ok [OF t pk(2)]
  show ?case
  proof (cases more)
    case True
    have dec: "length b - p2 < length b - ps"
      by (rule sym_progress(1) [of p1 b "text_len b" "''&''" ps tok w]) (use p t True in \<open>simp_all add: symbols_def\<close>)
    have "back_loop b (text_len b) (BACK cmd) p2 = (c', ps')"
      using less.prems(1) p t True by (simp add: back_loop.simps [of b _ _ ps] backcmd_def)
    from less.hyps [OF dec this g(2)] show ?thesis using less.prems(3) pk g by simp
  next
    case False
    then show ?thesis using less.prems p pk by (simp add: back_loop.simps [of b _ _ ps])
  qed
qed

text \<open>The outcome of a parser at \<open>ps\<close>: it has returned, and what it built is well-formed.\<close>

definition good :: "string \<Rightarrow> nat \<Rightarrow> parse \<Rightarrow> bool" where
  "good b ps r \<longleftrightarrow> r \<noteq> None \<and>
     (\<forall>c ps'. r = Some (Ok (c, ps')) \<longrightarrow> cmd_ok (word_ok b (text_len b)) c \<and> ps \<le> ps' \<and> ps' \<le> text_len b)"

lemma good_andthen:
  assumes "good b ps m"
    and "\<And>c p. cmd_ok (word_ok b (text_len b)) c \<Longrightarrow> ps \<le> p \<Longrightarrow> p \<le> text_len b \<Longrightarrow> good b ps (f (c, p))"
  shows "good b ps (andthen m f)"
  using assms by (auto simp: good_def andthen_def split: option.splits res.splits)

lemma good_weaken: "good b p r \<Longrightarrow> ps \<le> p \<Longrightarrow> good b ps r"
  by (auto simp: good_def)

lemma good_redirs:
  assumes "cmd_ok (word_ok b (text_len b)) c" "ps \<le> p" "p \<le> text_len b"
  shows "good b ps (Some (parseredirs b (text_len b) c p))"
  using parseredirs_inv [of b c p _ _ "cmd_ok (word_ok b (text_len b))"] assms
  by (auto simp: good_def)

lemma good_exec:
  assumes "p \<le> text_len b"
  shows "good b p (Some (bindr (parseredirs b (text_len b) execcmd p) (\<lambda>(ret, ps). parseargs b (text_len b) 0 ret ps)))"
proof (cases "parseredirs b (text_len b) execcmd p")
  case (Ok x)
  obtain r p2 where x: "x = (r, p2)" by fastforce
  let ?W = "word_ok b (text_len b)"
  have "(simple 0 r \<and> cmd_ok ?W r) \<and> p \<le> p2 \<and> p2 \<le> text_len b"
    by (rule parseredirs_inv [OF Ok [unfolded x] assms, where Q = "\<lambda>c. simple 0 c \<and> cmd_ok ?W c"])
      (simp_all add: execcmd_def MAXARGS_def)
  then show ?thesis using parseargs_inv [of b 0 r p2] by (auto simp: good_def Ok x)
qed (simp add: good_def)

lemma good_line:
  assumes "ps \<le> text_len b" and n: "4 * (length b - ps) + 4 \<le> Suc n"
    and line: "\<And>p. p \<le> text_len b \<Longrightarrow> 4 * (length b - p) + 4 \<le> n \<Longrightarrow> good b p (parseline n b (text_len b) p)"
    and pipe: "\<And>p. p \<le> text_len b \<Longrightarrow> 4 * (length b - p) + 3 \<le> n \<Longrightarrow> good b p (parsepipe n b (text_len b) p)"
  shows "good b ps (parseline (Suc n) b (text_len b) ps)"
  unfolding parseline.simps
proof (rule good_andthen [OF pipe [OF assms(1)]], use n in simp, clarify)
  let ?es = "text_len b"
  fix c p assume c: "cmd_ok (word_ok b ?es) c" "ps \<le> p" "p \<le> ?es"
  obtain c1 p1 where bl: "back_loop b ?es c p = (c1, p1)" by fastforce
  obtain more p2 where pk: "peek b ?es '';'' p1 = (more, p2)" by fastforce
  obtain tok w p3 where t: "gettoken b ?es p2 = (tok, w, p3)" by (metis surj_pair)
  note b1 = back_loop_inv [OF bl c(3,1)] and b2 = peek_ok [OF pk] and b3 = gettoken_ok [OF t]
  have "good b ps (andthen (parseline n b ?es p3) (\<lambda>(right, ps). Some (Ok (listcmd c1 right, ps))))" if more
  proof (rule good_andthen, rule good_weaken [OF line])
    have "p1 < p3" "p1 < length b"
      using sym_progress [of p2 b ?es "'';''" p1 tok w p3] pk t that by (simp_all add: symbols_def)
    then show "4 * (length b - p3) + 4 \<le> n" using n b1 c(2) by linarith
  qed (use b1 b2 b3 c in \<open>auto simp: good_def listcmd_def\<close>)
  then show "good b ps (case back_loop b ?es c p of (cmd, ps) \<Rightarrow> case peek b ?es '';'' ps of (more, ps) \<Rightarrow>
     if more then case gettoken b ?es ps of (_, _, ps) \<Rightarrow>
       andthen (parseline n b ?es ps) (\<lambda>(right, ps). Some (Ok (listcmd cmd right, ps)))
     else Some (Ok (cmd, ps)))"
    using b1 b2 c by (simp add: bl pk t) (simp add: good_def)
qed

lemma good_pipe:
  assumes "ps \<le> text_len b" and n: "4 * (length b - ps) + 3 \<le> Suc n"
    and pipe: "\<And>p. p \<le> text_len b \<Longrightarrow> 4 * (length b - p) + 3 \<le> n \<Longrightarrow> good b p (parsepipe n b (text_len b) p)"
    and exec: "\<And>p. p \<le> text_len b \<Longrightarrow> 4 * (length b - p) + 2 \<le> n \<Longrightarrow> good b p (parseexec n b (text_len b) p)"
  shows "good b ps (parsepipe (Suc n) b (text_len b) ps)"
  unfolding parsepipe.simps
proof (rule good_andthen [OF exec [OF assms(1)]], use n in simp, clarify)
  let ?es = "text_len b"
  fix c p assume c: "cmd_ok (word_ok b ?es) c" "ps \<le> p" "p \<le> ?es"
  obtain more p2 where pk: "peek b ?es ''|'' p = (more, p2)" by fastforce
  obtain tok w p3 where t: "gettoken b ?es p2 = (tok, w, p3)" by (metis surj_pair)
  note b2 = peek_ok [OF pk] and b3 = gettoken_ok [OF t]
  have "good b ps (andthen (parsepipe n b ?es p3) (\<lambda>(right, ps). Some (Ok (pipecmd c right, ps))))" if more
  proof (rule good_andthen, rule good_weaken [OF pipe])
    have "p < p3" "p < length b"
      using sym_progress [of p2 b ?es "''|''" p tok w p3] pk t that by (simp_all add: symbols_def)
    then show "4 * (length b - p3) + 3 \<le> n" using n c(2) by linarith
  qed (use b2 b3 c in \<open>auto simp: good_def pipecmd_def\<close>)
  then show "good b ps (case peek b ?es ''|'' p of (more, ps) \<Rightarrow>
     if more then case gettoken b ?es ps of (_, _, ps) \<Rightarrow>
       andthen (parsepipe n b ?es ps) (\<lambda>(right, ps). Some (Ok (pipecmd c right, ps)))
     else Some (Ok (c, ps)))"
    using b2 c by (simp add: pk t) (simp add: good_def)
qed

lemma good_block:
  assumes ps: "ps \<le> text_len b" and n: "4 * (length b - ps) + 1 \<le> Suc n"
    and line: "\<And>p. p \<le> text_len b \<Longrightarrow> 4 * (length b - p) + 4 \<le> n \<Longrightarrow> good b p (parseline n b (text_len b) p)"
  shows "good b ps (parseblock (Suc n) b (text_len b) ps)"
proof -
  let ?es = "text_len b"
  obtain more p2 where pk: "peek b ?es ''('' ps = (more, p2)" by fastforce
  obtain tok w p3 where t: "gettoken b ?es p2 = (tok, w, p3)" by (metis surj_pair)
  note b2 = peek_ok [OF pk ps] note b3 = gettoken_ok [OF t b2(2)]
  let ?rest = "\<lambda>(cmd, ps). case peek b ?es '')'' ps of (ok, ps) \<Rightarrow>
      if \<not> ok then Some (Panic ''syntax - missing )'')
      else case gettoken b ?es ps of (_, _, ps) \<Rightarrow> Some (parseredirs b ?es cmd ps)"
  have "good b ps (?rest (c, p))" if c: "cmd_ok (word_ok b ?es) c" "ps \<le> p" "p \<le> ?es" for c p
  proof -
    obtain ok p4 where k: "peek b ?es '')'' p = (ok, p4)" by fastforce
    obtain tok2 w2 p5 where t2: "gettoken b ?es p4 = (tok2, w2, p5)" by (metis surj_pair)
    note b4 = peek_ok [OF k c(3)] note b5 = gettoken_ok [OF t2 b4(2)]
    have "good b ps (Some (parseredirs b ?es c p5))" by (rule good_redirs [OF c(1)]) (use b4 b5 c in auto)
    then show ?thesis by (simp add: k t2) (simp add: good_def)
  qed
  moreover have "4 * (length b - p3) + 4 \<le> n" if more
    using sym_progress [of p2 b ?es "''(''" ps tok w p3] pk t that n by (simp add: symbols_def)
  ultimately have "good b ps (andthen (parseline n b ?es p3) ?rest)" if more
    using that b2 b3 by (intro good_andthen good_weaken [OF line]) auto
  then show ?thesis by (simp add: pk t) (simp add: good_def)
qed

lemma good_parseexec:
  assumes ps: "ps \<le> text_len b" and n: "4 * (length b - ps) + 2 \<le> Suc n"
    and block: "\<And>p. p \<le> text_len b \<Longrightarrow> 4 * (length b - p) + 1 \<le> n \<Longrightarrow> good b p (parseblock n b (text_len b) p)"
  shows "good b ps (parseexec (Suc n) b (text_len b) ps)"
proof -
  obtain more p2 where pk: "peek b (text_len b) ''('' ps = (more, p2)" by fastforce
  note b2 = peek_ok [OF pk ps]
  have "4 * (length b - p2) + 1 \<le> n" using n b2(1) by simp
  then show ?thesis
    using good_weaken [OF block [OF b2(2)] b2(1)] good_weaken [OF good_exec [OF b2(2)] b2(1)] by (simp add: pk)
qed

lemma good_parsers:
  shows "ps \<le> text_len b \<Longrightarrow> 4 * (length b - ps) + 4 \<le> n \<Longrightarrow> good b ps (parseline n b (text_len b) ps)"
    and "ps \<le> text_len b \<Longrightarrow> 4 * (length b - ps) + 3 \<le> n \<Longrightarrow> good b ps (parsepipe n b (text_len b) ps)"
    and "ps \<le> text_len b \<Longrightarrow> 4 * (length b - ps) + 2 \<le> n \<Longrightarrow> good b ps (parseexec n b (text_len b) ps)"
    and "ps \<le> text_len b \<Longrightarrow> 4 * (length b - ps) + 1 \<le> n \<Longrightarrow> good b ps (parseblock n b (text_len b) ps)"
proof (induction n arbitrary: ps)
  case (Suc n)
  { case 1 show ?case by (rule good_line [OF 1 Suc.IH(1,2)])
  next case 2 show ?case by (rule good_pipe [OF 2 Suc.IH(2,3)])
  next case 3 show ?case by (rule good_parseexec [OF 3 Suc.IH(4)])
  next case 4 show ?case by (rule good_block [OF 4 Suc.IH(1)]) }
qed simp_all

section \<open>The strings a command is run with\<close>

text \<open>The C string at an offset.\<close>

definition cstr :: "string \<Rightarrow> nat \<Rightarrow> string" where
  "cstr b q = takeWhile (\<lambda>c. c \<noteq> NUL) (drop q b)"

definition slice :: "string \<Rightarrow> nat \<times> nat \<Rightarrow> string" where
  "slice b w = take (snd w - fst w) (drop (fst w) b)"

lemma byte_update [simp]: "byte (b[k := NUL]) i = (if i = k then NUL else byte b i)"
  by (auto simp: byte_def nth_list_update)

lemma nulterminate_byte:
  "byte (nulterminate c b) i = (if i \<in> snd ` set_cmd c then NUL else byte b i)"
proof (induction c arbitrary: b)
  case (EXEC argv)
  have "byte (foldl (\<lambda>b w. b[snd w := NUL]) b argv) i = (if i \<in> snd ` set argv then NUL else byte b i)"
    by (induction argv arbitrary: b) auto
  then show ?case by simp
qed auto

lemma nulterminate_length [simp]: "length (nulterminate c b) = length b"
proof (induction c arbitrary: b)
  case (EXEC argv)
  have "length (foldl (\<lambda>b w. b[snd w := NUL]) b argv) = length b" by (induction argv arbitrary: b) auto
  then show ?case by simp
qed auto

lemma cmd_ok_set: "cmd_ok W c \<Longrightarrow> w \<in> set_cmd c \<Longrightarrow> W w"
  by (induction c) auto

lemma cstr_eq:
  assumes "q \<le> e" "e \<le> length b" "\<And>i. q \<le> i \<Longrightarrow> i < e \<Longrightarrow> byte b i \<noteq> NUL" "byte b e = NUL"
  shows "cstr b q = slice b (q, e)"
proof -
  have nz: "c \<noteq> NUL" if c: "c \<in> set (take (e - q) (drop q b))" for c
  proof -
    obtain k where "k < length (take (e - q) (drop q b))" "take (e - q) (drop q b) ! k = c"
      using c unfolding in_set_conv_nth by blast
    then show ?thesis using assms(3) [of "q + k"] assms(1,2) by (auto simp: byte_def)
  qed
  have "drop q b = take (e - q) (drop q b) @ drop e b"
    using assms(1) append_take_drop_id [of "e - q" "drop q b"] by (simp add: add.commute)
  moreover have "takeWhile (\<lambda>c. c \<noteq> NUL) (drop e b) = []"
    using assms(4) by (cases "drop e b") (auto simp: byte_def drop_eq_Nil nth_via_drop split: if_splits)
  moreover have "takeWhile (\<lambda>c. c \<noteq> NUL) (take (e - q) (drop q b) @ drop e b) =
      take (e - q) (drop q b) @ takeWhile (\<lambda>c. c \<noteq> NUL) (drop e b)"
    by (rule takeWhile_append2) (rule nz)
  ultimately show ?thesis unfolding cstr_def slice_def by simp
qed

lemma nulterminate_words:
  assumes ok: "cmd_ok (word_ok b (text_len b)) c" and w: "w \<in> set_cmd c"
  shows "cstr (nulterminate c b) (fst w) = slice b w"
proof -
  have ww: "word_ok b (text_len b) w" using cmd_ok_set [OF ok w] .
  have keep: "byte (nulterminate c b) i = byte b i" if "fst w \<le> i" "i < snd w" for i
  proof -
    have "i < text_len b" "\<not> delim (byte b i)" using that ww by (auto simp: word_ok_def)
    then have "i \<noteq> snd v" if "v \<in> set_cmd c" for v using cmd_ok_set [OF ok that] by (auto simp: word_ok_def)
    then show ?thesis by (auto simp: nulterminate_byte)
  qed
  have len: "snd w \<le> length b" using ww text_len_le [of b] by (simp add: word_ok_def)
  have "cstr (nulterminate c b) (fst w) = slice (nulterminate c b) (fst w, snd w)"
  proof (rule cstr_eq)
    show "byte (nulterminate c b) (snd w) = NUL" using w by (simp add: nulterminate_byte)
    show "byte (nulterminate c b) i \<noteq> NUL" if "fst w \<le> i" "i < snd w" for i
      using keep [OF that] byte_text [of i b] that ww by (auto simp: word_ok_def)
  qed (use ww len in \<open>auto simp: word_ok_def\<close>)
  also have "\<dots> = slice b w"
    unfolding slice_def using len keep by (intro nth_equalityI) (auto simp: byte_def)
  finally show ?thesis .
qed

lemma parsecmd_outcome:
  "parsecmd b \<noteq> None"
  "parsecmd b = Some (Ok (c, b')) \<Longrightarrow> b' = nulterminate c b \<and> cmd_ok (word_ok b (text_len b)) c"
proof -
  have g: "good b 0 (parseline (parse_fuel b) b (text_len b) 0)"
    using good_parsers(1) [of 0 b "parse_fuel b"] by (simp add: parse_fuel_def)
  show "parsecmd b \<noteq> None" using g by (auto simp: parsecmd_def Let_def good_def andthen_def split: res.splits prod.splits)
  show "b' = nulterminate c b \<and> cmd_ok (word_ok b (text_len b)) c" if "parsecmd b = Some (Ok (c, b'))"
    using g that
    by (auto simp: parsecmd_def Let_def good_def andthen_def split: option.splits res.splits prod.splits if_splits)
qed

section \<open>Properties\<close>

text \<open>C31: The parser returns on every input line: the fuel, four times the length of the line plus four, covers the
  recursion of \<open>parseline\<close>, \<open>parsepipe\<close>, \<open>parseexec\<close> and \<open>parseblock\<close> for any nesting of blocks and any chain
  of operators, and the loops over redirections, arguments and ampersands end. The outcome is a command or one of
  the six error exits.\<close>

theorem parsecmd_terminates: "\<exists>r. parsecmd b = Some r"
  using parsecmd_outcome(1) [of b] by blast

text \<open>What a parsed line is run with. When \<open>parsecmd\<close> returns a command, every string of it (argument or file
  name), read from the buffer as the C string left by \<open>nulterminate\<close>, is the stretch of the input line it was
  counted as: not empty, free of white space and operators, and ended by one of them or by the end of the line.
  Every argument vector leaves room for its null pointer and every redirection has one of the three modes.\<close>

theorem parsecmd_words:
  assumes "parsecmd b = Some (Ok (c, b'))"
  shows "cmd_ok (word_ok b (text_len b)) c \<and> (\<forall>w \<in> set_cmd c. cstr b' (fst w) = slice b w)"
  using parsecmd_outcome(2) [OF assms] nulterminate_words by blast

end
