(* ===== verification/Shell_Print.thy ===== *)
theory Shell_Print
  imports Shell
begin

text \<open>The shell's parser against a printer of command trees: every well-formed command tree has a text, and
  \<open>parsecmd\<close> of the text gives the tree back.\<close>

unbundle bit_operations_syntax

section \<open>Printing and parsing\<close>

text \<open>More fuel does not change the outcome of a parser.\<close>

lemma andthen_mono:
  assumes "andthen m f = Some r" "\<And>x. m = Some x \<Longrightarrow> m' = Some x" "\<And>x. f x = Some r \<Longrightarrow> f' x = Some r"
  shows "andthen m' f' = Some r"
  using assms by (auto simp: andthen_def split: option.splits res.splits)

lemmas parsers = parseline.simps parsepipe.simps parseexec.simps parseblock.simps

lemma fuel_Suc:
  "(\<forall>ps r. parseline n b es ps = Some r \<longrightarrow> parseline (Suc n) b es ps = Some r) \<and>
   (\<forall>ps r. parsepipe n b es ps = Some r \<longrightarrow> parsepipe (Suc n) b es ps = Some r) \<and>
   (\<forall>ps r. parseexec n b es ps = Some r \<longrightarrow> parseexec (Suc n) b es ps = Some r) \<and>
   (\<forall>ps r. parseblock n b es ps = Some r \<longrightarrow> parseblock (Suc n) b es ps = Some r)"
proof (induction n)
  case (Suc n)
  have L: "parseline (Suc n) b es ps = Some r" if "parseline n b es ps = Some r" for ps r using Suc that by blast
  have P: "parsepipe (Suc n) b es ps = Some r" if "parsepipe n b es ps = Some r" for ps r using Suc that by blast
  have E: "parseexec (Suc n) b es ps = Some r" if "parseexec n b es ps = Some r" for ps r using Suc that by blast
  have B: "parseblock (Suc n) b es ps = Some r" if "parseblock n b es ps = Some r" for ps r using Suc that by blast
  have "parseline (Suc (Suc n)) b es ps = Some r" if "parseline (Suc n) b es ps = Some r" for ps r
    using that apply (subst parseline.simps(2), subst (asm) parseline.simps(2))
    by (erule andthen_mono) (auto simp del: parsers intro: P split: prod.splits if_splits elim!: andthen_mono dest: L)
  moreover have "parsepipe (Suc (Suc n)) b es ps = Some r" if "parsepipe (Suc n) b es ps = Some r" for ps r
    using that apply (subst parsepipe.simps(2), subst (asm) parsepipe.simps(2))
    by (erule andthen_mono) (auto simp del: parsers intro: E split: prod.splits if_splits elim!: andthen_mono dest: P)
  moreover have "parseexec (Suc (Suc n)) b es ps = Some r" if "parseexec (Suc n) b es ps = Some r" for ps r
    using that apply (subst parseexec.simps(2), subst (asm) parseexec.simps(2))
    by (auto simp del: parsers intro: B split: prod.splits if_splits)
  moreover have "parseblock (Suc (Suc n)) b es ps = Some r" if "parseblock (Suc n) b es ps = Some r" for ps r
    using that apply (subst parseblock.simps(2), subst (asm) parseblock.simps(2))
    by (auto simp del: parsers split: prod.splits if_splits elim!: andthen_mono dest: L)
  ultimately show ?case by blast
qed simp

lemma parseline_fuel:
  assumes "n \<le> m" "parseline n b es ps = Some r"
  shows "parseline m b es ps = Some r"
  using assms by (induction rule: dec_induct) (use fuel_Suc in blast)+

text \<open>The text that is left at an offset, without leading white space. On it the tokenizer is list processing.\<close>

definition ws :: "string \<Rightarrow> string" where
  "ws = dropWhile (strchr whitespace)"

definition rem :: "string \<Rightarrow> nat \<Rightarrow> string" where
  "rem b p = ws (drop p b)"

lemma drop_skip: "drop (skip_while P b (length b) p) b = dropWhile P (drop p b)"
proof (induction P b "length b" p rule: skip_while.induct)
  case (1 P b p)
  then show ?case
    by (cases "p < length b") (subst skip_while.simps, auto simp: byte_def Cons_nth_drop_Suc [symmetric])+
qed

lemma byte_drop: "drop p b = c # r \<Longrightarrow> byte b p = c" "drop p b = [] \<Longrightarrow> byte b p = NUL"
proof -
  show "drop p b = c # r \<Longrightarrow> byte b p = c"
    by (cases "p < length b") (auto simp: byte_def nth_via_drop)
qed (simp add: byte_def)

lemma drop_Suc_tl: "drop p b = c # r \<Longrightarrow> drop (p + 1) b = r"
  by (metis drop_drop add.commute drop0 drop_Suc_Cons One_nat_def)

lemma ws_ws [simp]: "ws (ws s) = ws s"
  by (simp add: ws_def)

lemma peek_rem:
  assumes "NUL \<notin> set b" "peek b (length b) toks p = (r, p')"
  shows "rem b p' = rem b p" "r \<longleftrightarrow> rem b p \<noteq> [] \<and> hd (rem b p) \<in> set toks" "drop p' b = rem b p"
proof -
  have p': "p' = skip_while (strchr whitespace) b (length b) p" using assms(2) by (simp add: peek_def Let_def)
  show d: "drop p' b = rem b p" by (simp add: p' drop_skip rem_def ws_def)
  then show "rem b p' = rem b p" by (simp add: rem_def)
  have in_b: "c \<in> set b" if "drop p' b = c # x" for c x using that in_set_dropD [of c p' b] by simp
  show "r \<longleftrightarrow> rem b p \<noteq> [] \<and> hd (rem b p) \<in> set toks"
  proof (cases "rem b p")
    case Nil
    then show ?thesis using assms(2) byte_drop(2) [of p' b] d by (simp add: peek_def Let_def p' [symmetric])
  next
    case (Cons c x)
    then have "byte b p' = c" "c \<noteq> NUL" using byte_drop(1) [of p' b c x] in_b [of c x] d assms(1) by auto
    then show ?thesis using assms(2) Cons by (auto simp: peek_def Let_def p' [symmetric] strchr_def)
  qed
qed

text \<open>What \<open>gettoken\<close> does when the text left is as given.\<close>

lemma gettoken_rem:
  assumes "NUL \<notin> set b" "gettoken b (length b) p = (tok, w, p')"
  shows "rem b p = [] \<Longrightarrow> tok = NUL \<and> rem b p' = []"
    and "rem b p = c # s \<Longrightarrow> c \<in> set ''|();&<'' \<Longrightarrow> tok = c \<and> rem b p' = ws s"
    and "rem b p = CHR ''>'' # c # s \<Longrightarrow> c \<noteq> CHR ''>'' \<Longrightarrow> tok = CHR ''>'' \<and> rem b p' = ws (c # s)"
    and "rem b p = CHR ''>'' # CHR ''>'' # s \<Longrightarrow> tok = CHR ''+'' \<and> rem b p' = ws s"
proof -
  let ?s = "skip_while (strchr whitespace) b (length b) p"
  have d: "drop ?s b = rem b p" by (simp add: drop_skip rem_def ws_def)
  have after: "rem b (skip_while (strchr whitespace) b (length b) k) = ws (drop k b)" for k
    by (simp add: rem_def drop_skip flip: ws_def)
  show "rem b p = [] \<Longrightarrow> tok = NUL \<and> rem b p' = []"
    using assms(2) byte_drop(2) [of ?s b] d by (auto simp: gettoken_def Let_def after) (simp add: ws_def)
  show "tok = c \<and> rem b p' = ws s" if "rem b p = c # s" "c \<in> set ''|();&<''"
    using assms(2) byte_drop(1) [of ?s b c s] drop_Suc_tl [of ?s b c s] d that
    by (auto simp: gettoken_def Let_def after split: if_splits)
  show "tok = CHR ''>'' \<and> rem b p' = ws (c # s)" if "rem b p = CHR ''>'' # c # s" "c \<noteq> CHR ''>''"
    using assms(2) byte_drop(1) [of ?s b _ "c # s"] drop_Suc_tl [of ?s b _ "c # s"] byte_drop(1) [of "?s + 1" b c s] d that
    by (auto simp: gettoken_def Let_def after split: if_splits)
  show "tok = CHR ''+'' \<and> rem b p' = ws s" if "rem b p = CHR ''>'' # CHR ''>'' # s"
    using assms(2) byte_drop(1) [of ?s b _ "CHR ''>'' # s"] drop_Suc_tl [of ?s b _ "CHR ''>'' # s"]
      byte_drop(1) [of "?s + 1" b _ s] drop_Suc_tl [of "?s + 1" b _ s] d that
    by (auto simp: gettoken_def Let_def after split: if_splits)
qed

definition plain :: "string \<Rightarrow> bool" where
  "plain w \<longleftrightarrow> w \<noteq> [] \<and> (\<forall>c \<in> set w. \<not> delim c \<and> c \<noteq> NUL)"

lemma gettoken_word:
  assumes "NUL \<notin> set b" "gettoken b (length b) p = (tok, w, p')" "rem b p = v @ CHR '' '' # s" "plain v"
  shows "tok = CHR ''a''" "slice b w = v" "rem b p' = ws s"
proof -
  let ?s = "skip_while (strchr whitespace) b (length b) p"
  let ?P = "\<lambda>c. \<not> strchr whitespace c \<and> \<not> strchr symbols c"
  let ?e = "skip_while ?P b (length b) ?s"
  obtain c v' where v: "v = c # v'" using assms(4) by (cases v) (auto simp: plain_def)
  have d: "drop ?s b = v @ CHR '' '' # s" using assms(3) by (simp add: drop_skip rem_def ws_def)
  have c: "byte b ?s = c" "\<not> delim c" "c \<noteq> NUL" using byte_drop(1) d v assms(4) by (auto simp: plain_def)
  have g: "tok = CHR ''a''" "w = (?s, ?e)" "p' = skip_while (strchr whitespace) b (length b) ?e"
    using assms(2) c by (auto simp: gettoken_def Let_def delim_def strchr_def symbols_def split: if_splits)
  have all: "?P x" if "x \<in> set v" for x using that assms(4) by (simp add: plain_def delim_def)
  have de: "drop ?e b = CHR '' '' # s"
    unfolding drop_skip [of ?P b ?s] d using all by (simp add: dropWhile_append2) (simp add: strchr_def whitespace_def)
  have "?s \<le> ?e" by (rule skip_while_ge)
  then have "drop ?s b = take (?e - ?s) (drop ?s b) @ drop ?e b"
    using append_take_drop_id [of "?e - ?s" "drop ?s b"] by (simp add: add.commute)
  then show "slice b w = v" unfolding d de by (simp add: slice_def g(2) d)
  show "tok = CHR ''a''" by (rule g(1))
  show "rem b p' = ws s" using de by (simp add: g(3) rem_def drop_skip ws_def) (simp add: strchr_def whitespace_def)
qed

text \<open>A command over strings is written as a command line; \<open>l\<close> is the precedence of the place it is written at: 0
  for a part of a pipeline, 1 for a pipeline, 2 for the left of a list, 3 for a whole line or block.\<close>

definition redir_text :: "string \<times> int \<times> int \<Rightarrow> string" where
  "redir_text r = (case r of (file, mode, fd) \<Rightarrow>
     (if mode = O_RDONLY then ''<'' else if mode = (O_WRONLY OR O_CREATE) then ''>>'' else ''>'') @ file @ '' '')"

definition paren :: "bool \<Rightarrow> string \<Rightarrow> string" where
  "paren p s = (if p then ''('' @ s @ '')'' else s)"

primrec cmd_text :: "string cmd \<Rightarrow> nat \<Rightarrow> string" where
  "cmd_text (EXEC argv) l = concat (map (\<lambda>w. w @ '' '') argv)"
| "cmd_text (REDIR c w mode fd) l = cmd_text c 0 @ redir_text (w, mode, fd)"
| "cmd_text (PIPE a c) l = paren (l < 1) (cmd_text a 0 @ ''|'' @ cmd_text c 1)"
| "cmd_text (BACK a) l = paren (l < 2) (cmd_text a 2 @ ''&'')"
| "cmd_text (LIST a c) l = paren (l < 3) (cmd_text a 2 @ '';'' @ cmd_text c 3)"

definition starts :: "string \<Rightarrow> string \<Rightarrow> bool" where
  "starts toks s \<longleftrightarrow> s \<noteq> [] \<and> hd s \<in> set toks"

definition wrap :: "'w cmd \<Rightarrow> 'w \<times> int \<times> int \<Rightarrow> 'w cmd" where
  "wrap c r = (case r of (w, m, f) \<Rightarrow> REDIR c w m f)"

lemma wrap_simp [simp]: "wrap c (w, m, f) = REDIR c w m f"
  by (simp add: wrap_def)

definition redir_wf :: "string \<times> int \<times> int \<Rightarrow> bool" where
  "redir_wf r \<longleftrightarrow> plain (fst r) \<and> redir_ok (fst (snd r)) (snd (snd r))"

lemma ws_word: "plain w \<Longrightarrow> ws (w @ s) = w @ s"
  by (cases w) (auto simp: ws_def plain_def delim_def)

lemma ws_sym: "c \<in> set symbols \<Longrightarrow> ws (c # s) = c # s"
  by (auto simp: ws_def symbols_def strchr_def whitespace_def)

lemma redir_modes: "O_RDONLY = 0" "(O_WRONLY OR O_CREATE) = 513" "(O_WRONLY OR O_CREATE OR O_TRUNC) = 1537"
  by (simp_all add: O_RDONLY_def O_WRONLY_def O_CREATE_def O_TRUNC_def)

lemma redir_text_cases:
  assumes "redir_ok mode fd" "plain w"
  obtains "mode = O_RDONLY" "fd = 0" "ws (redir_text (w, mode, fd) @ s) = CHR ''<'' # w @ CHR '' '' # s"
  | "mode = (O_WRONLY OR O_CREATE OR O_TRUNC)" "fd = 1" "ws (redir_text (w, mode, fd) @ s) = CHR ''>'' # w @ CHR '' '' # s"
  | "mode = (O_WRONLY OR O_CREATE)" "fd = 1" "ws (redir_text (w, mode, fd) @ s) = CHR ''>'' # CHR ''>'' # w @ CHR '' '' # s"
  using assms(1) ws_sym [of "CHR ''<''"] ws_sym [of "CHR ''>''"]
  by (auto simp: redir_ok_def redir_text_def redir_modes symbols_def)

lemma parse_redir:
  assumes b: "NUL \<notin> set b" and r: "redir_ok mode fd" "plain w"
    and rem: "rem b p = ws (redir_text (w, mode, fd) @ s)"
  obtains v p' where "parseredirs b (length b) c p = parseredirs b (length b) (REDIR c v mode fd) p'"
    "slice b v = w" "rem b p' = ws s"
proof -
  obtain more p1 where pk: "peek b (length b) ''<>'' p = (more, p1)" by fastforce
  obtain tok w1 p2 where t: "gettoken b (length b) p1 = (tok, w1, p2)" by (metis surj_pair)
  obtain tok' v p3 where t': "gettoken b (length b) p2 = (tok', v, p3)" by (metis surj_pair)
  note k = peek_rem [OF b pk] and g = gettoken_rem [OF b t]
  obtain d w' where w: "w = d # w'" "d \<noteq> CHR ''>''"
    using r(2) by (cases w) (auto simp: plain_def delim_def symbols_def strchr_def)
  have p2: "rem b p2 = w @ CHR '' '' # s \<and> more \<and>
      (mode, fd, tok) \<in> {(O_RDONLY, 0, CHR ''<''), (O_WRONLY OR O_CREATE OR O_TRUNC, 1, CHR ''>''), (O_WRONLY OR O_CREATE, 1, CHR ''+'')}"
    using r
  proof (cases rule: redir_text_cases [of mode fd w s])
    case 1 then show ?thesis using k rem g(2) [of "CHR ''<''" "w @ CHR '' '' # s"] ws_word [OF r(2)] by simp
  next
    case 2 then show ?thesis using k rem g(3) [of d "w' @ CHR '' '' # s"] ws_word [OF r(2), of "CHR '' '' # s"] w by simp
  next
    case 3 then show ?thesis using k rem g(4) [of "w @ CHR '' '' # s"] ws_word [OF r(2)] by simp
  qed
  note wd = gettoken_word [OF b t' conjunct1 [OF p2] r(2)]
  show thesis
  proof (rule that [of v p3])
    show "parseredirs b (length b) c p = parseredirs b (length b) (REDIR c v mode fd) p3"
      using p2 wd(1) pk t t' by (auto simp: parseredirs.simps [of b _ c p] redircmd_def)
  qed (use wd in auto)
qed

lemma parse_redirs:
  assumes b: "NUL \<notin> set b"
    and "\<forall>r \<in> set rs. redir_wf r" "rem b p = ws (concat (map redir_text rs) @ s)" "\<not> starts ''<>'' (ws s)"
  shows "\<exists>c' p'. parseredirs b (length b) c p = Ok (c', p') \<and> rem b p' = ws s \<and>
    map_cmd (slice b) c' = foldl wrap (map_cmd (slice b) c) rs \<and> (\<forall>k. simple k c \<longrightarrow> simple k c')"
  using assms(2,3)
proof (induction rs arbitrary: c p)
  case Nil
  obtain more p1 where pk: "peek b (length b) ''<>'' p = (more, p1)" by fastforce
  note k = peek_rem [OF b pk]
  have "\<not> more" using k(2) Nil(2) assms(4) by (auto simp: starts_def)
  then show ?case using pk k(1) Nil(2) by (auto simp: parseredirs.simps [of b _ c p])
next
  case (Cons r rs)
  obtain w m f where r: "r = (w, m, f)" by (metis surj_pair)
  have wf: "redir_ok m f" "plain w" using Cons(2) by (simp_all add: redir_wf_def r)
  obtain v p' where st: "parseredirs b (length b) c p = parseredirs b (length b) (REDIR c v m f) p'"
    "slice b v = w" "rem b p' = ws (concat (map redir_text rs) @ s)"
    by (rule parse_redir [OF b wf, of p "concat (map redir_text rs) @ s" c]) (use Cons(3) r in auto)
  obtain c2 p2 where "parseredirs b (length b) (REDIR c v m f) p' = Ok (c2, p2)" "rem b p2 = ws s"
    "map_cmd (slice b) c2 = foldl wrap (map_cmd (slice b) (REDIR c v m f)) rs" "\<forall>k. simple k (REDIR c v m f) \<longrightarrow> simple k c2"
    using Cons.IH [of p' "REDIR c v m f"] Cons(2) st(3) by auto
  then show ?case using st(1,2) r by auto
qed

lemma map_push_arg: "map_cmd f (push_arg w c) = push_arg (f w) (map_cmd f c)"
  by (induction c) auto

lemma plain_starts: "plain w \<Longrightarrow> \<not> starts symbols (w @ s)"
  by (cases w) (auto simp: starts_def plain_def delim_def strchr_def)

lemma word_start: "plain w \<Longrightarrow> set t \<subseteq> set symbols \<Longrightarrow> \<not> starts t (w @ s)"
  using plain_starts [of w s] by (auto simp: starts_def)

lemma starts_mono: "starts t s \<Longrightarrow> set t \<subseteq> set t' \<Longrightarrow> starts t' s"
  by (auto simp: starts_def)

lemma redirs_start:
  assumes "\<forall>r \<in> set rs. redir_wf r"
  shows "ws (concat (map redir_text rs) @ s) = ws s \<or> starts ''<>'' (ws (concat (map redir_text rs) @ s))"
proof (cases rs)
  case (Cons r rs')
  obtain w m f where r: "r = (w, m, f)" by (metis surj_pair)
  let ?s = "concat (map redir_text rs') @ s"
  have "starts ''<>'' (ws (redir_text (w, m, f) @ ?s))"
    by (rule redir_text_cases [of m f w ?s]) (use assms Cons r in \<open>simp_all add: redir_wf_def starts_def\<close>)
  then show ?thesis by (simp add: Cons r)
qed simp

definition args_text :: "string list \<Rightarrow> string" where
  "args_text argv = concat (map (\<lambda>w. w @ '' '') argv)"

lemma parse_args_end:
  assumes b: "NUL \<notin> set b" and s: "ws s = [] \<or> starts ''|)&;'' (ws s)" and r: "rem b p = ws s"
  shows "\<exists>p'. parseargs b (length b) argc c p = Ok (c, p') \<and> rem b p' = ws s"
proof -
  obtain stop p1 where pk: "peek b (length b) ''|)&;'' p = (stop, p1)" by fastforce
  obtain tok w p2 where t: "gettoken b (length b) p1 = (tok, w, p2)" by (metis surj_pair)
  note k = peek_rem [OF b pk] and g = gettoken_rem(1) [OF b t]
  show ?thesis using pk t k g r s by (cases "ws s = []") (auto simp: parseargs.simps [of b _ _ c p] starts_def)
qed

lemma parse_args:
  assumes b: "NUL \<notin> set b" and rs: "\<forall>r \<in> set rs. redir_wf r" and s: "ws s = [] \<or> starts ''|)&;'' (ws s)"
    and "\<forall>w \<in> set argv. plain w" "argv = [] \<longrightarrow> rs = []" "argc + length argv < MAXARGS"
    "rem b p = ws (args_text argv @ concat (map redir_text rs) @ s)"
  shows "\<exists>c' p'. parseargs b (length b) argc c p = Ok (c', p') \<and> rem b p' = ws s \<and>
    map_cmd (slice b) c' = (if argv = [] then map_cmd (slice b) c
      else foldl wrap (foldl (\<lambda>c w. push_arg w c) (map_cmd (slice b) c) argv) rs)"
  using assms(4-)
proof (induction argv arbitrary: argc c p)
  case Nil
  then show ?case using parse_args_end [OF b s, of p argc c] by (auto simp: args_text_def)
next
  case (Cons a argv)
  obtain stop p1 where pk: "peek b (length b) ''|)&;'' p = (stop, p1)" by fastforce
  obtain tok w p2 where t: "gettoken b (length b) p1 = (tok, w, p2)" by (metis surj_pair)
  let ?rs = "if argv = [] then rs else []" and ?s = "if argv = [] then s else args_text argv @ concat (map redir_text rs) @ s"
  have a: "plain a" using Cons(2) by simp
  have r: "rem b p = a @ CHR '' '' # (args_text argv @ concat (map redir_text rs) @ s)"
    using Cons(5) ws_word [OF a] by (simp add: args_text_def)
  note k = peek_rem [OF b pk] and g = gettoken_word [OF b t, of a, OF _ a]
  have "\<not> stop" using k(2) plain_starts [OF a, of "CHR '' '' # (args_text argv @ concat (map redir_text rs) @ s)"] r
    by (auto simp: starts_def symbols_def)
  have p2: "tok = CHR ''a''" "slice b w = a" "rem b p2 = ws (concat (map redir_text ?rs) @ ?s)"
    using g k(1) r by (simp_all add: args_text_def)
  have ns: "\<not> starts ''<>'' (ws ?s)"
  proof (cases argv)
    case Nil then show ?thesis using s by (auto simp: starts_def)
  next
    case (Cons a' argv')
    then have "plain a'" using Cons.prems(1) by simp
    then show ?thesis using Cons ws_word [of a'] plain_starts [of a'] starts_mono [of "''<>''" _ symbols]
      by (auto simp: args_text_def symbols_def)
  qed
  obtain c2 p3 where q: "parseredirs b (length b) (push_arg w c) p2 = Ok (c2, p3)" "rem b p3 = ws ?s"
    "map_cmd (slice b) c2 = foldl wrap (map_cmd (slice b) (push_arg w c)) ?rs"
    using parse_redirs [OF b _ p2(3) ns, of "push_arg w c"] rs by auto
  have len: "argc + 1 < MAXARGS" using Cons.prems(3) by simp
  have step: "parseargs b (length b) argc c p = parseargs b (length b) (argc + 1) c2 p3"
    using pk t \<open>\<not> stop\<close> p2(1) q(1) len by (simp add: parseargs.simps [of b _ argc c p])
  show ?case
  proof (cases "argv = []")
    case True
    then show ?thesis using step q(2,3) p2(2) parse_args_end [OF b s, of p3 "argc + 1" c2] by (auto simp: map_push_arg)
  next
    case False
    then obtain c' p' where "parseargs b (length b) (argc + 1) c2 p3 = Ok (c', p')" "rem b p' = ws s"
      "map_cmd (slice b) c' = foldl wrap (foldl (\<lambda>c w. push_arg w c) (map_cmd (slice b) c2) argv) rs"
      using Cons.IH [of "argc + 1" p3 c2] Cons.prems q(2) by auto
    then show ?thesis using step q(3) p2(2) False by (auto simp: map_push_arg)
  qed
qed


text \<open>With enough fuel the parser \<open>F\<close> at \<open>p\<close> returns the command that reads \<open>t\<close> and leaves the text \<open>s\<close>.\<close>

definition parses :: "string \<Rightarrow> (nat \<Rightarrow> string \<Rightarrow> nat \<Rightarrow> nat \<Rightarrow> parse) \<Rightarrow> nat \<Rightarrow> string \<Rightarrow> string cmd \<Rightarrow> bool" where
  "parses b F p s t \<longleftrightarrow> (\<exists>c p'. (\<exists>n. \<forall>m \<ge> n. F m b (length b) p = Some (Ok (c, p'))) \<and> rem b p' = ws s \<and> map_cmd (slice b) c = t)"

lemma parsesI:
  assumes "\<And>m. n \<le> m \<Longrightarrow> F (Suc m) b (length b) p = Some (Ok (c, p'))" "rem b p' = ws s" "map_cmd (slice b) c = t"
  shows "parses b F p s t"
proof -
  have "F m b (length b) p = Some (Ok (c, p'))" if "Suc n \<le> m" for m using assms(1) [of "m - 1"] that by (cases m) auto
  then show ?thesis using assms(2,3) unfolding parses_def by blast
qed

lemma parsesE:
  assumes "parses b F p s t"
  obtains n c p' where "\<And>m. n \<le> m \<Longrightarrow> F m b (length b) p = Some (Ok (c, p'))" "rem b p' = ws s" "map_cmd (slice b) c = t"
  using assms unfolding parses_def by blast

lemma foldl_push_arg: "foldl (\<lambda>c w. push_arg w c) (EXEC xs) argv = EXEC (xs @ argv)"
  by (induction argv arbitrary: xs) auto

lemma args_start:
  assumes "\<forall>w \<in> set argv. plain w" "\<forall>r \<in> set rs. redir_wf r" "ws s = [] \<or> starts ''|)&;'' (ws s)"
  shows "\<not> starts ''('' (ws (args_text argv @ concat (map redir_text rs) @ s))"
    "argv \<noteq> [] \<Longrightarrow> \<not> starts ''<>'' (ws (args_text argv @ s'))"
proof -
  show w: "\<not> starts ''<>'' (ws (args_text argv @ s'))" if "argv \<noteq> []" for s'
    using that assms(1) word_start [of _ "''<>''"] by (cases argv) (auto simp: args_text_def symbols_def ws_word)
  show "\<not> starts ''('' (ws (args_text argv @ concat (map redir_text rs) @ s))"
  proof (cases argv)
    case Nil
    then show ?thesis using redirs_start [OF assms(2), of s] assms(3) by (auto simp: args_text_def starts_def)
  next
    case (Cons w ws')
    then show ?thesis using assms(1) word_start [of _ "''(''"] by (auto simp: args_text_def symbols_def ws_word)
  qed
qed

lemma parse_simple:
  assumes b: "NUL \<notin> set b" and argv: "\<forall>w \<in> set argv. plain w" "length argv < MAXARGS"
    and rs: "\<forall>r \<in> set rs. redir_wf r" and s: "ws s = [] \<or> starts ''|)&;'' (ws s)"
    and r: "rem b p = ws (args_text argv @ concat (map redir_text rs) @ s)"
  shows "parses b parseexec p s (foldl wrap (EXEC argv) rs)"
proof -
  obtain blk p1 where pk: "peek b (length b) ''('' p = (blk, p1)" by fastforce
  note k = peek_rem [OF b pk]
  have nb: "\<not> blk" using k(2) args_start(1) [OF argv(1) rs s] r by (auto simp: starts_def)
  let ?rs = "if argv = [] then rs else []" and ?s = "if argv = [] then s else args_text argv @ concat (map redir_text rs) @ s"
  have ns: "\<not> starts ''<>'' (ws ?s)" using s args_start(2) [OF argv(1) rs s] by (auto simp: starts_def)
  have r1: "rem b p1 = ws (concat (map redir_text ?rs) @ ?s)" using k(1) r by (auto simp: args_text_def)
  obtain c p2 where q: "parseredirs b (length b) execcmd p1 = Ok (c, p2)" "rem b p2 = ws ?s"
    "map_cmd (slice b) c = foldl wrap (EXEC []) ?rs"
    using parse_redirs [OF b _ r1 ns, of execcmd] rs by (auto simp: execcmd_def)
  have "\<exists>c' p'. parseargs b (length b) 0 c p2 = Ok (c', p') \<and> rem b p' = ws s \<and> map_cmd (slice b) c' = foldl wrap (EXEC argv) rs"
  proof (cases "argv = []")
    case True
    then show ?thesis using parse_args_end [OF b s, of p2 0 c] q by auto
  next
    case False
    then show ?thesis using parse_args [OF b rs s argv(1), of 0 p2 c] argv(2) q by (auto simp: foldl_push_arg)
  qed
  then obtain c' p' where "parseargs b (length b) 0 c p2 = Ok (c', p')" "rem b p' = ws s"
    "map_cmd (slice b) c' = foldl wrap (EXEC argv) rs" by blast
  then show ?thesis using pk nb q(1) by (intro parsesI [of 0 parseexec b p c' p']) auto
qed

lemma parse_block:
  assumes b: "NUL \<notin> set b" and rs: "\<forall>r \<in> set rs. redir_wf r" and s: "\<not> starts ''<>'' (ws s)"
    and r: "rem b p = CHR ''('' # u @ CHR '')'' # concat (map redir_text rs) @ s"
    and line: "\<And>q. rem b q = ws (u @ CHR '')'' # concat (map redir_text rs) @ s) \<Longrightarrow>
      parses b parseline q (CHR '')'' # concat (map redir_text rs) @ s) t"
  shows "parses b parseblock p s (foldl wrap t rs)"
proof -
  let ?v = "concat (map redir_text rs) @ s"
  obtain blk p1 where pk: "peek b (length b) ''('' p = (blk, p1)" by fastforce
  obtain tok w p2 where t: "gettoken b (length b) p1 = (tok, w, p2)" by (metis surj_pair)
  note k = peek_rem [OF b pk] and g = gettoken_rem(2) [OF b t, of "CHR ''(''" "u @ CHR '')'' # ?v"]
  have blk: "blk" and p2: "rem b p2 = ws (u @ CHR '')'' # ?v)" using k r g by simp_all
  from line [OF p2] obtain n c p3 where c: "\<And>m. n \<le> m \<Longrightarrow> parseline m b (length b) p2 = Some (Ok (c, p3))"
    "rem b p3 = ws (CHR '')'' # ?v)" "map_cmd (slice b) c = t" by (rule parsesE) blast
  obtain ok p4 where pk2: "peek b (length b) '')'' p3 = (ok, p4)" by fastforce
  obtain tok2 w2 p5 where t2: "gettoken b (length b) p4 = (tok2, w2, p5)" by (metis surj_pair)
  note k2 = peek_rem [OF b pk2] and g2 = gettoken_rem(2) [OF b t2, of "CHR '')''" ?v]
  have ok: "ok" and p5: "rem b p5 = ws ?v" using k2 c(2) g2 ws_sym [of "CHR '')''" ?v] by (simp_all add: symbols_def)
  obtain c' p' where q: "parseredirs b (length b) c p5 = Ok (c', p')" "rem b p' = ws s" "map_cmd (slice b) c' = foldl wrap t rs"
    using parse_redirs [OF b rs p5 s, of c] c(3) by auto
  show ?thesis by (rule parsesI [of n parseblock b p c' p']) (use pk blk t c(1) pk2 ok t2 q in \<open>auto simp: andthen_def\<close>)
qed


lemma parse_back:
  assumes b: "NUL \<notin> set b" and "rem b p = ws (replicate k (CHR ''&'') @ s)" and s: "\<not> starts ''&'' (ws s)"
  shows "\<exists>c' p'. back_loop b (length b) c p = (c', p') \<and> rem b p' = ws s \<and> map_cmd (slice b) c' = (BACK ^^ k) (map_cmd (slice b) c)"
  using assms(2)
proof (induction k arbitrary: c p)
  case 0
  obtain more p1 where pk: "peek b (length b) ''&'' p = (more, p1)" by fastforce
  note k = peek_rem [OF b pk]
  have "\<not> more" using k(2) 0 s by (auto simp: starts_def)
  then show ?case using pk k(1) 0 by (auto simp: back_loop.simps [of b _ c p])
next
  case (Suc k)
  let ?s = "replicate k (CHR ''&'') @ s"
  obtain more p1 where pk: "peek b (length b) ''&'' p = (more, p1)" by fastforce
  obtain tok w p2 where t: "gettoken b (length b) p1 = (tok, w, p2)" by (metis surj_pair)
  have r: "rem b p = CHR ''&'' # ?s" using Suc(2) ws_sym [of "CHR ''&''" ?s] by (simp add: symbols_def)
  note k = peek_rem [OF b pk] and g = gettoken_rem(2) [OF b t, of "CHR ''&''" ?s]
  have "more" "rem b p2 = ws ?s" using k r g by simp_all
  then show ?case using Suc.IH [of p2 "BACK c"] pk t by (auto simp: back_loop.simps [of b _ c p] backcmd_def funpow_swap1)
qed

text \<open>After the first part of a construct the parsers look for the operator \<open>op\<close>.\<close>

lemma parse_op:
  assumes b: "NUL \<notin> set b" and "rem b p = ws s" "peek b (length b) [op] p = (more, p1)"
  shows "\<not> starts [op] (ws s) \<Longrightarrow> \<not> more \<and> rem b p1 = ws s"
    and "s = op # u \<Longrightarrow> op \<in> set ''|;'' \<Longrightarrow> gettoken b (length b) p1 = (tok, w, p2) \<Longrightarrow> more \<and> rem b p2 = ws u"
  using peek_rem [OF b assms(3)] assms(2) gettoken_rem(2) [OF b, of p1 tok w p2 op u] ws_sym [of op u]
  by (auto simp: starts_def symbols_def)

lemma parse_pipe_one:
  assumes b: "NUL \<notin> set b" and e: "parses b parseexec p s t" and s: "\<not> starts ''|'' (ws s)"
  shows "parses b parsepipe p s t"
proof -
  obtain n c p1 where c: "\<And>m. n \<le> m \<Longrightarrow> parseexec m b (length b) p = Some (Ok (c, p1))"
    "rem b p1 = ws s" "map_cmd (slice b) c = t" using e by (rule parsesE) blast
  obtain more p2 where pk: "peek b (length b) ''|'' p1 = (more, p2)" by fastforce
  have "\<not> more" "rem b p2 = ws s" using parse_op(1) [OF b c(2) pk s] by simp_all
  then show ?thesis by (intro parsesI [of n parsepipe b p c p2]) (use c pk in \<open>simp_all add: andthen_def\<close>)
qed

lemma parse_pipe:
  assumes b: "NUL \<notin> set b" and e: "parses b parseexec p (CHR ''|'' # u) t"
    and l: "\<And>q. rem b q = ws u \<Longrightarrow> parses b parsepipe q s t'"
  shows "parses b parsepipe p s (PIPE t t')"
proof -
  obtain n c p1 where c: "\<And>m. n \<le> m \<Longrightarrow> parseexec m b (length b) p = Some (Ok (c, p1))"
    "rem b p1 = ws (CHR ''|'' # u)" "map_cmd (slice b) c = t" using e by (rule parsesE) blast
  obtain more p2 where pk: "peek b (length b) ''|'' p1 = (more, p2)" by fastforce
  obtain tok w p3 where g: "gettoken b (length b) p2 = (tok, w, p3)" by (metis surj_pair)
  have m: "more" "rem b p3 = ws u" using parse_op(2) [OF b c(2) pk refl _ g] by simp_all
  obtain n' c' p' where c': "\<And>m. n' \<le> m \<Longrightarrow> parsepipe m b (length b) p3 = Some (Ok (c', p'))"
    "rem b p' = ws s" "map_cmd (slice b) c' = t'" using l [OF m(2)] by (rule parsesE) blast
  show ?thesis
    by (rule parsesI [of "max n n'" parsepipe b p "PIPE c c'" p'])
      (use c c' pk g m in \<open>simp_all add: andthen_def pipecmd_def\<close>)
qed

lemma parse_line_one:
  assumes b: "NUL \<notin> set b" and e: "parses b parsepipe p (replicate k (CHR ''&'') @ s) t"
    and s: "\<not> starts ''&'' (ws s)" "\<not> starts '';'' (ws s)"
  shows "parses b parseline p s ((BACK ^^ k) t)"
proof -
  obtain n c p1 where c: "\<And>m. n \<le> m \<Longrightarrow> parsepipe m b (length b) p = Some (Ok (c, p1))"
    "rem b p1 = ws (replicate k (CHR ''&'') @ s)" "map_cmd (slice b) c = t" using e by (rule parsesE) blast
  obtain c1 p2 where bk: "back_loop b (length b) c p1 = (c1, p2)" "rem b p2 = ws s" "map_cmd (slice b) c1 = (BACK ^^ k) t"
    using parse_back [OF b c(2) s(1)] c(3) by blast
  obtain more p3 where pk: "peek b (length b) '';'' p2 = (more, p3)" by fastforce
  have "\<not> more" "rem b p3 = ws s" using parse_op(1) [OF b bk(2) pk s(2)] by simp_all
  then show ?thesis by (intro parsesI [of n parseline b p c1 p3]) (use c bk pk in \<open>simp_all add: andthen_def\<close>)
qed

lemma parse_line:
  assumes b: "NUL \<notin> set b" and e: "parses b parsepipe p (replicate k (CHR ''&'') @ CHR '';'' # u) t"
    and l: "\<And>q. rem b q = ws u \<Longrightarrow> parses b parseline q s t'"
  shows "parses b parseline p s (LIST ((BACK ^^ k) t) t')"
proof -
  obtain n c p1 where c: "\<And>m. n \<le> m \<Longrightarrow> parsepipe m b (length b) p = Some (Ok (c, p1))"
    "rem b p1 = ws (replicate k (CHR ''&'') @ CHR '';'' # u)" "map_cmd (slice b) c = t" using e by (rule parsesE) blast
  have "\<not> starts ''&'' (ws (CHR '';'' # u))" using ws_sym [of "CHR '';''" u] by (simp add: starts_def symbols_def)
  then obtain c1 p2 where bk: "back_loop b (length b) c p1 = (c1, p2)" "rem b p2 = ws (CHR '';'' # u)"
    "map_cmd (slice b) c1 = (BACK ^^ k) t"
    using parse_back [OF b c(2)] c(3) by blast
  obtain more p3 where pk: "peek b (length b) '';'' p2 = (more, p3)" by fastforce
  obtain tok w p4 where g: "gettoken b (length b) p3 = (tok, w, p4)" by (metis surj_pair)
  have m: "more" "rem b p4 = ws u" using parse_op(2) [OF b bk(2) pk refl _ g] by simp_all
  obtain n' c' p' where c': "\<And>m. n' \<le> m \<Longrightarrow> parseline m b (length b) p4 = Some (Ok (c', p'))"
    "rem b p' = ws s" "map_cmd (slice b) c' = t'" using l [OF m(2)] by (rule parsesE) blast
  show ?thesis
    by (rule parsesI [of "max n n'" parseline b p "LIST c1 c'" p'])
      (use c c' bk pk g m in \<open>simp_all add: andthen_def listcmd_def\<close>)
qed


primrec base :: "'w cmd \<Rightarrow> 'w cmd" where
  "base (EXEC argv) = EXEC argv"
| "base (REDIR c w m f) = base c"
| "base (PIPE l r) = PIPE l r"
| "base (LIST l r) = LIST l r"
| "base (BACK c) = BACK c"

primrec reds :: "'w cmd \<Rightarrow> ('w \<times> int \<times> int) list" where
  "reds (EXEC argv) = []"
| "reds (REDIR c w m f) = reds c @ [(w, m, f)]"
| "reds (PIPE l r) = []"
| "reds (LIST l r) = []"
| "reds (BACK c) = []"

primrec core :: "'w cmd \<Rightarrow> 'w cmd" where
  "core (BACK c) = core c"
| "core (EXEC argv) = EXEC argv"
| "core (REDIR c w m f) = REDIR c w m f"
| "core (PIPE l r) = PIPE l r"
| "core (LIST l r) = LIST l r"

primrec nback :: "'w cmd \<Rightarrow> nat" where
  "nback (BACK c) = Suc (nback c)"
| "nback (EXEC argv) = 0"
| "nback (REDIR c w m f) = 0"
| "nback (PIPE l r) = 0"
| "nback (LIST l r) = 0"

lemma base_reds:
  "foldl wrap (base t) (reds t) = t" "cmd_text t 0 = cmd_text (base t) 0 @ concat (map redir_text (reds t))"
  "cmd_ok plain t \<Longrightarrow> cmd_ok plain (base t) \<and> (\<forall>r \<in> set (reds t). redir_wf r)" "size (base t) \<le> size t"
  by (induction t) (auto simp: redir_wf_def)

lemma core_nback:
  "(BACK ^^ nback t) (core t) = t" "cmd_text t 2 = cmd_text (core t) 1 @ replicate (nback t) (CHR ''&'')"
  "cmd_ok plain t \<Longrightarrow> cmd_ok plain (core t)" "size (core t) \<le> size t"
  by (induction t) (auto simp: paren_def replicate_append_same [symmetric])

text \<open>The parser \<open>F\<close> reads back the text of \<open>t\<close> at precedence \<open>l\<close> in front of the end or one of \<open>toks\<close>.\<close>

definition reads :: "string \<Rightarrow> (nat \<Rightarrow> string \<Rightarrow> nat \<Rightarrow> nat \<Rightarrow> parse) \<Rightarrow> nat \<Rightarrow> string \<Rightarrow> string cmd \<Rightarrow> bool" where
  "reads b F l toks t \<longleftrightarrow>
     (\<forall>p s. ws s = [] \<or> starts toks (ws s) \<longrightarrow> rem b p = ws (cmd_text t l @ s) \<longrightarrow> parses b F p s t)"

lemma readsD:
  "reads b F l toks t \<Longrightarrow> ws s = [] \<or> starts toks (ws s) \<Longrightarrow> rem b p = ws (cmd_text t l @ s) \<Longrightarrow> parses b F p s t"
  unfolding reads_def by blast

lemma reads_simple:
  assumes b: "NUL \<notin> set b" and t: "cmd_ok plain t" "base t = EXEC argv"
  shows "reads b parseexec 0 ''|)&;'' t"
  unfolding reads_def
proof (intro allI impI)
  fix p s assume "ws s = [] \<or> starts ''|)&;'' (ws s)" "rem b p = ws (cmd_text t 0 @ s)"
  then show "parses b parseexec p s t"
    using parse_simple [OF b, of argv "reds t" s p] base_reds [of t] t by (simp add: args_text_def)
qed

lemma reads_block:
  assumes b: "NUL \<notin> set b" and t: "cmd_ok plain t" "\<nexists>argv. base t = EXEC argv" and l: "reads b parseline 3 '')'' (base t)"
  shows "reads b parseexec 0 ''|)&;'' t"
  unfolding reads_def
proof (intro allI impI)
  fix p s assume s: "ws s = [] \<or> starts ''|)&;'' (ws s)" and r: "rem b p = ws (cmd_text t 0 @ s)"
  let ?v = "CHR '')'' # concat (map redir_text (reds t)) @ s" and ?u = "cmd_text (base t) 3"
  have "cmd_text (base t) 0 = ''('' @ ?u @ '')''" using t(2) by (induction t) (auto simp: paren_def)
  then have r': "rem b p = CHR ''('' # ?u @ ?v" using r base_reds(2) [of t] ws_sym [of "CHR ''(''"] by (simp add: symbols_def)
  obtain blk p1 where pk: "peek b (length b) ''('' p = (blk, p1)" by fastforce
  note k = peek_rem [OF b pk]
  have "starts '')'' (ws ?v)" using ws_sym [of "CHR '')''"] by (simp add: starts_def symbols_def)
  then have "parses b parseblock p1 s (foldl wrap (base t) (reds t))"
    using k(1) r' l s base_reds(3) [OF t(1)] by (intro parse_block [OF b]) (auto simp: reads_def starts_def)
  then obtain n c p' where "\<And>m. n \<le> m \<Longrightarrow> parseblock m b (length b) p1 = Some (Ok (c, p'))" "rem b p' = ws s" "map_cmd (slice b) c = t"
    unfolding base_reds(1) by (rule parsesE) blast
  then show "parses b parseexec p s t" using pk k(2) r' by (intro parsesI [of n parseexec b p c p']) simp_all
qed

lemma reads_pipe_one:
  assumes b: "NUL \<notin> set b" and e: "reads b parseexec 0 ''|)&;'' t" and l: "cmd_text t 1 = cmd_text t 0"
  shows "reads b parsepipe 1 '')&;'' t"
  unfolding reads_def
proof (intro allI impI)
  fix p s assume s: "ws s = [] \<or> starts '')&;'' (ws s)" and r: "rem b p = ws (cmd_text t 1 @ s)"
  show "parses b parsepipe p s t"
    by (rule parse_pipe_one [OF b]) (use e l s r in \<open>auto simp: reads_def starts_def\<close>)
qed

lemma reads_pipe:
  assumes b: "NUL \<notin> set b" and e: "reads b parseexec 0 ''|)&;'' t" and p: "reads b parsepipe 1 '')&;'' t'"
  shows "reads b parsepipe 1 '')&;'' (PIPE t t')"
  unfolding reads_def
proof (intro allI impI)
  fix q s assume s: "ws s = [] \<or> starts '')&;'' (ws s)" and r: "rem b q = ws (cmd_text (PIPE t t') 1 @ s)"
  show "parses b parsepipe q s (PIPE t t')"
    by (rule parse_pipe [OF b, where u = "cmd_text t' 1 @ s"])
      (use e p s r ws_sym [of "CHR ''|''"] in \<open>auto simp: reads_def starts_def paren_def symbols_def\<close>)
qed

lemma ws_back: "ws s = [] \<or> starts '')&;'' (ws s) \<Longrightarrow>
    ws (replicate k (CHR ''&'') @ s) = [] \<or> starts '')&;'' (ws (replicate k (CHR ''&'') @ s))"
  using ws_sym [of "CHR ''&''"] by (cases k) (auto simp: starts_def symbols_def)

lemma reads_line_one:
  assumes b: "NUL \<notin> set b" and p: "reads b parsepipe 1 '')&;'' (core t)" and l: "cmd_text t 3 = cmd_text t 2"
  shows "reads b parseline 3 '')'' t"
  unfolding reads_def
proof (intro allI impI)
  fix q s assume s: "ws s = [] \<or> starts '')'' (ws s)" and r: "rem b q = ws (cmd_text t 3 @ s)"
  have "ws s = [] \<or> starts '')&;'' (ws s)" using s by (auto simp: starts_def)
  from readsD [OF p ws_back [OF this]] have "parses b parsepipe q (replicate (nback t) (CHR ''&'') @ s) (core t)"
    using r by (simp add: l core_nback(2) [of t])
  then have "parses b parseline q s ((BACK ^^ nback t) (core t))"
    by (rule parse_line_one [OF b]) (use s in \<open>auto simp: starts_def\<close>)
  then show "parses b parseline q s t" by (simp add: core_nback)
qed

lemma reads_line:
  assumes b: "NUL \<notin> set b" and p: "reads b parsepipe 1 '')&;'' (core t)" and l: "reads b parseline 3 '')'' t'"
  shows "reads b parseline 3 '')'' (LIST t t')"
  unfolding reads_def
proof (intro allI impI)
  fix q s assume s: "ws s = [] \<or> starts '')'' (ws s)" and r: "rem b q = ws (cmd_text (LIST t t') 3 @ s)"
  let ?v = "CHR '';'' # cmd_text t' 3 @ s"
  have "starts '')&;'' (ws ?v)" using ws_sym [of "CHR '';''"] by (auto simp: starts_def symbols_def)
  from readsD [OF p ws_back [OF disjI2 [OF this]]]
  have "parses b parsepipe q (replicate (nback t) (CHR ''&'') @ ?v) (core t)"
    using r by (simp add: paren_def core_nback(2) [of t])
  then have "parses b parseline q s (LIST ((BACK ^^ nback t) (core t)) t')"
    by (rule parse_line [OF b]) (use l s in \<open>auto simp: reads_def\<close>)
  then show "parses b parseline q s (LIST t t')" by (simp add: core_nback)
qed

lemma reads_all:
  assumes b: "NUL \<notin> set b" and "cmd_ok plain t"
  shows "reads b parseexec 0 ''|)&;'' t \<and> reads b parsepipe 1 '')&;'' t \<and> reads b parseline 3 '')'' t"
  using assms(2)
proof (induction t rule: measure_induct_rule [of size])
  case (less t)
  have IH: "reads b parseexec 0 ''|)&;'' u" "reads b parsepipe 1 '')&;'' u" "reads b parseline 3 '')'' u"
    if "size u < size t" "cmd_ok plain u" for u using less.IH [OF that] by blast+
  show ?case
  proof (cases t)
    case (EXEC argv)
    have e: "reads b parseexec 0 ''|)&;'' t" by (rule reads_simple [OF b less.prems]) (simp add: EXEC)
    have p: "reads b parsepipe 1 '')&;'' t" by (rule reads_pipe_one [OF b e]) (simp add: EXEC)
    have "reads b parseline 3 '')'' t" by (rule reads_line_one [OF b]) (use p EXEC in simp_all)
    then show ?thesis using e p by blast
  next
    case (REDIR c w m f)
    have "size (base t) < size t" using base_reds(4) [of c] REDIR by simp
    then have "reads b parseline 3 '')'' (base t)" using IH(3) base_reds(3) [OF less.prems] by blast
    then have e: "reads b parseexec 0 ''|)&;'' t"
      using reads_simple [OF b less.prems] reads_block [OF b less.prems] by blast
    have p: "reads b parsepipe 1 '')&;'' t" by (rule reads_pipe_one [OF b e]) (simp add: REDIR)
    have "reads b parseline 3 '')'' t" by (rule reads_line_one [OF b]) (use p REDIR in simp_all)
    then show ?thesis using e p by blast
  next
    case (PIPE l r)
    have p: "reads b parsepipe 1 '')&;'' t" unfolding PIPE by (rule reads_pipe [OF b IH(1) IH(2)]) (use less.prems PIPE in simp_all)
    have l: "reads b parseline 3 '')'' t" by (rule reads_line_one [OF b]) (use p PIPE in \<open>simp_all add: paren_def\<close>)
    have "reads b parseexec 0 ''|)&;'' t" by (rule reads_block [OF b less.prems]) (use l PIPE in simp_all)
    then show ?thesis using p l by blast
  next
    case (LIST x y)
    have cx: "size (core x) < size t" "cmd_ok plain (core x)" "cmd_ok plain y" "size y < size t"
      using core_nback(3,4) [of x] less.prems LIST by simp_all
    have l: "reads b parseline 3 '')'' t" unfolding LIST by (rule reads_line [OF b IH(2) IH(3)]) (use cx in auto)
    have e: "reads b parseexec 0 ''|)&;'' t" by (rule reads_block [OF b less.prems]) (use l LIST in simp_all)
    have "reads b parsepipe 1 '')&;'' t" by (rule reads_pipe_one [OF b e]) (simp add: LIST paren_def)
    then show ?thesis using e l by blast
  next
    case (BACK x)
    have cx: "size (core x) < size t" "cmd_ok plain (core x)" using core_nback(3,4) [of x] less.prems BACK by simp_all
    have l: "reads b parseline 3 '')'' t"
      by (rule reads_line_one [OF b]) (use IH(2) [OF cx] BACK in \<open>simp_all add: paren_def\<close>)
    have e: "reads b parseexec 0 ''|)&;'' t" by (rule reads_block [OF b less.prems]) (use l BACK in simp_all)
    have "reads b parsepipe 1 '')&;'' t" by (rule reads_pipe_one [OF b e]) (simp add: BACK paren_def)
    then show ?thesis using e l by blast
  qed
qed


lemma cmd_text_no_NUL: "cmd_ok plain t \<Longrightarrow> NUL \<notin> set (cmd_text t l)"
  by (induction t arbitrary: l) (auto simp: plain_def paren_def redir_text_def)

lemma text_len_no_NUL: "NUL \<notin> set b \<Longrightarrow> text_len b = length b"
  unfolding text_len_def by (induction b) auto

section \<open>Round trip\<close>

text \<open>C17: Printing and parsing. Every command tree whose words are plain, whose argument vectors fit and whose
  redirections have one of the three modes is the meaning of a command line: \<open>parsecmd\<close> of its text returns a
  command, and reading its strings from the buffer gives the tree back. So precedence and grouping of the
  operators, the order of redirections, and parentheses are all parsed as they are printed.\<close>

theorem parsecmd_roundtrip:
  assumes "cmd_ok plain t"
  shows "\<exists>c b'. parsecmd (cmd_text t 3) = Some (Ok (c, b')) \<and> map_cmd (\<lambda>w. cstr b' (fst w)) c = t"
proof -
  let ?b = "cmd_text t 3"
  note nn = cmd_text_no_NUL [OF assms, of 3] and len = text_len_no_NUL [OF cmd_text_no_NUL [OF assms, of 3]]
  have "parses ?b parseline 0 [] t"
    by (rule readsD [of _ _ 3 "'')''"]) (use reads_all [OF nn assms] in \<open>simp_all add: rem_def ws_def\<close>)
  then obtain n c p where c: "\<And>m. n \<le> m \<Longrightarrow> parseline m ?b (length ?b) 0 = Some (Ok (c, p))" "rem ?b p = ws []"
    "map_cmd (slice ?b) c = t" by (rule parsesE) blast
  have g: "good ?b 0 (parseline (parse_fuel ?b) ?b (length ?b) 0)"
    using good_parsers(1) [of 0 ?b "parse_fuel ?b"] by (simp add: parse_fuel_def len)
  then obtain r where "parseline (parse_fuel ?b) ?b (length ?b) 0 = Some r" by (auto simp: good_def)
  moreover from this have "r = Ok (c, p)"
    using c(1) [of "max n (parse_fuel ?b)"] parseline_fuel [of "parse_fuel ?b" "max n (parse_fuel ?b)"] by simp
  ultimately have pl: "parseline (parse_fuel ?b) ?b (length ?b) 0 = Some (Ok (c, p))" by simp
  have ok: "cmd_ok (word_ok ?b (text_len ?b)) c" "p \<le> length ?b" using g pl by (auto simp: good_def len)
  obtain r p' where pk: "peek ?b (length ?b) [] p = (r, p')" by fastforce
  have "drop p' ?b = []" using peek_rem(3) [OF nn pk] c(2) by (simp add: ws_def)
  moreover have "p' \<le> length ?b" using peek_ok(2) [of ?b "[]" p r p'] pk ok(2) by (simp add: len)
  ultimately have "parsecmd ?b = Some (Ok (c, nulterminate c ?b))"
    using pl pk by (simp add: parsecmd_def len andthen_def)
  moreover have "map_cmd (\<lambda>w. cstr (nulterminate c ?b) (fst w)) c = map_cmd (slice ?b) c"
    using nulterminate_words [OF ok(1)] by (intro cmd.map_cong refl) auto
  ultimately show ?thesis using c(3) by auto
qed

theorem parsecmd_roundtrip_witness:
  "\<exists>c b'. parsecmd ''(a b >f ;c &)|d '' = Some (Ok (c, b')) \<and>
     map_cmd (\<lambda>w. cstr b' (fst w)) c =
       PIPE (LIST (REDIR (EXEC [''a'', ''b'']) ''f'' (O_WRONLY OR O_CREATE OR O_TRUNC) 1) (BACK (EXEC [''c'']))) (EXEC [''d''])"
  (is "\<exists>c b'. _ \<and> _ = ?t")
proof -
  have "cmd_ok plain ?t" by code_simp
  from parsecmd_roundtrip [OF this] show ?thesis
    by (simp add: paren_def redir_text_def redir_modes)
qed

end
