(* ===== verification/Proc_State.thy ===== *)
theory Proc_State
  imports Riscv_Layout
begin

text \<open>
  The state every kernel path shares: \<open>struct proc\<close> (kernel/proc.h), the process table, the
  process of the executing CPU (\<open>mycpu()->proc\<close>) and the spin locks that CPU holds.

  A kernel path runs on one CPU, so \<open>acquire\<close> either panics because this CPU already holds the
  lock, or takes it. The theory Spinlock models the locks themselves and derives this view of them.
  Pointers to processes, files and inodes are table indices; \<open>None\<close> is the null pointer.
\<close>

section \<open>kernel/proc.h\<close>

datatype procstate = UNUSED | USED | SLEEPING | RUNNABLE | RUNNING | ZOMBIE

text \<open>The objects the kernel sleeps on; \<open>ChanNone\<close> is the null channel.\<close>

datatype channel = ChanNone | ChanTicks | ChanProc nat | ChanLog | ChanLock nat | ChanBuf nat
  | ChanPipeRead nat | ChanPipeWrite nat | ChanCons | ChanUart | ChanVirtio

record "context" =
  ra :: uint64
  sp :: uint64
  saved :: "nat \<Rightarrow> uint64"

record proc =
  pstate :: procstate
  chan :: channel
  killed :: int
  xstate :: int
  pid :: int
  parent :: "nat option"
  kstack :: uint64
  sz :: uint64
  pagetable :: uint64
  trapframe :: uint64
  pcontext :: "context"
  ofile :: "nat \<Rightarrow> nat option"
  cwd :: "nat option"
  pname :: "uint8 list"
  syscount :: int
  cur_queue_lvl :: int
  ticks_each_level :: int
  pticks :: "nat \<Rightarrow> int"
  no_of_schedules :: int
  temp :: int
  page_faults :: int
  pages_evicted :: int
  pages_swapped_in :: int
  pages_swapped_out :: int
  resident_pages :: int
  disk_reads :: int
  disk_writes :: int
  avg_disk_latency :: int

text \<open>A zeroed table entry, as the C runtime leaves it.\<close>

definition proc0 :: proc where
  "proc0 = \<lparr>pstate = UNUSED, chan = ChanNone, killed = 0, xstate = 0, pid = 0, parent = None,
     kstack = 0, sz = 0, pagetable = 0, trapframe = 0,
     pcontext = \<lparr>ra = 0, sp = 0, saved = (\<lambda>_. 0)\<rparr>, ofile = (\<lambda>_. None), cwd = None, pname = [],
     syscount = 0, cur_queue_lvl = 0, ticks_each_level = 0, pticks = (\<lambda>_. 0), no_of_schedules = 0,
     temp = 0, page_faults = 0, pages_evicted = 0, pages_swapped_in = 0, pages_swapped_out = 0,
     resident_pages = 0, disk_reads = 0, disk_writes = 0, avg_disk_latency = 0\<rparr>"

section \<open>The process table, the running process and the held locks\<close>

datatype klock = KmemLock | FrameLock | SwapLock | DiskqLock | PidLock | WaitLock | TicksLock
  | ProcLock nat | SleepInner nat | BcacheLock | LogLock | ItableLock | FtableLock | PipeLock nat | ConsLock | UartLock
  | PrLock | VdiskLock

record kproc =
  procs :: "nat \<Rightarrow> proc"
  cpu_proc :: "nat option"
  held :: "klock set"

definition myproc :: "'z kproc_scheme \<Rightarrow> nat option" where
  "myproc s = cpu_proc s"

definition upd_proc :: "nat \<Rightarrow> (proc \<Rightarrow> proc) \<Rightarrow> 'z kproc_scheme \<Rightarrow> 'z kproc_scheme" where
  "upd_proc i f s = s\<lparr>procs := (procs s)(i := f (procs s i))\<rparr>"

definition acquire :: "klock \<Rightarrow> 'z kproc_scheme \<Rightarrow> 'z kproc_scheme res" where
  "acquire l s = (if l \<in> held s then Panic ''acquire'' else Ok (s\<lparr>held := insert l (held s)\<rparr>))"

definition release :: "klock \<Rightarrow> 'z kproc_scheme \<Rightarrow> 'z kproc_scheme res" where
  "release l s = (if l \<notin> held s then Panic ''release'' else Ok (s\<lparr>held := held s - {l}\<rparr>))"

section \<open>Simplification\<close>

lemma upd_proc_sel [simp]:
  "procs (upd_proc i f s) = (procs s)(i := f (procs s i))"
  "cpu_proc (upd_proc i f s) = cpu_proc s"
  "held (upd_proc i f s) = held s"
  "myproc (upd_proc i f s) = myproc s"
  by (simp_all add: upd_proc_def myproc_def)

lemma upd_proc_more [simp]: "kproc.more (upd_proc i f s) = kproc.more s"
  by (simp add: upd_proc_def)

lemma myproc_held [simp]: "myproc (s\<lparr>held := H\<rparr>) = myproc s"
  by (simp add: myproc_def)

lemma acquire_ok [simp]: "l \<notin> held s \<Longrightarrow> acquire l s = Ok (s\<lparr>held := insert l (held s)\<rparr>)"
  by (simp add: acquire_def)

lemma acquire_held: "l \<in> held s \<Longrightarrow> acquire l s = Panic ''acquire''"
  by (simp add: acquire_def)

lemma release_ok [simp]: "l \<in> held s \<Longrightarrow> release l s = Ok (s\<lparr>held := held s - {l}\<rparr>)"
  by (simp add: release_def)

lemma acquire_OkD: "acquire l s = Ok s' \<Longrightarrow> l \<notin> held s \<and> s' = s\<lparr>held := insert l (held s)\<rparr>"
  by (auto simp: acquire_def split: if_splits)

lemma release_OkD: "release l s = Ok s' \<Longrightarrow> l \<in> held s \<and> s' = s\<lparr>held := held s - {l}\<rparr>"
  by (auto simp: release_def split: if_splits)

end
