(* ===== verification/Swap_Disk.thy ===== *)
theory Swap_Disk
  imports Proc_State
begin

text \<open>
  kernel/swap_disk.c: the simulated swap disks behind \<open>swapout\<close> and \<open>swapin\<close>. The state is the
  disk request queue \<open>diskq\<close>, the four simulated disks, the active RAID mode and the mode each
  swap slot was written under. A page is the list of its 4096 bytes.

  The first part is the model, function by function. The second part shows what the disk
  scheduler chooses, that its queue is empty between calls (so that the policy never matters), how
  blocks are placed, and that under one RAID mode the slots of that mode's capacity are a store of
  pages. Parity, mirroring and the latency account follow.
\<close>

unbundle bit_operations_syntax

section \<open>Model\<close>

abbreviation (input) MAX_DISK_REQS :: nat where "MAX_DISK_REQS \<equiv> 128"

abbreviation (input) ROTATIONAL_DELAY :: int where "ROTATIONAL_DELAY \<equiv> 5"

abbreviation (input) NDISKS :: int where "NDISKS \<equiv> 4"

abbreviation (input) DISK_BLOCKS_PER_DISK :: int where "DISK_BLOCKS_PER_DISK \<equiv> 16384"

abbreviation (input) MAX_SWAP_SLOTS :: int where "MAX_SWAP_SLOTS \<equiv> 16384"

abbreviation (input) BSIZE :: nat where "BSIZE \<equiv> 1024"

abbreviation (input) BLOCKS_PER_PAGE :: nat where "BLOCKS_PER_PAGE \<equiv> 4"

abbreviation (input) RAID_0 :: int where "RAID_0 \<equiv> 0"

abbreviation (input) RAID_1 :: int where "RAID_1 \<equiv> 1"

abbreviation (input) RAID_5 :: int where "RAID_5 \<equiv> 2"

abbreviation (input) DISK_SCHED_FCFS :: int where "DISK_SCHED_FCFS \<equiv> 0"

abbreviation (input) DISK_SCHED_SSTF :: int where "DISK_SCHED_SSTF \<equiv> 1"

record disk_req =
  valid :: bool
  blockno :: int
  is_write :: bool
  rproc :: "nat option"
  priority :: int

record swapdisk = kproc +
  reqs :: "nat \<Rightarrow> disk_req"
  head :: int
  policy :: int
  total_latency :: int
  total_requests :: int
  simulated_disks :: "int \<Rightarrow> int \<Rightarrow> uint8 list"
  raid_mode :: int
  swap_slot_raid_mode :: "int \<Rightarrow> int"

definition set_block :: "int \<Rightarrow> int \<Rightarrow> uint8 list \<Rightarrow> 'z swapdisk_scheme \<Rightarrow> 'z swapdisk_scheme" where
  "set_block disk block bs s =
     s\<lparr>simulated_disks := (simulated_disks s)(disk := (simulated_disks s disk)(block := bs))\<rparr>"

definition phys_block :: "int \<Rightarrow> int \<Rightarrow> int" where
  "phys_block block mode =
     (let block = (if mode = RAID_1 then block + 2048 else block)
      in if mode = RAID_5 then block + 4096 else block)"

definition phys_write ::
    "int \<Rightarrow> int \<Rightarrow> uint8 list \<Rightarrow> int \<Rightarrow> 'z swapdisk_scheme \<Rightarrow> 'z swapdisk_scheme res" where
  "phys_write disk block data mode s =
     (let block = phys_block block mode
      in if disk < 0 \<or> disk \<ge> NDISKS \<or> block < 0 \<or> block \<ge> DISK_BLOCKS_PER_DISK
         then Panic ''phys_write: out of range''
         else Ok (set_block disk block (take BSIZE data) s))"

definition phys_read :: "int \<Rightarrow> int \<Rightarrow> int \<Rightarrow> 'z swapdisk_scheme \<Rightarrow> uint8 list res" where
  "phys_read disk block mode s =
     (let block = phys_block block mode
      in if disk < 0 \<or> disk \<ge> NDISKS \<or> block < 0 \<or> block \<ge> DISK_BLOCKS_PER_DISK
         then Panic ''phys_read: out of range''
         else Ok (take BSIZE (simulated_disks s disk block)))"

subsection \<open>The disk scheduler\<close>

definition seek_dist :: "disk_req \<Rightarrow> int \<Rightarrow> int" where
  "seek_dist r hpos = (let dist = blockno r - hpos in if dist < 0 then - dist else dist)"

text \<open>The body of the SSTF loop; the accumulator is \<open>(chosen, min_dist, best_pri)\<close>.\<close>

definition sstf_step ::
    "(nat \<Rightarrow> disk_req) \<Rightarrow> int \<Rightarrow> nat \<Rightarrow> nat option \<times> int \<times> int \<Rightarrow> nat option \<times> int \<times> int" where
  "sstf_step rq hpos i acc =
     (case acc of (chosen, min_dist, best_pri) \<Rightarrow>
        if \<not> valid (rq i) then (chosen, min_dist, best_pri)
        else
          let dist = seek_dist (rq i) hpos
          in if chosen = None \<or> dist < min_dist \<or> (dist = min_dist \<and> priority (rq i) < best_pri)
             then (Some i, dist, priority (rq i))
             else (chosen, min_dist, best_pri))"

definition disk_schedule_locked :: "'z swapdisk_scheme \<Rightarrow> nat option" where
  "disk_schedule_locked s =
     (if policy s = DISK_SCHED_FCFS
      then search (\<lambda>i. valid (reqs s i)) 0 MAX_DISK_REQS
      else fst (fold (sstf_step (reqs s) (head s)) [0..<MAX_DISK_REQS] (None, -1, -1)))"

definition disk_submit_and_dispatch ::
    "int \<Rightarrow> bool \<Rightarrow> 'z swapdisk_scheme \<Rightarrow> 'z swapdisk_scheme res" where
  "disk_submit_and_dispatch block wr s =
     bindr (acquire DiskqLock s) (\<lambda>s.
     case search (\<lambda>i. \<not> valid (reqs s i)) 0 MAX_DISK_REQS of
       None \<Rightarrow> Panic ''disk_submit: queue full''
     | Some slot \<Rightarrow>
       (case myproc s of
          None \<Rightarrow> Panic ''kerneltrap''
        | Some me \<Rightarrow>
          let s = s\<lparr>reqs := (reqs s)(slot :=
                      \<lparr>valid = True, blockno = block, is_write = wr, rproc = Some me,
                       priority = cur_queue_lvl (procs s me)\<rparr>)\<rparr>
          in case disk_schedule_locked s of
               None \<Rightarrow> release DiskqLock s
             | Some idx \<Rightarrow>
               let req = reqs s idx;
                   s = s\<lparr>reqs := (reqs s)(idx := req\<lparr>valid := False\<rparr>)\<rparr>;
                   dist = seek_dist req (head s);
                   latency = dist + ROTATIONAL_DELAY;
                   s = s\<lparr>head := blockno req,
                         total_latency := total_latency s + latency,
                         total_requests := total_requests s + 1\<rparr>
               in bindr (release DiskqLock s) (\<lambda>s.
                  case rproc req of
                    None \<Rightarrow> Ok s
                  | Some p \<Rightarrow>
                    let s = (if is_write req
                             then upd_proc p (\<lambda>q. q\<lparr>disk_writes := disk_writes q + 1\<rparr>) s
                             else upd_proc p (\<lambda>q. q\<lparr>disk_reads := disk_reads q + 1\<rparr>) s)
                    in bindr (acquire DiskqLock s) (\<lambda>s.
                       let tl = total_latency s; tr = total_requests s
                       in bindr (release DiskqLock s) (\<lambda>s.
                          Ok (upd_proc p (\<lambda>q. q\<lparr>avg_disk_latency :=
                                (if tr \<noteq> 0 then tl sdiv tr else 0)\<rparr>) s))))))"

subsection \<open>RAID\<close>

text \<open>The parity block that \<open>raid_write\<close> recomputes: the XOR of the row over the data disks.\<close>

definition xor_block :: "uint8 list \<Rightarrow> uint8 list \<Rightarrow> uint8 list" where
  "xor_block xs ys = map2 (XOR) xs ys"

definition row_parity :: "'z swapdisk_scheme \<Rightarrow> int \<Rightarrow> int \<Rightarrow> uint8 list" where
  "row_parity s parity_disk pblock =
     fold (\<lambda>d parity. if d = parity_disk then parity
                      else xor_block parity (simulated_disks s d pblock))
       [0, 1, 2, 3] (replicate BSIZE 0)"

definition raid_write ::
    "int \<Rightarrow> uint8 list \<Rightarrow> int \<Rightarrow> 'z swapdisk_scheme \<Rightarrow> 'z swapdisk_scheme res" where
  "raid_write logical_block chunk mode s =
     (if mode = RAID_0 then
        let disk = logical_block smod NDISKS; block = logical_block sdiv NDISKS
        in bindr (disk_submit_and_dispatch block True s) (phys_write disk block chunk mode)
      else if mode = RAID_1 then
        let pair = (logical_block sdiv DISK_BLOCKS_PER_DISK) smod 2;
            block = logical_block smod DISK_BLOCKS_PER_DISK;
            disk_a = pair * 2;
            disk_b = pair * 2 + 1
        in bindr (disk_submit_and_dispatch block True s) (\<lambda>s.
           bindr (phys_write disk_a block chunk mode s)
             (phys_write disk_b block chunk mode))
      else if mode = RAID_5 then
        let row = logical_block sdiv (NDISKS - 1);
            slot = logical_block smod (NDISKS - 1);
            parity_disk = row smod NDISKS;
            data_disk = (if slot < parity_disk then slot else slot + 1);
            block = row
        in bindr (disk_submit_and_dispatch block True s) (\<lambda>s.
           bindr (phys_write data_disk block chunk mode s) (\<lambda>s.
           phys_write parity_disk block (row_parity s parity_disk (block + 4096)) mode s))
      else Ok s)"

definition raid_read ::
    "int \<Rightarrow> uint8 list \<Rightarrow> int \<Rightarrow> 'z swapdisk_scheme \<Rightarrow> (uint8 list \<times> 'z swapdisk_scheme) res" where
  "raid_read logical_block chunk mode s =
     (if mode = RAID_0 then
        let disk = logical_block smod NDISKS; block = logical_block sdiv NDISKS
        in bindr (disk_submit_and_dispatch block False s) (\<lambda>s.
           bindr (phys_read disk block mode s) (\<lambda>data. Ok (data, s)))
      else if mode = RAID_1 then
        let pair = (logical_block sdiv DISK_BLOCKS_PER_DISK) smod 2;
            block = logical_block smod DISK_BLOCKS_PER_DISK;
            disk_a = pair * 2
        in bindr (disk_submit_and_dispatch block False s) (\<lambda>s.
           bindr (phys_read disk_a block mode s) (\<lambda>data. Ok (data, s)))
      else if mode = RAID_5 then
        let row = logical_block sdiv (NDISKS - 1);
            slot = logical_block smod (NDISKS - 1);
            parity_disk = row smod NDISKS;
            data_disk = (if slot < parity_disk then slot else slot + 1);
            block = row
        in bindr (disk_submit_and_dispatch block False s) (\<lambda>s.
           bindr (phys_read data_disk block mode s) (\<lambda>data. Ok (data, s)))
      else Ok (chunk, s))"

subsection \<open>The public interface\<close>

definition swap_disk_init :: "'z swapdisk_scheme \<Rightarrow> 'z swapdisk_scheme" where
  "swap_disk_init s =
     s\<lparr>head := 0, policy := DISK_SCHED_FCFS, total_latency := 0, total_requests := 0,
       raid_mode := RAID_0,
       simulated_disks := (\<lambda>_ _. replicate BSIZE 0),
       swap_slot_raid_mode := (\<lambda>_. 0)\<rparr>"

definition page_chunk :: "nat \<Rightarrow> uint8 list \<Rightarrow> uint8 list" where
  "page_chunk i page = take BSIZE (drop (i * BSIZE) page)"

definition put_chunk :: "nat \<Rightarrow> uint8 list \<Rightarrow> uint8 list \<Rightarrow> uint8 list" where
  "put_chunk i c page = take (i * BSIZE) page @ c @ drop (Suc i * BSIZE) page"

definition swap_out_page ::
    "uint8 list \<Rightarrow> int \<Rightarrow> 'z swapdisk_scheme \<Rightarrow> 'z swapdisk_scheme res" where
  "swap_out_page page_data swap_slot s =
     (if swap_slot < 0 \<or> swap_slot \<ge> MAX_SWAP_SLOTS then Panic ''swap_out_page: invalid slot''
      else
        let logical_block = swap_slot * int BLOCKS_PER_PAGE
        in bindr (acquire DiskqLock s) (\<lambda>s.
           let mode = raid_mode s;
               s = s\<lparr>swap_slot_raid_mode := (swap_slot_raid_mode s)(swap_slot := mode)\<rparr>
           in bindr (release DiskqLock s) (\<lambda>s.
              loop_res (\<lambda>i. raid_write (logical_block + int i) (page_chunk i page_data) mode)
                [0..<BLOCKS_PER_PAGE] s)))"

definition swap_in_page ::
    "uint8 list \<Rightarrow> int \<Rightarrow> 'z swapdisk_scheme \<Rightarrow> (uint8 list \<times> 'z swapdisk_scheme) res" where
  "swap_in_page page_data swap_slot s =
     (if swap_slot < 0 \<or> swap_slot \<ge> MAX_SWAP_SLOTS then Panic ''swap_in_page: invalid slot''
      else
        let logical_block = swap_slot * int BLOCKS_PER_PAGE;
            mode = swap_slot_raid_mode s swap_slot
        in loop_res (\<lambda>i (page, s).
             bindr (raid_read (logical_block + int i) (page_chunk i page) mode s)
               (\<lambda>(c, s). Ok (put_chunk i c page, s)))
             [0..<BLOCKS_PER_PAGE] (page_data, s))"

definition free_block :: "int \<Rightarrow> int \<Rightarrow> 'z swapdisk_scheme \<Rightarrow> 'z swapdisk_scheme" where
  "free_block mode lb s =
     (if mode = RAID_0 then
        let disk = lb smod NDISKS; block = lb sdiv NDISKS
        in set_block disk block (replicate BSIZE 0) s
      else if mode = RAID_1 then
        let pair = (lb sdiv DISK_BLOCKS_PER_DISK) smod 2;
            block = lb smod DISK_BLOCKS_PER_DISK + 2048
        in set_block (pair * 2 + 1) block (replicate BSIZE 0)
             (set_block (pair * 2) block (replicate BSIZE 0) s)
      else if mode = RAID_5 then
        let row = lb sdiv (NDISKS - 1);
            slot = lb smod (NDISKS - 1);
            parity_disk = row smod NDISKS;
            data_disk = (if slot < parity_disk then slot else slot + 1);
            block = row + 4096
        in set_block parity_disk block (replicate BSIZE 0)
             (set_block data_disk block (replicate BSIZE 0) s)
      else s)"

definition swap_disk_free_slot :: "int \<Rightarrow> 'z swapdisk_scheme \<Rightarrow> 'z swapdisk_scheme" where
  "swap_disk_free_slot swap_slot s =
     (if swap_slot < 0 \<or> swap_slot \<ge> MAX_SWAP_SLOTS then s
      else
        let logical_block = swap_slot * int BLOCKS_PER_PAGE;
            mode = swap_slot_raid_mode s swap_slot;
            s = fold (\<lambda>i. free_block mode (logical_block + int i)) [0..<BLOCKS_PER_PAGE] s
        in s\<lparr>swap_slot_raid_mode := (swap_slot_raid_mode s)(swap_slot := 0)\<rparr>)"

definition setdisksched :: "int \<Rightarrow> 'z swapdisk_scheme \<Rightarrow> (int \<times> 'z swapdisk_scheme) res" where
  "setdisksched p s =
     (if p \<noteq> DISK_SCHED_FCFS \<and> p \<noteq> DISK_SCHED_SSTF then Ok (-1, s)
      else bindr (acquire DiskqLock s) (\<lambda>s.
           bindr (release DiskqLock (s\<lparr>policy := p\<rparr>)) (\<lambda>s. Ok (0, s))))"

definition setraidmode :: "int \<Rightarrow> 'z swapdisk_scheme \<Rightarrow> (int \<times> 'z swapdisk_scheme) res" where
  "setraidmode mode s =
     (if mode \<noteq> RAID_0 \<and> mode \<noteq> RAID_1 \<and> mode \<noteq> RAID_5 then Ok (-1, s)
      else bindr (acquire DiskqLock s) (\<lambda>s.
           bindr (release DiskqLock (s\<lparr>raid_mode := mode\<rparr>)) (\<lambda>s. Ok (0, s))))"

definition disk_get_avg_latency :: "'z swapdisk_scheme \<Rightarrow> int" where
  "disk_get_avg_latency s =
     (if total_requests s = 0 then 0 else total_latency s sdiv total_requests s)"

definition disk_get_total_requests :: "'z swapdisk_scheme \<Rightarrow> int" where
  "disk_get_total_requests s = total_requests s"

section \<open>The scheduler's choice\<close>

text \<open>The order SSTF minimises: seek distance, then queue level, then position in the table.\<close>

definition sstf_before :: "(nat \<Rightarrow> disk_req) \<Rightarrow> int \<Rightarrow> nat \<Rightarrow> nat \<Rightarrow> bool" where
  "sstf_before rq hpos i j \<longleftrightarrow>
     seek_dist (rq i) hpos < seek_dist (rq j) hpos \<or>
     seek_dist (rq i) hpos = seek_dist (rq j) hpos \<and>
       (priority (rq i) < priority (rq j) \<or> priority (rq i) = priority (rq j) \<and> i \<le> j)"

definition sstf_inv :: "(nat \<Rightarrow> disk_req) \<Rightarrow> int \<Rightarrow> nat \<Rightarrow> nat option \<times> int \<times> int \<Rightarrow> bool" where
  "sstf_inv rq hpos n acc \<longleftrightarrow>
     (case acc of
        (None, _) \<Rightarrow> \<forall>i<n. \<not> valid (rq i)
      | (Some c, d, p) \<Rightarrow>
          c < n \<and> valid (rq c) \<and> d = seek_dist (rq c) hpos \<and> p = priority (rq c) \<and>
          (\<forall>i<n. valid (rq i) \<longrightarrow> sstf_before rq hpos c i))"

lemma sstf_inv_step: "sstf_inv rq hpos n acc \<Longrightarrow> sstf_inv rq hpos (Suc n) (sstf_step rq hpos n acc)"
  by (cases acc; cases "fst acc")
    (auto simp: sstf_inv_def sstf_step_def sstf_before_def Let_def less_Suc_eq)

lemma sstf_inv_fold: "sstf_inv rq hpos n (fold (sstf_step rq hpos) [0..<n] (None, a, b))"
proof (induction n)
  case 0
  then show ?case by (simp add: sstf_inv_def)
next
  case (Suc n)
  then show ?case using sstf_inv_step [of rq hpos n] by simp
qed

lemma disk_schedule_None_iff:
  "disk_schedule_locked s = None \<longleftrightarrow> (\<forall>i<MAX_DISK_REQS. \<not> valid (reqs s i))"
proof (cases "policy s = DISK_SCHED_FCFS")
  case True
  then show ?thesis by (simp add: disk_schedule_locked_def search_None_iff)
next
  case False
  then show ?thesis
    using sstf_inv_fold [of "reqs s" "head s" MAX_DISK_REQS "-1" "-1"]
    by (auto simp: disk_schedule_locked_def sstf_inv_def split: prod.splits option.splits)
qed

lemma disk_schedule_SomeD:
  "disk_schedule_locked s = Some c \<Longrightarrow> c < MAX_DISK_REQS \<and> valid (reqs s c)"
  using sstf_inv_fold [of "reqs s" "head s" MAX_DISK_REQS "-1" "-1"]
  by (auto simp: disk_schedule_locked_def sstf_inv_def search_Some_iff
      split: prod.splits option.splits if_splits)

lemma disk_schedule_sstf_least:
  assumes "policy s \<noteq> DISK_SCHED_FCFS" "disk_schedule_locked s = Some c"
    "i < MAX_DISK_REQS" "valid (reqs s i)"
  shows "sstf_before (reqs s) (head s) c i"
  using assms sstf_inv_fold [of "reqs s" "head s" MAX_DISK_REQS "-1" "-1"]
  by (auto simp: disk_schedule_locked_def sstf_inv_def split: prod.splits option.splits)

definition dq_ready :: "'z swapdisk_scheme \<Rightarrow> bool" where
  "dq_ready s \<longleftrightarrow> (\<forall>i<MAX_DISK_REQS. \<not> valid (reqs s i)) \<and> DiskqLock \<notin> held s \<and> myproc s \<noteq> None"

text \<open>What a request costs: the head moves, the totals grow, the requester's counters change.\<close>

definition charge :: "int \<Rightarrow> bool \<Rightarrow> nat \<Rightarrow> 'z swapdisk_scheme \<Rightarrow> 'z swapdisk_scheme" where
  "charge block wr me s =
     (let tl = total_latency s + (\<bar>block - head s\<bar> + ROTATIONAL_DELAY);
          tr = total_requests s + 1
      in upd_proc me (\<lambda>q. q\<lparr>avg_disk_latency := (if tr \<noteq> 0 then tl sdiv tr else 0)\<rparr>)
         (upd_proc me (\<lambda>q. if wr then q\<lparr>disk_writes := disk_writes q + 1\<rparr>
                          else q\<lparr>disk_reads := disk_reads q + 1\<rparr>)
         (s\<lparr>reqs := (reqs s)(0 := \<lparr>valid = False, blockno = block, is_write = wr, rproc = Some me,
              priority = cur_queue_lvl (procs s me)\<rparr>),
            head := block, total_latency := tl, total_requests := tr\<rparr>)))"

lemma disk_schedule_only:
  assumes "\<forall>i<MAX_DISK_REQS. valid (reqs s i) \<longleftrightarrow> i = c" "c < MAX_DISK_REQS"
  shows "disk_schedule_locked s = Some c"
  using assms disk_schedule_None_iff [of s] disk_schedule_SomeD [of s]
  by (cases "disk_schedule_locked s") auto

lemma seek_dist_abs: "seek_dist r hpos = \<bar>blockno r - hpos\<bar>"
  by (simp add: seek_dist_def Let_def)

lemma submit_ready:
  assumes "dq_ready s" "myproc s = Some me"
  shows "disk_submit_and_dispatch block wr s = Ok (charge block wr me s)"
proof -
  have free: "search (\<lambda>i. \<not> valid (reqs s i)) 0 MAX_DISK_REQS = Some 0"
    using assms by (simp add: dq_ready_def)
  have pick: "disk_schedule_locked
      (s\<lparr>held := insert DiskqLock (held s),
         reqs := (reqs s)(0 := \<lparr>valid = True, blockno = block, is_write = wr, rproc = Some me,
              priority = cur_queue_lvl (procs s me)\<rparr>)\<rparr>) = Some 0"
    using assms by (intro disk_schedule_only) (auto simp: dq_ready_def)
  show ?thesis
    using assms free pick
    by (simp add: disk_submit_and_dispatch_def dq_ready_def charge_def seek_dist_abs Let_def
        acquire_def release_def myproc_def upd_proc_def)
qed

text \<open>What a run of the disk layer leaves alone: every field of the state but the disk's own, and
  every field of a process but its three disk counters.\<close>

definition same_but_disk_stats :: "proc \<Rightarrow> proc \<Rightarrow> bool" where
  "same_but_disk_stats p q \<longleftrightarrow>
     p = q\<lparr>disk_reads := disk_reads p, disk_writes := disk_writes p,
            avg_disk_latency := avg_disk_latency p\<rparr>"

definition disk_frame :: "'z swapdisk_scheme \<Rightarrow> 'z swapdisk_scheme \<Rightarrow> bool" where
  "disk_frame s s' \<longleftrightarrow>
     s' = s\<lparr>procs := procs s', reqs := reqs s', head := head s', total_latency := total_latency s',
            total_requests := total_requests s', simulated_disks := simulated_disks s',
            swap_slot_raid_mode := swap_slot_raid_mode s'\<rparr> \<and>
     (\<forall>i. same_but_disk_stats (procs s' i) (procs s i))"

lemma same_but_disk_statsE:
  assumes "same_but_disk_stats p q"
  obtains a b c where "p = q\<lparr>disk_reads := a, disk_writes := b, avg_disk_latency := c\<rparr>"
  using assms by (auto simp: same_but_disk_stats_def)

lemma disk_frameE:
  assumes "disk_frame s s'"
  obtains pr rq h tl tr dk sm where
    "s' = s\<lparr>procs := pr, reqs := rq, head := h, total_latency := tl, total_requests := tr,
            simulated_disks := dk, swap_slot_raid_mode := sm\<rparr>"
    "\<And>i. same_but_disk_stats (pr i) (procs s i)"
  using assms by (auto simp: disk_frame_def)

lemma same_but_disk_stats_refl [simp]: "same_but_disk_stats p p"
  by (simp add: same_but_disk_stats_def)

lemma same_but_disk_stats_trans:
  "same_but_disk_stats p q \<Longrightarrow> same_but_disk_stats q r \<Longrightarrow> same_but_disk_stats p r"
  by (elim same_but_disk_statsE) (simp add: same_but_disk_stats_def)

lemma disk_frame_refl [simp]: "disk_frame s s"
  by (simp add: disk_frame_def)

lemma disk_frame_trans: "disk_frame s t \<Longrightarrow> disk_frame t u \<Longrightarrow> disk_frame s u"
  by (elim disk_frameE) (simp add: disk_frame_def, blast intro: same_but_disk_stats_trans)

lemma disk_frame_set_block [simp]: "disk_frame s (set_block d b bs s)"
  by (simp add: disk_frame_def set_block_def)

lemma disk_frame_slot_mode [simp]: "disk_frame s (s\<lparr>swap_slot_raid_mode := m\<rparr>)"
  by (simp add: disk_frame_def)

lemma disk_frame_charge [simp]: "disk_frame s (charge block wr me s)"
  by (simp add: disk_frame_def charge_def Let_def upd_proc_def same_but_disk_stats_def)

lemma disk_frame_sel:
  assumes "disk_frame s s'"
  shows "cpu_proc s' = cpu_proc s" "held s' = held s" "raid_mode s' = raid_mode s"
    "policy s' = policy s" "myproc s' = myproc s"
  using assms by (auto elim!: disk_frameE simp: myproc_def)

lemma charge_sel [simp]:
  "simulated_disks (charge block wr me s) = simulated_disks s"
  "swap_slot_raid_mode (charge block wr me s) = swap_slot_raid_mode s"
  "raid_mode (charge block wr me s) = raid_mode s"
  "held (charge block wr me s) = held s"
  "myproc (charge block wr me s) = myproc s"
  by (simp_all add: charge_def Let_def upd_proc_def myproc_def)

lemma dq_ready_charge [simp]: "dq_ready s \<Longrightarrow> dq_ready (charge block wr me s)"
  by (simp add: dq_ready_def charge_def Let_def upd_proc_def myproc_def)

lemma set_block_sel [simp]:
  "simulated_disks (set_block d b bs s) d' b' =
     (if d' = d \<and> b' = b then bs else simulated_disks s d' b')"
  "swap_slot_raid_mode (set_block d b bs s) = swap_slot_raid_mode s"
  "raid_mode (set_block d b bs s) = raid_mode s"
  "reqs (set_block d b bs s) = reqs s"
  "held (set_block d b bs s) = held s"
  "myproc (set_block d b bs s) = myproc s"
  by (simp_all add: set_block_def myproc_def)

lemma dq_ready_set_block [simp]: "dq_ready (set_block d b bs s) = dq_ready s"
  by (simp add: dq_ready_def)

section \<open>Placement of blocks\<close>

text \<open>Counting disks past the parity disk is injective and never lands on it.\<close>

definition skip :: "int \<Rightarrow> int \<Rightarrow> int" where
  "skip p a = (if a < p then a else a + 1)"

lemma skip_inj: "skip p a = skip p b \<Longrightarrow> a = b"
  by (simp add: skip_def split: if_splits)

lemma skip_ne: "skip p a \<noteq> p"
  by (simp add: skip_def)

lemma skip_range: "0 \<le> a \<Longrightarrow> a < n \<Longrightarrow> 0 \<le> skip p a \<and> skip p a < n + 1"
  by (simp add: skip_def)

text \<open>Where a logical block of a mode lives, and the second block a write of that mode touches
  (the mirror, or the parity block).\<close>

definition data_loc :: "int \<Rightarrow> int \<Rightarrow> int \<times> int" where
  "data_loc mode lb =
     (if mode = RAID_0 then (lb mod 4, lb div 4)
      else if mode = RAID_1 then (lb div 16384 mod 2 * 2, lb mod 16384 + 2048)
      else (skip (lb div 3 mod 4) (lb mod 3), lb div 3 + 4096))"

definition aux_loc :: "int \<Rightarrow> int \<Rightarrow> int \<times> int" where
  "aux_loc mode lb =
     (if mode = RAID_0 then data_loc mode lb
      else if mode = RAID_1 then (lb div 16384 mod 2 * 2 + 1, lb mod 16384 + 2048)
      else (lb div 3 mod 4, lb div 3 + 4096))"

definition seek_block :: "int \<Rightarrow> int \<Rightarrow> int" where
  "seek_block mode lb =
     (if mode = RAID_0 then lb div 4 else if mode = RAID_1 then lb mod 16384 else lb div 3)"

definition raid_known :: "int \<Rightarrow> bool" where
  "raid_known mode \<longleftrightarrow> mode = RAID_0 \<or> mode = RAID_1 \<or> mode = RAID_5"

text \<open>The logical blocks a mode can hold without running off a disk, and those among them that do
  not share their place with a smaller one.\<close>

definition block_fits :: "int \<Rightarrow> int \<Rightarrow> bool" where
  "block_fits mode lb \<longleftrightarrow> 0 \<le> lb \<and> snd (data_loc mode lb) < DISK_BLOCKS_PER_DISK"

definition block_ok :: "int \<Rightarrow> int \<Rightarrow> bool" where
  "block_ok mode lb \<longleftrightarrow> block_fits mode lb \<and> (mode = RAID_1 \<longrightarrow> lb < 2 * DISK_BLOCKS_PER_DISK)"

definition aux_chunk :: "int \<Rightarrow> int \<Rightarrow> uint8 list \<Rightarrow> 'z swapdisk_scheme \<Rightarrow> uint8 list" where
  "aux_chunk mode lb chunk s =
     (if mode = RAID_5 then row_parity s (fst (aux_loc mode lb)) (snd (aux_loc mode lb)) else chunk)"

definition place :: "int \<Rightarrow> int \<Rightarrow> uint8 list \<Rightarrow> 'z swapdisk_scheme \<Rightarrow> 'z swapdisk_scheme" where
  "place mode lb chunk s =
     (let s1 = set_block (fst (data_loc mode lb)) (snd (data_loc mode lb)) (take BSIZE chunk) s
      in if mode = RAID_0 then s1
         else set_block (fst (aux_loc mode lb)) (snd (aux_loc mode lb))
                (take BSIZE (aux_chunk mode lb chunk s1)) s1)"

lemma mod2_double: "0 \<le> a mod 2 * 2 \<and> a mod 2 * 2 \<le> (2::int)"
  by presburger

lemma data_loc_range:
  "0 \<le> lb \<Longrightarrow> 0 \<le> fst (data_loc mode lb) \<and> fst (data_loc mode lb) < NDISKS \<and> 0 \<le> snd (data_loc mode lb)"
  using skip_range [of "lb mod 3" 3 "lb div 3 mod 4"] mod2_double [of "lb div 16384"]
    pos_imp_zdiv_nonneg_iff [of 4 lb]
  by (simp add: data_loc_def)

lemma aux_loc_range: "0 \<le> fst (aux_loc mode lb) \<and> fst (aux_loc mode lb) < NDISKS"
  using mod2_double [of "lb div 16384"] by (simp add: aux_loc_def data_loc_def)

lemma data_loc_mode:
  "data_loc RAID_0 lb = (lb mod 4, lb div 4)"
  "data_loc RAID_1 lb = (lb div 16384 mod 2 * 2, lb mod 16384 + 2048)"
  "data_loc RAID_5 lb = (skip (lb div 3 mod 4) (lb mod 3), lb div 3 + 4096)"
  "aux_loc RAID_1 lb = (lb div 16384 mod 2 * 2 + 1, lb mod 16384 + 2048)"
  "aux_loc RAID_5 lb = (lb div 3 mod 4, lb div 3 + 4096)"
  by (simp_all add: data_loc_def aux_loc_def)

lemma double_ne_odd: "2 * a \<noteq> 2 * b + (1::int)"
  by presburger

lemma div_mod_inj: "a div k = b div k \<Longrightarrow> a mod k = b mod k \<Longrightarrow> a = (b::int)"
  by (metis mult_div_mod_eq)

lemma raid1_pair_inj:
  assumes "0 \<le> a" "a < 32768" "0 \<le> b" "b < (32768::int)" "a div 16384 mod 2 = b div 16384 mod 2"
  shows "a div 16384 = b div 16384"
proof -
  have "0 \<le> a div 16384" "a div 16384 < 2" "0 \<le> b div 16384" "b div 16384 < 2" using assms by auto
  then show ?thesis using assms(5) by simp
qed

lemma data_loc_inj:
  assumes "raid_known mode" "block_ok mode lb" "block_ok mode lb'" "data_loc mode lb' = data_loc mode lb"
  shows "lb' = lb"
proof -
  consider "mode = RAID_0" | "mode = RAID_1" | "mode = RAID_5"
    using assms(1) by (auto simp: raid_known_def)
  then show ?thesis
  proof cases
    case 1
    then have "lb' div 4 = lb div 4" "lb' mod 4 = lb mod 4"
      using assms(4) unfolding data_loc_def by simp_all
    then show ?thesis by (rule div_mod_inj)
  next
    case 2
    then have eq: "lb' div 16384 mod 2 = lb div 16384 mod 2" "lb' mod 16384 = lb mod 16384"
      using assms(4) unfolding data_loc_def by simp_all
    have "lb' div 16384 = lb div 16384"
      using 2 assms(2,3) by (intro raid1_pair_inj eq(1)) (simp_all add: block_ok_def block_fits_def)
    then show ?thesis using eq(2) by (rule div_mod_inj)
  next
    case 3
    have both: "skip (lb' div 3 mod 4) (lb' mod 3) = skip (lb div 3 mod 4) (lb mod 3) \<and>
      lb' div 3 + 4096 = lb div 3 + 4096"
      using assms(4) by (simp only: 3 data_loc_mode prod.inject)
    then have row: "lb' div 3 = lb div 3" by (simp only: add_right_cancel)
    have "lb' mod 3 = lb mod 3" using conjunct1 [OF both] unfolding row by (rule skip_inj)
    with row show ?thesis by (rule div_mod_inj)
  qed
qed

lemma data_loc_ne_aux_other:
  assumes "raid_known mode" "mode \<noteq> RAID_0"
  shows "data_loc mode lb' \<noteq> aux_loc mode lb"
proof
  assume eq: "data_loc mode lb' = aux_loc mode lb"
  show False
  proof (cases "mode = RAID_1")
    case True
    then have "2 * (lb' div 16384 mod 2) = 2 * (lb div 16384 mod 2) + 1"
      using eq unfolding data_loc_def aux_loc_def by simp
    then show False by (rule notE [OF double_ne_odd])
  next
    case False
    then have "mode = RAID_5" using assms by (simp add: raid_known_def)
    then have both: "skip (lb' div 3 mod 4) (lb' mod 3) = lb div 3 mod 4 \<and> lb' div 3 + 4096 = lb div 3 + 4096"
      using eq by (simp only: data_loc_mode prod.inject)
    then have row: "lb' div 3 = lb div 3" by (simp only: add_right_cancel)
    show False using conjunct1 [OF both] unfolding row by (rule notE [OF skip_ne])
  qed
qed

lemma seek_block_phys:
  "raid_known mode \<Longrightarrow> phys_block (seek_block mode lb) mode = snd (data_loc mode lb)"
  by (auto simp: seek_block_def phys_block_def data_loc_def raid_known_def)

lemma phys_write_loc:
  assumes "raid_known mode" "0 \<le> disk" "disk < NDISKS" "0 \<le> lb"
  shows "phys_write disk (seek_block mode lb) data mode s =
     (if snd (data_loc mode lb) < DISK_BLOCKS_PER_DISK
      then Ok (set_block disk (snd (data_loc mode lb)) (take BSIZE data) s)
      else Panic ''phys_write: out of range'')"
  using assms data_loc_range [of lb mode] by (simp add: phys_write_def Let_def seek_block_phys)

lemma phys_read_loc:
  assumes "raid_known mode" "0 \<le> disk" "disk < NDISKS" "0 \<le> lb"
  shows "phys_read disk (seek_block mode lb) mode s =
     (if snd (data_loc mode lb) < DISK_BLOCKS_PER_DISK
      then Ok (take BSIZE (simulated_disks s disk (snd (data_loc mode lb))))
      else Panic ''phys_read: out of range'')"
  using assms data_loc_range [of lb mode] by (simp add: phys_read_def Let_def seek_block_phys)

lemma snd_aux_loc: "raid_known mode \<Longrightarrow> snd (aux_loc mode lb) = snd (data_loc mode lb)"
  by (auto simp: data_loc_def aux_loc_def raid_known_def)

lemma raid_write_unfold:
  assumes "raid_known mode" "0 \<le> lb"
  shows "raid_write lb chunk mode s =
    bindr (disk_submit_and_dispatch (seek_block mode lb) True s) (\<lambda>s.
    bindr (phys_write (fst (data_loc mode lb)) (seek_block mode lb) chunk mode s) (\<lambda>s.
      if mode = RAID_0 then Ok s
      else phys_write (fst (aux_loc mode lb)) (seek_block mode lb)
        (aux_chunk mode lb chunk s) mode s))"
proof -
  have [simp]: "bindr m Ok = m" for m :: "'b res" by (cases m) simp_all
  consider "mode = RAID_0" | "mode = RAID_1" | "mode = RAID_5"
    using assms(1) by (auto simp: raid_known_def)
  then show ?thesis
    using assms(2)
    by cases (simp_all add: raid_write_def aux_chunk_def Let_def data_loc_mode seek_block_def skip_def cong: bindr_cong)
qed

lemma raid_read_unfold:
  assumes "raid_known mode" "0 \<le> lb"
  shows "raid_read lb buf mode s =
    bindr (disk_submit_and_dispatch (seek_block mode lb) False s) (\<lambda>s.
    bindr (phys_read (fst (data_loc mode lb)) (seek_block mode lb) mode s) (\<lambda>data. Ok (data, s)))"
proof -
  consider "mode = RAID_0" | "mode = RAID_1" | "mode = RAID_5"
    using assms(1) by (auto simp: raid_known_def)
  then show ?thesis
    using assms(2)
    by cases (simp_all add: raid_read_def Let_def data_loc_mode seek_block_def skip_def cong: bindr_cong)
qed

lemma raid_write_ready:
  assumes "dq_ready s" "myproc s = Some me" "raid_known mode" "block_fits mode lb"
  shows "raid_write lb chunk mode s = Ok (place mode lb chunk (charge (seek_block mode lb) True me s))"
proof -
  have r: "0 \<le> lb" "snd (data_loc mode lb) < DISK_BLOCKS_PER_DISK"
    using assms(4) by (simp_all add: block_fits_def)
  show ?thesis
    using assms(1-3) r data_loc_range [OF r(1), of mode] aux_loc_range [of mode lb]
    by (simp add: raid_write_unfold submit_ready phys_write_loc snd_aux_loc place_def Let_def)
qed

lemma raid_read_ready:
  assumes "dq_ready s" "myproc s = Some me" "raid_known mode" "block_fits mode lb"
  shows "raid_read lb buf mode s =
    Ok (take BSIZE (simulated_disks s (fst (data_loc mode lb)) (snd (data_loc mode lb))),
        charge (seek_block mode lb) False me s)"
proof -
  have r: "0 \<le> lb" "snd (data_loc mode lb) < DISK_BLOCKS_PER_DISK"
    using assms(4) by (simp_all add: block_fits_def)
  show ?thesis
    using assms(1-3) r data_loc_range [OF r(1), of mode]
    by (simp add: raid_read_unfold submit_ready phys_read_loc)
qed

lemma raid_write_overflow:
  assumes "dq_ready s" "raid_known mode" "0 \<le> lb" "\<not> block_fits mode lb"
  shows "raid_write lb chunk mode s = Panic ''phys_write: out of range''"
proof -
  obtain me where "myproc s = Some me" using assms by (auto simp: dq_ready_def)
  then show ?thesis
    using assms data_loc_range [of lb mode]
    by (simp add: raid_write_unfold submit_ready phys_write_loc block_fits_def)
qed

definition blk :: "int \<Rightarrow> int \<Rightarrow> 'z swapdisk_scheme \<Rightarrow> uint8 list" where
  "blk mode lb s = simulated_disks s (fst (data_loc mode lb)) (snd (data_loc mode lb))"

lemma blk_charge [simp]: "blk mode lb (charge b wr me s) = blk mode lb s"
  by (simp add: blk_def)

lemma blk_slot_mode [simp]: "blk mode lb (s\<lparr>swap_slot_raid_mode := m\<rparr>) = blk mode lb s"
  by (simp add: blk_def)

lemma place_sel [simp]:
  "swap_slot_raid_mode (place mode lb c s) = swap_slot_raid_mode s"
  "raid_mode (place mode lb c s) = raid_mode s"
  "dq_ready (place mode lb c s) = dq_ready s"
  "myproc (place mode lb c s) = myproc s"
  by (simp_all add: place_def Let_def)

lemma disk_frame_place [simp]: "disk_frame s (place mode lb c s)"
  unfolding place_def Let_def by (auto intro: disk_frame_trans disk_frame_set_block)

lemma blk_place_same:
  assumes "raid_known mode"
  shows "blk mode lb (place mode lb c s) = take BSIZE c"
  using data_loc_ne_aux_other [OF assms, of lb lb]
  by (auto simp: blk_def place_def Let_def prod_eq_iff)

lemma blk_place_other:
  assumes "raid_known mode" "block_ok mode lb" "block_ok mode lb'" "lb' \<noteq> lb"
  shows "blk mode lb' (place mode lb c s) = blk mode lb' s"
  using data_loc_ne_aux_other [OF assms(1), of lb' lb] data_loc_inj [OF assms(1-3)] assms(4)
  by (auto simp: blk_def place_def Let_def prod_eq_iff)

section \<open>Swapping a page out and in\<close>

definition slot_ok :: "int \<Rightarrow> int \<Rightarrow> bool" where
  "slot_ok mode slot \<longleftrightarrow>
     0 \<le> slot \<and> slot < MAX_SWAP_SLOTS \<and> (\<forall>i<BLOCKS_PER_PAGE. block_ok mode (slot * 4 + int i))"

definition disks_wf :: "'z swapdisk_scheme \<Rightarrow> bool" where
  "disks_wf s \<longleftrightarrow> (\<forall>d b. length (simulated_disks s d b) = BSIZE)"

text \<open>The page a slot of a mode holds.\<close>

definition page_on :: "int \<Rightarrow> int \<Rightarrow> 'z swapdisk_scheme \<Rightarrow> uint8 list" where
  "page_on mode slot s = concat (map (\<lambda>i. blk mode (slot * 4 + int i) s) [0..<BLOCKS_PER_PAGE])"

lemma length_xor_block [simp]: "length (xor_block xs ys) = min (length xs) (length ys)"
  by (simp add: xor_block_def)

lemma length_row_parity: "disks_wf s \<Longrightarrow> length (row_parity s pd b) = BSIZE"
  by (simp add: row_parity_def disks_wf_def)

lemma disks_wf_set_block: "disks_wf s \<Longrightarrow> length bs = BSIZE \<Longrightarrow> disks_wf (set_block d b bs s)"
  by (simp add: disks_wf_def)

lemma disks_wf_place:
  "disks_wf s \<Longrightarrow> length c = BSIZE \<Longrightarrow> disks_wf (place mode lb c s)"
  by (simp add: place_def aux_chunk_def Let_def disks_wf_set_block length_row_parity)

lemma disks_wf_charge [simp]: "disks_wf (charge b wr me s) = disks_wf s"
  by (simp add: disks_wf_def)

lemma disks_wf_slot_mode [simp]: "disks_wf (s\<lparr>swap_slot_raid_mode := m\<rparr>) = disks_wf s"
  by (simp add: disks_wf_def)

lemma dq_ready_slot_mode [simp]: "dq_ready (s\<lparr>swap_slot_raid_mode := m\<rparr>) = dq_ready s"
  by (simp add: dq_ready_def myproc_def)

lemma length_page_chunk: "length page = 4096 \<Longrightarrow> i < BLOCKS_PER_PAGE \<Longrightarrow> length (page_chunk i page) = BSIZE"
  by (simp add: page_chunk_def)

lemma take_page_chunk [simp]: "take BSIZE (page_chunk i page) = page_chunk i page"
  by (simp add: page_chunk_def)

lemma page_blocks_upt: "[0..<BLOCKS_PER_PAGE] = [0, 1, 2, 3]"
  by (simp add: upt_rec)

lemma concat_page_chunks:
  assumes "length page = 4096"
  shows "concat (map (\<lambda>i. page_chunk i page) [0..<BLOCKS_PER_PAGE]) = page"
proof -
  have cut: "take 1024 (drop k page) @ drop (k + 1024) page = drop k page" for k
    by (metis add.commute append_take_drop_id drop_drop)
  show ?thesis
    using assms cut [of 0] cut [of 1024] cut [of 2048] cut [of 3072]
    by (simp add: page_chunk_def page_blocks_upt)
qed

definition out_inv ::
    "int \<Rightarrow> int \<Rightarrow> uint8 list \<Rightarrow> 'z swapdisk_scheme \<Rightarrow> nat \<Rightarrow> 'z swapdisk_scheme \<Rightarrow> bool" where
  "out_inv mode slot page s n t \<longleftrightarrow>
     dq_ready t \<and> disk_frame s t \<and> disks_wf t \<and> swap_slot_raid_mode t = swap_slot_raid_mode s \<and>
     (\<forall>i<n. blk mode (slot * 4 + int i) t = page_chunk i page) \<and>
     (\<forall>lb. block_ok mode lb \<longrightarrow> (lb < slot * 4 \<or> slot * 4 + int n \<le> lb) \<longrightarrow> blk mode lb t = blk mode lb s)"

lemma out_inv_step:
  assumes "out_inv mode slot page s n t" "n < BLOCKS_PER_PAGE" "raid_known mode" "slot_ok mode slot"
    "length page = 4096"
  shows "\<exists>t'. raid_write (slot * 4 + int n) (page_chunk n page) mode t = Ok t' \<and>
           out_inv mode slot page s (Suc n) t'"
proof -
  obtain me where me: "myproc t = Some me" using assms(1) by (auto simp: out_inv_def dq_ready_def)
  have ok: "block_ok mode (slot * 4 + int i)" if "i < BLOCKS_PER_PAGE" for i
    using assms(4) that by (simp add: slot_ok_def)
  then have fits: "block_fits mode (slot * 4 + int n)" using assms(2) by (simp add: block_ok_def)
  define t' where
    "t' = place mode (slot * 4 + int n) (page_chunk n page) (charge (seek_block mode (slot * 4 + int n)) True me t)"
  have w: "raid_write (slot * 4 + int n) (page_chunk n page) mode t = Ok t'"
    unfolding t'_def using assms(1,3) me fits by (intro raid_write_ready) (simp_all add: out_inv_def)
  have other: "blk mode lb t' = blk mode lb t" if "block_ok mode lb" "lb \<noteq> slot * 4 + int n" for lb
    unfolding t'_def by (simp add: blk_place_other [OF assms(3) ok [OF assms(2)] that])
  have "blk mode (slot * 4 + int i) t' = page_chunk i page" if "i < Suc n" for i
  proof (cases "i = n")
    case True
    then show ?thesis unfolding t'_def by (simp add: blk_place_same [OF assms(3)])
  next
    case False
    then show ?thesis using that assms(1,2) other [OF ok, of i] by (simp add: out_inv_def)
  qed
  moreover have "disk_frame s t'"
    unfolding t'_def using assms(1)
    by (meson disk_frame_charge disk_frame_place disk_frame_trans out_inv_def)
  moreover have "dq_ready t'" "disks_wf t'" "swap_slot_raid_mode t' = swap_slot_raid_mode s"
    using assms(1,2,5) by (simp_all add: t'_def out_inv_def disks_wf_place length_page_chunk)
  ultimately show ?thesis using w assms(1) other by (auto simp: out_inv_def)
qed

lemma swap_out_page_ok:
  assumes "dq_ready s" "disks_wf s" "raid_known (raid_mode s)" "slot_ok (raid_mode s) slot" "length page = 4096"
  shows "\<exists>s'. swap_out_page page slot s = Ok s' \<and>
     out_inv (raid_mode s) slot page
       (s\<lparr>swap_slot_raid_mode := (swap_slot_raid_mode s)(slot := raid_mode s)\<rparr>) BLOCKS_PER_PAGE s'"
proof -
  let ?s = "s\<lparr>swap_slot_raid_mode := (swap_slot_raid_mode s)(slot := raid_mode s)\<rparr>"
  let ?body = "\<lambda>i. raid_write (slot * 4 + int i) (page_chunk i page) (raid_mode s)"
  have "\<exists>s'. loop_res ?body [0..<BLOCKS_PER_PAGE] ?s = Ok s' \<and> out_inv (raid_mode s) slot page ?s BLOCKS_PER_PAGE s'"
    using assms by (intro loop_res_upt_induct out_inv_step) (simp_all add: out_inv_def)
  then show ?thesis
    using assms by (simp add: swap_out_page_def dq_ready_def slot_ok_def Let_def)
qed
lemma put_chunk_next:
  assumes "length pre = n * 1024" "length c = 1024" "length buf = 4096" "n < 4"
  shows "put_chunk n c (pre @ drop (n * 1024) buf) = (pre @ c) @ drop (Suc n * 1024) buf"
  using assms by (simp add: put_chunk_def add.commute)

definition in_inv ::
    "int \<Rightarrow> int \<Rightarrow> uint8 list \<Rightarrow> 'z swapdisk_scheme \<Rightarrow> nat \<Rightarrow> uint8 list \<times> 'z swapdisk_scheme \<Rightarrow> bool" where
  "in_inv mode slot buf s n pt \<longleftrightarrow>
     (case pt of (page, t) \<Rightarrow>
        page = concat (map (\<lambda>i. blk mode (slot * 4 + int i) s) [0..<n]) @ drop (n * BSIZE) buf \<and>
        dq_ready t \<and> disk_frame s t \<and> simulated_disks t = simulated_disks s \<and>
        swap_slot_raid_mode t = swap_slot_raid_mode s)"

lemma length_concat_blks:
  "disks_wf s \<Longrightarrow> length (concat (map (\<lambda>i. blk mode (slot * 4 + int i) s) [0..<n])) = n * BSIZE"
  by (induction n) (simp_all add: disks_wf_def blk_def)

lemma in_inv_step:
  assumes "in_inv mode slot buf s n (page, t)" "n < BLOCKS_PER_PAGE" "raid_known mode" "slot_ok mode slot"
    "length buf = 4096" "disks_wf s"
  shows "\<exists>pt. bindr (raid_read (slot * 4 + int n) (page_chunk n page) mode t)
                 (\<lambda>(c, s). Ok (put_chunk n c page, s)) = Ok pt \<and> in_inv mode slot buf s (Suc n) pt"
proof -
  obtain me where me: "myproc t = Some me" using assms(1) by (auto simp: in_inv_def dq_ready_def)
  have fits: "block_fits mode (slot * 4 + int n)"
    using assms(2,4) by (simp add: slot_ok_def block_ok_def)
  have t: "dq_ready t" "disk_frame s t" "simulated_disks t = simulated_disks s"
    "page = concat (map (\<lambda>i. blk mode (slot * 4 + int i) s) [0..<n]) @ drop (n * BSIZE) buf"
    using assms(1) by (simp_all add: in_inv_def)
  have same: "take BSIZE (simulated_disks t (fst (data_loc mode (slot * 4 + int n)))
      (snd (data_loc mode (slot * 4 + int n)))) = blk mode (slot * 4 + int n) s"
    using assms(6) t(3) by (simp add: blk_def disks_wf_def)
  have "length (blk mode (slot * 4 + int n) s) = BSIZE" using assms(6) by (simp add: blk_def disks_wf_def)
  then have "put_chunk n (blk mode (slot * 4 + int n) s) page =
      concat (map (\<lambda>i. blk mode (slot * 4 + int i) s) [0..<Suc n]) @ drop (Suc n * BSIZE) buf"
    using put_chunk_next [OF length_concat_blks [OF assms(6)], of "blk mode (slot * 4 + int n) s" buf n mode slot]
      assms(2,5) by (simp add: t(4))
  moreover have "disk_frame s (charge b False me t)" for b
    by (rule disk_frame_trans [OF t(2) disk_frame_charge])
  ultimately show ?thesis
    using raid_read_ready [OF t(1) me assms(3) fits, of "page_chunk n page"] assms(1)
    by (auto simp: same in_inv_def)
qed

lemma swap_in_page_ok:
  assumes "dq_ready s" "disks_wf s" "swap_slot_raid_mode s slot = mode" "raid_known mode" "slot_ok mode slot"
    "length buf = 4096"
  shows "\<exists>s'. swap_in_page buf slot s = Ok (page_on mode slot s, s') \<and>
     dq_ready s' \<and> disk_frame s s' \<and> simulated_disks s' = simulated_disks s \<and>
     swap_slot_raid_mode s' = swap_slot_raid_mode s"
proof -
  let ?body = "\<lambda>i (page, s). bindr (raid_read (slot * 4 + int i) (page_chunk i page) mode s)
       (\<lambda>(c, s). Ok (put_chunk i c page, s))"
  have "\<exists>pt. loop_res ?body [0..<BLOCKS_PER_PAGE] (buf, s) = Ok pt \<and> in_inv mode slot buf s BLOCKS_PER_PAGE pt"
  proof (rule loop_res_upt_induct)
    show "in_inv mode slot buf s 0 (buf, s)" using assms(1) by (simp add: in_inv_def)
  next
    fix i pt
    assume "i < BLOCKS_PER_PAGE" "in_inv mode slot buf s i pt"
    then show "\<exists>s'. ?body i pt = Ok s' \<and> in_inv mode slot buf s (Suc i) s'"
      using in_inv_step [of mode slot buf s i "fst pt" "snd pt"] assms by (simp add: case_prod_beta)
  qed
  then show ?thesis
    using assms by (auto simp: swap_in_page_def slot_ok_def Let_def in_inv_def page_on_def)
qed

lemma blk_out_page:
  assumes "out_inv mode slot page s BLOCKS_PER_PAGE t" "length page = 4096"
  shows "page_on mode slot t = page"
proof -
  have "map (\<lambda>i. blk mode (slot * 4 + int i) t) [0..<BLOCKS_PER_PAGE] =
      map (\<lambda>i. page_chunk i page) [0..<BLOCKS_PER_PAGE]"
    using assms(1) by (intro map_cong) (simp_all add: out_inv_def)
  then show ?thesis by (simp only: page_on_def concat_page_chunks [OF assms(2)])
qed

lemma page_on_out_other:
  assumes "out_inv mode slot page s BLOCKS_PER_PAGE t" "slot_ok mode slot'" "slot' \<noteq> slot"
  shows "page_on mode slot' t = page_on mode slot' s"
proof -
  have "blk mode (slot' * 4 + int i) t = blk mode (slot' * 4 + int i) s" if "i < BLOCKS_PER_PAGE" for i
  proof -
    have "slot' * 4 + int i < slot * 4 \<or> slot * 4 + int BLOCKS_PER_PAGE \<le> slot' * 4 + int i"
      using assms(3) that by (cases "slot' < slot") auto
    then show ?thesis using assms(1,2) that by (auto simp: out_inv_def slot_ok_def)
  qed
  then show ?thesis unfolding page_on_def by (intro arg_cong [of _ _ concat] map_cong) simp_all
qed

lemma page_on_slot_mode [simp]: "page_on mode slot (s\<lparr>swap_slot_raid_mode := m\<rparr>) = page_on mode slot s"
  by (simp add: page_on_def)

section \<open>The page store of one RAID mode\<close>

text \<open>What the paging code relies on: a store of pages indexed by slots. \<open>lookup\<close> abstracts a state
  to the page each slot holds; a client may write a slot, read a slot it wrote, and drop a slot.\<close>

datatype 'page store_op = Put int 'page | Drop int

fun store_spec :: "'page store_op list \<Rightarrow> (int \<Rightarrow> 'page option) \<Rightarrow> int \<Rightarrow> 'page option" where
  "store_spec [] m = m"
| "store_spec (Put i p # ops) m = store_spec ops (m(i := Some p))"
| "store_spec (Drop i # ops) m = store_spec ops (m(i := None))"

fun store_run ::
    "(int \<Rightarrow> 'page \<Rightarrow> 's \<Rightarrow> 's res) \<Rightarrow> (int \<Rightarrow> 's \<Rightarrow> 's) \<Rightarrow> 'page store_op list \<Rightarrow> 's \<Rightarrow> 's res" where
  "store_run put drop_slot [] s = Ok s"
| "store_run put drop_slot (Put i p # ops) s = bindr (put i p s) (store_run put drop_slot ops)"
| "store_run put drop_slot (Drop i # ops) s = store_run put drop_slot ops (drop_slot i s)"

text \<open>A client only drops a slot that holds a page.\<close>

fun store_ops_ok ::
    "(int \<Rightarrow> bool) \<Rightarrow> ('page \<Rightarrow> bool) \<Rightarrow> 'page store_op list \<Rightarrow> (int \<Rightarrow> 'page option) \<Rightarrow> bool" where
  "store_ops_ok good page_ok [] m = True"
| "store_ops_ok good page_ok (Put i p # ops) m =
     (good i \<and> page_ok p \<and> store_ops_ok good page_ok ops (m(i := Some p)))"
| "store_ops_ok good page_ok (Drop i # ops) m =
     (good i \<and> m i \<noteq> None \<and> store_ops_ok good page_ok ops (m(i := None)))"

locale page_store =
  fixes invar :: "'s \<Rightarrow> bool"
    and good :: "int \<Rightarrow> bool"
    and page_ok :: "'page \<Rightarrow> bool"
    and lookup :: "'s \<Rightarrow> int \<Rightarrow> 'page option"
    and put :: "int \<Rightarrow> 'page \<Rightarrow> 's \<Rightarrow> 's res"
    and fetch :: "int \<Rightarrow> 's \<Rightarrow> ('page \<times> 's) res"
    and drop_slot :: "int \<Rightarrow> 's \<Rightarrow> 's"
  assumes put_ok: "invar s \<Longrightarrow> good i \<Longrightarrow> page_ok p \<Longrightarrow>
      \<exists>s'. put i p s = Ok s' \<and> invar s' \<and> lookup s' i = Some p \<and>
           (\<forall>j. good j \<longrightarrow> j \<noteq> i \<longrightarrow> lookup s' j = lookup s j)"
    and fetch_ok: "invar s \<Longrightarrow> good i \<Longrightarrow> lookup s i = Some p \<Longrightarrow>
      \<exists>s'. fetch i s = Ok (p, s') \<and> invar s' \<and> lookup s' = lookup s"
    and drop_ok: "invar s \<Longrightarrow> good i \<Longrightarrow> lookup s i \<noteq> None \<Longrightarrow>
      invar (drop_slot i s) \<and> (\<forall>j. good j \<longrightarrow> j \<noteq> i \<longrightarrow> lookup (drop_slot i s) j = lookup s j)"
begin

abbreviation run :: "'page store_op list \<Rightarrow> 's \<Rightarrow> 's res" where
  "run \<equiv> store_run put drop_slot"

abbreviation ops_ok :: "'page store_op list \<Rightarrow> (int \<Rightarrow> 'page option) \<Rightarrow> bool" where
  "ops_ok \<equiv> store_ops_ok good page_ok"

lemma run_refines:
  assumes "invar s" "ops_ok ops m" "\<And>i p. good i \<Longrightarrow> m i = Some p \<Longrightarrow> lookup s i = Some p"
  shows "\<exists>s'. run ops s = Ok s' \<and> invar s' \<and>
           (\<forall>i p. good i \<longrightarrow> store_spec ops m i = Some p \<longrightarrow> lookup s' i = Some p)"
  using assms
proof (induction ops m arbitrary: s rule: store_spec.induct)
  case (1 m)
  then show ?case by simp
next
  case (2 i p ops m)
  obtain s1 where s1: "put i p s = Ok s1" "invar s1" "lookup s1 i = Some p"
    "\<And>j. good j \<Longrightarrow> j \<noteq> i \<Longrightarrow> lookup s1 j = lookup s j"
    using put_ok [of s i p] 2(2,3) by auto
  have look: "lookup s1 j = Some q" if "good j" "(m(i := Some p)) j = Some q" for j q
    using that s1 2(4) by (cases "j = i") auto
  have rest: "ops_ok ops (m(i := Some p))" using 2(3) by simp
  show ?case using 2(1) [OF s1(2) rest look] s1(1) by (simp del: fun_upd_apply)
next
  case (3 i ops m)
  have i: "good i" "lookup s i \<noteq> None" using 3(3,4) by auto
  have look: "lookup (drop_slot i s) j = Some q" if "good j" "(m(i := None)) j = Some q" for j q
    using that drop_ok [OF 3(2) i] 3(4) by (cases "j = i") auto
  have rest: "ops_ok ops (m(i := None))" using 3(3) by simp
  have inv: "invar (drop_slot i s)" using drop_ok [OF 3(2) i] by simp
  show ?case using 3(1) [OF inv rest look] by (simp del: fun_upd_apply)
qed

lemma fetch_after_run:
  assumes "invar s" "ops_ok ops (\<lambda>_. None)" "good i" "store_spec ops (\<lambda>_. None) i = Some p"
  shows "\<exists>s' s''. run ops s = Ok s' \<and> fetch i s' = Ok (p, s'') \<and> invar s'' \<and> lookup s'' = lookup s'"
proof -
  obtain s' where "run ops s = Ok s'" "invar s'" "lookup s' i = Some p"
    using run_refines [OF assms(1,2)] assms(3,4) by auto
  then show ?thesis using fetch_ok assms(3) by blast
qed

end

definition store_inv :: "int \<Rightarrow> 'z swapdisk_scheme \<Rightarrow> bool" where
  "store_inv mode s \<longleftrightarrow> dq_ready s \<and> disks_wf s \<and> raid_mode s = mode"

definition store_lookup :: "int \<Rightarrow> 'z swapdisk_scheme \<Rightarrow> int \<Rightarrow> uint8 list option" where
  "store_lookup mode s slot =
     (if slot_ok mode slot \<and> swap_slot_raid_mode s slot = mode then Some (page_on mode slot s) else None)"

text \<open>\<open>swapin\<close> reads into a page fresh from \<open>kalloc\<close>, which is filled with 5.\<close>

definition junk_page :: "uint8 list" where
  "junk_page = replicate 4096 5"

lemma free_block_mode:
  assumes "0 \<le> lb"
  shows "free_block RAID_0 lb s =
      set_block (fst (data_loc RAID_0 lb)) (snd (data_loc RAID_0 lb)) (replicate BSIZE 0) s"
    and "free_block RAID_1 lb s =
      set_block (fst (aux_loc RAID_1 lb)) (snd (aux_loc RAID_1 lb)) (replicate BSIZE 0)
        (set_block (fst (data_loc RAID_1 lb)) (snd (data_loc RAID_1 lb)) (replicate BSIZE 0) s)"
  using assms by (simp_all add: free_block_def data_loc_mode Let_def)

lemma free_block_mode5:
  assumes "0 \<le> lb"
  shows "free_block RAID_5 lb s =
      set_block (fst (aux_loc RAID_5 lb)) (snd (aux_loc RAID_5 lb)) (replicate BSIZE 0)
        (set_block (fst (data_loc RAID_5 lb)) (snd (data_loc RAID_5 lb)) (replicate BSIZE 0) s)"
  using assms
  apply (simp add: free_block_def data_loc_mode Let_def)
  apply (simp add: skip_def)
  done

lemma blk_free_other:
  assumes "raid_known mode" "block_ok mode lb" "block_ok mode lb'" "lb' \<noteq> lb"
  shows "blk mode lb' (free_block mode lb s) = blk mode lb' s"
proof -
  have lb: "0 \<le> lb" using assms(2) by (simp add: block_ok_def block_fits_def)
  have ne: "data_loc mode lb' \<noteq> data_loc mode lb" "mode \<noteq> RAID_0 \<Longrightarrow> data_loc mode lb' \<noteq> aux_loc mode lb"
    using data_loc_ne_aux_other [OF assms(1), of lb' lb] data_loc_inj [OF assms(1-3)] assms(4) by auto
  consider "mode = RAID_0" | "mode = RAID_1" | "mode = RAID_5"
    using assms(1) by (auto simp: raid_known_def)
  then show ?thesis
    using ne by cases (auto simp: free_block_mode [OF lb] free_block_mode5 [OF lb] blk_def prod_eq_iff)
qed

lemma free_block_sel [simp]:
  "swap_slot_raid_mode (free_block mode lb s) = swap_slot_raid_mode s"
  "raid_mode (free_block mode lb s) = raid_mode s"
  "dq_ready (free_block mode lb s) = dq_ready s"
  by (simp_all add: free_block_def Let_def)

lemma disks_wf_free_block [simp]: "disks_wf s \<Longrightarrow> disks_wf (free_block mode lb s)"
  by (simp add: free_block_def Let_def disks_wf_set_block)

lemma page_on_free_other:
  assumes "raid_known mode" "slot_ok mode slot" "slot_ok mode slot'" "slot' \<noteq> slot"
    "swap_slot_raid_mode s slot = mode"
  shows "page_on mode slot' (swap_disk_free_slot slot s) = page_on mode slot' s"
proof -
  have ok: "block_ok mode (slot * 4 + int i)" "block_ok mode (slot' * 4 + int i)" if "i < 4" for i
    using assms(2,3) that by (simp_all add: slot_ok_def)
  have ne: "slot' * 4 + int j \<noteq> slot * 4 + int i" if "i < 4" "j < 4" for i j
    using that assms(4) by (cases "slot' < slot") auto
  have "blk mode (slot' * 4 + int j) (fold (\<lambda>i. free_block mode (slot * 4 + int i)) [0..<n] s) =
      blk mode (slot' * 4 + int j) s" if "n \<le> 4" "j < 4" for n j
    using that by (induction n) (simp_all add: blk_free_other [OF assms(1) ok(1) ok(2) ne])
  then have "blk mode (slot' * 4 + int j) (swap_disk_free_slot slot s) = blk mode (slot' * 4 + int j) s"
    if "j < 4" for j
    using that assms(2,5) by (simp add: swap_disk_free_slot_def slot_ok_def Let_def)
  then show ?thesis unfolding page_on_def by (intro arg_cong [of _ _ concat] map_cong) simp_all
qed

lemma free_slot_sel:
  "raid_mode (swap_disk_free_slot slot s) = raid_mode s"
  "dq_ready (swap_disk_free_slot slot s) = dq_ready s"
  "disks_wf s \<Longrightarrow> disks_wf (swap_disk_free_slot slot s)"
  "slot' \<noteq> slot \<Longrightarrow> swap_slot_raid_mode (swap_disk_free_slot slot s) slot' = swap_slot_raid_mode s slot'"
  by (simp_all add: swap_disk_free_slot_def Let_def page_blocks_upt)

lemma store_put:
  assumes "raid_known mode" "store_inv mode s" "slot_ok mode slot" "length page = 4096"
  shows "\<exists>s'. swap_out_page page slot s = Ok s' \<and> store_inv mode s' \<and>
     store_lookup mode s' slot = Some page \<and> disk_frame s s' \<and>
     (\<forall>j. slot_ok mode j \<longrightarrow> j \<noteq> slot \<longrightarrow> store_lookup mode s' j = store_lookup mode s j)"
proof -
  let ?s = "s\<lparr>swap_slot_raid_mode := (swap_slot_raid_mode s)(slot := mode)\<rparr>"
  obtain s' where s': "swap_out_page page slot s = Ok s'" "out_inv mode slot page ?s BLOCKS_PER_PAGE s'"
    using swap_out_page_ok [of s slot page] assms by (auto simp: store_inv_def)
  have fr: "disk_frame s s'"
    by (rule disk_frame_trans [of s ?s]) (use s'(2) in \<open>simp_all add: out_inv_def\<close>)
  show ?thesis
    using s' fr assms blk_out_page [OF s'(2) assms(4)] page_on_out_other [OF s'(2)]
      disk_frame_sel(3) [OF fr]
    by (auto simp: store_inv_def store_lookup_def out_inv_def)
qed

lemma store_fetch:
  assumes "raid_known mode" "store_inv mode s" "slot_ok mode slot" "store_lookup mode s slot = Some page"
    "length buf = 4096"
  shows "\<exists>s'. swap_in_page buf slot s = Ok (page, s') \<and> store_inv mode s' \<and> disk_frame s s' \<and>
     store_lookup mode s' = store_lookup mode s"
proof -
  have m: "swap_slot_raid_mode s slot = mode" "page = page_on mode slot s"
    using assms(4) by (auto simp: store_lookup_def split: if_splits)
  obtain s' where s': "swap_in_page buf slot s = Ok (page_on mode slot s, s')" "dq_ready s'" "disk_frame s s'"
    "simulated_disks s' = simulated_disks s" "swap_slot_raid_mode s' = swap_slot_raid_mode s"
    using swap_in_page_ok [of s slot mode buf] assms(1-3,5) m by (auto simp: store_inv_def)
  then show ?thesis
    using assms(2) m disk_frame_sel(3) [OF s'(3)]
    by (auto simp: store_inv_def disks_wf_def store_lookup_def page_on_def blk_def fun_eq_iff)
qed

lemma store_drop:
  assumes "raid_known mode" "store_inv mode s" "slot_ok mode slot" "store_lookup mode s slot \<noteq> None"
  shows "store_inv mode (swap_disk_free_slot slot s)"
    and "slot_ok mode j \<Longrightarrow> j \<noteq> slot \<Longrightarrow>
      store_lookup mode (swap_disk_free_slot slot s) j = store_lookup mode s j"
  using assms page_on_free_other [OF assms(1,3)]
  by (auto simp: store_inv_def store_lookup_def free_slot_sel split: if_splits)

lemma page_store_raid:
  "raid_known mode \<Longrightarrow>
   page_store (store_inv mode) (slot_ok mode) (\<lambda>p. length p = 4096) (store_lookup mode)
     (\<lambda>i p. swap_out_page p i) (swap_in_page junk_page) swap_disk_free_slot"
  using store_put store_fetch [where buf = junk_page] store_drop
  by unfold_locales (auto simp: junk_page_def, blast+)

interpretation raid0: page_store "store_inv RAID_0" "slot_ok RAID_0" "\<lambda>p. length p = 4096"
  "store_lookup RAID_0" "\<lambda>i p. swap_out_page p i" "swap_in_page junk_page" swap_disk_free_slot
  by (rule page_store_raid) (simp add: raid_known_def)

interpretation raid1: page_store "store_inv RAID_1" "slot_ok RAID_1" "\<lambda>p. length p = 4096"
  "store_lookup RAID_1" "\<lambda>i p. swap_out_page p i" "swap_in_page junk_page" swap_disk_free_slot
  by (rule page_store_raid) (simp add: raid_known_def)

interpretation raid5: page_store "store_inv RAID_5" "slot_ok RAID_5" "\<lambda>p. length p = 4096"
  "store_lookup RAID_5" "\<lambda>i p. swap_out_page p i" "swap_in_page junk_page" swap_disk_free_slot
  by (rule page_store_raid) (simp add: raid_known_def)

section \<open>Capacity of each mode\<close>

lemma page_block_mod:
  assumes "0 \<le> i" "i < (4::int)"
  shows "(slot * 4 + i) mod 16384 = slot mod 4096 * 4 + i"
proof (rule int_mod_pos_eq [where q = "slot div 4096"])
  have b: "0 \<le> slot mod 4096" "slot mod 4096 \<le> 4095" by simp_all
  show "0 \<le> slot mod 4096 * 4 + i" "slot mod 4096 * 4 + i < 16384" using b assms by linarith+
  show "slot * 4 + i = 16384 * (slot div 4096) + (slot mod 4096 * 4 + i)"
    using div_mult_mod_eq [of slot 4096] by linarith
qed

lemma block_fits_mode:
  "block_fits RAID_0 lb \<longleftrightarrow> 0 \<le> lb \<and> lb div 4 < 16384"
  "block_fits RAID_1 lb \<longleftrightarrow> 0 \<le> lb \<and> lb mod 16384 < 14336"
  "block_fits RAID_5 lb \<longleftrightarrow> 0 \<le> lb \<and> lb div 3 < 12288"
  by (auto simp: block_fits_def data_loc_mode)

text \<open>The slots whose four blocks stay on the disks.\<close>

definition slot_fits :: "int \<Rightarrow> int \<Rightarrow> bool" where
  "slot_fits mode slot \<longleftrightarrow>
     0 \<le> slot \<and> slot < MAX_SWAP_SLOTS \<and>
     (mode = RAID_1 \<longrightarrow> slot mod 4096 < 3584) \<and> (mode = RAID_5 \<longrightarrow> slot < 9216)"

lemma page_blocks_fit:
  assumes "raid_known mode" "0 \<le> slot" "slot < MAX_SWAP_SLOTS" "i < BLOCKS_PER_PAGE"
  shows "block_fits mode (slot * 4 + int i) \<longleftrightarrow> slot_fits mode slot"
proof -
  have f: "(slot * 4 + int i) mod 16384 = slot mod 4096 * 4 + int i"
    using assms(4) by (intro page_block_mod) simp_all
  have g: "(slot * 4 + int i) div 4 = slot" "(slot * 4 + int i) div 3 < 12288 \<longleftrightarrow> slot < 9216"
    "slot mod 4096 * 4 + int i < 14336 \<longleftrightarrow> slot mod 4096 < 3584" "0 \<le> slot * 4 + int i"
    using assms(2,4) by linarith+
  consider "mode = RAID_0" | "mode = RAID_1" | "mode = RAID_5"
    using assms(1) by (auto simp: raid_known_def)
  then show ?thesis
  proof cases
    case 1
    then show ?thesis using assms(2,3) g(1,4) by (simp add: slot_fits_def block_fits_mode)
  next
    case 2
    show ?thesis using assms(2,3) g(3,4) unfolding 2 slot_fits_def block_fits_mode f by simp
  next
    case 3
    show ?thesis using assms(2,3) g(2,4) unfolding 3 slot_fits_def block_fits_mode by simp
  qed
qed

lemma slot_ok_iff:
  assumes "raid_known mode"
  shows "slot_ok mode slot \<longleftrightarrow> slot_fits mode slot \<and> (mode = RAID_1 \<longrightarrow> slot < 8192)"
proof (cases "0 \<le> slot \<and> slot < MAX_SWAP_SLOTS")
  case True
  then have f: "block_fits mode (slot * 4 + int i) \<longleftrightarrow> slot_fits mode slot" if "i < BLOCKS_PER_PAGE" for i
    using page_blocks_fit [OF assms _ _ that, of slot] by simp
  have "slot * 4 + int i < 32768 \<longleftrightarrow> slot < 8192" if "i < BLOCKS_PER_PAGE" for i using that by linarith
  with f have "slot_ok mode slot \<longleftrightarrow>
      (\<forall>i<BLOCKS_PER_PAGE. slot_fits mode slot \<and> (mode = RAID_1 \<longrightarrow> slot < 8192))"
    using True by (simp add: slot_ok_def block_ok_def)
  then show ?thesis using zero_less_numeral by blast
next
  case False
  then show ?thesis by (auto simp: slot_ok_def slot_fits_def)
qed

lemma swap_out_page_fits:
  assumes "dq_ready s" "raid_known (raid_mode s)" "slot_fits (raid_mode s) slot"
  shows "is_ok (swap_out_page page slot s)"
proof -
  let ?s = "s\<lparr>swap_slot_raid_mode := (swap_slot_raid_mode s)(slot := raid_mode s)\<rparr>"
  let ?body = "\<lambda>i. raid_write (slot * 4 + int i) (page_chunk i page) (raid_mode s)"
  have step: "\<exists>t'. ?body i t = Ok t' \<and> dq_ready t'" if "i < BLOCKS_PER_PAGE" "dq_ready t" for i t
  proof -
    obtain me where "myproc t = Some me" using \<open>dq_ready t\<close> by (auto simp: dq_ready_def)
    moreover have "block_fits (raid_mode s) (slot * 4 + int i)"
      using page_blocks_fit [OF assms(2) _ _ that(1), of slot] assms(3) by (simp add: slot_fits_def)
    ultimately show ?thesis using raid_write_ready [OF that(2) _ assms(2)] that(2) by simp
  qed
  have "\<exists>s'. loop_res ?body [0..<BLOCKS_PER_PAGE] ?s = Ok s' \<and> dq_ready s'"
    by (rule loop_res_upt_induct [of "\<lambda>_. dq_ready"]) (use assms(1) step in simp_all)
  then show ?thesis
    using assms by (auto simp: is_ok_iff swap_out_page_def dq_ready_def slot_fits_def Let_def)
qed

lemma swap_out_page_overflow:
  assumes "dq_ready s" "raid_known (raid_mode s)" "0 \<le> slot" "slot < MAX_SWAP_SLOTS"
    "\<not> slot_fits (raid_mode s) slot"
  shows "swap_out_page page slot s = Panic ''phys_write: out of range''"
proof -
  have "\<not> block_fits (raid_mode s) (slot * 4)"
    using page_blocks_fit [OF assms(2-4), of 0] assms(5) by simp
  then have "raid_write (slot * 4) (page_chunk 0 page) (raid_mode s) t = Panic ''phys_write: out of range''"
    if "dq_ready t" for t :: "'a swapdisk_scheme"
    using that assms(2,3) by (intro raid_write_overflow) simp_all
  then show ?thesis
    using assms(1,3,4) by (simp add: swap_out_page_def dq_ready_def Let_def page_blocks_upt myproc_def)
qed

lemma raid1_blocks_alias:
  assumes "0 \<le> lb"
  shows "raid_write (lb + 32768) chunk RAID_1 s = raid_write lb chunk RAID_1 s"
proof -
  have "(lb + 2 * 16384) div 16384 = 2 + lb div 16384" "(lb + 2 * 16384) mod 16384 = lb mod 16384"
    by (rule div_mult_self1, simp) (rule mod_mult_self1)
  then have "(lb + 32768) sdiv 16384 smod 2 = lb sdiv 16384 smod 2" "(lb + 32768) smod 16384 = lb smod 16384"
    using assms by simp_all
  then show ?thesis by (simp add: raid_write_def)
qed

text \<open>The RAID 1 aliases: the disks after writing slot \<open>slot + 8192\<close> are those after writing \<open>slot\<close>.\<close>

lemma swap_out_page_unfold:
  assumes "dq_ready s" "0 \<le> slot" "slot < MAX_SWAP_SLOTS" "raid_mode s = mode"
  shows "swap_out_page page slot s =
    loop_res (\<lambda>i. raid_write (slot * 4 + int i) (page_chunk i page) mode) [0..<BLOCKS_PER_PAGE]
      (s\<lparr>swap_slot_raid_mode := (swap_slot_raid_mode s)(slot := mode)\<rparr>)"
  using assms by (simp add: swap_out_page_def dq_ready_def Let_def)

lemma raid1_page_alias:
  assumes "store_inv RAID_1 s" "slot_ok RAID_1 slot" "length page = 4096"
  shows "\<exists>s'. swap_out_page page (slot + 8192) s = Ok s' \<and>
     out_inv RAID_1 slot page (s\<lparr>swap_slot_raid_mode := (swap_slot_raid_mode s)(slot + 8192 := RAID_1)\<rparr>)
       BLOCKS_PER_PAGE s'"
proof -
  let ?s = "s\<lparr>swap_slot_raid_mode := (swap_slot_raid_mode s)(slot + 8192 := RAID_1)\<rparr>"
  have "0 \<le> slot" "slot < 8192"
    using assms(2) slot_ok_iff [of RAID_1 slot] by (simp_all add: raid_known_def slot_fits_def)
  moreover have "(\<lambda>i. raid_write ((slot + 8192) * 4 + int i) (page_chunk i page) RAID_1) =
      (\<lambda>i (t :: 'a swapdisk_scheme). raid_write (slot * 4 + int i) (page_chunk i page) RAID_1 t)"
  proof (intro ext)
    fix i and t :: "'a swapdisk_scheme"
    show "raid_write ((slot + 8192) * 4 + int i) (page_chunk i page) RAID_1 t =
      raid_write (slot * 4 + int i) (page_chunk i page) RAID_1 t"
      using raid1_blocks_alias [of "slot * 4 + int i" "page_chunk i page" t] \<open>0 \<le> slot\<close>
      by (simp add: algebra_simps)
  qed
  moreover have "\<exists>s'. loop_res (\<lambda>i. raid_write (slot * 4 + int i) (page_chunk i page) RAID_1) [0..<BLOCKS_PER_PAGE] ?s
       = Ok s' \<and> out_inv RAID_1 slot page ?s BLOCKS_PER_PAGE s'"
    using assms
    by (intro loop_res_upt_induct out_inv_step) (simp_all add: out_inv_def store_inv_def raid_known_def)
  ultimately show ?thesis
    using assms(1) by (simp add: swap_out_page_unfold store_inv_def)
qed
section \<open>Parity and mirrors\<close>

definition parity_ok :: "'z swapdisk_scheme \<Rightarrow> int \<Rightarrow> bool" where
  "parity_ok s row \<longleftrightarrow>
     simulated_disks s (row mod 4) (row + 4096) = row_parity s (row mod 4) (row + 4096)"

lemma nth_xor_block [simp]: "k < length xs \<Longrightarrow> k < length ys \<Longrightarrow> xor_block xs ys ! k = xs ! k XOR ys ! k"
  by (simp add: xor_block_def)

lemma row_parity_disk:
  "row_parity s 0 b = xor_block (xor_block (xor_block (replicate BSIZE 0) (simulated_disks s 1 b))
     (simulated_disks s 2 b)) (simulated_disks s 3 b)"
  "row_parity s 1 b = xor_block (xor_block (xor_block (replicate BSIZE 0) (simulated_disks s 0 b))
     (simulated_disks s 2 b)) (simulated_disks s 3 b)"
  "row_parity s 2 b = xor_block (xor_block (xor_block (replicate BSIZE 0) (simulated_disks s 0 b))
     (simulated_disks s 1 b)) (simulated_disks s 3 b)"
  "row_parity s 3 b = xor_block (xor_block (xor_block (replicate BSIZE 0) (simulated_disks s 0 b))
     (simulated_disks s 1 b)) (simulated_disks s 2 b)"
  by (simp_all add: row_parity_def)

lemma disk_cases:
  assumes "0 \<le> d" "d < NDISKS"
  obtains "d = 0" | "d = 1" | "d = 2" | "d = (3::int)"
  using assms by (cases "d = 0"; cases "d = 1"; cases "d = 2") auto

lemma xor_cancel: "a XOR (a XOR b) = (b :: uint8)"
  by (simp flip: xor.assoc)

lemma row_parity_any:
  assumes wf: "disks_wf s" and p: "0 \<le> p" "p < NDISKS" "simulated_disks s p b = row_parity s p b"
    and d: "0 \<le> d" "d < NDISKS"
  shows "row_parity s d b = simulated_disks s d b"
proof (rule nth_equalityI)
  have len: "length (simulated_disks s e b) = 1024" for e using wf by (simp add: disks_wf_def)
  show "length (row_parity s d b) = length (simulated_disks s d b)"
    using wf by (simp add: length_row_parity len)
  fix k
  assume "k < length (row_parity s d b)"
  then have k: "k < 1024" using wf by (simp add: length_row_parity)
  have "simulated_disks s p b ! k = row_parity s p b ! k" using p(3) by simp
  then show "row_parity s d b ! k = simulated_disks s d b ! k"
    using k len
    by (cases rule: disk_cases [OF p(1,2)]; cases rule: disk_cases [OF d])
      (simp_all add: row_parity_disk xor.assoc xor.commute xor.left_commute xor_cancel)
qed

lemma raid5_write_parity:
  assumes "dq_ready s" "disks_wf s" "block_fits RAID_5 lb" "length chunk = BSIZE"
  shows "\<exists>s'. raid_write lb chunk RAID_5 s = Ok s' \<and> parity_ok s' (lb div 3) \<and>
     (\<forall>row. row \<noteq> lb div 3 \<longrightarrow> parity_ok s' row = parity_ok s row)"
proof -
  obtain me where me: "myproc s = Some me" using assms(1) by (auto simp: dq_ready_def)
  define t where "t = charge (seek_block RAID_5 lb) True me s"
  have w: "raid_write lb chunk RAID_5 s = Ok (place RAID_5 lb chunk t)"
    using raid_write_ready [OF assms(1) me _ assms(3)] by (simp add: t_def raid_known_def)
  have dk: "simulated_disks t = simulated_disks s" by (simp add: t_def)
  define s1 where "s1 = set_block (skip (lb div 3 mod 4) (lb mod 3)) (lb div 3 + 4096) (take BSIZE chunk) t"
  have pl: "place RAID_5 lb chunk t =
      set_block (lb div 3 mod 4) (lb div 3 + 4096) (take BSIZE (row_parity s1 (lb div 3 mod 4) (lb div 3 + 4096))) s1"
    by (simp add: place_def aux_chunk_def data_loc_mode s1_def Let_def)
  have "disks_wf s1" using assms(2,4) by (auto simp: s1_def disks_wf_def dk)
  then have len: "take BSIZE (row_parity s1 p b) = row_parity s1 p b" for p b
    by (simp add: length_row_parity)
  have self: "row_parity (set_block p b x s1) p b = row_parity s1 p b" for p b x
    by (simp add: row_parity_def)
  have other: "row_parity (set_block p b x s2) p' b' = row_parity s2 p' b'" if "b' \<noteq> b"
    for p b x p' b' and s2 :: "'a swapdisk_scheme" using that by (simp add: row_parity_def)
  have dk_t: "row_parity t p b = row_parity s p b" for p b by (simp add: row_parity_def dk)
  have "parity_ok (place RAID_5 lb chunk t) (lb div 3)"
    unfolding pl parity_ok_def len by (simp add: self)
  moreover have "parity_ok (place RAID_5 lb chunk t) row = parity_ok s row" if "row \<noteq> lb div 3" for row
    using that unfolding pl parity_ok_def by (simp add: other s1_def dk dk_t)
  ultimately show ?thesis using w by blast
qed

text \<open>Freeing a slot clears the parity blocks of its rows, which it may share with another slot.\<close>

lemma free_slot0_row1:
  assumes "swap_slot_raid_mode s 0 = RAID_5"
  shows "simulated_disks (swap_disk_free_slot 0 s) 1 4097 = replicate BSIZE 0"
    and "simulated_disks (swap_disk_free_slot 0 s) 0 4097 = replicate BSIZE 0"
    and "simulated_disks (swap_disk_free_slot 0 s) 2 4097 = simulated_disks s 2 4097"
    and "simulated_disks (swap_disk_free_slot 0 s) 3 4097 = simulated_disks s 3 4097"
  using assms by (simp_all add: swap_disk_free_slot_def Let_def page_blocks_upt free_block_def)
section \<open>Properties\<close>

text \<open>A state of the swap disk right after boot, with process 0 running.\<close>

definition sd0 :: swapdisk where
  "sd0 = swap_disk_init \<lparr>procs = (\<lambda>_. proc0), cpu_proc = Some 0, held = {},
     reqs = (\<lambda>_. \<lparr>valid = False, blockno = 0, is_write = False, rproc = None, priority = 0\<rparr>),
     head = 0, policy = 0, total_latency = 0, total_requests = 0, simulated_disks = (\<lambda>_ _. []),
     raid_mode = 0, swap_slot_raid_mode = (\<lambda>_. 0)\<rparr>"

lemma sd0_ready [simp]: "dq_ready (sd0\<lparr>raid_mode := m\<rparr>)" "disks_wf (sd0\<lparr>raid_mode := m\<rparr>)"
  "dq_ready sd0" "disks_wf sd0" "myproc sd0 = Some 0" "raid_mode sd0 = 0"
  by (simp_all add: sd0_def swap_disk_init_def dq_ready_def disks_wf_def myproc_def)

lemma raid_known_simps [simp]: "raid_known 0" "raid_known 1" "raid_known 2"
  by (simp_all add: raid_known_def)

text \<open>C1: Under one RAID mode the swap disk is a map from slots to pages. After any sequence of
  page writes (\<open>swap_out_page\<close>) and releases (\<open>swap_disk_free_slot\<close>) on slots of that mode's capacity,
  none of them panics, and \<open>swap_in_page\<close> returns the page last written to a slot that was not
  released since, whatever happened to the other slots.\<close>

theorem swap_disk_refines_map:
  assumes "raid_known mode" "store_inv mode s"
    and "store_ops_ok (slot_ok mode) (\<lambda>p. length p = 4096) ops (\<lambda>_. None)"
    and "slot_ok mode i" "store_spec ops (\<lambda>_. None) i = Some p"
  shows "\<exists>s' s''. store_run (\<lambda>i p. swap_out_page p i) swap_disk_free_slot ops s = Ok s' \<and>
    swap_in_page junk_page i s' = Ok (p, s'')"
proof -
  consider "mode = RAID_0" | "mode = RAID_1" | "mode = RAID_5"
    using assms(1) by (auto simp: raid_known_def)
  then show ?thesis
  proof cases
    case 1
    then show ?thesis using raid0.fetch_after_run [of s ops i p] assms by blast
  next
    case 2
    then show ?thesis using raid1.fetch_after_run [of s ops i p] assms by blast
  next
    case 3
    then show ?thesis using raid5.fetch_after_run [of s ops i p] assms by blast
  qed
qed

theorem swap_disk_refines_map_witness:
  "\<exists>s' s''. store_run (\<lambda>i p. swap_out_page p i) swap_disk_free_slot
       [Put 0 (replicate 4096 1), Put 1 (replicate 4096 2), Put 0 (replicate 4096 3), Drop 1]
       (sd0\<lparr>raid_mode := 2\<rparr>) = Ok s' \<and>
     swap_in_page junk_page 0 s' = Ok (replicate 4096 3, s'')"
  by (rule swap_disk_refines_map [of 2]) (simp_all add: store_inv_def slot_ok_iff slot_fits_def)

text \<open>C33: The capacity of each mode. A page write succeeds on slot numbers below 16384 under RAID 0,
  under RAID 1 only when the slot is below 3584 modulo 4096, and under RAID 5 only below slot 9216;
  everywhere else the kernel panics, although 16384 slots are handed out in every mode.\<close>

theorem swap_out_page_capacity:
  assumes "dq_ready s" "raid_known (raid_mode s)"
  shows "is_ok (swap_out_page page slot s) \<longleftrightarrow>
     0 \<le> slot \<and> slot < 16384 \<and>
     (raid_mode s = RAID_1 \<longrightarrow> slot mod 4096 < 3584) \<and> (raid_mode s = RAID_5 \<longrightarrow> slot < 9216)"
proof (cases "0 \<le> slot \<and> slot < MAX_SWAP_SLOTS")
  case True
  then show ?thesis
    using swap_out_page_fits [OF assms, of slot page] swap_out_page_overflow [OF assms, of slot page]
    by (cases "slot_fits (raid_mode s) slot") (auto simp: slot_fits_def is_ok_iff)
next
  case False
  then show ?thesis by (auto simp: swap_out_page_def is_ok_iff)
qed

theorem swap_out_page_capacity_witness:
  "\<not> is_ok (swap_out_page (replicate 4096 0) 9216 (sd0\<lparr>raid_mode := 2\<rparr>))"
  by (subst swap_out_page_capacity) simp_all

text \<open>C34: RAID 1 wraps around: slots \<open>n\<close> and \<open>n + 8192\<close> share their blocks, so that writing a page to the
  second replaces the page of the first.\<close>

theorem raid1_slots_alias:
  assumes "store_inv RAID_1 s" "slot_ok RAID_1 slot" "length p = 4096" "length q = 4096" "length buf = 4096"
  shows "\<exists>s1 s2 s3. swap_out_page p slot s = Ok s1 \<and> swap_out_page q (slot + 8192) s1 = Ok s2 \<and>
    swap_in_page buf slot s2 = Ok (q, s3)"
proof -
  obtain s1 where s1: "swap_out_page p slot s = Ok s1" "store_inv RAID_1 s1" "store_lookup RAID_1 s1 slot = Some p"
    using store_put [of RAID_1 s slot p] assms by auto
  obtain s2 where s2: "swap_out_page q (slot + 8192) s1 = Ok s2"
    "out_inv RAID_1 slot q (s1\<lparr>swap_slot_raid_mode := (swap_slot_raid_mode s1)(slot + 8192 := RAID_1)\<rparr>) BLOCKS_PER_PAGE s2"
    using raid1_page_alias [OF s1(2) assms(2,4)] by blast
  have "swap_slot_raid_mode s2 slot = RAID_1" "dq_ready s2" "disks_wf s2"
    using s1(3) s2(2) by (simp_all add: out_inv_def store_lookup_def split: if_splits)
  then obtain s3 where "swap_in_page buf slot s2 = Ok (page_on RAID_1 slot s2, s3)"
    using swap_in_page_ok [of s2 slot RAID_1 buf] assms by auto
  then show ?thesis using s1 s2 blk_out_page [OF s2(2) assms(4)] by auto
qed

theorem raid1_slots_alias_witness:
  "\<exists>s1 s2 s3. swap_out_page (replicate 4096 1) 5 (sd0\<lparr>raid_mode := 1\<rparr>) = Ok s1 \<and>
     swap_out_page (replicate 4096 2) (5 + 8192) s1 = Ok s2 \<and>
     swap_in_page junk_page 5 s2 = Ok (replicate 4096 2, s3)"
  by (rule raid1_slots_alias) (simp_all add: store_inv_def slot_ok_iff slot_fits_def junk_page_def)

text \<open>C35: The modes do not have disjoint areas on the disks. A page written to slot \<open>k \<ge> 2048\<close> under
  RAID 0 loses its first block as soon as the mode is RAID 1 and slot \<open>(k - 2048) div 4\<close> is written:
  reading slot \<open>k\<close> back gives a page that starts with a block of the other page.\<close>

theorem raid_switch_overlap:
  assumes "store_inv RAID_0 s" "2048 \<le> k" "k < 16384" "length p = 4096" "length q = 4096" "length buf = 4096"
  shows "\<exists>s1 s2 s3 s4 r. swap_out_page p k s = Ok s1 \<and> setraidmode RAID_1 s1 = Ok (0, s2) \<and>
    swap_out_page q ((k - 2048) div 4) s2 = Ok s3 \<and> swap_in_page buf k s3 = Ok (r, s4) \<and>
    page_chunk 0 r = page_chunk (nat ((k - 2048) mod 4)) q"
proof -
  define t j where "t = (k - 2048) div 4" and "j = nat ((k - 2048) mod 4)"
  have "int j = (k - 2048) mod 4" by (simp add: j_def)
  then have tj: "t * 4 + int j = k - 2048" "0 \<le> t" "t < 3584" "j < 4" "t \<noteq> k"
    using assms(2,3) div_mult_mod_eq [of "k - 2048" 4] unfolding t_def by linarith+
  then have ok: "slot_ok RAID_0 k" "slot_ok RAID_1 t" using assms(2,3) by (simp_all add: slot_ok_iff slot_fits_def)
  obtain s1 where s1: "swap_out_page p k s = Ok s1" "store_inv RAID_0 s1" "store_lookup RAID_0 s1 k = Some p"
    using store_put [of RAID_0 s k p] ok(1) assms by auto
  define s2 where "s2 = s1\<lparr>raid_mode := RAID_1\<rparr>"
  have s2: "setraidmode RAID_1 s1 = Ok (0, s2)" "store_inv RAID_1 s2" "swap_slot_raid_mode s2 k = RAID_0"
    using s1(2,3)
    by (auto simp: setraidmode_def s2_def store_inv_def dq_ready_def disks_wf_def myproc_def store_lookup_def
        split: if_splits)
  obtain s3 where s3: "swap_out_page q t s2 = Ok s3"
    "out_inv RAID_1 t q (s2\<lparr>swap_slot_raid_mode := (swap_slot_raid_mode s2)(t := RAID_1)\<rparr>) BLOCKS_PER_PAGE s3"
    using swap_out_page_ok [of s2 t q] s2(2) ok(2) assms(5) by (auto simp: store_inv_def)
  have inv3: "dq_ready s3" "disks_wf s3" "swap_slot_raid_mode s3 k = RAID_0"
    using s3(2) s2(3) tj(5) by (simp_all add: out_inv_def)
  obtain s4 where s4: "swap_in_page buf k s3 = Ok (page_on RAID_0 k s3, s4)"
    using swap_in_page_ok [of s3 k RAID_0 buf] inv3 ok(1) assms(6) by auto
  have "page_chunk 0 (page_on RAID_0 k s3) = blk RAID_0 (k * 4) s3"
    using inv3(2) by (simp add: page_on_def page_blocks_upt page_chunk_def blk_def disks_wf_def)
  also have "\<dots> = blk RAID_1 (t * 4 + int j) s3"
  proof -
    have "(k - 2048) div 16384 = 0" "(k - 2048) mod 16384 = k - 2048"
      using assms(2,3) by (simp_all add: div_pos_pos_trivial mod_pos_pos_trivial)
    then show ?thesis unfolding tj(1) blk_def data_loc_mode by simp
  qed
  also have "\<dots> = page_chunk j q" using s3(2) tj(4) by (simp add: out_inv_def)
  finally show ?thesis using s1(1) s2(1) s3(1) s4 unfolding t_def j_def by blast
qed

theorem raid_switch_overlap_witness:
  "\<exists>s1 s2 s3 s4 r. swap_out_page (replicate 4096 1) 2048 sd0 = Ok s1 \<and> setraidmode 1 s1 = Ok (0, s2) \<and>
    swap_out_page (replicate 4096 2) ((2048 - 2048) div 4) s2 = Ok s3 \<and>
    swap_in_page junk_page 2048 s3 = Ok (r, s4) \<and>
    page_chunk 0 r = page_chunk (nat ((2048 - 2048) mod 4)) (replicate 4096 2)"
  by (rule raid_switch_overlap) (simp_all add: store_inv_def junk_page_def)

text \<open>C21: RAID 5 tolerates the loss of a disk: after a block is written, the content of every disk in
  its row is the XOR of the other three, and the parity of no other row changes.\<close>

theorem raid5_row_recoverable:
  assumes "dq_ready s" "disks_wf s" "block_fits RAID_5 lb" "length chunk = BSIZE"
  shows "\<exists>s'. raid_write lb chunk RAID_5 s = Ok s' \<and>
    (\<forall>d\<in>{0..<4}. row_parity s' d (lb div 3 + 4096) = simulated_disks s' d (lb div 3 + 4096)) \<and>
    (\<forall>row. row \<noteq> lb div 3 \<longrightarrow> parity_ok s' row = parity_ok s row)"
proof -
  obtain s' where s': "raid_write lb chunk RAID_5 s = Ok s'" "parity_ok s' (lb div 3)"
    "\<And>row. row \<noteq> lb div 3 \<Longrightarrow> parity_ok s' row = parity_ok s row"
    using raid5_write_parity [OF assms] by auto
  obtain me where "myproc s = Some me" using assms(1) by (auto simp: dq_ready_def)
  then have "disks_wf s'"
    using s'(1) raid_write_ready [OF assms(1) _ _ assms(3), of me chunk] assms(2,4)
    by (auto intro: disks_wf_place)
  then have "row_parity s' d (lb div 3 + 4096) = simulated_disks s' d (lb div 3 + 4096)"
    if "0 \<le> d" "d < 4" for d
    using row_parity_any [of s' "lb div 3 mod 4" "lb div 3 + 4096" d] s'(2) that by (simp add: parity_ok_def)
  then show ?thesis using s' by auto
qed

theorem raid5_row_recoverable_witness:
  "\<exists>s'. raid_write 7 (replicate 1024 9) RAID_5 sd0 = Ok s' \<and>
    (\<forall>d\<in>{0..<4}. row_parity s' d (7 div 3 + 4096) = simulated_disks s' d (7 div 3 + 4096)) \<and>
    (\<forall>row. row \<noteq> 7 div 3 \<longrightarrow> parity_ok s' row = parity_ok sd0 row)"
  by (rule raid5_row_recoverable) (simp_all add: block_fits_mode)

lemma xor_zero_iff: "a XOR b = 0 \<longleftrightarrow> a = (b :: uint8)"
  by (metis xor_cancel xor.right_neutral xor_self_eq)

text \<open>C36: Releasing a slot breaks that: the release zeroes the parity blocks of the slot's rows without
  recomputing them. Slots 0 and 1 share row 1, so after slot 0 is released the parity of row 1
  is wrong whenever the first two blocks of the page in slot 1 differ.\<close>

theorem raid5_free_breaks_parity:
  assumes "store_inv RAID_5 s" "store_lookup RAID_5 s 0 = Some p" "store_lookup RAID_5 s 1 = Some q"
    and "page_chunk 0 q \<noteq> page_chunk 1 q"
  shows "\<not> parity_ok (swap_disk_free_slot 0 s) 1"
proof
  let ?f = "swap_disk_free_slot 0 s"
  assume ok: "parity_ok ?f 1"
  have wf: "disks_wf s" using assms(1) by (simp add: store_inv_def)
  have m: "swap_slot_raid_mode s 0 = RAID_5" "q = page_on RAID_5 1 s"
    using assms(2,3) by (auto simp: store_lookup_def split: if_splits)
  have "page_chunk 0 q = simulated_disks s 2 4097" "page_chunk 1 q = simulated_disks s 3 4097"
    using wf by (simp_all add: m(2) page_on_def page_blocks_upt page_chunk_def blk_def data_loc_mode
        skip_def disks_wf_def)
  moreover have "simulated_disks s 2 4097 = simulated_disks s 3 4097"
  proof (rule nth_equalityI)
    fix k
    assume "k < length (simulated_disks s 2 4097)"
    then have k: "k < 1024" using wf by (simp add: disks_wf_def)
    have "replicate BSIZE 0 ! k = row_parity ?f 1 4097 ! k"
      using ok free_slot0_row1 [OF m(1)] by (simp add: parity_ok_def)
    then show "simulated_disks s 2 4097 ! k = simulated_disks s 3 4097 ! k"
      using k wf free_slot0_row1 [OF m(1)] by (simp add: row_parity_disk disks_wf_def xor_zero_iff)
  qed (use wf in \<open>simp add: disks_wf_def\<close>)
  ultimately show False using assms(4) by simp
qed

theorem raid5_free_breaks_parity_witness:
  "\<exists>s :: swapdisk. store_inv RAID_5 s \<and> \<not> parity_ok (swap_disk_free_slot 0 s) 1"
proof -
  define p q :: "uint8 list" where "p = replicate 4096 0" and "q = replicate 1024 1 @ replicate 3072 2"
  have "store_inv RAID_5 (sd0\<lparr>raid_mode := 2\<rparr>)" "slot_ok RAID_5 0" "slot_ok RAID_5 1"
    by (simp_all add: store_inv_def slot_ok_iff slot_fits_def)
  then obtain s1 :: swapdisk where s1: "store_inv RAID_5 s1" "store_lookup RAID_5 s1 0 = Some p"
    using store_put [of RAID_5 "sd0\<lparr>raid_mode := 2\<rparr>" 0 p] by (auto simp: p_def)
  then obtain s2 :: swapdisk where s2: "store_inv RAID_5 s2" "store_lookup RAID_5 s2 1 = Some q"
    "store_lookup RAID_5 s2 0 = Some p"
    using store_put [of RAID_5 s1 1 q] \<open>slot_ok RAID_5 1\<close> \<open>slot_ok RAID_5 0\<close> by (auto simp: q_def)
  have "page_chunk 0 q ! 0 \<noteq> page_chunk 1 q ! 0" by (simp add: q_def page_chunk_def nth_append)
  then have "page_chunk 0 q \<noteq> page_chunk 1 q" by metis
  then show ?thesis using raid5_free_breaks_parity [OF s2(1,3,2)] s2(1) by blast
qed

text \<open>C25: What the disk scheduler picks. It returns nothing exactly when no request is pending. Under
  FCFS it picks the first pending request of the table; under SSTF the request that is least by
  seek distance from the head, then by queue level of the requesting process, then by position.\<close>

theorem disk_schedule_choice:
  "case disk_schedule_locked s of
     None \<Rightarrow> \<forall>i<MAX_DISK_REQS. \<not> valid (reqs s i)
   | Some c \<Rightarrow> c < MAX_DISK_REQS \<and> valid (reqs s c) \<and>
       (\<forall>i<MAX_DISK_REQS. valid (reqs s i) \<longrightarrow>
          (if policy s = DISK_SCHED_FCFS then c \<le> i else sstf_before (reqs s) (head s) c i))"
proof (cases "disk_schedule_locked s")
  case None
  then show ?thesis using disk_schedule_None_iff [of s] by simp
next
  case (Some c)
  then have "c \<le> i" if "policy s = DISK_SCHED_FCFS" "valid (reqs s i)" "i < MAX_DISK_REQS" for i
    using that by (auto simp: disk_schedule_locked_def search_Some_iff not_less [symmetric])
  then show ?thesis using Some disk_schedule_SomeD [OF Some] disk_schedule_sstf_least by auto
qed

theorem disk_schedule_choice_witness:
  "disk_schedule_locked (sd0\<lparr>policy := 1, head := 50,
      reqs := (reqs sd0)(3 := \<lparr>valid = True, blockno = 60, is_write = True, rproc = None, priority = 2\<rparr>,
                         7 := \<lparr>valid = True, blockno = 40, is_write = True, rproc = None, priority = 1\<rparr>)\<rparr>)
   = Some 7"
proof -
  define s where "s = sd0\<lparr>policy := 1, head := 50,
      reqs := (reqs sd0)(3 := \<lparr>valid = True, blockno = 60, is_write = True, rproc = None, priority = 2\<rparr>,
                         7 := \<lparr>valid = True, blockno = 40, is_write = True, rproc = None, priority = 1\<rparr>)\<rparr>"
  have v: "valid (reqs s i) \<longleftrightarrow> i = 3 \<or> i = 7" for i
    by (simp add: s_def sd0_def swap_disk_init_def)
  have pol: "policy s = 1" "head s = 50" by (simp_all add: s_def)
  have worse: "\<not> sstf_before (reqs s) 50 3 7" by (simp add: s_def sstf_before_def seek_dist_def)
  have "disk_schedule_locked s = Some 7"
  proof (cases "disk_schedule_locked s")
    case None
    then show ?thesis using disk_schedule_choice [of s] v by (auto dest: spec [of _ 7])
  next
    case (Some c)
    then have "c = 3 \<or> c = 7" "sstf_before (reqs s) 50 c 7"
      using disk_schedule_choice [of s] v pol by (auto dest: spec [of _ 7])
    then show ?thesis using Some worse by metis
  qed
  then show ?thesis by (simp only: s_def)
qed


end
