(* ===== verification/Pagetable.thy ===== *)
theory Pagetable
  imports Riscv_Layout
begin

text \<open>
  Physical memory by pages and the Sv39 page tables that live in it (kernel/vm.c, \<open>walk\<close> without
  allocation). A page table is really in memory: a page of 512 eight-byte entries whose valid
  entries point to the next level. \<open>pt_page\<close> follows a path of indices, \<open>pt_wf\<close> says that no page
  is reached by two paths, and \<open>pte_of\<close> is the entry the table holds for a virtual address. The
  lemmas say what a store to an entry, and the addition of a fresh table page, do to that map.
\<close>

unbundle bit_operations_syntax

section \<open>Memory by pages\<close>

lemma page_offset_nat:
  assumes "page_aligned p" "i < 4096"
  shows "unat (p + of_nat i) = unat p + i"
proof -
  obtain k where k: "unat p = 4096 * k" using assms(1) unfolding page_aligned_def by auto
  have "unat p < 4096 * 2 ^ 52" using unsigned_less [of p, where ?'a = nat] by simp
  then have "k < 2 ^ 52" by (simp add: k)
  then have "unat p + i < 2 ^ 64" using assms(2) by (simp add: k)
  moreover have "unat (of_nat i :: uint64) = i" using assms(2) by (simp add: unat_of_nat)
  ultimately show ?thesis by (subst unat_add_lem [THEN iffD1]) simp_all
qed

lemma PGROUNDDOWN_offset_eq:
  assumes "page_aligned p" "i < 4096"
  shows "PGROUNDDOWN (p + of_nat i) = p"
proof -
  obtain k where k: "unat p = 4096 * k" using assms(1) unfolding page_aligned_def by auto
  then have "unat (PGROUNDDOWN (p + of_nat i)) = unat p"
    using assms by (simp add: unat_PGROUNDDOWN page_offset_nat)
  then show ?thesis by (simp add: word_unat_eq_iff)
qed

lemma in_page_iff:
  assumes "page_aligned p"
  shows "unat (x - p) < 4096 \<longleftrightarrow> PGROUNDDOWN x = p"
proof
  assume lt: "unat (x - p) < 4096"
  have "x = p + of_nat (unat (x - p))" by simp
  then show "PGROUNDDOWN x = p" using PGROUNDDOWN_offset_eq [OF assms lt] by simp
next
  assume "PGROUNDDOWN x = p"
  then show "unat (x - p) < 4096" using PGROUNDDOWN_offset [of x] by simp
qed

text \<open>Two memories that agree on a page.\<close>

definition page_eq :: "uint64 \<Rightarrow> bytemem \<Rightarrow> bytemem \<Rightarrow> bool" where
  "page_eq p m m' \<longleftrightarrow> (\<forall>x. PGROUNDDOWN x = p \<longrightarrow> m x = m' x)"

lemma page_eq_refl [simp]: "page_eq p m m"
  by (simp add: page_eq_def)

lemma page_eq_trans: "page_eq p m1 m2 \<Longrightarrow> page_eq p m2 m3 \<Longrightarrow> page_eq p m1 m3"
  by (simp add: page_eq_def)

lemma page_eq_sym: "page_eq p m m' \<Longrightarrow> page_eq p m' m"
  by (simp add: page_eq_def)

lemma slot_offset: "k < 512 \<Longrightarrow> j < 8 \<Longrightarrow> p + 8 * of_nat k + of_nat j = p + of_nat (8 * k + j)"
  for p :: uint64
  by simp

lemma PGROUNDDOWN_slot:
  assumes "page_aligned p" "k < 512" "j < 8"
  shows "PGROUNDDOWN (p + 8 * of_nat k + of_nat j) = p"
  using PGROUNDDOWN_offset_eq [of p "8 * k + j"] assms by (simp add: add.assoc)

lemma ld64_page_cong:
  assumes "page_aligned p" "k < 512" "page_eq p m m'"
  shows "ld64 m (p + 8 * of_nat k) = ld64 m' (p + 8 * of_nat k)"
proof -
  have "m (p + 8 * of_nat k + of_nat j) = m' (p + 8 * of_nat k + of_nat j)" if "j < 8" for j
    using PGROUNDDOWN_slot [OF assms(1,2) that] assms(3) by (simp add: page_eq_def)
  from this [of 0] this [of 1] this [of 2] this [of 3] this [of 4] this [of 5] this [of 6] this [of 7]
  show ?thesis by (simp add: ld64_def)
qed

lemma st64_page_eq:
  assumes "page_aligned p" "k < 512" "q \<noteq> p"
  shows "page_eq q (st64 m (p + 8 * of_nat k) v) m"
  unfolding page_eq_def
proof (intro allI impI)
  fix x
  assume x: "PGROUNDDOWN x = q"
  have "\<not> x - (p + 8 * of_nat k) < 8"
  proof
    assume "x - (p + 8 * of_nat k) < 8"
    then have "unat (x - (p + 8 * of_nat k)) < 8" by (simp add: word_less_nat_alt)
    from PGROUNDDOWN_slot [OF assms(1,2) this] have "PGROUNDDOWN x = p" by simp
    then show False using x assms(3) by simp
  qed
  then show "st64 m (p + 8 * of_nat k) v x = m x" by (simp add: st64_def)
qed

lemma st_page_eq:
  assumes "page_aligned p" "length bs = 4096" "q \<noteq> p"
  shows "page_eq q (st_bytes m p bs) m"
  using assms in_page_iff [OF assms(1)] by (auto simp: page_eq_def st_bytes_def)

lemma ld_page_cong:
  assumes "page_aligned p" "page_eq p m m'"
  shows "ld_bytes m p 4096 = ld_bytes m' p 4096"
  using assms PGROUNDDOWN_offset_eq [OF assms(1)] by (intro ld_bytes_cong) (auto simp: page_eq_def)

lemma ld_st_page: "length bs = 4096 \<Longrightarrow> ld_bytes (st_bytes m p bs) p 4096 = bs"
  using ld_bytes_st_bytes_same [of bs m p] by simp

lemma slot_mod8: "page_aligned p \<Longrightarrow> k < 512 \<Longrightarrow> unat (p + 8 * of_nat k) mod 8 = 0"
  using page_offset_nat [of p "8 * k"] by (auto simp: page_aligned_def)

lemma ld64_st64_slot:
  assumes "page_aligned p" "page_aligned q" "k < 512" "l < 512"
  shows "ld64 (st64 m (p + 8 * of_nat k) v) (q + 8 * of_nat l) =
    (if p = q \<and> k = l then v else ld64 m (q + 8 * of_nat l))"
proof (cases "p = q \<and> k = l")
  case False
  have "p + 8 * of_nat k \<noteq> q + 8 * of_nat l"
  proof
    assume eq: "p + 8 * of_nat k = q + 8 * of_nat l"
    then have "p = q" using PGROUNDDOWN_slot [of p k 0] PGROUNDDOWN_slot [of q l 0] assms by simp
    moreover have "unat p + 8 * k = unat q + 8 * l"
      using arg_cong [OF eq, of unat] page_offset_nat [of p "8 * k"] page_offset_nat [of q "8 * l"] assms by simp
    ultimately show False using False by simp
  qed
  then show ?thesis using False assms by (auto simp: ld64_st64_other slot_mod8)
qed auto
section \<open>The walk\<close>

definition pte_addr :: "uint64 \<Rightarrow> nat \<Rightarrow> uint64 \<Rightarrow> uint64" where
  "pte_addr pt level va = pt + 8 * PX level va"

definition next_level :: "bytemem \<Rightarrow> uint64 \<Rightarrow> uint64 option" where
  "next_level m pte = (if ld64 m pte AND PTE_V \<noteq> 0 then Some (PTE2PA (ld64 m pte)) else None)"

text \<open>\<open>walk(pagetable, va, 0)\<close>: the address of the leaf entry, or the null pointer.\<close>

fun walk_levels :: "bytemem \<Rightarrow> nat \<Rightarrow> uint64 \<Rightarrow> uint64 \<Rightarrow> uint64 option" where
  "walk_levels m 0 pt va = Some (pte_addr pt 0 va)"
| "walk_levels m (Suc level) pt va =
     (case next_level m (pte_addr pt (Suc level) va) of
        None \<Rightarrow> None
      | Some pt' \<Rightarrow> walk_levels m level pt' va)"

definition walk_lookup :: "bytemem \<Rightarrow> uint64 \<Rightarrow> uint64 \<Rightarrow> uint64 option res" where
  "walk_lookup m pt va = (if va \<ge> MAXVA then Panic ''walk'' else Ok (walk_levels m 2 pt va))"

section \<open>Page tables as trees\<close>

definition child :: "bytemem \<Rightarrow> uint64 \<Rightarrow> nat \<Rightarrow> uint64 option" where
  "child m p i = next_level m (p + 8 * of_nat i)"

fun pt_page :: "bytemem \<Rightarrow> uint64 \<Rightarrow> nat list \<Rightarrow> uint64 option" where
  "pt_page m pt [] = Some pt"
| "pt_page m pt (i # is) = (case child m pt i of None \<Rightarrow> None | Some p \<Rightarrow> pt_page m p is)"

definition px :: "nat \<Rightarrow> uint64 \<Rightarrow> nat" where
  "px level va = unat (PX level va)"

definition leaf_path :: "uint64 \<Rightarrow> nat list" where
  "leaf_path va = [px 2 va, px 1 va]"

definition pt_path :: "nat list \<Rightarrow> bool" where
  "pt_path P \<longleftrightarrow> length P \<le> 2 \<and> (\<forall>i\<in>set P. i < 512)"

definition pt_pages :: "bytemem \<Rightarrow> uint64 \<Rightarrow> uint64 set" where
  "pt_pages m pt = {p. \<exists>P. pt_path P \<and> pt_page m pt P = Some p}"

definition pt_wf :: "bytemem \<Rightarrow> uint64 \<Rightarrow> bool" where
  "pt_wf m pt \<longleftrightarrow> page_aligned pt \<and>
     (\<forall>P Q p. pt_path P \<longrightarrow> pt_path Q \<longrightarrow> pt_page m pt P = Some p \<longrightarrow> pt_page m pt Q = Some p \<longrightarrow> P = Q)"

text \<open>The entry for a virtual address; an address whose table page is missing reads as 0.\<close>

definition pte_of :: "bytemem \<Rightarrow> uint64 \<Rightarrow> uint64 \<Rightarrow> uint64" where
  "pte_of m pt va =
     (case pt_page m pt (leaf_path va) of None \<Rightarrow> 0 | Some p \<Rightarrow> ld64 m (p + 8 * of_nat (px 0 va)))"

lemma px_less [simp]: "px level va < 512"
proof -
  have "unat (PX level va) < 2 ^ 9"
    by (simp add: PX_eq unsigned_take_bit_eq take_bit_nat_less_exp [of 9, simplified])
  then show ?thesis by (simp add: px_def)
qed

lemma pte_addr_px: "pte_addr pt level va = pt + 8 * of_nat (px level va)"
  by (simp add: pte_addr_def px_def)

lemma pt_path_px [simp]: "pt_path (leaf_path va)" "pt_path []"
  by (simp_all add: pt_path_def leaf_path_def)

lemma walk_lookup_eq:
  assumes "va < MAXVA"
  shows "walk_lookup m pt va =
    Ok (map_option (\<lambda>p. p + 8 * of_nat (px 0 va)) (pt_page m pt (leaf_path va)))"
  using assms
  by (auto simp: leaf_path_def walk_lookup_def numeral_2_eq_2 pte_addr_px child_def split: option.splits)

lemma page_aligned_PTE2PA [simp]: "page_aligned (PTE2PA pte)"
  by (simp add: page_aligned_iff_take_bit PTE2PA_def take_bit_push_bit)

lemma pt_page_append:
  "pt_page m pt (P @ Q) = (case pt_page m pt P of None \<Rightarrow> None | Some p \<Rightarrow> pt_page m p Q)"
  by (induction P arbitrary: pt) (auto split: option.splits)

lemma pt_page_snoc:
  "pt_page m pt (P @ [i]) = (case pt_page m pt P of None \<Rightarrow> None | Some p \<Rightarrow> child m p i)"
  by (auto simp: pt_page_append split: option.splits)

lemma child_aligned: "child m p i = Some q \<Longrightarrow> page_aligned q"
  by (auto simp: child_def next_level_def split: if_splits)

lemma pt_page_aligned: "page_aligned pt \<Longrightarrow> pt_page m pt P = Some p \<Longrightarrow> page_aligned p"
  by (induction P arbitrary: pt) (auto split: option.splits dest: child_aligned)

lemma pt_page_in: "pt_path P \<Longrightarrow> pt_page m pt P = Some p \<Longrightarrow> p \<in> pt_pages m pt"
  by (auto simp: pt_pages_def)

declare pt_page.simps(2) [simp del]

lemma pt_path_snoc [simp]: "pt_path (P @ [i]) \<longleftrightarrow> length P \<le> 1 \<and> pt_path P \<and> i < 512"
  by (auto simp: pt_path_def)

lemma child_cong: "page_aligned p \<Longrightarrow> i < 512 \<Longrightarrow> page_eq p m m' \<Longrightarrow> child m p i = child m' p i"
  by (simp add: child_def next_level_def ld64_page_cong [of p i m m'])

lemma pt_page_cong:
  assumes "page_aligned pt" "pt_path P" "\<And>p. p \<in> pt_pages m pt \<Longrightarrow> page_eq p m m'"
  shows "pt_page m' pt P = pt_page m pt P"
  using assms(2)
proof (induction P rule: rev_induct)
  case (snoc i P)
  then have IH: "pt_page m' pt P = pt_page m pt P" and P: "pt_path P" "i < 512" by simp_all
  show ?case
  proof (cases "pt_page m pt P")
    case (Some p)
    then have "page_eq p m m'" using assms(3) P by (auto simp: pt_pages_def)
    then show ?thesis
      using Some IH P(2) pt_page_aligned [OF assms(1) Some] by (simp add: pt_page_snoc child_cong [of p i m m'])
  qed (simp add: pt_page_snoc IH)
qed simp

lemma pt_frame:
  assumes "pt_wf m pt" "\<And>p. p \<in> pt_pages m pt \<Longrightarrow> page_eq p m m'"
  shows "pt_wf m' pt" "pt_pages m' pt = pt_pages m pt" "pte_of m' pt va = pte_of m pt va"
proof -
  have al: "page_aligned pt" using assms(1) by (simp add: pt_wf_def)
  have same: "pt_page m' pt P = pt_page m pt P" if "pt_path P" for P
    using pt_page_cong [OF al that] assms(2) by blast
  show "pt_wf m' pt" using assms(1) same by (auto simp: pt_wf_def)
  show "pt_pages m' pt = pt_pages m pt" using same by (auto simp: pt_pages_def)
  show "pte_of m' pt va = pte_of m pt va"
  proof (cases "pt_page m pt (leaf_path va)")
    case (Some p)
    then have "page_eq p m m'" using assms(2) pt_page_in [OF pt_path_px(1)] by blast
    then show ?thesis
      using Some same [OF pt_path_px(1)] pt_page_aligned [OF al Some]
      by (simp add: pte_of_def ld64_page_cong [of p _ m m'])
  qed (simp add: pte_of_def same)
qed

subsection \<open>Storing a leaf entry\<close>

definition same_vpage :: "uint64 \<Rightarrow> uint64 \<Rightarrow> bool" where
  "same_vpage a b \<longleftrightarrow> leaf_path a = leaf_path b \<and> px 0 a = px 0 b"

lemma pt_store_page:
  assumes wf: "pt_wf m pt" and leaf: "pt_page m pt L = Some p" "pt_path L" "length L = 2" "k < 512"
    and P: "pt_path P"
  shows "pt_page (st64 m (p + 8 * of_nat k) v) pt P = pt_page m pt P"
  using P
proof (induction P rule: rev_induct)
  case (snoc l P)
  have al: "page_aligned pt" using wf by (simp add: pt_wf_def)
  show ?case
  proof (cases "pt_page m pt P")
    case (Some q)
    have "P \<noteq> L" "pt_path P" using snoc.prems leaf(3) by auto
    then have "q \<noteq> p" using wf Some leaf(1,2) unfolding pt_wf_def by blast
    then show ?thesis
      using Some snoc pt_page_aligned [OF al Some] pt_page_aligned [OF al leaf(1)] leaf(4)
      by (simp add: pt_page_snoc child_def next_level_def ld64_st64_slot)
  qed (use snoc in \<open>simp add: pt_page_snoc\<close>)
qed simp

lemma pt_store_leaf:
  assumes wf: "pt_wf m pt" and leaf: "pt_page m pt (leaf_path va) = Some p"
  shows "pt_wf (st64 m (p + 8 * of_nat (px 0 va)) v) pt"
    and "pt_pages (st64 m (p + 8 * of_nat (px 0 va)) v) pt = pt_pages m pt"
    and "pte_of (st64 m (p + 8 * of_nat (px 0 va)) v) pt va' = (if same_vpage va' va then v else pte_of m pt va')"
proof -
  have al: "page_aligned pt" using wf by (simp add: pt_wf_def)
  have "length (leaf_path va) = 2" by (simp add: leaf_path_def)
  note same = pt_store_page [OF wf leaf pt_path_px(1) this px_less]
  show "pt_wf (st64 m (p + 8 * of_nat (px 0 va)) v) pt" using wf same by (simp add: pt_wf_def)
  show "pt_pages (st64 m (p + 8 * of_nat (px 0 va)) v) pt = pt_pages m pt"
    using same by (auto simp: pt_pages_def)
  show "pte_of (st64 m (p + 8 * of_nat (px 0 va)) v) pt va' = (if same_vpage va' va then v else pte_of m pt va')"
  proof (cases "pt_page m pt (leaf_path va')")
    case None
    then show ?thesis using same leaf by (auto simp: pte_of_def same_vpage_def)
  next
    case (Some q)
    have "q = p \<longleftrightarrow> leaf_path va' = leaf_path va"
      using wf Some leaf pt_path_px(1) unfolding pt_wf_def by (metis option.sel)
    then show ?thesis
      using Some same [OF pt_path_px(1)] pt_page_aligned [OF al Some] pt_page_aligned [OF al leaf]
      by (auto simp: pte_of_def same_vpage_def ld64_st64_slot)
  qed
qed

subsection \<open>Adding a table page\<close>

lemma ld64_zero_page:
  assumes "page_aligned p" "i < 512"
  shows "ld64 (st_bytes m p (replicate 4096 0)) (p + 8 * of_nat i) = 0"
proof -
  have "st_bytes m p (replicate 4096 0) (p + 8 * of_nat i + of_nat j) = 0" if "j < 8" for j
  proof -
    let ?x = "p + 8 * of_nat i + of_nat j"
    have "unat (?x - p) < 4096" using in_page_iff [OF assms(1)] PGROUNDDOWN_slot [OF assms that] by blast
    then show ?thesis unfolding st_bytes_def by (simp del: add_diff_cancel_left')
  qed
  from this [of 0] this [of 1] this [of 2] this [of 3] this [of 4] this [of 5] this [of 6] this [of 7]
  show ?thesis by (simp add: ld64_def)
qed

lemma V_of_table_pte: "(PA2PTE pa OR PTE_V) AND PTE_V \<noteq> 0"
  by (simp add: bit_eq_iff bit_simps) (auto simp: PA2PTE_def bit_simps intro!: exI [of _ 0])

lemma PTE2PA_table_pte: "page_aligned pa \<Longrightarrow> PTE2PA (PA2PTE pa OR PTE_V) = pa"
  by (simp add: PTE2PA_PA2PTE)

text \<open>What \<open>walk\<close> does when it allocates: clear the new page and link it from the parent's entry.\<close>

definition add_table :: "bytemem \<Rightarrow> uint64 \<Rightarrow> uint64 \<Rightarrow> bytemem" where
  "add_table m pte pa = st64 (st_bytes m pa (replicate 4096 0)) pte (PA2PTE pa OR PTE_V)"

lemma child_zero_page:
  assumes "page_aligned pa" "page_aligned r" "j < 512"
  shows "ld64 (st_bytes m pa (replicate 4096 0)) (r + 8 * of_nat j) =
      (if r = pa then 0 else ld64 m (r + 8 * of_nat j))"
  using assms st_page_eq [OF assms(1), of "replicate 4096 0" r m]
  by (auto simp: ld64_zero_page intro: ld64_page_cong)

lemma child_add_table:
  assumes "page_aligned q" "page_aligned pa" "q \<noteq> pa" "i < 512" "page_aligned r" "j < 512"
  shows "child (add_table m (q + 8 * of_nat i) pa) r j =
    (if r = pa then None else if r = q \<and> j = i then Some pa else child m r j)"
proof -
  have "ld64 (add_table m (q + 8 * of_nat i) pa) (r + 8 * of_nat j) =
     (if r = q \<and> j = i then PA2PTE pa OR PTE_V
      else if r = pa then 0 else ld64 m (r + 8 * of_nat j))"
    unfolding add_table_def ld64_st64_slot [OF assms(1,5,4,6)] child_zero_page [OF assms(2,5,6)] by auto
  then show ?thesis
    using assms(2,3) V_of_table_pte [of pa] PTE2PA_table_pte [OF assms(2)]
    unfolding child_def next_level_def by (cases "r = pa"; cases "r = q \<and> j = i") auto
qed

lemma pt_add_table_old:
  assumes wf: "pt_wf m pt" and P: "pt_path (P @ [i])" "pt_page m pt P = Some q" "child m q i = None"
    and pa: "page_aligned pa" "pa \<notin> pt_pages m pt"
    and Q: "pt_path Q" "pt_page m pt Q = Some r"
  shows "pt_page (add_table m (q + 8 * of_nat i) pa) pt Q = Some r"
  using Q
proof (induction Q arbitrary: r rule: rev_induct)
  case (snoc j Q)
  have al: "page_aligned pt" "page_aligned q" using wf P pt_page_aligned by (auto simp: pt_wf_def)
  have qpa: "q \<noteq> pa" using pa(2) pt_page_in [OF _ P(2)] P(1) by auto
  obtain r' where r': "pt_page m pt Q = Some r'" "child m r' j = Some r"
    using snoc.prems(2) by (auto simp: pt_page_snoc split: option.splits)
  have "pt_path Q" "j < 512" using snoc.prems(1) by simp_all
  moreover have "r' \<noteq> pa" using pa(2) pt_page_in [OF \<open>pt_path Q\<close> r'(1)] by auto
  moreover have "\<not> (r' = q \<and> j = i)" using P(3) r'(2) by auto
  ultimately show ?case
    using snoc.IH [OF \<open>pt_path Q\<close> r'(1)] r'(2) P(1) pt_page_aligned [OF al(1) r'(1)]
      child_add_table [OF al(2) pa(1) qpa, of i r' j m] by (auto simp: pt_page_snoc)
qed simp

lemma pt_add_table_new:
  assumes wf: "pt_wf m pt" and P: "pt_path (P @ [i])" "pt_page m pt P = Some q"
    and pa: "page_aligned pa" "pa \<notin> pt_pages m pt"
    and Q: "pt_path Q" "pt_page (add_table m (q + 8 * of_nat i) pa) pt Q = Some r"
  shows "pt_page m pt Q = Some r \<or> Q = P @ [i] \<and> r = pa"
  using Q
proof (induction Q arbitrary: r rule: rev_induct)
  case (snoc j Q)
  have al: "page_aligned pt" "page_aligned q" using wf P pt_page_aligned by (auto simp: pt_wf_def)
  have qpa: "q \<noteq> pa" using pa(2) pt_page_in [OF _ P(2)] P(1) by auto
  obtain r' where r': "pt_page (add_table m (q + 8 * of_nat i) pa) pt Q = Some r'"
    "child (add_table m (q + 8 * of_nat i) pa) r' j = Some r"
    using snoc.prems(2) by (auto simp: pt_page_snoc split: option.splits)
  have ix: "pt_path Q" "pt_path P" "j < 512" "i < 512" using snoc.prems(1) P(1) by simp_all
  note ch = child_add_table [OF al(2) pa(1) qpa ix(4) pt_page_aligned [OF al(1) r'(1)] ix(3), of m]
  have "r' \<noteq> pa" using ch r'(2) by auto
  then have old: "pt_page m pt Q = Some r'" using snoc.IH [OF ix(1) r'(1)] by auto
  show ?case
  proof (cases "r' = q \<and> j = i")
    case True
    then have "Q = P" using wf old P(2) ix(1,2) unfolding pt_wf_def by blast
    then show ?thesis using True ch r'(2) qpa by auto
  next
    case False
    then show ?thesis using ch r'(2) \<open>r' \<noteq> pa\<close> old by (auto simp: pt_page_snoc)
  qed
qed simp

lemma pt_add_table:
  assumes wf: "pt_wf m pt" and P: "pt_path (P @ [i])" "pt_page m pt P = Some q" "child m q i = None"
    and pa: "page_aligned pa" "pa \<notin> pt_pages m pt"
  defines "m' \<equiv> add_table m (q + 8 * of_nat i) pa"
  shows "pt_wf m' pt" "pt_pages m' pt = insert pa (pt_pages m pt)" "pt_page m' pt (P @ [i]) = Some pa"
    "pte_of m' pt va = pte_of m pt va"
proof -
  have al: "page_aligned pt" "page_aligned q" using wf P pt_page_aligned by (auto simp: pt_wf_def)
  have qpa: "q \<noteq> pa" using pa(2) pt_page_in [OF _ P(2)] P(1) by auto
  note old = pt_add_table_old [OF assms(1-6), folded m'_def]
  note new = pt_add_table_new [OF assms(1-3,5,6), folded m'_def]
  have ix: "pt_path P" "i < 512" "length P \<le> 1" using P(1) by simp_all
  show link: "pt_page m' pt (P @ [i]) = Some pa"
    using old [OF ix(1) P(2)] child_add_table [OF al(2) pa(1) qpa ix(2) al(2) ix(2), of m] qpa
    by (simp add: pt_page_snoc m'_def)
  show "pt_pages m' pt = insert pa (pt_pages m pt)"
  proof (intro equalityI subsetI)
    fix p
    assume "p \<in> pt_pages m' pt"
    then show "p \<in> insert pa (pt_pages m pt)" using new by (force simp: pt_pages_def)
  next
    fix p
    assume "p \<in> insert pa (pt_pages m pt)"
    then show "p \<in> pt_pages m' pt" using old pt_page_in [OF P(1) link] by (auto simp: pt_pages_def)
  qed
  show "pt_wf m' pt"
    unfolding pt_wf_def
  proof (intro conjI allI impI)
    fix Q R p
    assume Q: "pt_path Q" "pt_page m' pt Q = Some p" and R: "pt_path R" "pt_page m' pt R = Some p"
    show "Q = R"
    proof (cases "p = pa")
      case True
      then show ?thesis
        using new [OF Q] new [OF R] pa(2) pt_page_in [OF Q(1)] pt_page_in [OF R(1)] by blast
    next
      case False
      then show ?thesis using new [OF Q] new [OF R] Q(1) R(1) wf unfolding pt_wf_def by blast
    qed
  qed (rule al(1))
  show "pte_of m' pt va = pte_of m pt va"
  proof (cases "pt_page m pt (leaf_path va)")
    case (Some p)
    have "leaf_path va \<noteq> P" using ix(3) by (auto simp: leaf_path_def)
    then have "p \<noteq> q" using wf Some P(2) ix(1) pt_path_px(1) unfolding pt_wf_def by blast
    moreover have "p \<noteq> pa" using pa(2) pt_page_in [OF pt_path_px(1) Some] by auto
    ultimately show ?thesis
      using Some old [OF pt_path_px(1) Some] pt_page_aligned [OF al(1) Some] al(2) ix(2) pa(1)
      by (simp add: pte_of_def m'_def add_table_def ld64_st64_slot child_zero_page)
  next
    case None
    show ?thesis
    proof (cases "pt_page m' pt (leaf_path va)")
      case (Some p)
      then have "p = pa" using new [OF pt_path_px(1) Some] None by simp
      then show ?thesis
        using None Some al(2) ix(2) pa(1) qpa
        by (simp add: pte_of_def m'_def add_table_def ld64_st64_slot child_zero_page)
    qed (use None in \<open>simp add: pte_of_def\<close>)
  qed
qed
end
