(* ===== verification/Kalloc.thy ===== *)
theory Kalloc
  imports Swap_Disk Pagetable
begin

text \<open>
  kernel/kalloc.c: the physical page allocator, the frame table with the clock hand, eviction and
  the swap table.

  The free list is in memory, as in the code: \<open>freelist\<close> is the address of the first free page and
  the first eight bytes of a free page hold the address of the next one. \<open>free_list\<close> relates it to
  the list of free pages, and the allocator is shown to be a stack of pages that never hands out a
  page twice. The clock is shown to choose a frame of the least favoured process among those that
  may be evicted, and a page is shown to survive the way to the swap disk and back.
\<close>

unbundle bit_operations_syntax

section \<open>Model\<close>

record frame =
  used :: bool
  fproc :: "nat option"
  fva :: uint64
  fpa :: uint64

record swap =
  sused :: bool
  spage_table :: uint64
  sva :: uint64
  sraid_mode :: int

text \<open>\<open>kend\<close> is the linker symbol \<open>end\<close>, the first address after the kernel.\<close>

record kmem = swapdisk +
  mem :: bytemem
  freelist :: uint64
  frametable :: "nat \<Rightarrow> frame"
  clock_hand :: nat
  active_frames :: int
  swaptable :: "nat \<Rightarrow> swap"
  kend :: uint64

definition upd_frame :: "nat \<Rightarrow> (frame \<Rightarrow> frame) \<Rightarrow> 'z kmem_scheme \<Rightarrow> 'z kmem_scheme" where
  "upd_frame i f s = s\<lparr>frametable := (frametable s)(i := f (frametable s i))\<rparr>"

definition memset_page :: "uint64 \<Rightarrow> uint8 \<Rightarrow> 'z kmem_scheme \<Rightarrow> 'z kmem_scheme" where
  "memset_page pa c s = s\<lparr>mem := st_bytes (mem s) pa (replicate 4096 c)\<rparr>"

definition frametablefree :: "uint64 \<Rightarrow> 'z kmem_scheme \<Rightarrow> 'z kmem_scheme res" where
  "frametablefree pa s =
     bindr (acquire FrameLock s) (\<lambda>s.
     let s = (case search (\<lambda>i. fpa (frametable s i) = pa \<and> used (frametable s i)) 0 MAX_FRAMES of
                None \<Rightarrow> s
              | Some i \<Rightarrow>
                let p = fproc (frametable s i);
                    s = upd_frame i (\<lambda>f. f\<lparr>used := False, fproc := None, fva := 0, fpa := 0\<rparr>) s;
                    s = (case p of
                           None \<Rightarrow> s
                         | Some q \<Rightarrow> upd_proc q (\<lambda>r. r\<lparr>resident_pages := resident_pages r - 1\<rparr>) s)
                in s\<lparr>active_frames := active_frames s - 1\<rparr>)
     in release FrameLock s)"

definition kfree :: "uint64 \<Rightarrow> 'z kmem_scheme \<Rightarrow> 'z kmem_scheme res" where
  "kfree pa s =
     (if pa mod PGSIZE \<noteq> 0 \<or> pa < kend s \<or> pa \<ge> PHYSTOP then Panic ''kfree''
      else
        bindr (frametablefree pa s) (\<lambda>s.
        let s = memset_page pa 1 s
        in bindr (acquire KmemLock s) (\<lambda>s.
           let s = s\<lparr>mem := st64 (mem s) pa (freelist s)\<rparr>;
               s = s\<lparr>freelist := pa\<rparr>
           in release KmemLock s)))"

subsection \<open>Initialisation\<close>

lemma kfree_OkD: "kfree pa s = Ok s' \<Longrightarrow> pa < PHYSTOP"
  by (auto simp: kfree_def split: if_splits)

text \<open>The loop of \<open>freerange\<close>. An iteration that does not panic is below \<open>PHYSTOP\<close>, so it ends.\<close>

function freerange_loop :: "uint64 \<Rightarrow> uint64 \<Rightarrow> 'z kmem_scheme \<Rightarrow> 'z kmem_scheme res" where
  "freerange_loop p pa_end s =
     (if p + PGSIZE \<le> pa_end
      then bindr (kfree p s) (\<lambda>s. freerange_loop (p + PGSIZE) pa_end s)
      else Ok s)"
  by auto

termination freerange_loop
proof (relation "measure (\<lambda>(p, _, _). unat PHYSTOP - unat p)")
  fix p pa_end :: uint64 and s s' :: "'z kmem_scheme"
  assume "kfree p s = Ok s'"
  then have p: "p < PHYSTOP" by (rule kfree_OkD)
  then have "unat (p + PGSIZE) = unat p + 4096"
    by (subst unat_add_lem [THEN iffD1]) (simp_all add: word_less_nat_alt)
  then show "((p + PGSIZE, pa_end, s'), (p, pa_end, s)) \<in> measure (\<lambda>(p, _, _). unat PHYSTOP - unat p)"
    using p by (simp add: word_less_nat_alt)
qed simp

declare freerange_loop.simps [simp del]

definition freerange :: "uint64 \<Rightarrow> uint64 \<Rightarrow> 'z kmem_scheme \<Rightarrow> 'z kmem_scheme res" where
  "freerange pa_start pa_end s = freerange_loop (PGROUNDUP pa_start) pa_end s"

definition kinit :: "'z kmem_scheme \<Rightarrow> 'z kmem_scheme res" where
  "kinit s =
     freerange (kend s) PHYSTOP
       (s\<lparr>frametable := (\<lambda>i. if i < MAX_FRAMES
                           then \<lparr>used = False, fproc = None, fva = 0, fpa = 0\<rparr> else frametable s i),
          swaptable := (\<lambda>i. if i < MAX_SWAP
                           then (swaptable s i)\<lparr>sused := False, spage_table := 0, sva := 0\<rparr>
                           else swaptable s i)\<rparr>)"

subsection \<open>Swap table\<close>

definition swap_free :: "int \<Rightarrow> 'z kmem_scheme \<Rightarrow> 'z kmem_scheme res" where
  "swap_free swap_idx s =
     bindr (acquire SwapLock s) (\<lambda>s.
     let s = (if 0 \<le> swap_idx \<and> swap_idx < int MAX_SWAP
              then swap_disk_free_slot swap_idx
                     (s\<lparr>swaptable := (swaptable s)(nat swap_idx :=
                         \<lparr>sused = False, spage_table = 0, sva = 0, sraid_mode = 0\<rparr>)\<rparr>)
              else s)
     in release SwapLock s)"

text \<open>\<open>tlb_flush_all\<close> writes only to the interrupt controller, which is not part of the state.\<close>

definition swapout :: "uint64 \<Rightarrow> uint64 \<Rightarrow> 'z kmem_scheme \<Rightarrow> (int \<times> 'z kmem_scheme) res" where
  "swapout pt va s =
     bindr (walk_lookup (mem s) pt va) (\<lambda>r.
     case r of
       None \<Rightarrow> Ok (-1, s)
     | Some pte \<Rightarrow>
       if ld64 (mem s) pte AND PTE_V = 0 then Ok (-1, s)
       else
         let pa = PTE2PA (ld64 (mem s) pte)
         in bindr (acquire SwapLock s) (\<lambda>s.
            let found = search (\<lambda>i. \<not> sused (swaptable s i)) 0 MAX_SWAP;
                s = (case found of
                       None \<Rightarrow> s
                     | Some i \<Rightarrow> s\<lparr>swaptable := (swaptable s)(i :=
                         \<lparr>sused = True, spage_table = pt, sva = va, sraid_mode = raid_mode s\<rparr>)\<rparr>)
            in bindr (release SwapLock s) (\<lambda>s.
               case found of
                 None \<Rightarrow> Ok (-1, s)
               | Some i \<Rightarrow>
                 bindr (swap_out_page (ld_bytes (mem s) pa 4096) (int i) s) (\<lambda>s.
                 let s = (case myproc s of
                            None \<Rightarrow> s
                          | Some p \<Rightarrow> upd_proc p (\<lambda>q. q\<lparr>disk_writes := disk_writes q + 1,
                              avg_disk_latency := disk_get_avg_latency s\<rparr>) s);
                     flags = PTE_FLAGS (ld64 (mem s) pte);
                     s = s\<lparr>mem := st64 (mem s) pte
                            (push_bit 10 (of_nat i) OR PTE_S OR (flags AND NOT PTE_V))\<rparr>
                 in Ok (int i, s)))))"

definition swapin :: "uint64 \<Rightarrow> int \<Rightarrow> 'z kmem_scheme \<Rightarrow> 'z kmem_scheme res" where
  "swapin pa swap_idx s =
     bindr (acquire SwapLock s) (\<lambda>s.
     if swap_idx < 0 \<or> swap_idx \<ge> int MAX_SWAP \<or> \<not> sused (swaptable s (nat swap_idx))
     then bindr (release SwapLock s) (\<lambda>s. Panic ''swapin: invalid swap index or slot not in use'')
     else
       bindr (release SwapLock s) (\<lambda>s.
       bindr (swap_in_page (ld_bytes (mem s) pa 4096) swap_idx s) (\<lambda>(page, s).
       let s = s\<lparr>mem := st_bytes (mem s) pa page\<rparr>;
           s = (case myproc s of
                  None \<Rightarrow> s
                | Some p \<Rightarrow> upd_proc p (\<lambda>q. q\<lparr>disk_reads := disk_reads q + 1,
                    avg_disk_latency := disk_get_avg_latency s\<rparr>) s)
       in swap_free swap_idx s)))"

subsection \<open>The clock\<close>

definition runs_elsewhere :: "'z kmem_scheme \<Rightarrow> nat \<Rightarrow> bool" where
  "runs_elsewhere s p \<longleftrightarrow> pstate (procs s p) = RUNNING \<and> myproc s \<noteq> Some p"

definition advance_hand :: "'z kmem_scheme \<Rightarrow> 'z kmem_scheme" where
  "advance_hand s = s\<lparr>clock_hand := (clock_hand s + 1) mod MAX_FRAMES\<rparr>"

text \<open>One turn of the scan; the accumulator is \<open>(best_idx, best_level, s)\<close>.\<close>

definition clock_step ::
    "nat option \<times> int \<times> 'z kmem_scheme \<Rightarrow> (nat option \<times> int \<times> 'z kmem_scheme) res" where
  "clock_step acc =
     (case acc of (best_idx, best_level, s) \<Rightarrow>
      let h = clock_hand s
      in case fproc (frametable s h) of
           None \<Rightarrow> Ok (best_idx, best_level, advance_hand s)
         | Some p \<Rightarrow>
           if runs_elsewhere s p then Ok (best_idx, best_level, advance_hand s)
           else
             bindr (walk_lookup (mem s) (pagetable (procs s p)) (fva (frametable s h))) (\<lambda>r.
             case r of
               None \<Rightarrow> Ok (best_idx, best_level, advance_hand s)
             | Some pte \<Rightarrow>
               let e = ld64 (mem s) pte
               in if e AND PTE_V \<noteq> 0 then
                    if e AND PTE_A = 0 then
                      if best_idx = None \<or> best_level < cur_queue_lvl (procs s p)
                      then Ok (Some h, cur_queue_lvl (procs s p), advance_hand s)
                      else Ok (best_idx, best_level, advance_hand s)
                    else
                      Ok (best_idx, best_level,
                          advance_hand (s\<lparr>mem := st64 (mem s) pte (e AND NOT PTE_A)\<rparr>))
                  else Ok (best_idx, best_level, advance_hand s)))"

definition clock_scan :: "'z kmem_scheme \<Rightarrow> (nat option \<times> int \<times> 'z kmem_scheme) res" where
  "clock_scan s = loop_res (\<lambda>_. clock_step) [0..<2 * MAX_FRAMES] (None, 0, s)"

definition fallback_frame :: "'z kmem_scheme \<Rightarrow> nat option" where
  "fallback_frame s =
     search (\<lambda>i. case fproc (frametable s i) of None \<Rightarrow> False | Some p \<Rightarrow> \<not> runs_elsewhere s p)
       0 MAX_FRAMES"

definition clock_evict :: "'z kmem_scheme \<Rightarrow> (uint64 \<times> 'z kmem_scheme) res" where
  "clock_evict s =
     bindr (acquire FrameLock s) (\<lambda>s.
     bindr (clock_scan s) (\<lambda>(best_idx, best_level, s).
     let best_idx = (if best_idx = None then fallback_frame s else best_idx)
     in case best_idx of
          None \<Rightarrow> bindr (release FrameLock s) (\<lambda>s. Ok (0, s))
        | Some i \<Rightarrow>
          let s = s\<lparr>clock_hand := (i + 1) mod MAX_FRAMES\<rparr>;
              victim_p = fproc (frametable s i);
              victim_va = fva (frametable s i);
              s = upd_frame i (\<lambda>f. f\<lparr>fproc := None\<rparr>) s
          in bindr (release FrameLock s) (\<lambda>s.
             case victim_p of
               None \<Rightarrow> Panic ''kerneltrap''
             | Some v \<Rightarrow>
               bindr (swapout (pagetable (procs s v)) victim_va s) (\<lambda>(swap_ret, s).
               if swap_ret = -1 then
                 bindr (acquire FrameLock s) (\<lambda>s.
                 bindr (release FrameLock (upd_frame i (\<lambda>f. f\<lparr>fproc := Some v\<rparr>) s)) (\<lambda>s.
                 Ok (0, s)))
               else
                 bindr (acquire FrameLock s) (\<lambda>s.
                 let s = upd_proc v (\<lambda>q. q\<lparr>pages_evicted := pages_evicted q + 1,
                           pages_swapped_out := pages_swapped_out q + 1,
                           resident_pages := resident_pages q - 1\<rparr>) s;
                     s = upd_frame i (\<lambda>f. f\<lparr>used := False\<rparr>) s;
                     s = s\<lparr>active_frames := active_frames s - 1\<rparr>
                 in bindr (release FrameLock s) (\<lambda>s.
                    Ok (fpa (frametable s i), s)))))))"

definition kalloc :: "'z kmem_scheme \<Rightarrow> (uint64 \<times> 'z kmem_scheme) res" where
  "kalloc s =
     bindr (acquire KmemLock s) (\<lambda>s.
     let r = freelist s;
         s = (if r \<noteq> 0 then s\<lparr>freelist := ld64 (mem s) r\<rparr> else s)
     in bindr (release KmemLock s) (\<lambda>s.
        if r = 0 then clock_evict s
        else Ok (r, memset_page r 5 s)))"

subsection \<open>The frame table\<close>

lemma clock_evict_framelock: "FrameLock \<in> held s \<Longrightarrow> clock_evict s = Panic ''acquire''"
  by (simp add: clock_evict_def acquire_held)

text \<open>\<open>frametable_alloc\<close> calls itself after an eviction that it starts with \<open>framelock\<close> still held. That
  eviction panics, so the recursion is never entered.\<close>

function frametable_alloc ::
    "uint64 \<Rightarrow> nat option \<Rightarrow> uint64 \<Rightarrow> 'z kmem_scheme \<Rightarrow> 'z kmem_scheme res" where
  "frametable_alloc pa p va s =
     bindr (acquire FrameLock s) (\<lambda>s.
     if pa = 0 then release FrameLock s
     else
       case search (\<lambda>i. \<not> used (frametable s i)) 0 MAX_FRAMES of
         Some i \<Rightarrow>
           let s = upd_frame i (\<lambda>f. f\<lparr>used := True, fproc := p, fva := va, fpa := pa\<rparr>) s;
               s = s\<lparr>active_frames := active_frames s + 1\<rparr>;
               s = (case p of
                      None \<Rightarrow> s
                    | Some q \<Rightarrow> upd_proc q (\<lambda>r. r\<lparr>resident_pages := resident_pages r + 1\<rparr>) s)
           in release FrameLock s
       | None \<Rightarrow>
           bindr (clock_evict s) (\<lambda>(victim_pa, s).
           if victim_pa = 0 then Panic ''frametable_alloc: complete gridlock''
           else bindr (kfree victim_pa s) (\<lambda>s. frametable_alloc pa p va s)))"
  by auto

termination frametable_alloc
proof (relation "{}")
  fix pa va :: uint64 and p :: "nat option" and s s1 s2 s3 :: "'z kmem_scheme" and r victim_pa
  assume "acquire FrameLock s = Ok s1" "clock_evict s1 = Ok r"
  then have False using clock_evict_framelock [of s1] by (auto simp: acquire_def split: if_splits)
  then show "((pa, p, va, s3), (pa, p, va, s)) \<in> {}" by simp
qed simp

declare frametable_alloc.simps [simp del]

section \<open>The free list\<close>

fun fl_chain :: "bytemem \<Rightarrow> uint64 \<Rightarrow> uint64 list \<Rightarrow> bool" where
  "fl_chain m a [] \<longleftrightarrow> a = 0"
| "fl_chain m a (x # xs) \<longleftrightarrow> a = x \<and> x \<noteq> 0 \<and> fl_chain m (ld64 m x) xs"

definition alloc_page :: "'z kmem_scheme \<Rightarrow> uint64 \<Rightarrow> bool" where
  "alloc_page s pa \<longleftrightarrow> page_aligned pa \<and> kend s \<le> pa \<and> pa < PHYSTOP"

definition free_list :: "'z kmem_scheme \<Rightarrow> uint64 list \<Rightarrow> bool" where
  "free_list s xs \<longleftrightarrow> 0 < kend s \<and> fl_chain (mem s) (freelist s) xs \<and> distinct xs \<and> (\<forall>x\<in>set xs. alloc_page s x)"

definition locks_free :: "'z kmem_scheme \<Rightarrow> bool" where
  "locks_free s \<longleftrightarrow> held s \<inter> {KmemLock, FrameLock, SwapLock, DiskqLock} = {}"

lemma page_mod: "pa mod PGSIZE = 0 \<longleftrightarrow> page_aligned pa"
  by (simp add: page_aligned_def word_unat_eq_iff unat_mod)

lemma ld64_page: "page_aligned p \<Longrightarrow> page_eq p m m' \<Longrightarrow> ld64 m p = ld64 m' p"
  using ld64_page_cong [of p 0 m m'] by simp

lemma fl_chain_cong:
  assumes "\<And>x. x \<in> set xs \<Longrightarrow> page_aligned x \<and> page_eq x m m'"
  shows "fl_chain m a xs \<longleftrightarrow> fl_chain m' a xs"
  using assms by (induction xs arbitrary: a) (auto simp: ld64_page [of _ m m'])

lemma fl_chain_unique: "fl_chain m a xs \<Longrightarrow> fl_chain m a ys \<Longrightarrow> xs = ys"
  by (induction xs arbitrary: a ys; case_tac ys) auto

text \<open>The effect of \<open>frametablefree\<close>, with the locking left out.\<close>

definition ft_free :: "uint64 \<Rightarrow> 'z kmem_scheme \<Rightarrow> 'z kmem_scheme" where
  "ft_free pa s =
     (case search (\<lambda>i. fpa (frametable s i) = pa \<and> used (frametable s i)) 0 MAX_FRAMES of
        None \<Rightarrow> s
      | Some i \<Rightarrow>
        (case fproc (frametable s i) of
           None \<Rightarrow> id
         | Some q \<Rightarrow> upd_proc q (\<lambda>r. r\<lparr>resident_pages := resident_pages r - 1\<rparr>))
        ((upd_frame i (\<lambda>f. f\<lparr>used := False, fproc := None, fva := 0, fpa := 0\<rparr>) s)
          \<lparr>active_frames := active_frames s - 1\<rparr>))"

lemma frametablefree_ok: "FrameLock \<notin> held s \<Longrightarrow> frametablefree pa s = Ok (ft_free pa s)"
  by (simp add: frametablefree_def ft_free_def upd_frame_def upd_proc_def Let_def split: option.split)

lemma ft_free_sel [simp]:
  "mem (ft_free pa s) = mem s" "freelist (ft_free pa s) = freelist s" "kend (ft_free pa s) = kend s"
  "held (ft_free pa s) = held s" "cpu_proc (ft_free pa s) = cpu_proc s" "swaptable (ft_free pa s) = swaptable s"
  by (auto simp: ft_free_def upd_frame_def upd_proc_def split: option.splits)

definition kfree_st :: "uint64 \<Rightarrow> 'z kmem_scheme \<Rightarrow> 'z kmem_scheme" where
  "kfree_st pa s =
     (ft_free pa s)\<lparr>mem := st64 (st_bytes (mem s) pa (replicate 4096 1)) pa (freelist s), freelist := pa\<rparr>"

lemma kfree_ok:
  assumes "alloc_page s pa" "locks_free s"
  shows "kfree pa s = Ok (kfree_st pa s)"
  using assms
  by (simp add: kfree_def alloc_page_def page_mod locks_free_def frametablefree_ok memset_page_def kfree_st_def
      Let_def not_less not_le)

lemma kfree_st_sel [simp]:
  "freelist (kfree_st pa s) = pa" "kend (kfree_st pa s) = kend s" "held (kfree_st pa s) = held s"
  "cpu_proc (kfree_st pa s) = cpu_proc s" "swaptable (kfree_st pa s) = swaptable s"
  "frametable (kfree_st pa s) = frametable (ft_free pa s)"
  by (simp_all add: kfree_st_def)

lemma kfree_page_eq: "page_aligned pa \<Longrightarrow> q \<noteq> pa \<Longrightarrow> page_eq q (mem (kfree_st pa s)) (mem s)"
  using st64_page_eq [of pa 0 q] st_page_eq [of pa "replicate 4096 1" q]
  by (fastforce simp: kfree_st_def intro: page_eq_trans)

lemma kfree_push:
  assumes "free_list s xs" "alloc_page s pa" "pa \<notin> set xs"
  shows "free_list (kfree_st pa s) (pa # xs)"
proof -
  have al: "page_aligned x" "x \<noteq> pa" if "x \<in> set xs" for x
    using assms that by (auto simp: free_list_def alloc_page_def)
  have "page_aligned pa" "pa \<noteq> 0" using assms(1,2) by (auto simp: alloc_page_def free_list_def)
  then have "fl_chain (mem (kfree_st pa s)) a xs \<longleftrightarrow> fl_chain (mem s) a xs" for a
    using al kfree_page_eq [of pa] by (intro fl_chain_cong) auto
  then have "fl_chain (mem (kfree_st pa s)) (freelist s) xs" using assms(1) by (simp add: free_list_def)
  moreover have "ld64 (mem (kfree_st pa s)) pa = freelist s" by (simp add: kfree_st_def)
  ultimately show ?thesis
    using assms \<open>pa \<noteq> 0\<close> by (auto simp: free_list_def alloc_page_def)
qed

definition kalloc_st :: "'z kmem_scheme \<Rightarrow> 'z kmem_scheme" where
  "kalloc_st s = s\<lparr>freelist := ld64 (mem s) (freelist s),
                  mem := st_bytes (mem s) (freelist s) (replicate 4096 5)\<rparr>"

lemma kalloc_ok:
  assumes "freelist s \<noteq> 0" "locks_free s"
  shows "kalloc s = Ok (freelist s, kalloc_st s)"
  using assms by (simp add: kalloc_def locks_free_def Let_def memset_page_def kalloc_st_def)

lemma kalloc_empty: "freelist s = 0 \<Longrightarrow> locks_free s \<Longrightarrow> kalloc s = clock_evict s"
  by (simp add: kalloc_def locks_free_def Let_def)

lemma kalloc_st_sel [simp]:
  "kend (kalloc_st s) = kend s" "held (kalloc_st s) = held s" "cpu_proc (kalloc_st s) = cpu_proc s"
  "frametable (kalloc_st s) = frametable s" "swaptable (kalloc_st s) = swaptable s" "procs (kalloc_st s) = procs s"
  "active_frames (kalloc_st s) = active_frames s"
  by (simp_all add: kalloc_st_def)

lemma kalloc_page_eq: "page_aligned (freelist s) \<Longrightarrow> q \<noteq> freelist s \<Longrightarrow> page_eq q (mem (kalloc_st s)) (mem s)"
  using st_page_eq by (simp add: kalloc_st_def)

lemma kalloc_pop:
  assumes "free_list s (x # xs)"
  shows "freelist s = x" "x \<noteq> 0" "free_list (kalloc_st s) xs" "alloc_page s x"
    "ld_bytes (mem (kalloc_st s)) x 4096 = junk_page"
proof -
  have x: "freelist s = x" "x \<noteq> 0" "alloc_page s x" using assms by (simp_all add: free_list_def)
  then show "freelist s = x" "x \<noteq> 0" "alloc_page s x" by simp_all
  have "y \<noteq> x" "page_aligned y" if "y \<in> set xs" for y
    using assms that by (auto simp: free_list_def alloc_page_def)
  then have "fl_chain (mem (kalloc_st s)) a xs \<longleftrightarrow> fl_chain (mem s) a xs" for a
    using x kalloc_page_eq [of s] by (intro fl_chain_cong) (auto simp: alloc_page_def)
  then show "free_list (kalloc_st s) xs"
    using assms by (auto simp: free_list_def alloc_page_def kalloc_st_def)
  show "ld_bytes (mem (kalloc_st s)) x 4096 = junk_page"
    using x by (simp add: kalloc_st_def ld_st_page junk_page_def)
qed

subsection \<open>Initialisation\<close>

definition page_run :: "uint64 \<Rightarrow> nat \<Rightarrow> uint64 list" where
  "page_run p n = map (\<lambda>i. p + 4096 * of_nat i) [0..<n]"

lemma page_run_Suc: "page_run p (Suc n) = p # page_run (p + 4096) n"
proof -
  have "map (\<lambda>i. p + 4096 * of_nat i) [0..<Suc n] = p # map (\<lambda>i. p + 4096 * of_nat (Suc i)) [0..<n]"
    by (subst upt_conv_Cons) (simp_all add: map_Suc_upt [symmetric] del: map_Suc_upt upt_Suc)
  then show ?thesis by (simp add: page_run_def algebra_simps)
qed

lemma freerange_loop_ok:
  assumes "free_list s xs" "locks_free s" "page_aligned p" "kend s \<le> p" "unat p + 4096 * n = unat PHYSTOP"
    "\<forall>x\<in>set xs. x < p"
  shows "\<exists>s'. freerange_loop p PHYSTOP s = Ok s' \<and> free_list s' (rev (page_run p n) @ xs) \<and>
     locks_free s' \<and> kend s' = kend s"
  using assms
proof (induction n arbitrary: p s xs)
  case 0
  then have "p = PHYSTOP" by (simp add: word_unat_eq_iff)
  then show ?case using 0 by (subst freerange_loop.simps) (simp add: page_run_def)
next
  case (Suc n)
  have up: "unat (p + 4096) = unat p + 4096"
    using Suc.prems(5) by (subst unat_add_lem [THEN iffD1]) simp_all
  have lt: "p < PHYSTOP" "p + 4096 \<le> PHYSTOP" "p < p + 4096"
    using Suc.prems(5) by (simp_all add: word_less_nat_alt word_le_nat_alt up)
  have al: "alloc_page s p" using Suc.prems lt by (simp add: alloc_page_def)
  have "free_list (kfree_st p s) (p # xs)" using Suc.prems al by (intro kfree_push) auto
  moreover have "page_aligned (p + 4096)" using Suc.prems(3) by (simp add: page_aligned_def up)
  moreover have "\<forall>x\<in>set (p # xs). x < p + 4096" using Suc.prems(6) lt(3) by (auto intro: less_trans)
  moreover have "kend (kfree_st p s) \<le> p + 4096" using Suc.prems(4) lt(3) by simp
  moreover have "locks_free (kfree_st p s)" using Suc.prems(2) by (simp add: locks_free_def)
  moreover have "unat (p + 4096) + 4096 * n = unat PHYSTOP" using Suc.prems(5) by (simp add: up)
  ultimately obtain s' where "freerange_loop (p + 4096) PHYSTOP (kfree_st p s) = Ok s'"
    "free_list s' (rev (page_run (p + 4096) n) @ p # xs)" "locks_free s'" "kend s' = kend s"
    using Suc.IH [of "kfree_st p s" "p # xs" "p + 4096"] by auto
  then show ?case
    using kfree_ok [OF al Suc.prems(2)] lt(2)
    by (subst freerange_loop.simps) (simp add: page_run_Suc)
qed

section \<open>The allocator as a pool of pages\<close>

text \<open>Who owns which page: \<open>own\<close> is the set of pages handed out and not given back. The relation is
  over any allocator; \<open>avail\<close> is the set of pages it can still hand out.\<close>

inductive owner_step ::
    "('s \<Rightarrow> uint64 set) \<Rightarrow> ('s \<Rightarrow> (uint64 \<times> 's) res) \<Rightarrow> (uint64 \<Rightarrow> 's \<Rightarrow> 's res) \<Rightarrow>
     's \<times> uint64 set \<Rightarrow> 's \<times> uint64 set \<Rightarrow> bool"
  for avail alloc free where
  take: "avail s \<noteq> {} \<Longrightarrow> alloc s = Ok (pa, s') \<Longrightarrow>
     owner_step avail alloc free (s, own) (s', insert pa own)"
| give: "pa \<in> own \<Longrightarrow> free pa s = Ok s' \<Longrightarrow>
     owner_step avail alloc free (s, own) (s', own - {pa})"

inductive_cases owner_stepE: "owner_step avail alloc free (s, own) t"

locale page_pool =
  fixes invar :: "'s \<Rightarrow> bool"
    and avail :: "'s \<Rightarrow> uint64 set"
    and pool :: "'s \<Rightarrow> uint64 set"
    and alloc :: "'s \<Rightarrow> (uint64 \<times> 's) res"
    and free :: "uint64 \<Rightarrow> 's \<Rightarrow> 's res"
  assumes alloc_ok: "invar s \<Longrightarrow> avail s \<noteq> {} \<Longrightarrow>
      \<exists>pa s'. alloc s = Ok (pa, s') \<and> invar s' \<and> pa \<in> avail s \<and> avail s' = avail s - {pa} \<and> pool s' = pool s"
    and free_ok: "invar s \<Longrightarrow> pa \<in> pool s \<Longrightarrow> pa \<notin> avail s \<Longrightarrow>
      \<exists>s'. free pa s = Ok s' \<and> invar s' \<and> avail s' = insert pa (avail s) \<and> pool s' = pool s"
    and avail_pool: "invar s \<Longrightarrow> avail s \<subseteq> pool s"
begin

definition split_ok :: "uint64 set \<Rightarrow> 's \<times> uint64 set \<Rightarrow> bool" where
  "split_ok A st \<longleftrightarrow> invar (fst st) \<and> snd st \<inter> avail (fst st) = {} \<and> snd st \<union> avail (fst st) = A \<and>
     A \<subseteq> pool (fst st)"

lemma split_ok_step: "owner_step avail alloc free st st' \<Longrightarrow> split_ok A st \<Longrightarrow> split_ok A st'"
proof (induction rule: owner_step.induct)
  case (take s pa s' own)
  then show ?case using alloc_ok [of s] by (auto simp: split_ok_def)
next
  case (give pa own s s')
  then have "pa \<in> pool s" "pa \<notin> avail s" "invar s" by (auto simp: split_ok_def)
  then show ?case using free_ok [of s pa] give by (auto simp: split_ok_def)
qed

lemma split_ok_steps:
  "(owner_step avail alloc free)\<^sup>*\<^sup>* st st' \<Longrightarrow> split_ok A st \<Longrightarrow> split_ok A st'"
  by (induction rule: rtranclp_induct) (auto intro: split_ok_step)

lemma fresh_page:
  assumes "(owner_step avail alloc free)\<^sup>*\<^sup>* (s0, {}) (s, own)" "invar s0"
    "avail s \<noteq> {}"
  shows "\<exists>pa s'. alloc s = Ok (pa, s') \<and> pa \<notin> own \<and> pa \<in> avail s0"
proof -
  have "split_ok (avail s0) (s0, {})" using assms(2) avail_pool by (simp add: split_ok_def)
  then have "split_ok (avail s0) (s, own)" using split_ok_steps assms(1) by blast
  then show ?thesis using alloc_ok [of s] assms(3) by (auto simp: split_ok_def)
qed

lemma pages_conserved:
  assumes "(owner_step avail alloc free)\<^sup>*\<^sup>* (s0, {}) (s, own)" "invar s0"
  shows "own \<inter> avail s = {} \<and> own \<union> avail s = avail s0"
proof -
  have "split_ok (avail s0) (s0, {})" using assms(2) avail_pool by (simp add: split_ok_def)
  then show ?thesis using split_ok_steps [OF assms(1)] by (simp add: split_ok_def)
qed

end

definition free_pages :: "'z kmem_scheme \<Rightarrow> uint64 set" where
  "free_pages s = {x. \<exists>xs. free_list s xs \<and> x \<in> set xs}"

definition pool_inv :: "'z kmem_scheme \<Rightarrow> bool" where
  "pool_inv s \<longleftrightarrow> locks_free s \<and> (\<exists>xs. free_list s xs)"

lemma free_pages_eq: "free_list s xs \<Longrightarrow> free_pages s = set xs"
  unfolding free_pages_def free_list_def using fl_chain_unique by blast

lemma locks_free_st [simp]: "locks_free (kalloc_st s) = locks_free s" "locks_free (kfree_st pa s) = locks_free s"
  by (simp_all add: locks_free_def)

lemma alloc_page_st [simp]: "alloc_page (kalloc_st s) = alloc_page s" "alloc_page (kfree_st pa s) = alloc_page s"
  by (simp_all add: alloc_page_def fun_eq_iff)

lemma kalloc_pool:
  assumes "pool_inv s" "free_pages s \<noteq> {}"
  shows "\<exists>pa s'. kalloc s = Ok (pa, s') \<and> pool_inv s' \<and> pa \<in> free_pages s \<and>
      free_pages s' = free_pages s - {pa} \<and> {pa. alloc_page s' pa} = {pa. alloc_page s pa}"
proof -
  obtain x xs where xs: "free_list s (x # xs)" "locks_free s"
    using assms free_pages_eq unfolding pool_inv_def by (metis list.exhaust list.set(1))
  note pop = kalloc_pop [OF xs(1)]
  have "kalloc s = Ok (x, kalloc_st s)" using kalloc_ok [of s] pop(1,2) xs(2) by simp
  moreover have "pool_inv (kalloc_st s)" using pop(3) xs(2) by (auto simp: pool_inv_def)
  moreover have "free_pages s = insert x (set xs)" "free_pages (kalloc_st s) = set xs" "x \<notin> set xs"
    using free_pages_eq [OF xs(1)] free_pages_eq [OF pop(3)] xs(1) by (simp_all add: free_list_def)
  ultimately show ?thesis by auto
qed

lemma kfree_pool:
  assumes "pool_inv s" "alloc_page s pa" "pa \<notin> free_pages s"
  shows "\<exists>s'. kfree pa s = Ok s' \<and> pool_inv s' \<and> free_pages s' = insert pa (free_pages s) \<and>
      {pa. alloc_page s' pa} = {pa. alloc_page s pa}"
proof -
  obtain xs where xs: "free_list s xs" "locks_free s" using assms(1) by (auto simp: pool_inv_def)
  have "pa \<notin> set xs" using assms(3) free_pages_eq [OF xs(1)] by simp
  note push = kfree_push [OF xs(1) assms(2) this]
  have "free_pages (kfree_st pa s) = insert pa (free_pages s)"
    using free_pages_eq [OF xs(1)] free_pages_eq [OF push] by simp
  moreover have "pool_inv (kfree_st pa s)" using push xs(2) by (auto simp: pool_inv_def)
  ultimately show ?thesis using kfree_ok [OF assms(2) xs(2)] by simp
qed

interpretation kpool: page_pool pool_inv free_pages "\<lambda>s. {pa. alloc_page s pa}" kalloc kfree
proof
  show "free_pages s \<subseteq> {pa. alloc_page s pa}" if "pool_inv s" for s :: "'z kmem_scheme"
    using that free_pages_eq by (fastforce simp: pool_inv_def free_list_def)
qed (use kalloc_pool kfree_pool in auto)

section \<open>The clock\<close>

subsection \<open>Clearing reference bits\<close>

lemma bit_PTE_A: "bit (PTE_A :: uint64) k \<longleftrightarrow> k = 6"
proof -
  have "(64 :: uint64) = 2 ^ 6" by simp
  then show ?thesis by (simp only: bit_exp_iff) auto
qed

lemma clearA_V: "(e AND NOT PTE_A) AND PTE_V = e AND PTE_V"
proof -
  have "(64 :: uint64) = push_bit 6 1" by simp
  then show ?thesis by (auto intro!: bit_eqI simp: bit_simps)
qed

lemma clearA_A: "(e AND NOT PTE_A) AND PTE_A = 0"
  by (simp add: bit.conj_disj_distrib and.assoc)

lemma clearA_PA: "PTE2PA (e AND NOT PTE_A) = PTE2PA e"
proof (rule bit_eqI)
  fix n
  assume n: "possible_bit TYPE(64 word) n"
  have "bit (e AND NOT PTE_A) (10 + (n - 12)) = bit e (10 + (n - 12))" if "bit e (10 + (n - 12))"
    using bit_imp_le_length [OF that] by (simp only: bit_and_iff bit_not_iff bit_PTE_A) simp
  then show "bit (PTE2PA (e AND NOT PTE_A)) n = bit (PTE2PA e) n"
    using n unfolding PTE2PA_def bit_push_bit_iff bit_drop_bit_eq comp_def
    by (metis bit_and_iff)
qed

text \<open>The memories a scan can produce: the same but for reference bits that have been cleared.\<close>

definition A_rel :: "bytemem \<Rightarrow> bytemem \<Rightarrow> bool" where
  "A_rel m m' \<longleftrightarrow>
     (\<forall>x. unat x mod 8 = 0 \<longrightarrow> ld64 m' x = ld64 m x \<or> ld64 m' x = ld64 m x AND NOT PTE_A)"

lemma A_rel_refl [simp]: "A_rel m m"
  by (simp add: A_rel_def)

lemma A_rel_trans:
  assumes "A_rel m1 m2" "A_rel m2 m3"
  shows "A_rel m1 m3"
proof -
  have "(e AND NOT PTE_A) AND NOT PTE_A = e AND NOT PTE_A" for e :: uint64 by (simp add: and.assoc)
  then show ?thesis using assms unfolding A_rel_def by metis
qed

lemma A_rel_store: "unat x mod 8 = 0 \<Longrightarrow> A_rel m (st64 m x (ld64 m x AND NOT PTE_A))"
  unfolding A_rel_def by (metis ld64_st64_other ld64_st64_same)

lemma next_level_A_rel: "A_rel m m' \<Longrightarrow> unat x mod 8 = 0 \<Longrightarrow> next_level m' x = next_level m x"
  unfolding A_rel_def next_level_def by (metis clearA_V clearA_PA)

lemma pte_addr_mod8: "page_aligned pt \<Longrightarrow> unat (pte_addr pt l va) mod 8 = 0"
  by (simp add: pte_addr_px slot_mod8)

lemma walk_levels_A_rel:
  "A_rel m m' \<Longrightarrow> page_aligned pt \<Longrightarrow> walk_levels m' n pt va = walk_levels m n pt va"
proof (induction n arbitrary: pt)
  case (Suc n)
  show ?case
    using Suc next_level_A_rel [OF Suc.prems(1) pte_addr_mod8 [OF Suc.prems(2)]]
    by (auto simp: next_level_def split: option.splits if_splits)
qed simp

lemma walk_levels_mod8: "walk_levels m n pt va = Some x \<Longrightarrow> page_aligned pt \<Longrightarrow> unat x mod 8 = 0"
  by (induction n arbitrary: pt) (auto simp: next_level_def pte_addr_mod8 split: option.splits if_splits)

subsection \<open>The frames that may be evicted\<close>

definition entry :: "bytemem \<Rightarrow> 'z kmem_scheme \<Rightarrow> nat \<Rightarrow> uint64" where
  "entry m s i =
     (case fproc (frametable s i) of
        None \<Rightarrow> 0
      | Some p \<Rightarrow> (case walk_levels m 2 (pagetable (procs s p)) (fva (frametable s i)) of
                    None \<Rightarrow> 0 | Some pte \<Rightarrow> ld64 m pte))"

definition elig :: "'z kmem_scheme \<Rightarrow> nat \<Rightarrow> bool" where
  "elig s i \<longleftrightarrow>
     (case fproc (frametable s i) of
        None \<Rightarrow> False
      | Some p \<Rightarrow> \<not> runs_elsewhere s p \<and> entry (mem s) s i AND PTE_V \<noteq> 0)"

definition flevel :: "'z kmem_scheme \<Rightarrow> nat \<Rightarrow> int" where
  "flevel s i = cur_queue_lvl (procs s (the (fproc (frametable s i))))"

definition scan_pre :: "'z kmem_scheme \<Rightarrow> bool" where
  "scan_pre s \<longleftrightarrow> clock_hand s < MAX_FRAMES \<and>
     (\<forall>i<MAX_FRAMES. \<forall>p. fproc (frametable s i) = Some p \<longrightarrow>
        fva (frametable s i) < MAXVA \<and> page_aligned (pagetable (procs s p)))"

text \<open>The pages that hold the entries of the frames, the only ones a scan writes to.\<close>

definition pte_pages :: "'z kmem_scheme \<Rightarrow> uint64 set" where
  "pte_pages s = {PGROUNDDOWN x | x i p. i < MAX_FRAMES \<and> fproc (frametable s i) = Some p \<and>
     walk_levels (mem s) 2 (pagetable (procs s p)) (fva (frametable s i)) = Some x}"

definition scan_st :: "'z kmem_scheme \<Rightarrow> nat \<Rightarrow> 'z kmem_scheme \<Rightarrow> bool" where
  "scan_st s0 k s \<longleftrightarrow>
     s = s0\<lparr>mem := mem s, clock_hand := (clock_hand s0 + k) mod MAX_FRAMES\<rparr> \<and> A_rel (mem s0) (mem s) \<and>
     (\<forall>q. q \<notin> pte_pages s0 \<longrightarrow> page_eq q (mem s0) (mem s))"

lemma st64_page_eq_aligned:
  assumes "unat x mod 8 = 0" "q \<noteq> PGROUNDDOWN x"
  shows "page_eq q (st64 m x v) m"
proof -
  define k where "k = unat x mod 4096 div 8"
  have "unat x mod 4096 mod 8 = 0" using assms(1) by (simp add: mod_mod_cancel)
  then have "8 * k = unat x mod 4096" unfolding k_def by (simp add: minus_mod_eq_mult_div [symmetric])
  then have "unat (x - PGROUNDDOWN x) = unat (8 * of_nat k :: uint64)"
    by (simp add: PGROUNDDOWN_offset unat_word_ariths unat_of_nat mod_simps)
  then have "x = PGROUNDDOWN x + 8 * of_nat k" by (metis add.commute diff_add_cancel word_unat_eq_iff)
  moreover have "k < 512" unfolding k_def by simp
  ultimately show ?thesis using st64_page_eq [of "PGROUNDDOWN x" k q m v] assms(2) by simp
qed

lemma entry_A_rel:
  assumes "scan_pre s" "A_rel m m'" "i < MAX_FRAMES"
  shows "entry m' s i = entry m s i \<or> entry m' s i = entry m s i AND NOT PTE_A"
proof (cases "fproc (frametable s i)")
  case (Some p)
  then have al: "page_aligned (pagetable (procs s p))" using assms by (simp add: scan_pre_def)
  show ?thesis
    using Some assms(2) walk_levels_A_rel [OF assms(2) al] walk_levels_mod8 [OF _ al]
    by (auto simp: entry_def A_rel_def split: option.splits)
qed (simp add: entry_def)

lemma entry_A_V: "scan_pre s \<Longrightarrow> A_rel m m' \<Longrightarrow> i < MAX_FRAMES \<Longrightarrow> entry m' s i AND PTE_V = entry m s i AND PTE_V"
  using entry_A_rel [of s m m' i] clearA_V by metis

lemma entry_A_mono:
  "scan_pre s \<Longrightarrow> A_rel m m' \<Longrightarrow> i < MAX_FRAMES \<Longrightarrow> entry m s i AND PTE_A = 0 \<Longrightarrow> entry m' s i AND PTE_A = 0"
  using entry_A_rel [of s m m' i] clearA_A by metis

text \<open>One turn of the scan at frame \<open>i\<close>.\<close>

lemma clock_step_spec:
  fixes s0 :: "'z kmem_scheme"
  assumes pre: "scan_pre s0" and st: "scan_st s0 k s" and i: "i = (clock_hand s0 + k) mod MAX_FRAMES"
  shows "\<exists>s'. clock_step (b, l, s) =
      Ok (if elig s0 i \<and> entry (mem s) s0 i AND PTE_A = 0 \<and> (b = None \<or> l < flevel s0 i)
          then (Some i, flevel s0 i, s') else (b, l, s')) \<and>
    scan_st s0 (Suc k) s' \<and> A_rel (mem s) (mem s') \<and> (elig s0 i \<longrightarrow> entry (mem s') s0 i AND PTE_A = 0)"
proof -
  have i64: "i < MAX_FRAMES" using i by simp
  obtain m where s: "s = s0\<lparr>mem := m, clock_hand := i\<rparr>" and m: "A_rel (mem s0) m"
    and pg: "\<And>q. q \<notin> pte_pages s0 \<Longrightarrow> page_eq q (mem s0) m"
    using st unfolding scan_st_def i by metis
  have nxt: "Suc i mod 64 = (clock_hand s0 + Suc k) mod 64" unfolding i by presburger
  have adv: "scan_st s0 (Suc k) (advance_hand (s\<lparr>mem := m'\<rparr>))"
    if "A_rel m m'" "\<And>q. q \<notin> pte_pages s0 \<Longrightarrow> page_eq q m m'" for m'
  proof -
    have "A_rel (mem s0) m'" using A_rel_trans [OF m that(1)] .
    moreover have "page_eq q (mem s0) m'" if "q \<notin> pte_pages s0" for q
      using page_eq_trans [OF pg [OF that]] \<open>\<And>q. q \<notin> pte_pages s0 \<Longrightarrow> page_eq q m m'\<close> [OF that] .
    ultimately show ?thesis using nxt by (simp add: scan_st_def advance_hand_def s)
  qed
  have "s\<lparr>mem := m\<rparr> = s" unfolding s by (cases s0) simp
  then have adv0: "scan_st s0 (Suc k) (advance_hand s)" using adv [of m] by simp
  have runs: "runs_elsewhere s = runs_elsewhere s0" by (simp add: s runs_elsewhere_def myproc_def fun_eq_iff)
  show ?thesis
  proof (cases "fproc (frametable s0 i)")
    case None
    then show ?thesis using adv0 by (auto simp: clock_step_def s elig_def advance_hand_def)
  next
    case (Some p)
    then have va: "fva (frametable s0 i) < MAXVA" and al: "page_aligned (pagetable (procs s0 p))"
      using pre i64 by (simp_all add: scan_pre_def)
    let ?w = "walk_levels m 2 (pagetable (procs s0 p)) (fva (frametable s0 i))"
    have w: "walk_lookup m (pagetable (procs s0 p)) (fva (frametable s0 i)) = Ok ?w"
      using va by (simp add: walk_lookup_def)
    have el: "elig s0 i \<longleftrightarrow> \<not> runs_elsewhere s0 p \<and> entry m s0 i AND PTE_V \<noteq> 0"
      using Some entry_A_V [OF pre m i64] by (simp add: elig_def)
    have fl: "flevel s0 i = cur_queue_lvl (procs s0 p)" by (simp add: flevel_def Some)
    show ?thesis
    proof (cases "runs_elsewhere s0 p")
      case True
      then show ?thesis using Some adv0 el runs by (auto simp: clock_step_def s advance_hand_def)
    next
      case nr: False
      show ?thesis
      proof (cases ?w)
        case None
        then show ?thesis
          using Some nr adv0 el runs w by (auto simp: clock_step_def s advance_hand_def entry_def)
      next
        case (Some pte)
        then have e: "entry m s0 i = ld64 m pte" using \<open>fproc (frametable s0 i) = Some p\<close> by (simp add: entry_def)
        have x8: "unat pte mod 8 = 0" using walk_levels_mod8 [OF Some al] .
        let ?m = "st64 m pte (ld64 m pte AND NOT PTE_A)"
        have st: "A_rel m ?m" using A_rel_store [OF x8] .
        then have "entry ?m s0 i = ld64 m pte AND NOT PTE_A"
          using \<open>fproc (frametable s0 i) = Some p\<close> walk_levels_A_rel [OF st al] Some by (simp add: entry_def)
        then have clr: "entry ?m s0 i AND PTE_A = 0" using clearA_A by simp
        have "PGROUNDDOWN pte \<in> pte_pages s0"
          using i64 \<open>fproc (frametable s0 i) = Some p\<close> Some walk_levels_A_rel [OF m al]
          unfolding pte_pages_def by auto
        then have pgs: "page_eq q m ?m" if "q \<notin> pte_pages s0" for q
          using st64_page_eq_aligned [OF x8] that by (metis page_eq_sym)
        show ?thesis
          using \<open>fproc (frametable s0 i) = Some p\<close> nr runs w Some el e fl adv0 adv [OF st pgs] st clr
          by (auto simp: clock_step_def s advance_hand_def Let_def)
      qed
    qed
  qed
qed

subsection \<open>The whole scan\<close>

definition scan_inv :: "'z kmem_scheme \<Rightarrow> nat \<Rightarrow> nat option \<times> int \<times> 'z kmem_scheme \<Rightarrow> bool" where
  "scan_inv s0 k acc \<longleftrightarrow>
     (case acc of (b, l, s) \<Rightarrow>
        scan_st s0 k s \<and>
        (\<forall>j<k. elig s0 ((clock_hand s0 + j) mod MAX_FRAMES) \<longrightarrow>
           entry (mem s) s0 ((clock_hand s0 + j) mod MAX_FRAMES) AND PTE_A = 0) \<and>
        (\<forall>i. b = Some i \<longrightarrow> i < MAX_FRAMES \<and> elig s0 i \<and> l = flevel s0 i) \<and>
        (\<forall>j. MAX_FRAMES \<le> j \<longrightarrow> j < k \<longrightarrow> elig s0 ((clock_hand s0 + j) mod MAX_FRAMES) \<longrightarrow>
           b \<noteq> None \<and> flevel s0 ((clock_hand s0 + j) mod MAX_FRAMES) \<le> l))"

lemma scan_inv_step:
  assumes pre: "scan_pre s0" and inv: "scan_inv s0 k acc"
  shows "\<exists>acc'. clock_step acc = Ok acc' \<and> scan_inv s0 (Suc k) acc'"
proof -
  obtain b l s where acc: "acc = (b, l, s)" by (cases acc)
  define i where "i = (clock_hand s0 + k) mod MAX_FRAMES"
  have st: "scan_st s0 k s" using inv by (simp add: scan_inv_def acc)
  obtain s' where step: "clock_step (b, l, s) =
      Ok (if elig s0 i \<and> entry (mem s) s0 i AND PTE_A = 0 \<and> (b = None \<or> l < flevel s0 i)
          then (Some i, flevel s0 i, s') else (b, l, s'))"
    and s': "scan_st s0 (Suc k) s'" "A_rel (mem s) (mem s')" "elig s0 i \<longrightarrow> entry (mem s') s0 i AND PTE_A = 0"
    using clock_step_spec [OF pre st i_def] by blast
  have seen: "entry (mem s') s0 ((clock_hand s0 + j) mod MAX_FRAMES) AND PTE_A = 0"
    if "j < Suc k" "elig s0 ((clock_hand s0 + j) mod MAX_FRAMES)" for j
  proof (cases "j = k")
    case True
    then show ?thesis using that s'(3) by (simp add: i_def)
  next
    case False
    then have "entry (mem s) s0 ((clock_hand s0 + j) mod MAX_FRAMES) AND PTE_A = 0"
      using that inv by (simp add: scan_inv_def acc)
    then show ?thesis by (intro entry_A_mono [OF pre s'(2)]) simp_all
  qed
  have second: "entry (mem s) s0 i AND PTE_A = 0" if "MAX_FRAMES \<le> k" "elig s0 i"
  proof -
    define d where "d = k - 64"
    then have d: "k = d + 64" using that(1) by simp
    have "(clock_hand s0 + d) mod 64 = i" by (simp add: i_def d add.assoc [symmetric])
    moreover have "d < k" using d by simp
    moreover have "\<forall>j<k. elig s0 ((clock_hand s0 + j) mod MAX_FRAMES) \<longrightarrow>
        entry (mem s) s0 ((clock_hand s0 + j) mod MAX_FRAMES) AND PTE_A = 0"
      using inv by (simp add: scan_inv_def acc)
    ultimately show ?thesis using that(2) by blast
  qed
  have i64: "i < MAX_FRAMES" by (simp add: i_def)
  have old: "b \<noteq> None \<and> flevel s0 ((clock_hand s0 + j) mod MAX_FRAMES) \<le> l"
    if "MAX_FRAMES \<le> j" "j < k" "elig s0 ((clock_hand s0 + j) mod MAX_FRAMES)" for j
    using inv that by (simp add: scan_inv_def acc)
  have best: "i < MAX_FRAMES \<and> elig s0 i \<and> l = flevel s0 i" if "b = Some i" for i
    using inv that by (simp add: scan_inv_def acc)
  show ?thesis
  proof (cases "elig s0 i \<and> entry (mem s) s0 i AND PTE_A = 0 \<and> (b = None \<or> l < flevel s0 i)")
    case True
    have "Some i \<noteq> None \<and> flevel s0 ((clock_hand s0 + j) mod MAX_FRAMES) \<le> flevel s0 i"
      if "MAX_FRAMES \<le> j" "j < Suc k" "elig s0 ((clock_hand s0 + j) mod MAX_FRAMES)" for j
      using old [of j] that True by (cases "j = k") (auto simp: i_def)
    then have "scan_inv s0 (Suc k) (Some i, flevel s0 i, s')"
      unfolding scan_inv_def prod.case using s'(1) seen True i64 by blast
    then show ?thesis using step True by (simp add: acc)
  next
    case False
    have "b \<noteq> None \<and> flevel s0 ((clock_hand s0 + j) mod MAX_FRAMES) \<le> l"
      if "MAX_FRAMES \<le> j" "j < Suc k" "elig s0 ((clock_hand s0 + j) mod MAX_FRAMES)" for j
    proof (cases "j = k")
      case True
      then show ?thesis using that second False by (simp add: i_def [symmetric])
    next
      case False
      then show ?thesis using old [of j] that by simp
    qed
    then have "scan_inv s0 (Suc k) (b, l, s')"
      unfolding scan_inv_def prod.case using s'(1) seen best by blast
    then show ?thesis using step False by (simp add: acc)
  qed
qed

lemma clock_scan_spec:
  assumes "scan_pre s"
  shows "\<exists>b l s'. clock_scan s = Ok (b, l, s') \<and> s' = s\<lparr>mem := mem s'\<rparr> \<and> A_rel (mem s) (mem s') \<and>
    (\<forall>q. q \<notin> pte_pages s \<longrightarrow> page_eq q (mem s) (mem s')) \<and>
    (b = None \<longrightarrow> (\<forall>i<MAX_FRAMES. \<not> elig s i)) \<and>
    (\<forall>i. b = Some i \<longrightarrow> i < MAX_FRAMES \<and> elig s i \<and> (\<forall>j<MAX_FRAMES. elig s j \<longrightarrow> flevel s j \<le> flevel s i)) \<and>
    (\<forall>i<MAX_FRAMES. elig s i \<longrightarrow> entry (mem s') s i AND PTE_A = 0)"
proof -
  have hand: "clock_hand s < 64" using assms by (simp add: scan_pre_def)
  then have "scan_st s 0 s" by (simp add: scan_st_def)
  then have "scan_inv s 0 (None, 0, s)" by (simp add: scan_inv_def)
  then obtain acc where "clock_scan s = Ok acc" "scan_inv s (2 * MAX_FRAMES) acc"
    unfolding clock_scan_def
    using loop_res_upt_induct [of "scan_inv s" "(None, 0, s)" "2 * MAX_FRAMES" "\<lambda>_. clock_step"]
      scan_inv_step [OF assms] by blast
  then obtain b l s' where r: "clock_scan s = Ok (b, l, s')" "scan_inv s 128 (b, l, s')" by (cases acc) auto
  have pos: "\<exists>j. 64 \<le> j \<and> j < 128 \<and> (clock_hand s + j) mod 64 = i" if "i < 64" for i
  proof (cases "clock_hand s \<le> i")
    case True
    then show ?thesis using that by (intro exI [of _ "64 + (i - clock_hand s)"]) auto
  next
    case False
    moreover have "(128 + i) mod 64 = i" using that mod_mult_self2 [of i 64 2] by (simp add: add.commute)
    ultimately show ?thesis using hand by (intro exI [of _ "128 + i - clock_hand s"]) auto
  qed
  have "s' = s\<lparr>mem := mem s'\<rparr>" "A_rel (mem s) (mem s')"
  proof -
    have "s' = s\<lparr>mem := mem s', clock_hand := (clock_hand s + 128) mod 64\<rparr>" "A_rel (mem s) (mem s')"
      using r(2) by (simp_all add: scan_inv_def scan_st_def)
    moreover have "(clock_hand s + 128) mod 64 = clock_hand s" using hand mod_mult_self2 [of "clock_hand s" 64 2] by simp
    moreover have "s\<lparr>mem := m, clock_hand := clock_hand s\<rparr> = s\<lparr>mem := m\<rparr>" for m by (cases s) simp
    ultimately show "s' = s\<lparr>mem := mem s'\<rparr>" "A_rel (mem s) (mem s')" by simp_all
  qed
  moreover have "\<forall>q. q \<notin> pte_pages s \<longrightarrow> page_eq q (mem s) (mem s')"
    using r(2) by (simp add: scan_inv_def scan_st_def)
  moreover have best: "b \<noteq> None \<and> flevel s i \<le> l" if "i < 64" "elig s i" for i
    using pos [OF that(1)] that(2) r(2) by (auto simp: scan_inv_def)
  moreover have "entry (mem s') s i AND PTE_A = 0" if "i < 64" "elig s i" for i
    using pos [OF that(1)] that(2) r(2) by (auto simp: scan_inv_def)
  moreover have "i < 64 \<and> elig s i \<and> l = flevel s i" if "b = Some i" for i
    using r(2) that by (simp add: scan_inv_def)
  ultimately show ?thesis using r(1) by (intro exI [of _ b] exI [of _ l] exI [of _ s']) auto
qed

section \<open>Swapping\<close>

definition swap_pte :: "nat \<Rightarrow> uint64 \<Rightarrow> uint64" where
  "swap_pte i e = push_bit 10 (of_nat i) OR PTE_S OR (PTE_FLAGS e AND NOT PTE_V)"

text \<open>The parts of the state that neither the disk layer nor \<open>swapout\<close> touches.\<close>

definition swap_frame :: "'z kmem_scheme \<Rightarrow> 'z kmem_scheme \<Rightarrow> bool" where
  "swap_frame s t \<longleftrightarrow>
     frametable t = frametable s \<and> freelist t = freelist s \<and> clock_hand t = clock_hand s \<and>
     active_frames t = active_frames s \<and> kend t = kend s \<and> cpu_proc t = cpu_proc s \<and>
     held t = held s \<and> raid_mode t = raid_mode s \<and>
     (\<forall>p. same_but_disk_stats (procs t p) (procs s p))"

lemma disk_frame_kmem:
  assumes "disk_frame s t"
  shows "swap_frame s t" "mem t = mem s" "swaptable t = swaptable s"
  using assms by (auto elim!: disk_frameE simp: swap_frame_def)

lemma swap_frame_refl [simp]: "swap_frame s s"
  by (simp add: swap_frame_def)

lemma swap_frame_trans: "swap_frame s t \<Longrightarrow> swap_frame t u \<Longrightarrow> swap_frame s u"
  unfolding swap_frame_def by (auto intro: same_but_disk_stats_trans)

lemma same_but_disk_stats_upd [simp]:
  "same_but_disk_stats (p\<lparr>disk_writes := a, avg_disk_latency := b\<rparr>) q \<longleftrightarrow> same_but_disk_stats p q"
  "same_but_disk_stats (p\<lparr>disk_reads := a, avg_disk_latency := b\<rparr>) q \<longleftrightarrow> same_but_disk_stats p q"
  by (cases p; cases q; auto simp: same_but_disk_stats_def)+

lemma store_stats [simp]:
  "store_inv mode (upd_proc p f s) = store_inv mode s"
  "store_lookup mode (upd_proc p f s) = store_lookup mode s"
  "store_inv mode (s'\<lparr>mem := m\<rparr>) = store_inv mode s'"
  "store_lookup mode (s'\<lparr>mem := m\<rparr>) = store_lookup mode s'"
  "store_inv mode (s'\<lparr>swaptable := w\<rparr>) = store_inv mode s'"
  "store_lookup mode (s'\<lparr>swaptable := w\<rparr>) = store_lookup mode s'"
  for s :: "'a swapdisk_scheme" and s' :: "'b kmem_scheme"
  by (auto simp: store_inv_def store_lookup_def dq_ready_def disks_wf_def page_on_def blk_def upd_proc_def
      myproc_def fun_eq_iff)

lemma store_procs [simp]:
  "store_inv mode (s\<lparr>procs := P\<rparr>) = store_inv mode s" "store_lookup mode (s\<lparr>procs := P\<rparr>) = store_lookup mode s"
  by (auto simp: store_inv_def store_lookup_def dq_ready_def disks_wf_def page_on_def blk_def myproc_def fun_eq_iff)

lemma store_held:
  "DiskqLock \<notin> H \<Longrightarrow> store_inv mode s \<Longrightarrow> store_inv mode (s\<lparr>held := H\<rparr>)"
  "store_lookup mode (s\<lparr>held := H\<rparr>) = store_lookup mode s"
  by (auto simp: store_inv_def store_lookup_def dq_ready_def disks_wf_def page_on_def blk_def myproc_def fun_eq_iff)

lemma swapout_unmapped:
  assumes "va < MAXVA" "walk_levels (mem s) 2 pt va = None \<or>
    (\<exists>x. walk_levels (mem s) 2 pt va = Some x \<and> ld64 (mem s) x AND PTE_V = 0)"
  shows "swapout pt va s = Ok (-1, s)"
  using assms by (auto simp: swapout_def walk_lookup_def)

lemma swapout_full:
  assumes "va < MAXVA" "walk_levels (mem s) 2 pt va = Some x" "SwapLock \<notin> held s"
    "search (\<lambda>i. \<not> sused (swaptable s i)) 0 MAX_SWAP = None"
  shows "swapout pt va s = Ok (-1, s)"
  using assms by (simp add: swapout_def walk_lookup_def Let_def)

lemma swapout_ok:
  assumes walk: "va < MAXVA" "walk_levels (mem s) 2 pt va = Some x" "ld64 (mem s) x AND PTE_V \<noteq> 0"
    and lk: "SwapLock \<notin> held s"
    and slot: "search (\<lambda>i. \<not> sused (swaptable s i)) 0 MAX_SWAP = Some i"
    and store: "store_inv (raid_mode s) s" "raid_known (raid_mode s)" "slot_ok (raid_mode s) (int i)"
  shows "\<exists>t. swapout pt va s = Ok (int i, t) \<and> swap_frame s t \<and>
     mem t = st64 (mem s) x (swap_pte i (ld64 (mem s) x)) \<and>
     swaptable t = (swaptable s)(i := \<lparr>sused = True, spage_table = pt, sva = va, sraid_mode = raid_mode s\<rparr>) \<and>
     store_inv (raid_mode s) t \<and>
     store_lookup (raid_mode s) t (int i) = Some (ld_bytes (mem s) (PTE2PA (ld64 (mem s) x)) 4096) \<and>
     (\<forall>j. slot_ok (raid_mode s) j \<longrightarrow> j \<noteq> int i \<longrightarrow> store_lookup (raid_mode s) t j = store_lookup (raid_mode s) s j)"
proof -
  define s1 where "s1 = s\<lparr>swaptable := (swaptable s)(i := \<lparr>sused = True, spage_table = pt, sva = va,
      sraid_mode = raid_mode s\<rparr>)\<rparr>"
  let ?page = "ld_bytes (mem s) (PTE2PA (ld64 (mem s) x)) 4096"
  obtain u where u: "swap_out_page ?page (int i) s1 = Ok u" "store_inv (raid_mode s) u"
    "store_lookup (raid_mode s) u (int i) = Some ?page" "disk_frame s1 u"
    "\<forall>j. slot_ok (raid_mode s) j \<longrightarrow> j \<noteq> int i \<longrightarrow> store_lookup (raid_mode s) u j = store_lookup (raid_mode s) s1 j"
    using store_put [OF store(2), of s1 "int i" ?page] store(1,3) by (auto simp: s1_def)
  note fr = disk_frame_kmem [OF u(4)]
  obtain me where me: "myproc u = Some me" using u(2) by (auto simp: store_inv_def dq_ready_def)
  define t where "t = (upd_proc me (\<lambda>q. q\<lparr>disk_writes := disk_writes q + 1,
      avg_disk_latency := disk_get_avg_latency u\<rparr>) u)\<lparr>mem := st64 (mem s) x (swap_pte i (ld64 (mem s) x))\<rparr>"
  have m: "mem u = mem s" using fr(2) by (simp add: s1_def)
  have "swapout pt va s = Ok (int i, t)"
    using walk lk slot u(1) me m
    by (simp add: swapout_def walk_lookup_def Let_def s1_def t_def swap_pte_def upd_proc_def)
  moreover have "swap_frame s t"
    using fr(1) by (auto simp: swap_frame_def t_def upd_proc_def s1_def)
  moreover have "swaptable t = swaptable s1" using fr(3) by (simp add: t_def upd_proc_def)
  ultimately show ?thesis
    using u(2,3,5) by (intro exI [of _ t]) (auto simp: t_def s1_def)
qed

section \<open>Eviction\<close>

lemma clock_state_held [simp]:
  "scan_pre (s\<lparr>held := H\<rparr>) = scan_pre s" "elig (s\<lparr>held := H\<rparr>) = elig s" "flevel (s\<lparr>held := H\<rparr>) = flevel s"
  "pte_pages (s\<lparr>held := H\<rparr>) = pte_pages s" "entry m (s\<lparr>held := H\<rparr>) = entry m s"
  by (auto simp: scan_pre_def elig_def flevel_def pte_pages_def entry_def runs_elsewhere_def myproc_def fun_eq_iff
      split: option.splits)

lemma elig_walk:
  assumes "elig s i"
  obtains v x where "fproc (frametable s i) = Some v" "\<not> runs_elsewhere s v"
    "walk_levels (mem s) 2 (pagetable (procs s v)) (fva (frametable s i)) = Some x"
    "ld64 (mem s) x AND PTE_V \<noteq> 0" "\<And>m. entry m s i = (case walk_levels m 2 (pagetable (procs s v)) (fva (frametable s i)) of
       None \<Rightarrow> 0 | Some y \<Rightarrow> ld64 m y)"
  using assms by (auto simp: elig_def entry_def split: option.splits)

lemma clearA_id: "e AND PTE_A = 0 \<Longrightarrow> e AND NOT PTE_A = e" for e :: uint64
proof (rule bit_eqI)
  fix n
  assume "e AND PTE_A = 0"
  then have "\<not> bit (e AND PTE_A) n" by simp
  then show "bit (e AND NOT PTE_A) n = bit e n"
    unfolding bit_and_iff bit_not_iff using bit_imp_possible_bit [of e n] by blast
qed

text \<open>The clock scan as \<open>clock_evict\<close> runs it, with \<open>framelock\<close> held.\<close>

lemma clock_scan_locked:
  assumes "scan_pre s"
  shows "\<exists>b l m. clock_scan (s\<lparr>held := H\<rparr>) = Ok (b, l, s\<lparr>held := H, mem := m\<rparr>) \<and>
    A_rel (mem s) m \<and> (\<forall>q. q \<notin> pte_pages s \<longrightarrow> page_eq q (mem s) m) \<and>
    (b = None \<longrightarrow> (\<forall>i<MAX_FRAMES. \<not> elig s i)) \<and>
    (\<forall>i. b = Some i \<longrightarrow> i < MAX_FRAMES \<and> elig s i \<and> (\<forall>j<MAX_FRAMES. elig s j \<longrightarrow> flevel s j \<le> flevel s i)) \<and>
    (\<forall>i<MAX_FRAMES. elig s i \<longrightarrow> entry m s i AND PTE_A = 0)"
proof -
  have pre: "scan_pre (s\<lparr>held := H\<rparr>)" using assms by simp
  obtain b l s' where r: "clock_scan (s\<lparr>held := H\<rparr>) = Ok (b, l, s')" "s' = s\<lparr>held := H, mem := mem s'\<rparr>"
    "A_rel (mem s) (mem s')" "\<forall>q. q \<notin> pte_pages s \<longrightarrow> page_eq q (mem s) (mem s')"
    "b = None \<longrightarrow> (\<forall>i<MAX_FRAMES. \<not> elig s i)"
    "\<forall>i. b = Some i \<longrightarrow> i < MAX_FRAMES \<and> elig s i \<and> (\<forall>j<MAX_FRAMES. elig s j \<longrightarrow> flevel s j \<le> flevel s i)"
    "\<forall>i<MAX_FRAMES. elig s i \<longrightarrow> entry (mem s') s i AND PTE_A = 0"
    using clock_scan_spec [OF pre] by auto
  define m where "m = mem s'"
  show ?thesis
    by (intro exI [of _ b] exI [of _ l] exI [of _ m] conjI) (use r in \<open>simp_all add: m_def [symmetric]\<close>)
qed

lemma runs_elsewhere_upd [simp]:
  "runs_elsewhere (s\<lparr>held := H, mem := m\<rparr>) = runs_elsewhere s"
  by (simp add: runs_elsewhere_def myproc_def fun_eq_iff)

lemma clock_evict_none:
  assumes "locks_free s" "scan_pre s" "\<And>i. i < MAX_FRAMES \<Longrightarrow> \<not> elig s i"
  shows "\<exists>t. clock_evict s = Ok (0, t) \<and> frametable t = frametable s \<and> active_frames t = active_frames s \<and>
    swaptable t = swaptable s \<and> procs t = procs s \<and> A_rel (mem s) (mem t)"
proof -
  define H where "H = insert FrameLock (held s)"
  obtain b l m where scan: "clock_scan (s\<lparr>held := H\<rparr>) = Ok (b, l, s\<lparr>held := H, mem := m\<rparr>)" "A_rel (mem s) m"
    "\<forall>i. b = Some i \<longrightarrow> i < MAX_FRAMES \<and> elig s i \<and> (\<forall>j<MAX_FRAMES. elig s j \<longrightarrow> flevel s j \<le> flevel s i)"
    using clock_scan_locked [OF assms(2), of H] by (elim exE conjE) (rule that)
  have b: "b = None" using scan(3) assms(3) by (cases b) auto
  have fl: "FrameLock \<notin> held s" "SwapLock \<notin> held s" using assms(1) by (auto simp: locks_free_def)
  show ?thesis
  proof (cases "fallback_frame (s\<lparr>held := H, mem := m\<rparr>)")
    case None
    then show ?thesis
      using scan(1,2) fl by (simp add: clock_evict_def b H_def [symmetric]) (simp add: H_def)
  next
    case (Some i)
    then obtain v where i: "i < MAX_FRAMES" "fproc (frametable s i) = Some v" "\<not> runs_elsewhere s v"
      by (auto simp: fallback_frame_def search_Some_iff split: option.splits)
    define s3 where "s3 = s\<lparr>mem := m, clock_hand := (i + 1) mod MAX_FRAMES,
        frametable := (frametable s)(i := (frametable s i)\<lparr>fproc := None\<rparr>)\<rparr>"
    have "entry m s i AND PTE_V = 0"
      using assms(3) [OF i(1)] entry_A_V [OF assms(2) scan(2) i(1)] i(2,3) by (simp add: elig_def)
    then have out: "swapout (pagetable (procs s v)) (fva (frametable s i)) s3 = Ok (-1, s3)"
      using assms(2) i by (intro swapout_unmapped)
        (auto simp: s3_def entry_def scan_pre_def split: option.splits)
    define t0 where "t0 = s\<lparr>mem := m, clock_hand := (i + 1) mod MAX_FRAMES,
        frametable := (frametable s)(i := (frametable s i)\<lparr>fproc := Some v\<rparr>)\<rparr>"
    have "clock_evict s = Ok (0, t0)"
      using scan(1) fl Some i out
      by (simp add: clock_evict_def b H_def [symmetric] Let_def upd_frame_def)
        (simp add: H_def s3_def t0_def)
    moreover have "(frametable s i)\<lparr>fproc := Some v\<rparr> = frametable s i" using i(2) by (cases "frametable s i") simp
    ultimately show ?thesis using scan(2) by (intro exI [of _ t0]) (simp add: t0_def fun_upd_idem_iff)
  qed
qed

text \<open>A process up to its memory and disk counters.\<close>

definition same_but_stats :: "proc \<Rightarrow> proc \<Rightarrow> bool" where
  "same_but_stats p q \<longleftrightarrow>
     p = q\<lparr>page_faults := page_faults p, pages_evicted := pages_evicted p,
            pages_swapped_in := pages_swapped_in p, pages_swapped_out := pages_swapped_out p,
            resident_pages := resident_pages p, disk_reads := disk_reads p, disk_writes := disk_writes p,
            avg_disk_latency := avg_disk_latency p\<rparr>"

lemma same_but_stats_refl [simp]: "same_but_stats p p"
  by (simp add: same_but_stats_def)

lemma same_but_statsE:
  assumes "same_but_stats p q"
  obtains a b c d e f g h where "p = q\<lparr>page_faults := a, pages_evicted := b, pages_swapped_in := c,
    pages_swapped_out := d, resident_pages := e, disk_reads := f, disk_writes := g, avg_disk_latency := h\<rparr>"
  using assms by (auto simp: same_but_stats_def)

lemma same_but_stats_trans: "same_but_stats p q \<Longrightarrow> same_but_stats q r \<Longrightarrow> same_but_stats p r"
  by (elim same_but_statsE) (simp add: same_but_stats_def)

lemma same_but_disk_stats_stats: "same_but_disk_stats p q \<Longrightarrow> same_but_stats p q"
  by (elim same_but_disk_statsE) (simp add: same_but_stats_def)

lemma same_but_stats_sel:
  assumes "same_but_stats p q"
  shows "pstate p = pstate q" "pagetable p = pagetable q" "cur_queue_lvl p = cur_queue_lvl q" "sz p = sz q"
    "trapframe p = trapframe q" "pid p = pid q"
  using assms by (auto elim!: same_but_statsE)

definition evict_ready :: "nat \<Rightarrow> 'z kmem_scheme \<Rightarrow> bool" where
  "evict_ready k s \<longleftrightarrow> locks_free s \<and> scan_pre s \<and> store_inv (raid_mode s) s \<and> raid_known (raid_mode s) \<and>
     search (\<lambda>i. \<not> sused (swaptable s i)) 0 MAX_SWAP = Some k \<and> slot_ok (raid_mode s) (int k)"

lemma store_inv_upd [simp]:
  "store_inv mode (s\<lparr>clock_hand := c\<rparr>) = store_inv mode s" "store_inv mode (s\<lparr>frametable := f\<rparr>) = store_inv mode s"
  "store_inv mode (s\<lparr>active_frames := n\<rparr>) = store_inv mode s"
  "store_lookup mode (s\<lparr>clock_hand := c\<rparr>) = store_lookup mode s" "store_lookup mode (s\<lparr>frametable := f\<rparr>) = store_lookup mode s"
  "store_lookup mode (s\<lparr>active_frames := n\<rparr>) = store_lookup mode s"
  by (auto simp: store_inv_def store_lookup_def dq_ready_def disks_wf_def page_on_def blk_def myproc_def fun_eq_iff)

lemma clock_evict_victim:
  assumes ready: "evict_ready k s" and some: "j < MAX_FRAMES" "elig s j"
  obtains i v x t m where "clock_evict s = Ok (fpa (frametable s i), t)" "i < MAX_FRAMES" "elig s i"
    "\<And>j. j < MAX_FRAMES \<Longrightarrow> elig s j \<Longrightarrow> flevel s j \<le> flevel s i"
    "fproc (frametable s i) = Some v" "\<not> runs_elsewhere s v"
    "walk_levels (mem s) 2 (pagetable (procs s v)) (fva (frametable s i)) = Some x"
    "frametable t = (frametable s)(i := (frametable s i)\<lparr>fproc := None, used := False\<rparr>)"
    "active_frames t = active_frames s - 1" "held t = held s" "freelist t = freelist s" "kend t = kend s"
    "cpu_proc t = cpu_proc s" "clock_hand t < MAX_FRAMES" "raid_mode t = raid_mode s"
    "\<And>p. same_but_stats (procs t p) (procs s p)"
    "\<And>p. resident_pages (procs t p) = resident_pages (procs s p) - of_bool (p = v)"
    "swaptable t = (swaptable s)(k := \<lparr>sused = True, spage_table = pagetable (procs s v),
        sva = fva (frametable s i), sraid_mode = raid_mode s\<rparr>)"
    "A_rel (mem s) m" "\<And>q. q \<notin> pte_pages s \<Longrightarrow> page_eq q (mem s) m"
    "mem t = st64 m x (swap_pte k (ld64 (mem s) x AND NOT PTE_A))"
    "store_inv (raid_mode s) t"
    "store_lookup (raid_mode s) t (int k) = Some (ld_bytes m (PTE2PA (ld64 (mem s) x)) 4096)"
    "\<And>j. slot_ok (raid_mode s) j \<Longrightarrow> j \<noteq> int k \<Longrightarrow> store_lookup (raid_mode s) t j = store_lookup (raid_mode s) s j"
proof -
  have r: "locks_free s" "scan_pre s" "store_inv (raid_mode s) s" "raid_known (raid_mode s)"
    "search (\<lambda>i. \<not> sused (swaptable s i)) 0 MAX_SWAP = Some k" "slot_ok (raid_mode s) (int k)"
    using ready by (simp_all add: evict_ready_def)
  define H where "H = insert FrameLock (held s)"
  obtain b l m where scan: "clock_scan (s\<lparr>held := H\<rparr>) = Ok (b, l, s\<lparr>held := H, mem := m\<rparr>)" "A_rel (mem s) m"
    "\<forall>q. q \<notin> pte_pages s \<longrightarrow> page_eq q (mem s) m"
    "b = None \<longrightarrow> (\<forall>i<MAX_FRAMES. \<not> elig s i)"
    "\<forall>i. b = Some i \<longrightarrow> i < MAX_FRAMES \<and> elig s i \<and> (\<forall>j<MAX_FRAMES. elig s j \<longrightarrow> flevel s j \<le> flevel s i)"
    "\<forall>i<MAX_FRAMES. elig s i \<longrightarrow> entry m s i AND PTE_A = 0"
    using clock_scan_locked [OF r(2), of H] by (elim exE conjE) (rule that)
  obtain i where b: "b = Some i" using scan(4) some by (cases b) auto
  then have i: "i < MAX_FRAMES" "elig s i" and best: "\<And>j. j < MAX_FRAMES \<Longrightarrow> elig s j \<Longrightarrow> flevel s j \<le> flevel s i"
    using scan(5) by auto
  obtain v x where v: "fproc (frametable s i) = Some v" "\<not> runs_elsewhere s v"
    "walk_levels (mem s) 2 (pagetable (procs s v)) (fva (frametable s i)) = Some x" "ld64 (mem s) x AND PTE_V \<noteq> 0"
    "entry m s i = (case walk_levels m 2 (pagetable (procs s v)) (fva (frametable s i)) of
       None \<Rightarrow> 0 | Some y \<Rightarrow> ld64 m y)"
    by (rule elig_walk [OF i(2)]) (rule that)
  have al: "page_aligned (pagetable (procs s v))" "fva (frametable s i) < MAXVA"
    using r(2) i(1) v(1) by (simp_all add: scan_pre_def)
  have wm: "walk_levels m 2 (pagetable (procs s v)) (fva (frametable s i)) = Some x"
    using walk_levels_A_rel [OF scan(2) al(1)] v(3) by simp
  have e: "ld64 m x = ld64 (mem s) x AND NOT PTE_A"
  proof -
    have "entry m s i AND PTE_A = 0" using scan(6) i by blast
    then have "ld64 m x AND PTE_A = 0" using v(5) wm by simp
    moreover have "ld64 m x = ld64 (mem s) x \<or> ld64 m x = ld64 (mem s) x AND NOT PTE_A"
      using scan(2) walk_levels_mod8 [OF v(3) al(1)] by (simp add: A_rel_def)
    ultimately show ?thesis using clearA_id by metis
  qed
  define s3 where "s3 = s\<lparr>mem := m, clock_hand := (i + 1) mod MAX_FRAMES,
        frametable := (frametable s)(i := (frametable s i)\<lparr>fproc := None\<rparr>)\<rparr>"
  have lk: "FrameLock \<notin> held s" "SwapLock \<notin> held s" using r(1) by (auto simp: locks_free_def)
  obtain t where t: "swapout (pagetable (procs s v)) (fva (frametable s i)) s3 = Ok (int k, t)" "swap_frame s3 t"
     "mem t = st64 m x (swap_pte k (ld64 m x))"
     "swaptable t = (swaptable s)(k := \<lparr>sused = True, spage_table = pagetable (procs s v),
        sva = fva (frametable s i), sraid_mode = raid_mode s\<rparr>)"
     "store_inv (raid_mode s) t"
     "store_lookup (raid_mode s) t (int k) = Some (ld_bytes m (PTE2PA (ld64 m x)) 4096)"
     "\<forall>j. slot_ok (raid_mode s) j \<longrightarrow> j \<noteq> int k \<longrightarrow> store_lookup (raid_mode s) t j = store_lookup (raid_mode s) s j"
  proof -
    have V: "ld64 m x AND PTE_V \<noteq> 0" using e clearA_V v(4) by metis
    have "\<exists>t. swapout (pagetable (procs s v)) (fva (frametable s i)) s3 = Ok (int k, t) \<and> swap_frame s3 t \<and>
     mem t = st64 (mem s3) x (swap_pte k (ld64 (mem s3) x)) \<and>
     swaptable t = (swaptable s3)(k := \<lparr>sused = True, spage_table = pagetable (procs s v),
       sva = fva (frametable s i), sraid_mode = raid_mode s3\<rparr>) \<and>
     store_inv (raid_mode s3) t \<and>
     store_lookup (raid_mode s3) t (int k) = Some (ld_bytes (mem s3) (PTE2PA (ld64 (mem s3) x)) 4096) \<and>
     (\<forall>j. slot_ok (raid_mode s3) j \<longrightarrow> j \<noteq> int k \<longrightarrow> store_lookup (raid_mode s3) t j = store_lookup (raid_mode s3) s3 j)"
      using al(2) wm V lk r by (intro swapout_ok) (simp_all add: s3_def)
    then show thesis using that by (auto simp: s3_def)
  qed
  define u where "u = (upd_proc v (\<lambda>q. q\<lparr>pages_evicted := pages_evicted q + 1,
      pages_swapped_out := pages_swapped_out q + 1, resident_pages := resident_pages q - 1\<rparr>) t)
    \<lparr>frametable := (frametable s)(i := (frametable s i)\<lparr>fproc := None, used := False\<rparr>),
     active_frames := active_frames s - 1\<rparr>"
  have fr: "frametable t = (frametable s)(i := (frametable s i)\<lparr>fproc := None\<rparr>)" "held t = held s"
    "active_frames t = active_frames s" "freelist t = freelist s" "kend t = kend s" "cpu_proc t = cpu_proc s"
    "clock_hand t = (i + 1) mod MAX_FRAMES" "raid_mode t = raid_mode s"
    using t(2) by (simp_all add: swap_frame_def s3_def)
  have pr: "same_but_disk_stats (procs t p) (procs s p)" for p using t(2) by (simp add: swap_frame_def s3_def)
  have st: "same_but_stats (procs u p) (procs s p)"
    "resident_pages (procs u p) = resident_pages (procs s p) - of_bool (p = v)" for p
    using pr [of p] by (auto elim!: same_but_disk_statsE simp: u_def upd_proc_def same_but_stats_def)
  have "clock_evict s = Ok (fpa (frametable s i), u)"
    using scan(1) lk t(1) fr(1-3) v(1)
    by (simp add: clock_evict_def b H_def [symmetric] Let_def upd_frame_def)
      (simp add: H_def s3_def u_def upd_proc_def, intro exI [of _ "int k"], simp)
  then show thesis
    by (rule that [of i u v x m])
      (use i best v scan(2,3) fr t e clearA_PA st in \<open>simp_all add: u_def upd_proc_def\<close>)
qed

section \<open>Accounting of frames\<close>

text \<open>\<open>active_frames\<close> counts the entries in use, and \<open>resident_pages\<close> of a process the entries that are its.\<close>

definition frames_ok :: "'z kmem_scheme \<Rightarrow> bool" where
  "frames_ok s \<longleftrightarrow>
     active_frames s = int (count_upto (\<lambda>i. used (frametable s i)) MAX_FRAMES) \<and>
     (\<forall>i<MAX_FRAMES. \<not> used (frametable s i) \<longrightarrow> fproc (frametable s i) = None) \<and>
     (\<forall>p. resident_pages (procs s p) = int (count_upto (\<lambda>i. fproc (frametable s i) = Some p) MAX_FRAMES))"

lemma frames_okI:
  assumes "frames_ok s" "i < MAX_FRAMES" "frametable t = (frametable s)(i := f)"
    "active_frames t = active_frames s - of_bool (used (frametable s i)) + of_bool (used f)"
    "\<And>p. resident_pages (procs t p) =
       resident_pages (procs s p) - of_bool (fproc (frametable s i) = Some p) + of_bool (fproc f = Some p)"
    "\<not> used f \<Longrightarrow> fproc f = None"
  shows "frames_ok t"
  unfolding frames_ok_def
proof (intro conjI allI impI)
  show "active_frames t = int (count_upto (\<lambda>i. used (frametable t i)) MAX_FRAMES)"
    using assms(1,4) count_upto_upd [OF assms(2), of used "frametable s" f]
    by (simp add: frames_ok_def assms(3))
  show "resident_pages (procs t p) = int (count_upto (\<lambda>i. fproc (frametable t i) = Some p) MAX_FRAMES)" for p
    using assms(1,5) count_upto_upd [OF assms(2), of "\<lambda>f. fproc f = Some p" "frametable s" f]
    by (simp add: frames_ok_def assms(3))
  show "fproc (frametable t j) = None" if "j < MAX_FRAMES" "\<not> used (frametable t j)" for j
    using that assms(1,6) by (auto simp: frames_ok_def assms(3) split: if_splits)
qed

lemma frames_ok_ft_free:
  assumes "frames_ok s"
  shows "frames_ok (ft_free pa s)"
proof (cases "search (\<lambda>i. fpa (frametable s i) = pa \<and> used (frametable s i)) 0 MAX_FRAMES")
  case (Some i)
  then have i: "i < MAX_FRAMES" "used (frametable s i)" by (auto simp: search_Some_iff)
  show ?thesis
    using Some i
    by (intro frames_okI [OF assms i(1), of _ "\<lparr>used = False, fproc = None, fva = 0, fpa = 0\<rparr>"])
      (auto simp: ft_free_def upd_frame_def upd_proc_def split: option.splits)
qed (simp add: ft_free_def assms)

definition ft_alloc :: "nat \<Rightarrow> uint64 \<Rightarrow> nat option \<Rightarrow> uint64 \<Rightarrow> 'z kmem_scheme \<Rightarrow> 'z kmem_scheme" where
  "ft_alloc i pa p va s =
     (case p of None \<Rightarrow> id | Some q \<Rightarrow> upd_proc q (\<lambda>r. r\<lparr>resident_pages := resident_pages r + 1\<rparr>))
     (s\<lparr>frametable := (frametable s)(i := (frametable s i)\<lparr>used := True, fproc := p, fva := va, fpa := pa\<rparr>),
        active_frames := active_frames s + 1\<rparr>)"

lemma frametable_alloc_ok:
  assumes "FrameLock \<notin> held s" "pa \<noteq> 0" "search (\<lambda>i. \<not> used (frametable s i)) 0 MAX_FRAMES = Some i"
  shows "frametable_alloc pa p va s = Ok (ft_alloc i pa p va s)"
  unfolding frametable_alloc.simps [of pa p va s] acquire_ok [OF assms(1)] bindr.simps
  using assms by (simp add: Let_def upd_frame_def upd_proc_def ft_alloc_def split: option.split)

lemma frametable_alloc_zero: "FrameLock \<notin> held s \<Longrightarrow> frametable_alloc 0 p va s = Ok s"
  unfolding frametable_alloc.simps [of 0 p va s] by simp

lemma frametable_alloc_full:
  assumes "FrameLock \<notin> held s" "pa \<noteq> 0" "search (\<lambda>i. \<not> used (frametable s i)) 0 MAX_FRAMES = None"
  shows "frametable_alloc pa p va s = Panic ''acquire''"
  unfolding frametable_alloc.simps [of pa p va s] using assms by (simp add: clock_evict_framelock)

lemma frames_ok_ft_alloc:
  assumes "frames_ok s" "search (\<lambda>i. \<not> used (frametable s i)) 0 MAX_FRAMES = Some i"
  shows "frames_ok (ft_alloc i pa p va s)"
proof -
  have i: "i < MAX_FRAMES" "\<not> used (frametable s i)" using assms(2) by (auto simp: search_Some_iff)
  then have "fproc (frametable s i) = None" using assms(1) by (simp add: frames_ok_def)
  then show ?thesis
    using i by (intro frames_okI [OF assms(1) i(1), of _ "(frametable s i)\<lparr>used := True, fproc := p, fva := va, fpa := pa\<rparr>"])
      (auto simp: ft_alloc_def upd_proc_def split: option.splits)
qed

lemma frames_ok_room:
  "frames_ok s \<Longrightarrow> active_frames s < int MAX_FRAMES \<longleftrightarrow>
     (\<exists>i. search (\<lambda>i. \<not> used (frametable s i)) 0 MAX_FRAMES = Some i)"
  using count_upto_full [of "\<lambda>i. used (frametable s i)" MAX_FRAMES]
    count_upto_le [of "\<lambda>i. used (frametable s i)" MAX_FRAMES]
  by (cases "search (\<lambda>i. \<not> used (frametable s i)) 0 MAX_FRAMES")
    (auto simp: frames_ok_def search_None_iff search_Some_iff)

lemma disk_frame_free_block: "disk_frame s (free_block mode lb s)"
  unfolding free_block_def Let_def by (auto intro: disk_frame_trans [OF disk_frame_set_block disk_frame_set_block])

lemma disk_frame_free_slot: "disk_frame s (swap_disk_free_slot slot s)"
proof -
  have "disk_frame s (fold (\<lambda>i. free_block mode (lb + int i)) xs s)" for mode lb xs
    by (induction xs arbitrary: s) (auto intro: disk_frame_trans [OF disk_frame_free_block])
  then show ?thesis
    unfolding swap_disk_free_slot_def Let_def by (auto intro: disk_frame_trans [OF _ disk_frame_slot_mode])
qed

lemma swap_disk_free_slot_held: "swap_disk_free_slot slot (s\<lparr>held := H\<rparr>) = (swap_disk_free_slot slot s)\<lparr>held := H\<rparr>"
proof -
  have b: "free_block mode lb (s\<lparr>held := H\<rparr>) = (free_block mode lb s)\<lparr>held := H\<rparr>" for mode lb s
    by (simp add: free_block_def set_block_def Let_def)
  have "fold (\<lambda>i. free_block mode (lb + int i)) xs (s\<lparr>held := H\<rparr>) =
      (fold (\<lambda>i. free_block mode (lb + int i)) xs s)\<lparr>held := H\<rparr>" for mode lb xs
    by (induction xs arbitrary: s) (simp_all add: b)
  then show ?thesis by (simp add: swap_disk_free_slot_def Let_def)
qed

definition free_slot_entry :: swap where
  "free_slot_entry = \<lparr>sused = False, spage_table = 0, sva = 0, sraid_mode = 0\<rparr>"

lemma held_update_id: "held s = H \<Longrightarrow> s\<lparr>held := H\<rparr> = s"
  by auto

lemma held_swaptable_comm: "s\<lparr>held := H, swaptable := w\<rparr> = s\<lparr>swaptable := w, held := H\<rparr>"
  by (cases s) simp

lemma mem_procs_comm: "s\<lparr>mem := m, procs := P\<rparr> = s\<lparr>procs := P, mem := m\<rparr>"
  by (cases s) simp

lemma swap_free_ok:
  assumes "SwapLock \<notin> held s" "i < MAX_SWAP"
  shows "swap_free (int i) s = Ok (swap_disk_free_slot (int i)
     (s\<lparr>swaptable := (swaptable s)(i := free_slot_entry)\<rparr>))"
proof -
  let ?s = "s\<lparr>swaptable := (swaptable s)(i := free_slot_entry)\<rparr>"
  have "held (swap_disk_free_slot (int i) ?s) = held s"
    using disk_frame_sel(2) [OF disk_frame_free_slot, of "int i" ?s] by simp
  moreover have "swap_disk_free_slot (int i) (?s\<lparr>held := insert SwapLock (held s)\<rparr>) =
      (swap_disk_free_slot (int i) ?s)\<lparr>held := insert SwapLock (held s)\<rparr>"
    by (rule swap_disk_free_slot_held)
  ultimately show ?thesis
    using assms by (simp add: swap_free_def Let_def free_slot_entry_def held_swaptable_comm held_update_id)
qed

lemma swapin_ok:
  assumes lk: "SwapLock \<notin> held s" and i: "i < MAX_SWAP" "sused (swaptable s i)"
    and store: "store_inv mode s" "raid_known mode" "slot_ok mode (int i)" "store_lookup mode s (int i) = Some page"
  shows "\<exists>t. swapin pa (int i) s = Ok t \<and> swap_frame s t \<and> mem t = st_bytes (mem s) pa page \<and>
     swaptable t = (swaptable s)(i := free_slot_entry) \<and> store_inv mode t \<and>
     (\<forall>j. slot_ok mode j \<longrightarrow> j \<noteq> int i \<longrightarrow> store_lookup mode t j = store_lookup mode s j)"
proof -
  obtain u where u: "swap_in_page (ld_bytes (mem s) pa 4096) (int i) s = Ok (page, u)" "store_inv mode u"
    "disk_frame s u" "store_lookup mode u = store_lookup mode s"
    using store_fetch [OF store(2,1,3,4), of "ld_bytes (mem s) pa 4096"] by auto
  note fr = disk_frame_kmem [OF u(3)]
  obtain me where me: "myproc u = Some me" using u(2) by (auto simp: store_inv_def dq_ready_def)
  define w where "w = (upd_proc me (\<lambda>q. q\<lparr>disk_reads := disk_reads q + 1,
      avg_disk_latency := disk_get_avg_latency u\<rparr>) u)\<lparr>mem := st_bytes (mem s) pa page\<rparr>"
  define w' where "w' = w\<lparr>swaptable := (swaptable s)(i := free_slot_entry)\<rparr>"
  define t where "t = swap_disk_free_slot (int i) w'"
  have lkw: "SwapLock \<notin> held w" using lk fr(1) by (simp add: w_def swap_frame_def upd_proc_def)
  have sw: "swaptable w = swaptable s" using fr(3) by (simp add: w_def upd_proc_def)
  have m: "mem u = mem s" using fr(2) .
  have me': "myproc (u\<lparr>mem := m'\<rparr>) = Some me" for m' using me by (simp add: myproc_def)
  have w: "upd_proc me (\<lambda>q. q\<lparr>disk_reads := disk_reads q + 1,
      avg_disk_latency := disk_get_avg_latency (u\<lparr>mem := st_bytes (mem u) pa page\<rparr>)\<rparr>)
      (u\<lparr>mem := st_bytes (mem u) pa page\<rparr>) = w"
    unfolding w_def upd_proc_def m by (simp add: mem_procs_comm disk_get_avg_latency_def)
  have "swapin pa (int i) s = Ok t"
    using lk i u(1) sw swap_free_ok [OF lkw i(1)]
    by (simp add: swapin_def Let_def me' w t_def w'_def)
  moreover note fr2 = disk_frame_kmem [OF disk_frame_free_slot [of w' "int i"], folded t_def]
  have "swap_frame s w'"
    using fr(1) by (auto simp: swap_frame_def w'_def w_def upd_proc_def)
  then have "swap_frame s t" using fr2(1) swap_frame_trans by blast
  moreover have "mem t = st_bytes (mem s) pa page" using fr2(2) by (simp add: w'_def w_def)
  moreover have "swaptable t = (swaptable s)(i := free_slot_entry)" using fr2(3) by (simp add: w'_def)
  moreover have "store_inv mode w'" "store_lookup mode w' = store_lookup mode s"
    using u(2,4) by (simp_all add: w'_def w_def)
  ultimately show ?thesis
    using store_drop [OF store(2) _ store(3), of w'] store(4) by (intro exI [of _ t]) (simp add: t_def)
qed

section \<open>Properties\<close>

text \<open>A small state for the examples: process 0 runs, with one page in frame 0 and its three table pages.\<close>

definition km_mem :: bytemem where
  "km_mem = st64 (st64 (st64 (\<lambda>_. 0) 0x80001000 0x20000801) 0x80002000 0x20000C01) 0x80003000 0x20001057"

definition km0 :: kmem where
  "km0 = swapdisk.extend sd0
     (kmem.fields km_mem 0
        (\<lambda>i. if i = 0 then \<lparr>used = True, fproc = Some 0, fva = 0, fpa = 0x80004000\<rparr>
              else \<lparr>used = False, fproc = None, fva = 0, fpa = 0\<rparr>)
        0 1 (\<lambda>_. \<lparr>sused = False, spage_table = 0, sva = 0, sraid_mode = 0\<rparr>) 0x80001000)
   \<lparr>procs := (\<lambda>_. proc0)(0 := proc0\<lparr>pstate := RUNNING, pagetable := 0x80001000, sz := 8192, resident_pages := 1\<rparr>)\<rparr>"

lemma km0_sel [simp]:
  "mem km0 = km_mem" "freelist km0 = 0" "clock_hand km0 = 0" "active_frames km0 = 1" "kend km0 = 0x80001000"
  "held km0 = {}" "cpu_proc km0 = Some 0" "raid_mode km0 = 0"
  "frametable km0 = (\<lambda>i. if i = 0 then \<lparr>used = True, fproc = Some 0, fva = 0, fpa = 0x80004000\<rparr>
              else \<lparr>used = False, fproc = None, fva = 0, fpa = 0\<rparr>)"
  "swaptable km0 = (\<lambda>_. \<lparr>sused = False, spage_table = 0, sva = 0, sraid_mode = 0\<rparr>)"
  "procs km0 = (\<lambda>_. proc0)(0 := proc0\<lparr>pstate := RUNNING, pagetable := 0x80001000, sz := 8192, resident_pages := 1\<rparr>)"
  by (simp_all add: km0_def swapdisk.defs kmem.defs sd0_def swap_disk_init_def)

lemma walk_levels_2:
  "walk_levels m 2 pt va =
     (case next_level m (pte_addr pt 2 va) of
        None \<Rightarrow> None
      | Some p \<Rightarrow> (case next_level m (pte_addr p 1 va) of None \<Rightarrow> None | Some q \<Rightarrow> Some (pte_addr q 0 va)))"
  by (auto simp: numeral_2_eq_2 split: option.split)

lemma km_mem_ld:
  "ld64 km_mem 0x80001000 = 0x20000801" "ld64 km_mem 0x80002000 = 0x20000C01" "ld64 km_mem 0x80003000 = 0x20001057"
  by (simp_all add: km_mem_def ld64_st64_other)

lemma km_mem_walk: "walk_levels km_mem 2 0x80001000 0 = Some 0x80003000"
  by (simp add: walk_levels_2 next_level_def pte_addr_def PX_def km_mem_ld PTE2PA_def)

lemma km0_elig: "elig km0 0"
  by (simp add: elig_def entry_def km_mem_walk km_mem_ld runs_elsewhere_def myproc_def proc0_def)

lemma km0_store: "store_inv 0 km0"
  by (simp add: km0_def swapdisk.defs kmem.defs sd0_def swap_disk_init_def store_inv_def dq_ready_def disks_wf_def
      myproc_def)

lemma km0_ready: "evict_ready 0 km0"
  using km0_store
  by (simp add: evict_ready_def locks_free_def scan_pre_def slot_ok_iff slot_fits_def page_aligned_def)


lemma km0_free: "free_list (kfree_st 0x80005000 km0) [0x80005000]"
  by (rule kfree_push) (simp_all add: free_list_def alloc_page_def page_aligned_def)


text \<open>C27: \<open>kinit\<close> ends, panics nowhere, and leaves on the free list exactly the pages from the first page
  boundary after the kernel up to \<open>PHYSTOP\<close>, each once.\<close>

theorem kinit_free_list:
  assumes "locks_free s" "freelist s = 0" "0 < kend s" "unat (kend s) \<le> unat PHYSTOP"
  shows "\<exists>s'. kinit s = Ok s' \<and>
    free_list s' (rev (page_run (PGROUNDUP (kend s)) ((unat PHYSTOP - unat (PGROUNDUP (kend s))) div 4096)))"
proof -
  let ?p = "PGROUNDUP (kend s)"
  have small: "unat (kend s) + 4095 < 2 ^ 64" using assms(4) by simp
  have up: "unat ?p = 4096 * ((unat (kend s) + 4095) div 4096)" by (rule unat_PGROUNDUP [OF small])
  have le: "kend s \<le> ?p" unfolding word_le_nat_alt up by simp
  have al: "page_aligned ?p" by (simp add: page_aligned_def up)
  have top: "unat ?p \<le> unat PHYSTOP" using assms(4) unfolding up by simp
  have "unat ?p + 4096 * ((unat PHYSTOP - unat ?p) div 4096) = unat PHYSTOP"
  proof -
    have "(unat PHYSTOP - unat ?p) mod 4096 = 0"
      using top al unfolding page_aligned_def by (simp add: up mod_eq_0_iff_dvd dvd_diff_nat)
    then show ?thesis using top mult_div_mod_eq [of 4096 "unat PHYSTOP - unat ?p"] by linarith
  qed
  then show ?thesis
    unfolding kinit_def freerange_def
    using assms le al freerange_loop_ok [of "s\<lparr>frametable := f, swaptable := w\<rparr>" "[]" ?p for f w]
    by (fastforce simp: free_list_def locks_free_def)
qed

theorem kinit_free_list_witness:
  "\<exists>s'. kinit km0 = Ok s' \<and>
    free_list s' (rev (page_run (PGROUNDUP (kend km0)) ((unat PHYSTOP - unat (PGROUNDUP (kend km0))) div 4096)))"
  by (rule kinit_free_list) (simp_all add: locks_free_def)

text \<open>C3: The choice of the clock. Whenever some frame can be evicted, and a swap slot is free, \<open>clock_evict\<close>
  takes a frame of a process in the lowest priority queue among all frames whose page is present
  and whose process is not running on another CPU. Reference bits never change the level of the victim.\<close>

theorem clock_evict_choice:
  assumes "evict_ready k s" "j < MAX_FRAMES" "elig s j"
  shows "\<exists>i v t. clock_evict s = Ok (fpa (frametable s i), t) \<and> i < MAX_FRAMES \<and>
    fproc (frametable s i) = Some v \<and> \<not> runs_elsewhere s v \<and> elig s i \<and>
    (\<forall>j<MAX_FRAMES. elig s j \<longrightarrow> flevel s j \<le> flevel s i) \<and>
    frametable t = (frametable s)(i := (frametable s i)\<lparr>fproc := None, used := False\<rparr>) \<and>
    active_frames t = active_frames s - 1"
  by (rule clock_evict_victim [OF assms]) blast

theorem clock_evict_choice_witness: "\<exists>t. clock_evict km0 = Ok (0x80004000, t) \<and> active_frames t = 0"
proof -
  have "elig km0 i \<Longrightarrow> i = 0" for i by (simp add: elig_def split: if_splits)
  then show ?thesis using clock_evict_choice [OF km0_ready _ km0_elig] by fastforce
qed

text \<open>When no frame can be evicted, \<open>clock_evict\<close> returns the null pointer and leaves the frame table,
  the swap table and the processes as they were. The second search, which ignores the page tables,
  never finds a page that can be written out.\<close>

theorem clock_evict_gives_up:
  assumes "locks_free s" "scan_pre s" "\<forall>i<MAX_FRAMES. \<not> elig s i"
  shows "\<exists>t. clock_evict s = Ok (0, t) \<and> frametable t = frametable s \<and> active_frames t = active_frames s \<and>
    swaptable t = swaptable s \<and> procs t = procs s"
  using clock_evict_none [OF assms(1,2)] assms(3) by blast

text \<open>C4: A page survives its way to the swap disk and back: \<open>swapout\<close> marks the entry as swapped and not
  valid, and a following \<open>swapin\<close> of the slot into any page restores the 4096 bytes and frees the slot.\<close>

theorem swap_roundtrip:
  assumes "va < MAXVA" "walk_levels (mem s) 2 pt va = Some x" "ld64 (mem s) x AND PTE_V \<noteq> 0"
    and "locks_free s" "store_inv (raid_mode s) s" "raid_known (raid_mode s)" "slot_ok (raid_mode s) (int i)"
    and "search (\<lambda>i. \<not> sused (swaptable s i)) 0 MAX_SWAP = Some i"
  shows "\<exists>t u. swapout pt va s = Ok (int i, t) \<and> swapin pa (int i) t = Ok u \<and>
    ld64 (mem t) x = swap_pte i (ld64 (mem s) x) \<and>
    ld_bytes (mem u) pa 4096 = ld_bytes (mem s) (PTE2PA (ld64 (mem s) x)) 4096 \<and> \<not> sused (swaptable u i)"
proof -
  have lk: "SwapLock \<notin> held s" using assms(4) by (simp add: locks_free_def)
  obtain t where t: "swapout pt va s = Ok (int i, t)" "swap_frame s t" "mem t = st64 (mem s) x (swap_pte i (ld64 (mem s) x))"
    "sused (swaptable t i)" "store_inv (raid_mode s) t"
    "store_lookup (raid_mode s) t (int i) = Some (ld_bytes (mem s) (PTE2PA (ld64 (mem s) x)) 4096)"
    using swapout_ok [OF assms(1-3) lk assms(8,5,6,7)] by auto
  have "i < MAX_SWAP" using assms(8) by (simp add: search_Some_iff)
  moreover have "SwapLock \<notin> held t" using lk t(2) by (simp add: swap_frame_def)
  ultimately obtain u where "swapin pa (int i) t = Ok u" "\<not> sused (swaptable u i)"
    "mem u = st_bytes (mem t) pa (ld_bytes (mem s) (PTE2PA (ld64 (mem s) x)) 4096)"
    using swapin_ok [of t i "raid_mode s"] t(4-6) assms(6,7) by (fastforce simp: free_slot_entry_def)
  then show ?thesis using t(1,3) by (auto simp: ld_st_page)
qed

theorem swap_roundtrip_witness:
  "\<exists>t u. swapout 0x80001000 0 km0 = Ok (int 0, t) \<and> swapin 0x80006000 (int 0) t = Ok u \<and>
    ld64 (mem t) 0x80003000 = swap_pte 0 (ld64 (mem km0) 0x80003000) \<and>
    ld_bytes (mem u) 0x80006000 4096 = ld_bytes (mem km0) (PTE2PA (ld64 (mem km0) 0x80003000)) 4096 \<and>
    \<not> sused (swaptable u 0)"
  using km0_ready
  by (intro swap_roundtrip) (simp_all add: km_mem_walk km_mem_ld evict_ready_def)


lemma km0_frames: "frames_ok km0"
proof -
  have "{i. i < (64 :: nat) \<and> i = 0} = {0}" by auto
  then show ?thesis
    by (simp add: frames_ok_def count_upto_def proc0_def)
qed


text \<open>C37: \<open>frametable_alloc\<close> cannot handle a full frame table: it calls \<open>clock_evict\<close> while it holds
  \<open>framelock\<close>, and the kernel panics on the second \<open>acquire\<close>.\<close>

theorem frametable_alloc_self_deadlock:
  assumes "FrameLock \<notin> held s" "pa \<noteq> 0" "\<forall>i<MAX_FRAMES. used (frametable s i)"
  shows "frametable_alloc pa p va s = Panic ''acquire''"
  using assms by (intro frametable_alloc_full) (simp_all add: search_None_iff)

theorem frametable_alloc_self_deadlock_witness:
  "frametable_alloc 0x80006000 (Some 0) 0 (km0\<lparr>frametable := (\<lambda>_. \<lparr>used = True, fproc = Some 0, fva = 0, fpa = 0\<rparr>)\<rparr>) =
    Panic ''acquire''"
  by (rule frametable_alloc_self_deadlock) simp_all

end
