(* ===== verification/Vm.thy ===== *)
theory Vm
  imports Kalloc
begin

text \<open>
  kernel/vm.c on byte-addressed memory: the page-table walk that allocates, mapping and unmapping,
  growing and shrinking an address space, copying it for a child, page faults with their way to the
  swap disk, and the copies between kernel and user memory.

  Loops over addresses end because \<open>walk\<close> panics at \<open>MAXVA\<close>. A page table is the tree of theory
  Pagetable, and an address space the map \<open>pte_of\<close> from virtual addresses to entries; the operations
  are shown to update that map and to take their table pages from the free list.
\<close>

unbundle bit_operations_syntax

section \<open>Model\<close>

subsection \<open>Walking and mapping\<close>

text \<open>\<open>walk\<close> with its \<open>alloc\<close> flag; a page-table entry pointer is its address, \<open>None\<close> the null pointer.\<close>

fun walk_from :: "nat \<Rightarrow> uint64 \<Rightarrow> uint64 \<Rightarrow> bool \<Rightarrow> 'z kmem_scheme \<Rightarrow> (uint64 option \<times> 'z kmem_scheme) res" where
  "walk_from 0 pt va alloc s = Ok (Some (pte_addr pt 0 va), s)"
| "walk_from (Suc level) pt va alloc s =
     (let pte = pte_addr pt (Suc level) va
      in if ld64 (mem s) pte AND PTE_V \<noteq> 0
         then walk_from level (PTE2PA (ld64 (mem s) pte)) va alloc s
         else if \<not> alloc then Ok (None, s)
         else
           bindr (kalloc s) (\<lambda>(pt', s).
           if pt' = 0 then Ok (None, s)
           else
             let s = memset_page pt' 0 s;
                 s = s\<lparr>mem := st64 (mem s) pte (PA2PTE pt' OR PTE_V)\<rparr>
             in walk_from level pt' va alloc s))"

definition walk :: "uint64 \<Rightarrow> uint64 \<Rightarrow> bool \<Rightarrow> 'z kmem_scheme \<Rightarrow> (uint64 option \<times> 'z kmem_scheme) res" where
  "walk pt va alloc s = (if va \<ge> MAXVA then Panic ''walk'' else walk_from 2 pt va alloc s)"

definition walkaddr :: "bytemem \<Rightarrow> uint64 \<Rightarrow> uint64 \<Rightarrow> uint64" where
  "walkaddr m pt va =
     (if va \<ge> MAXVA then 0
      else case walk_levels m 2 pt va of
             None \<Rightarrow> 0
           | Some pte \<Rightarrow>
             if ld64 m pte AND PTE_V = 0 then 0
             else if ld64 m pte AND PTE_U = 0 then 0
             else PTE2PA (ld64 m pte))"

lemma walk_OkD: "walk pt va alloc s = Ok r \<Longrightarrow> va < MAXVA"
  by (auto simp: walk_def not_le split: if_splits)

lemma below_MAXVA_next:
  assumes "(a :: uint64) < MAXVA"
  shows "unat MAXVA - unat (a + PGSIZE) < unat MAXVA - unat a"
proof -
  have "unat (a + PGSIZE) = unat a + 4096"
    using assms by (subst unat_add_lem [THEN iffD1]) (simp_all add: word_less_nat_alt)
  then show ?thesis using assms by (simp add: word_less_nat_alt)
qed

text \<open>The loop of \<open>mappages\<close>. A turn that does not panic is below \<open>MAXVA\<close>, so the loop ends even when
  \<open>last\<close> is not ahead of \<open>a\<close>.\<close>

function mappages_loop ::
    "uint64 \<Rightarrow> uint64 \<Rightarrow> uint64 \<Rightarrow> uint64 \<Rightarrow> uint64 \<Rightarrow> 'z kmem_scheme \<Rightarrow> (int \<times> 'z kmem_scheme) res" where
  "mappages_loop pt a last_va pa perm s =
     bindr (walk pt a True s) (\<lambda>(pte, s).
     case pte of
       None \<Rightarrow> Ok (-1, s)
     | Some pte \<Rightarrow>
       if ld64 (mem s) pte AND PTE_V \<noteq> 0 then Panic ''mappages: remap''
       else
         let s = s\<lparr>mem := st64 (mem s) pte (PA2PTE pa OR perm OR PTE_V)\<rparr>
         in if a = last_va then Ok (0, s)
            else mappages_loop pt (a + PGSIZE) last_va (pa + PGSIZE) perm s)"
  by auto

termination mappages_loop
  by (relation "measure (\<lambda>(_, a, _). unat MAXVA - unat a)")
     (auto dest!: walk_OkD below_MAXVA_next)

declare mappages_loop.simps [simp del]

definition mappages ::
    "uint64 \<Rightarrow> uint64 \<Rightarrow> uint64 \<Rightarrow> uint64 \<Rightarrow> uint64 \<Rightarrow> 'z kmem_scheme \<Rightarrow> (int \<times> 'z kmem_scheme) res" where
  "mappages pt va len pa perm s =
     (if va mod PGSIZE \<noteq> 0 then Panic ''mappages: va not aligned''
      else if len mod PGSIZE \<noteq> 0 then Panic ''mappages: size not aligned''
      else if len = 0 then Panic ''mappages: size''
      else mappages_loop pt va (va + len - PGSIZE) pa perm s)"

definition uvmcreate :: "'z kmem_scheme \<Rightarrow> (uint64 \<times> 'z kmem_scheme) res" where
  "uvmcreate s =
     bindr (kalloc s) (\<lambda>(pt, s). if pt = 0 then Ok (0, s) else Ok (pt, memset_page pt 0 s))"

definition get_frame :: "'z kmem_scheme \<Rightarrow> (uint64 \<times> 'z kmem_scheme) res" where
  "get_frame s =
     bindr (acquire FrameLock s) (\<lambda>s.
     let count = active_frames s
     in bindr (release FrameLock s) (\<lambda>s.
        if count < int MAX_FRAMES
        then bindr (kalloc s) (\<lambda>(pa, s). if pa = 0 then clock_evict s else Ok (pa, s))
        else clock_evict s))"

subsection \<open>Unmapping\<close>

text \<open>The slot number in a swapped entry, truncated to a C \<open>int\<close>.\<close>

definition pte_slot :: "uint64 \<Rightarrow> int" where
  "pte_slot pte = sint (ucast (drop_bit 10 pte) :: 32 word)"

definition uvmunmap_page :: "uint64 \<Rightarrow> uint64 \<Rightarrow> bool \<Rightarrow> 'z kmem_scheme \<Rightarrow> 'z kmem_scheme res" where
  "uvmunmap_page pt a do_free s =
     bindr (walk pt a False s) (\<lambda>(pte, s).
     case pte of
       None \<Rightarrow> Ok s
     | Some pte \<Rightarrow>
       let e = ld64 (mem s) pte
       in if e AND PTE_V = 0 \<and> e AND PTE_S \<noteq> 0
          then bindr (swap_free (pte_slot e) s) (\<lambda>s. Ok (s\<lparr>mem := st64 (mem s) pte 0\<rparr>))
          else
            bindr (if do_free
                   then bindr (frametablefree (PTE2PA e) s) (\<lambda>s. kfree (PTE2PA e) s)
                   else Ok s) (\<lambda>s.
            Ok (s\<lparr>mem := st64 (mem s) pte 0\<rparr>)))"

lemma uvmunmap_page_OkD: "uvmunmap_page pt a do_free s = Ok r \<Longrightarrow> a < MAXVA"
  by (auto simp: uvmunmap_page_def dest: walk_OkD)

function uvmunmap_loop :: "uint64 \<Rightarrow> uint64 \<Rightarrow> uint64 \<Rightarrow> bool \<Rightarrow> 'z kmem_scheme \<Rightarrow> 'z kmem_scheme res" where
  "uvmunmap_loop pt a end_va do_free s =
     (if a < end_va
      then bindr (uvmunmap_page pt a do_free s) (\<lambda>s. uvmunmap_loop pt (a + PGSIZE) end_va do_free s)
      else Ok s)"
  by auto

termination uvmunmap_loop
  by (relation "measure (\<lambda>(_, a, _). unat MAXVA - unat a)")
     (auto dest!: uvmunmap_page_OkD below_MAXVA_next)

declare uvmunmap_loop.simps [simp del]

definition uvmunmap :: "uint64 \<Rightarrow> uint64 \<Rightarrow> uint64 \<Rightarrow> bool \<Rightarrow> 'z kmem_scheme \<Rightarrow> 'z kmem_scheme res" where
  "uvmunmap pt va npages do_free s =
     (if va mod PGSIZE \<noteq> 0 then Panic ''uvmunmap: not aligned''
      else uvmunmap_loop pt va (va + npages * PGSIZE) do_free s)"

text \<open>\<open>npages\<close> is a C \<open>int\<close>, converted back to \<open>uint64\<close> by the call.\<close>

definition uvmdealloc :: "uint64 \<Rightarrow> uint64 \<Rightarrow> uint64 \<Rightarrow> 'z kmem_scheme \<Rightarrow> (uint64 \<times> 'z kmem_scheme) res" where
  "uvmdealloc pt oldsz newsz s =
     (if newsz \<ge> oldsz then Ok (oldsz, s)
      else if PGROUNDUP newsz < PGROUNDUP oldsz
      then
        let npages = (ucast ((PGROUNDUP oldsz - PGROUNDUP newsz) div PGSIZE) :: 32 word)
        in bindr (uvmunmap pt (PGROUNDUP newsz) (scast npages) True s) (\<lambda>s. Ok (newsz, s))
      else Ok (newsz, s))"

function uvmalloc_loop ::
    "uint64 \<Rightarrow> uint64 \<Rightarrow> uint64 \<Rightarrow> uint64 \<Rightarrow> uint64 \<Rightarrow> 'z kmem_scheme \<Rightarrow> (uint64 \<times> 'z kmem_scheme) res" where
  "uvmalloc_loop pt oldsz a newsz xperm s =
     (if a < newsz then
        bindr (get_frame s) (\<lambda>(pg, s).
        if pg = 0 then bindr (uvmdealloc pt a oldsz s) (\<lambda>(_, s). Ok (0, s))
        else
          bindr (mappages pt a PGSIZE pg (PTE_R OR PTE_U OR xperm) (memset_page pg 0 s)) (\<lambda>(r, s).
          if r \<noteq> 0
          then bindr (kfree pg s) (\<lambda>s. bindr (uvmdealloc pt a oldsz s) (\<lambda>(_, s). Ok (0, s)))
          else
            bindr (frametable_alloc pg (myproc s) a s) (\<lambda>s.
            uvmalloc_loop pt oldsz (a + PGSIZE) newsz xperm s)))
      else Ok (newsz, s))"
  by auto

lemma mappages_OkD: "mappages pt va len pa perm s = Ok r \<Longrightarrow> va < MAXVA"
  by (auto simp: mappages_def mappages_loop.simps [of pt va] dest: walk_OkD split: if_splits)

termination uvmalloc_loop
  by (relation "measure (\<lambda>(_, _, a, _). unat MAXVA - unat a)")
     (auto dest!: mappages_OkD below_MAXVA_next)

declare uvmalloc_loop.simps [simp del]

definition uvmalloc ::
    "uint64 \<Rightarrow> uint64 \<Rightarrow> uint64 \<Rightarrow> uint64 \<Rightarrow> 'z kmem_scheme \<Rightarrow> (uint64 \<times> 'z kmem_scheme) res" where
  "uvmalloc pt oldsz newsz xperm s =
     (if newsz < oldsz then Ok (oldsz, s)
      else uvmalloc_loop pt (PGROUNDUP oldsz) (PGROUNDUP oldsz) newsz xperm s)"

text \<open>\<open>freewalk\<close> calls itself on the tables below. \<open>depth\<close> is the number of nested calls that fit the
  kernel stack, beyond which the guard page traps; a three-level table needs three.\<close>

fun freewalk :: "nat \<Rightarrow> uint64 \<Rightarrow> 'z kmem_scheme \<Rightarrow> 'z kmem_scheme res" where
  "freewalk 0 pt s = Panic ''kerneltrap''"
| "freewalk (Suc depth) pt s =
     bindr (loop_res (\<lambda>i s.
       let pte = ld64 (mem s) (pt + 8 * of_nat i)
       in if pte AND PTE_V \<noteq> 0 \<and> pte AND (PTE_R OR PTE_W OR PTE_X) = 0
          then bindr (freewalk depth (PTE2PA pte) s) (\<lambda>s.
               Ok (s\<lparr>mem := st64 (mem s) (pt + 8 * of_nat i) 0\<rparr>))
          else if pte AND PTE_V \<noteq> 0 then Panic ''freewalk: leaf''
          else Ok s) [0..<512] s) (kfree pt)"

abbreviation (input) STACK_DEPTH :: nat where "STACK_DEPTH \<equiv> 32"

definition uvmfree :: "uint64 \<Rightarrow> uint64 \<Rightarrow> 'z kmem_scheme \<Rightarrow> 'z kmem_scheme res" where
  "uvmfree pt size_bytes s =
     bindr (if size_bytes > 0 then uvmunmap pt 0 (PGROUNDUP size_bytes div PGSIZE) True s else Ok s) (freewalk STACK_DEPTH pt)"

subsection \<open>Faults, copies between address spaces and processes\<close>

definition ismapped :: "uint64 \<Rightarrow> uint64 \<Rightarrow> 'z kmem_scheme \<Rightarrow> bool res" where
  "ismapped pt va s =
     bindr (walk pt va False s) (\<lambda>(pte, s).
     case pte of None \<Rightarrow> Ok False | Some pte \<Rightarrow> Ok (ld64 (mem s) pte AND PTE_V \<noteq> 0))"

definition vmfault :: "uint64 \<Rightarrow> uint64 \<Rightarrow> 'z kmem_scheme \<Rightarrow> (uint64 \<times> 'z kmem_scheme) res" where
  "vmfault pt va0 s =
     (if va0 \<ge> MAXVA \<or> (case myproc s of None \<Rightarrow> False | Some p \<Rightarrow> va0 \<ge> sz (procs s p)) then Ok (0, s)
      else
        bindr (walk pt va0 False s) (\<lambda>(pte, s).
        case myproc s of
          None \<Rightarrow> Panic ''kerneltrap''
        | Some p \<Rightarrow>
          if va0 \<ge> sz (procs s p) then Ok (0, s)
          else
            let va = PGROUNDDOWN va0
            in bindr (ismapped pt va s) (\<lambda>mapped.
            if mapped then Ok (0, s)
            else
              let s = upd_proc p (\<lambda>q. q\<lparr>page_faults := page_faults q + 1\<rparr>) s
              in if (case pte of None \<Rightarrow> False | Some pte \<Rightarrow> ld64 (mem s) pte AND PTE_S \<noteq> 0)
                 then
                   let pte = the pte;
                       swap_idx = pte_slot (ld64 (mem s) pte)
                   in bindr (get_frame s) (\<lambda>(pa, s).
                      if pa = 0 then Panic ''oom vmfault''
                      else
                        bindr (swapin pa swap_idx s) (\<lambda>s.
                        let e = ld64 (mem s) pte;
                            s = s\<lparr>mem := st64 (mem s) pte (PA2PTE pa OR (PTE_FLAGS e AND NOT PTE_S) OR PTE_V)\<rparr>;
                            s = upd_proc p (\<lambda>q. q\<lparr>pages_swapped_in := pages_swapped_in q + 1\<rparr>) s
                        in bindr (frametable_alloc pa (Some p) va s) (\<lambda>s. Ok (pa, s))))
                 else
                   bindr (get_frame s) (\<lambda>(pg, s).
                   if pg = 0 then Ok (0, s)
                   else
                     bindr (mappages (pagetable (procs s p)) va PGSIZE pg (PTE_W OR PTE_U OR PTE_R)
                              (memset_page pg 0 s)) (\<lambda>(r, s).
                     if r \<noteq> 0 then bindr (kfree pg s) (\<lambda>s. Ok (0, s))
                     else bindr (frametable_alloc pg (Some p) va s) (\<lambda>s. Ok (pg, s)))))))"

definition uvmcopy_fail :: "uint64 \<Rightarrow> uint64 \<Rightarrow> 'z kmem_scheme \<Rightarrow> (int \<times> 'z kmem_scheme) res" where
  "uvmcopy_fail new i s = bindr (uvmunmap new 0 (i div PGSIZE) True s) (\<lambda>s. Ok (-1, s))"

text \<open>The body of the loop after the entry was found present: copy the page, map it, register it. \<open>None\<close>
  says that the loop goes on.\<close>

definition uvmcopy_page ::
    "uint64 \<Rightarrow> uint64 \<Rightarrow> nat option \<Rightarrow> uint64 \<Rightarrow> 'z kmem_scheme \<Rightarrow> (int option \<times> 'z kmem_scheme) res" where
  "uvmcopy_page new i np pte s =
     (let pa = PTE2PA (ld64 (mem s) pte);
          flags = PTE_FLAGS (ld64 (mem s) pte)
      in bindr (get_frame s) (\<lambda>(pg, s).
         if pg = 0 then bindr (uvmcopy_fail new i s) (\<lambda>(r, s). Ok (Some r, s))
         else
           let s = s\<lparr>mem := st_bytes (mem s) pg (ld_bytes (mem s) pa 4096)\<rparr>
           in bindr (mappages new i PGSIZE pg flags s) (\<lambda>(r, s).
              if r \<noteq> 0
              then bindr (kfree pg s) (\<lambda>s. bindr (uvmcopy_fail new i s) (\<lambda>(r, s). Ok (Some r, s)))
              else bindr (frametable_alloc pg np i s) (\<lambda>s. Ok (None, s)))))"

function uvmcopy_loop ::
    "uint64 \<Rightarrow> uint64 \<Rightarrow> uint64 \<Rightarrow> nat option \<Rightarrow> uint64 \<Rightarrow> 'z kmem_scheme \<Rightarrow> (int \<times> 'z kmem_scheme) res" where
  "uvmcopy_loop old new size_bytes np i s =
     (if i < size_bytes then
        bindr (walk old i False s) (\<lambda>(pte, s).
        case pte of
          None \<Rightarrow> uvmcopy_loop old new size_bytes np (i + PGSIZE) s
        | Some pte \<Rightarrow>
          let e = ld64 (mem s) pte
          in if e AND PTE_V = 0 \<and> e AND PTE_S = 0
             then uvmcopy_loop old new size_bytes np (i + PGSIZE) s
             else
               bindr (if e AND PTE_V = 0 then vmfault old i s else Ok (1, s)) (\<lambda>(r, s).
               if r = 0 then uvmcopy_fail new i s
               else
                 bindr (uvmcopy_page new i np pte s) (\<lambda>(stop, s).
                 case stop of
                   Some r \<Rightarrow> Ok (r, s)
                 | None \<Rightarrow> uvmcopy_loop old new size_bytes np (i + PGSIZE) s)))
      else Ok (0, s))"
  by auto

termination uvmcopy_loop
  by (relation "measure (\<lambda>(_, _, _, _, i, _). unat MAXVA - unat i)")
     (auto dest!: walk_OkD below_MAXVA_next)

declare uvmcopy_loop.simps [simp del]

definition uvmcopy :: "uint64 \<Rightarrow> uint64 \<Rightarrow> uint64 \<Rightarrow> nat option \<Rightarrow> 'z kmem_scheme \<Rightarrow> (int \<times> 'z kmem_scheme) res" where
  "uvmcopy old new size_bytes np s = uvmcopy_loop old new size_bytes np 0 s"

definition uvmclear :: "uint64 \<Rightarrow> uint64 \<Rightarrow> 'z kmem_scheme \<Rightarrow> 'z kmem_scheme res" where
  "uvmclear pt va s =
     bindr (walk pt va False s) (\<lambda>(pte, s).
     case pte of
       None \<Rightarrow> Panic ''uvmclear''
     | Some pte \<Rightarrow> Ok (s\<lparr>mem := st64 (mem s) pte (ld64 (mem s) pte AND NOT PTE_U)\<rparr>))"

text \<open>The bytes of a page that an access of \<open>len\<close> bytes at \<open>va\<close> covers.\<close>

definition chunk :: "uint64 \<Rightarrow> nat \<Rightarrow> nat" where
  "chunk va len = min (4096 - unat (va - PGROUNDDOWN va)) len"

lemma chunk_pos: "0 < len \<Longrightarrow> 0 < chunk va len"
  using PGROUNDDOWN_offset [of va] by (simp add: chunk_def)

text \<open>\<open>walkaddr\<close> with the fall back to \<open>vmfault\<close>, shared by \<open>copyout\<close> and \<open>copyin\<close>.\<close>

definition user_page :: "uint64 \<Rightarrow> uint64 \<Rightarrow> 'z kmem_scheme \<Rightarrow> (uint64 \<times> 'z kmem_scheme) res" where
  "user_page pt va0 s =
     (let pa0 = walkaddr (mem s) pt va0 in if pa0 = 0 then vmfault pt va0 s else Ok (pa0, s))"

text \<open>The source of \<open>copyout\<close> is kernel data, given by its bytes; \<open>len\<close> is their number.\<close>

function copyout :: "uint64 \<Rightarrow> uint64 \<Rightarrow> uint8 list \<Rightarrow> 'z kmem_scheme \<Rightarrow> (int \<times> 'z kmem_scheme) res" where
  "copyout pt dstva src s =
     (if src = [] then Ok (0, s)
      else
        let va0 = PGROUNDDOWN dstva
        in if va0 \<ge> MAXVA then Ok (-1, s)
           else
             bindr (user_page pt va0 s) (\<lambda>(pa0, s).
             if pa0 = 0 then Ok (-1, s)
             else
               bindr (walk pt va0 False s) (\<lambda>(pte, s).
               case pte of
                 None \<Rightarrow> Panic ''kerneltrap''
               | Some pte \<Rightarrow>
                 if ld64 (mem s) pte AND PTE_W = 0 then Ok (-1, s)
                 else
                   let n = chunk dstva (length src);
                       s = s\<lparr>mem := st_bytes (mem s) (pa0 + (dstva - va0)) (take n src)\<rparr>
                   in copyout pt (va0 + PGSIZE) (drop n src) s)))"
  by auto

termination copyout
proof (relation "measure (\<lambda>(_, _, src, _). length src)")
  fix src :: "uint8 list" and dstva pt :: uint64 and s s' :: "'z kmem_scheme" and va0 n
  assume "src \<noteq> []" "n = chunk dstva (length src)"
  then show "((pt, va0 + PGSIZE, drop n src, s'), pt, dstva, src, s) \<in> measure (\<lambda>(_, _, src, _). length src)"
    using chunk_pos [of "length src" dstva] by simp
qed simp

declare copyout.simps [simp del]

text \<open>\<open>copyin\<close> gives the return value and the bytes written to \<open>dst\<close>, also when it fails.\<close>

function copyin :: "uint64 \<Rightarrow> uint64 \<Rightarrow> nat \<Rightarrow> 'z kmem_scheme \<Rightarrow> (int \<times> uint8 list \<times> 'z kmem_scheme) res" where
  "copyin pt srcva len s =
     (if len = 0 then Ok (0, [], s)
      else
        let va0 = PGROUNDDOWN srcva
        in bindr (user_page pt va0 s) (\<lambda>(pa0, s).
           if pa0 = 0 then Ok (-1, [], s)
           else
             let n = chunk srcva len;
                 bs = ld_bytes (mem s) (pa0 + (srcva - va0)) n
             in bindr (copyin pt (va0 + PGSIZE) (len - n) s) (\<lambda>(r, cs, s). Ok (r, bs @ cs, s))))"
  by auto

termination copyin
  by (relation "measure (\<lambda>(_, _, len, _). len)") (auto intro!: diff_less chunk_pos)

declare copyin.simps [simp del]

text \<open>The inner loop of \<open>copyinstr\<close> on the bytes of one page: what it writes, and whether it met the end
  of the string.\<close>

fun copy_until_nul :: "uint8 list \<Rightarrow> uint8 list \<times> bool" where
  "copy_until_nul [] = ([], False)"
| "copy_until_nul (c # cs) =
     (if c = 0 then ([0], True) else (let (w, got_null) = copy_until_nul cs in (c # w, got_null)))"

function copyinstr :: "bytemem \<Rightarrow> uint64 \<Rightarrow> uint64 \<Rightarrow> nat \<Rightarrow> int \<times> uint8 list" where
  "copyinstr m pt srcva maxlen =
     (if maxlen = 0 then (-1, [])
      else
        let va0 = PGROUNDDOWN srcva;
            pa0 = walkaddr m pt va0
        in if pa0 = 0 then (-1, [])
           else
             let n = chunk srcva maxlen;
                 (w, got_null) = copy_until_nul (ld_bytes m (pa0 + (srcva - va0)) n)
             in if got_null then (0, w)
                else (let (r, w') = copyinstr m pt (va0 + PGSIZE) (maxlen - n) in (r, w @ w')))"
  by auto

termination copyinstr
  by (relation "measure (\<lambda>(_, _, _, n). n)") (auto intro!: diff_less chunk_pos)

declare copyinstr.simps [simp del]

subsection \<open>The kernel page table\<close>

definition kvmmap :: "uint64 \<Rightarrow> uint64 \<Rightarrow> uint64 \<Rightarrow> uint64 \<Rightarrow> uint64 \<Rightarrow> 'z kmem_scheme \<Rightarrow> 'z kmem_scheme res" where
  "kvmmap kpgtbl va pa len perm s =
     bindr (mappages kpgtbl va len pa perm s) (\<lambda>(r, s). if r \<noteq> 0 then Panic ''kvmmap'' else Ok s)"

definition proc_mapstacks :: "uint64 \<Rightarrow> 'z kmem_scheme \<Rightarrow> 'z kmem_scheme res" where
  "proc_mapstacks kpgtbl =
     loop_res (\<lambda>p s.
       bindr (kalloc s) (\<lambda>(pa, s).
       if pa = 0 then Panic ''kalloc''
       else kvmmap kpgtbl (KSTACK p) pa PGSIZE (PTE_R OR PTE_W) s)) [0..<NPROC]"

text \<open>\<open>etext\<close> and \<open>trampoline\<close> are addresses the linker chooses.\<close>

definition kvmmake :: "uint64 \<Rightarrow> uint64 \<Rightarrow> 'z kmem_scheme \<Rightarrow> (uint64 \<times> 'z kmem_scheme) res" where
  "kvmmake etext trampoline s =
     bindr (kalloc s) (\<lambda>(kpgtbl, s).
     if kpgtbl = 0 then Panic ''kerneltrap''
     else
       let s = memset_page kpgtbl 0 s
       in bindr (kvmmap kpgtbl 0x10000000 0x10000000 PGSIZE (PTE_R OR PTE_W) s) (\<lambda>s.
          bindr (kvmmap kpgtbl 0x10001000 0x10001000 PGSIZE (PTE_R OR PTE_W) s) (\<lambda>s.
          bindr (kvmmap kpgtbl 0x2000000 0x2000000 0x10000 (PTE_R OR PTE_W) s) (\<lambda>s.
          bindr (kvmmap kpgtbl 0x0c000000 0x0c000000 0x4000000 (PTE_R OR PTE_W) s) (\<lambda>s.
          bindr (kvmmap kpgtbl KERNBASE KERNBASE (etext - KERNBASE) (PTE_R OR PTE_X) s) (\<lambda>s.
          bindr (kvmmap kpgtbl etext etext (PHYSTOP - etext) (PTE_R OR PTE_W) s) (\<lambda>s.
          bindr (kvmmap kpgtbl TRAMPOLINE trampoline PGSIZE (PTE_R OR PTE_X) s) (\<lambda>s.
          bindr (proc_mapstacks kpgtbl s) (\<lambda>s.
          Ok (kpgtbl, s))))))))))"

section \<open>The walk\<close>

text \<open>Without \<open>alloc\<close> the walk is the lookup the clock and \<open>swapout\<close> use.\<close>

lemma walk_from_lookup: "walk_from level pt va False s = Ok (walk_levels (mem s) level pt va, s)"
  by (induction level arbitrary: pt) (simp_all add: Let_def next_level_def)

lemma walk_lookup_walk [simp]:
  "walk pt va False s = (if va \<ge> MAXVA then Panic ''walk'' else Ok (walk_levels (mem s) 2 pt va, s))"
  by (simp add: walk_def walk_from_lookup)

lemma walk_levels_leaf:
  "walk_levels m 2 pt va = map_option (\<lambda>p. p + 8 * of_nat (px 0 va)) (pt_page m pt (leaf_path va))"
  by (auto simp: leaf_path_def numeral_2_eq_2 pte_addr_px child_def pt_page.simps split: option.splits)

text \<open>A page table together with the free pages it can grow into.\<close>

definition vm_ok :: "'z kmem_scheme \<Rightarrow> uint64 \<Rightarrow> uint64 list \<Rightarrow> bool" where
  "vm_ok s pt xs \<longleftrightarrow> locks_free s \<and> free_list s xs \<and> pt_wf (mem s) pt \<and> pt_pages (mem s) pt \<inter> set xs = {}"

text \<open>\<open>s'\<close> differs from \<open>s\<close> in the table pages of \<open>pt\<close>, which grew by the first pages \<open>ys\<close> of the free list.\<close>

definition vm_grow :: "uint64 \<Rightarrow> uint64 list \<Rightarrow> 'z kmem_scheme \<Rightarrow> 'z kmem_scheme \<Rightarrow> bool" where
  "vm_grow pt ys s s' \<longleftrightarrow> (\<exists>m l. s' = s\<lparr>mem := m, freelist := l\<rparr>) \<and>
     pt_pages (mem s') pt = pt_pages (mem s) pt \<union> set ys \<and>
     (\<forall>q. q \<notin> pt_pages (mem s) pt \<union> set ys \<longrightarrow> page_eq q (mem s') (mem s))"

lemma vm_grow_refl [simp]: "vm_grow pt [] s s"
  by (simp add: vm_grow_def) (metis kmem.surjective kmem.update_convs(1,2))

lemma vm_grow_trans:
  assumes "vm_grow pt ys s s'" "vm_grow pt zs s' s''"
  shows "vm_grow pt (ys @ zs) s s''"
proof -
  obtain m l where "s' = s\<lparr>mem := m, freelist := l\<rparr>" using assms(1) by (auto simp: vm_grow_def)
  moreover obtain m' l' where "s'' = s'\<lparr>mem := m', freelist := l'\<rparr>" using assms(2) by (auto simp: vm_grow_def)
  ultimately have "s'' = s\<lparr>mem := m', freelist := l'\<rparr>" by (cases s) simp
  moreover have pages: "pt_pages (mem s') pt = pt_pages (mem s) pt \<union> set ys"
    "pt_pages (mem s'') pt = pt_pages (mem s') pt \<union> set zs"
    using assms by (simp_all add: vm_grow_def)
  moreover have "page_eq q (mem s'') (mem s)" if "q \<notin> pt_pages (mem s) pt \<union> set (ys @ zs)" for q
    by (rule page_eq_trans [of q _ "mem s'"]) (use that assms pages in \<open>simp_all add: vm_grow_def\<close>)
  ultimately show ?thesis unfolding vm_grow_def by auto
qed

text \<open>One level of the walk: the table exists, or the next free page becomes it.\<close>

lemma walk_level:
  assumes vm: "vm_ok s pt xs" and P: "pt_path (P @ [px (Suc level) va])" "pt_page (mem s) pt P = Some q"
    and xs: "xs \<noteq> []"
  shows "\<exists>s' q' ys zs. walk_from (Suc level) q va True s = walk_from level q' va True s' \<and> xs = ys @ zs \<and> length ys \<le> 1 \<and>
     vm_ok s' pt zs \<and> vm_grow pt ys s s' \<and> pt_page (mem s') pt (P @ [px (Suc level) va]) = Some q' \<and>
     pte_of (mem s') pt = pte_of (mem s) pt"
proof (cases "child (mem s) q (px (Suc level) va)")
  case (Some q')
  then have "walk_from (Suc level) q va True s = walk_from level q' va True s"
    by (auto simp: child_def next_level_def pte_addr_px Let_def split: if_splits)
  moreover have "pt_page (mem s) pt (P @ [px (Suc level) va]) = Some q'" using Some P(2) by (simp add: pt_page_snoc)
  ultimately show ?thesis
    using vm by (intro exI [of _ s] exI [of _ q'] exI [of _ "[]"] exI [of _ xs]) auto
next
  case None
  let ?a = "q + 8 * of_nat (px (Suc level) va)"
  obtain pa zs where xs: "xs = pa # zs" using xs by (cases xs) auto
  have fl: "free_list s (pa # zs)" "locks_free s" "pt_wf (mem s) pt" "pt_pages (mem s) pt \<inter> set (pa # zs) = {}"
    using vm xs by (simp_all add: vm_ok_def)
  note pop = kalloc_pop [OF fl(1)]
  define s' where "s' = (memset_page pa 0 (kalloc_st s))\<lparr>mem := add_table (mem (kalloc_st s)) ?a pa\<rparr>"
  have "kalloc s = Ok (pa, kalloc_st s)" using kalloc_ok [of s] pop(1,2) fl(2) by simp
  moreover have "ld64 (mem s) ?a AND PTE_V = 0" using None by (auto simp: child_def next_level_def split: if_splits)
  ultimately have step: "walk_from (Suc level) q va True s = walk_from level pa va True s'"
    using pop(2) by (simp add: Let_def pte_addr_px s'_def memset_page_def add_table_def)
  have al: "page_aligned pa" "page_aligned pt" "page_aligned q"
    using pop(4) fl(3) pt_page_aligned [OF _ P(2)] by (auto simp: alloc_page_def pt_wf_def)
  have frame: "page_eq p (mem s) (mem (kalloc_st s))" if "p \<noteq> pa" for p
    using kalloc_page_eq [of s p] pop(1) al(1) that by (auto intro: page_eq_sym)
  have old: "page_eq p (mem s) (mem (kalloc_st s))" if "p \<in> pt_pages (mem s) pt" for p
    using that fl(4) by (intro frame) auto
  note keep = pt_frame [OF fl(3) old]
  have PM: "pt_page (mem (kalloc_st s)) pt P = Some q"
    using pt_page_cong [OF al(2) _ old, of P] P by simp
  have "q \<in> pt_pages (mem s) pt" using pt_page_in P by auto
  then have CM: "child (mem (kalloc_st s)) q (px (Suc level) va) = None"
    using None child_cong [OF al(3) px_less old, of "Suc level" va] by simp
  have fresh: "pa \<notin> pt_pages (mem (kalloc_st s)) pt" using keep(2) fl(4) by auto
  note add = pt_add_table [OF keep(1) P(1) PM CM al(1) fresh]
  have m': "mem s' = add_table (mem (kalloc_st s)) ?a pa" by (simp add: s'_def)
  have qx: "q \<notin> set (pa # zs)" using \<open>q \<in> pt_pages (mem s) pt\<close> fl(4) by auto
  have eq: "page_eq p (mem s') (mem (kalloc_st s))" if "p \<noteq> pa" "p \<noteq> q" for p
    using that st_page_eq [OF al(1), of "replicate 4096 0" p]
      st64_page_eq [OF al(3), of "px (Suc level) va" p] unfolding m' add_table_def by (auto intro: page_eq_trans)
  have zs: "x \<noteq> pa" "x \<noteq> q" "page_aligned x" if "x \<in> set zs" for x
    using that fl(1) qx by (auto simp: free_list_def alloc_page_def)
  have "fl_chain (mem s') a zs \<longleftrightarrow> fl_chain (mem (kalloc_st s)) a zs" for a
    using eq zs by (intro fl_chain_cong) auto
  then have "free_list s' zs"
    using pop(3) by (simp add: free_list_def s'_def memset_page_def alloc_page_def)
  moreover have "locks_free s'" using fl(2) by (simp add: locks_free_def s'_def memset_page_def)
  moreover have pages: "pt_pages (mem s') pt = insert pa (pt_pages (mem s) pt)" using add(2) keep(2) m' by simp
  ultimately have "vm_ok s' pt zs"
    using add(1) fl(1,4) zs(1) m' by (auto simp: vm_ok_def)
  moreover have "vm_grow pt [pa] s s'"
  proof -
    have "s' = s\<lparr>mem := mem s', freelist := freelist s'\<rparr>"
      by (cases s) (simp add: s'_def memset_page_def kalloc_st_def)
    moreover have "page_eq p (mem s') (mem s)" if "p \<notin> insert pa (pt_pages (mem s) pt)" for p
      using that eq [of p] frame [of p] \<open>q \<in> pt_pages (mem s) pt\<close> by (auto intro: page_eq_trans page_eq_sym)
    ultimately show ?thesis using pages unfolding vm_grow_def by auto
  qed
  moreover have "pte_of (mem s') pt = pte_of (mem s) pt" using add(4) keep(3) m' by auto
  ultimately show ?thesis
    using step add(3) m' xs by (intro exI [of _ s'] exI [of _ pa] exI [of _ "[pa]"] exI [of _ zs]) auto
qed

lemma walk_alloc:
  assumes vm: "vm_ok s pt xs" and va: "va < MAXVA" and xs: "2 \<le> length xs"
  shows "\<exists>s' p ys zs. walk pt va True s = Ok (Some (p + 8 * of_nat (px 0 va)), s') \<and> xs = ys @ zs \<and> length ys \<le> 2 \<and>
     vm_ok s' pt zs \<and> vm_grow pt ys s s' \<and> pt_page (mem s') pt (leaf_path va) = Some p \<and>
     pte_of (mem s') pt = pte_of (mem s) pt"
proof -
  have "xs \<noteq> []" using xs by auto
  then obtain s1 q1 ys1 zs1 where 1: "walk_from 2 pt va True s = walk_from 1 q1 va True s1" "xs = ys1 @ zs1" "length ys1 \<le> 1"
    "vm_ok s1 pt zs1" "vm_grow pt ys1 s s1" "pt_page (mem s1) pt [px 2 va] = Some q1" "pte_of (mem s1) pt = pte_of (mem s) pt"
    using walk_level [OF vm, of "[]" 1 va pt] by (auto simp: numeral_2_eq_2 pt_path_def)
  have "zs1 \<noteq> []" using xs 1(2,3) by auto
  then obtain s2 q2 ys2 zs2 where 2: "walk_from 1 q1 va True s1 = walk_from 0 q2 va True s2" "zs1 = ys2 @ zs2" "length ys2 \<le> 1"
    "vm_ok s2 pt zs2" "vm_grow pt ys2 s1 s2" "pt_page (mem s2) pt [px 2 va, px 1 va] = Some q2"
    "pte_of (mem s2) pt = pte_of (mem s1) pt"
    using walk_level [OF 1(4) _ 1(6), of 0 va] by (auto simp: pt_path_def)
  show ?thesis
    using 1 2 va vm_grow_trans [OF 1(5) 2(5)]
    by (intro exI [of _ s2] exI [of _ q2] exI [of _ "ys1 @ ys2"] exI [of _ zs2])
       (auto simp: walk_def pte_addr_px leaf_path_def)
qed

section \<open>Mapping\<close>

lemma same_vpage_eq:
  assumes "page_aligned a" "page_aligned b" "a < MAXVA" "b < MAXVA"
  shows "same_vpage a b \<longleftrightarrow> a = b"
  using PX_inject [OF assms] by (auto simp: same_vpage_def leaf_path_def px_def unsigned_word_eqI)

lemma vm_store:
  fixes v :: uint64
  assumes vm: "vm_ok s pt xs" and leaf: "pt_page (mem s) pt (leaf_path va) = Some p"
  defines "s' \<equiv> s\<lparr>mem := st64 (mem s) (p + 8 * of_nat (px 0 va)) v\<rparr>"
  shows "vm_ok s' pt xs" "vm_grow pt [] s s'"
    "pte_of (mem s') pt va' = (if same_vpage va' va then v else pte_of (mem s) pt va')"
proof -
  have wf: "pt_wf (mem s) pt" "pt_pages (mem s) pt \<inter> set xs = {}" using vm by (simp_all add: vm_ok_def)
  note st = pt_store_leaf [OF wf(1) leaf, of v]
  have p: "p \<in> pt_pages (mem s) pt" by (rule pt_page_in [OF _ leaf]) simp
  have al: "page_aligned p" using wf(1) pt_page_aligned [OF _ leaf] by (auto simp: pt_wf_def)
  have eq: "page_eq q (mem s') (mem s)" if "q \<noteq> p" for q
    using st64_page_eq [OF al px_less that] by (simp add: s'_def)
  have "fl_chain (mem s') a xs \<longleftrightarrow> fl_chain (mem s) a xs" for a
    using vm p wf(2) by (intro fl_chain_cong) (auto simp: vm_ok_def free_list_def alloc_page_def intro!: eq)
  then show "vm_ok s' pt xs"
    using vm st(1,2) unfolding vm_ok_def locks_free_def free_list_def alloc_page_def s'_def by simp
  have "s' = s\<lparr>mem := mem s', freelist := freelist s\<rparr>" by (simp add: s'_def)
  then have "\<exists>m l. s' = s\<lparr>mem := m, freelist := l\<rparr>" by blast
  moreover have "page_eq q (mem s') (mem s)" if "q \<notin> pt_pages (mem s) pt" for q
    by (rule eq) (use p that in auto)
  moreover have "pt_pages (mem s') pt = pt_pages (mem s) pt" using st(2) by (simp add: s'_def)
  ultimately show "vm_grow pt [] s s'" unfolding vm_grow_def by simp
  show "pte_of (mem s') pt va' = (if same_vpage va' va then v else pte_of (mem s) pt va')"
    using st(3) by (simp add: s'_def)
qed

lemma pte_of_leaf:
  "pt_page m pt (leaf_path va) = Some p \<Longrightarrow> ld64 m (p + 8 * of_nat (px 0 va)) = pte_of m pt va"
  by (simp add: pte_of_def)

text \<open>The address \<open>a\<close> lies in the \<open>n\<close> pages from \<open>va\<close> on.\<close>

definition in_run :: "uint64 \<Rightarrow> nat \<Rightarrow> uint64 \<Rightarrow> bool" where
  "in_run va n a \<longleftrightarrow> unat va \<le> unat a \<and> unat a < unat va + 4096 * n"

lemma va_next:
  assumes "page_aligned a" "unat a + 4096 \<le> unat MAXVA"
  shows "unat (a + PGSIZE) = unat a + 4096" "page_aligned (a + PGSIZE)"
proof -
  show *: "unat (a + PGSIZE) = unat a + 4096"
    using assms(2) by (subst unat_add_lem [THEN iffD1]) simp_all
  show "page_aligned (a + PGSIZE)" using assms(1) by (simp add: page_aligned_def *)
qed

lemma va_plus:
  assumes "unat a + 4096 * k \<le> unat MAXVA"
  shows "unat (a + PGSIZE * of_nat k) = unat a + 4096 * k"
proof -
  have "unat (PGSIZE * of_nat k :: uint64) = 4096 * k"
    using assms by (subst unat_mult_lem [THEN iffD1]) (simp_all add: unat_of_nat)
  then show ?thesis using assms by (subst unat_add_lem [THEN iffD1]) simp_all
qed

lemma in_run_Suc:
  assumes "page_aligned va" "page_aligned a" "unat va + 4096 \<le> unat MAXVA"
  shows "in_run va (Suc n) a \<longleftrightarrow> a = va \<or> in_run (va + PGSIZE) n a"
proof -
  obtain i j where "unat va = 4096 * i" "unat a = 4096 * j" using assms(1,2) by (auto simp: page_aligned_def elim!: dvdE)
  then show ?thesis
    unfolding in_run_def va_next(1) [OF assms(1,3)] word_unat_eq_iff by auto
qed

lemma mappages_loop_ok:
  assumes "vm_ok s pt xs" "page_aligned a" "unat a + 4096 * Suc n \<le> unat MAXVA" "2 * Suc n \<le> length xs"
    "\<forall>b. page_aligned b \<longrightarrow> b < MAXVA \<longrightarrow> in_run a (Suc n) b \<longrightarrow> pte_of (mem s) pt b AND PTE_V = 0"
  shows "\<exists>s' ys zs. mappages_loop pt a (a + PGSIZE * of_nat n) pa perm s = Ok (0, s') \<and> xs = ys @ zs \<and> length ys \<le> 2 * Suc n \<and>
    vm_ok s' pt zs \<and> vm_grow pt ys s s' \<and>
    (\<forall>b. page_aligned b \<longrightarrow> b < MAXVA \<longrightarrow> pte_of (mem s') pt b =
       (if in_run a (Suc n) b then PA2PTE (pa + (b - a)) OR perm OR PTE_V else pte_of (mem s) pt b))"
  using assms
proof (induction n arbitrary: s a pa xs)
  case (0 s a pa xs)
  have lt: "a < MAXVA" "unat a + 4096 \<le> unat MAXVA" using 0(3) by (simp_all add: word_less_nat_alt)
  obtain s1 p ys zs where w: "walk pt a True s = Ok (Some (p + 8 * of_nat (px 0 a)), s1)" "xs = ys @ zs"
    "vm_ok s1 pt zs" "vm_grow pt ys s s1" "pt_page (mem s1) pt (leaf_path a) = Some p" "pte_of (mem s1) pt = pte_of (mem s) pt"
    "length ys \<le> 2"
    using walk_alloc [OF 0(1) lt(1)] 0(4) by auto
  have run: "in_run a (Suc 0) b \<longleftrightarrow> b = a" if "page_aligned b" for b
    using in_run_Suc [OF 0(2) that lt(2), of 0] by (auto simp: in_run_def)
  then have "pte_of (mem s) pt a AND PTE_V = 0" using 0(2,5) lt(1) by simp
  then show ?case
    using w pte_of_leaf [OF w(5)] vm_store [OF w(3,5), of "PA2PTE pa OR perm OR PTE_V"] same_vpage_eq [OF _ 0(2) _ lt(1)]
      vm_grow_trans [OF w(4) vm_store(2) [OF w(3,5), of "PA2PTE pa OR perm OR PTE_V"]]
    by (subst mappages_loop.simps) (auto simp: run)
next
  case (Suc n s a pa xs)
  have lt: "a < MAXVA" "unat a + 4096 \<le> unat MAXVA" using Suc.prems(3) by (simp_all add: word_less_nat_alt)
  obtain s1 p ys zs where w: "walk pt a True s = Ok (Some (p + 8 * of_nat (px 0 a)), s1)" "xs = ys @ zs" "length ys \<le> 2"
    "vm_ok s1 pt zs" "vm_grow pt ys s s1" "pt_page (mem s1) pt (leaf_path a) = Some p" "pte_of (mem s1) pt = pte_of (mem s) pt"
    using walk_alloc [OF Suc.prems(1) lt(1)] Suc.prems(4) by auto
  define v where "v = PA2PTE pa OR perm OR PTE_V"
  define s2 where "s2 = s1\<lparr>mem := st64 (mem s1) (p + 8 * of_nat (px 0 a)) v\<rparr>"
  note st = vm_store [OF w(4,6), of v, folded s2_def]
  note run = in_run_Suc [OF Suc.prems(2) _ lt(2)]
  note nx = va_next [OF Suc.prems(2) lt(2)]
  have pte2: "pte_of (mem s2) pt b = (if b = a then v else pte_of (mem s) pt b)" if "page_aligned b" "b < MAXVA" for b
    using st(3) same_vpage_eq [OF that(1) Suc.prems(2) that(2) lt(1)] w(7) by simp
  have notin: "\<not> in_run (a + PGSIZE) (Suc n) a" by (simp add: in_run_def nx)
  have free2: "\<forall>b. page_aligned b \<longrightarrow> b < MAXVA \<longrightarrow> in_run (a + PGSIZE) (Suc n) b \<longrightarrow> pte_of (mem s2) pt b AND PTE_V = 0"
    using Suc.prems(5) notin run pte2 by auto
  have "unat (a + PGSIZE) + 4096 * Suc n \<le> unat MAXVA" "2 * Suc n \<le> length zs"
    using Suc.prems(3,4) w(2,3) by (simp_all add: nx)
  from Suc.IH [OF st(1) nx(2) this free2, of "pa + PGSIZE"]
  obtain s3 ys' zs' where r: "mappages_loop pt (a + PGSIZE) (a + PGSIZE + PGSIZE * of_nat n) (pa + PGSIZE) perm s2 = Ok (0, s3)"
    "zs = ys' @ zs'" "vm_ok s3 pt zs'" "vm_grow pt ys' s2 s3" "length ys' \<le> 2 * Suc n"
    "\<forall>b. page_aligned b \<longrightarrow> b < MAXVA \<longrightarrow> pte_of (mem s3) pt b =
       (if in_run (a + PGSIZE) (Suc n) b then PA2PTE (pa + PGSIZE + (b - (a + PGSIZE))) OR perm OR PTE_V
        else pte_of (mem s2) pt b)"
    by auto
  have last: "a + PGSIZE * of_nat (Suc n) = a + PGSIZE + PGSIZE * of_nat n" by (simp add: algebra_simps)
  have ne: "a \<noteq> a + PGSIZE * of_nat (Suc n)"
    using va_plus [of a "Suc n"] Suc.prems(3) unfolding word_unat_eq_iff by (simp del: of_nat_Suc)
  have "pte_of (mem s) pt a AND PTE_V = 0"
    using Suc.prems(2,5) lt(1) run by simp
  then have "mappages_loop pt a (a + PGSIZE * of_nat (Suc n)) pa perm s = Ok (0, s3)"
    using w(1,7) ne r(1) pte_of_leaf [OF w(6)]
    by (subst mappages_loop.simps) (simp add: s2_def v_def last del: of_nat_Suc)
  moreover have "pte_of (mem s3) pt b =
      (if in_run a (Suc (Suc n)) b then PA2PTE (pa + (b - a)) OR perm OR PTE_V else pte_of (mem s) pt b)"
    if "page_aligned b" "b < MAXVA" for b
    using r(6) that notin run [OF that(1)] pte2 [OF that] by (auto simp: v_def)
  moreover have "vm_grow pt ((ys @ []) @ ys') s s3"
    by (rule vm_grow_trans [OF vm_grow_trans [OF w(5) st(2)] r(4)])
  ultimately show ?case
    using w(2,3) r(2,3,5) by (intro exI [of _ s3] exI [of _ "ys @ ys'"] exI [of _ zs']) auto
qed

section \<open>New address spaces\<close>

lemma pt_page_zero:
  assumes "page_aligned pa" "pt_path P"
  shows "pt_page (st_bytes m pa (replicate 4096 0)) pa P = (if P = [] then Some pa else None)"
proof (cases P)
  case (Cons i Q)
  then have "i < 512" using assms(2) by (simp add: pt_path_def)
  then show ?thesis
    using ld64_zero_page [OF assms(1)] Cons by (simp add: pt_page.simps child_def next_level_def)
qed simp

lemma uvmcreate_ok:
  assumes "free_list s (pa # xs)" "locks_free s"
  shows "\<exists>s'. uvmcreate s = Ok (pa, s') \<and> vm_ok s' pa xs \<and> pt_pages (mem s') pa = {pa} \<and>
    (\<forall>va. pte_of (mem s') pa va = 0) \<and> (\<exists>m l. s' = s\<lparr>mem := m, freelist := l\<rparr>)"
proof -
  note pop = kalloc_pop [OF assms(1)]
  define s' where "s' = memset_page pa 0 (kalloc_st s)"
  have al: "page_aligned pa" using pop(4) by (simp add: alloc_page_def)
  note z = pt_page_zero [OF al, of _ "mem (kalloc_st s)"]
  have m: "mem s' = st_bytes (mem (kalloc_st s)) pa (replicate 4096 0)" by (simp add: s'_def memset_page_def)
  have wf: "pt_wf (mem s') pa" using al z by (auto simp: pt_wf_def m split: if_splits)
  have pages: "pt_pages (mem s') pa = {pa}"
    using z [of "[]"] z by (auto simp: pt_pages_def m intro!: exI [of _ "[]"] split: if_splits)
  have xs: "x \<noteq> pa" "page_aligned x" if "x \<in> set xs" for x
    using that assms(1) by (auto simp: free_list_def alloc_page_def)
  have "fl_chain (mem s') a xs \<longleftrightarrow> fl_chain (mem (kalloc_st s)) a xs" for a
    using xs st_page_eq [OF al] by (intro fl_chain_cong) (simp_all add: m)
  then have "free_list s' xs"
    using pop(3) by (simp add: free_list_def s'_def memset_page_def alloc_page_def)
  moreover have "locks_free s'" using assms(2) by (simp add: locks_free_def s'_def memset_page_def)
  moreover have "uvmcreate s = Ok (pa, s')"
    using kalloc_ok [of s] pop(1,2) assms(2) by (simp add: uvmcreate_def s'_def)
  moreover have "pte_of (mem s') pa va = 0" for va
    using z [of "leaf_path va"] by (simp add: pte_of_def m) (simp add: leaf_path_def)
  moreover have "s' = s\<lparr>mem := mem s', freelist := freelist s'\<rparr>"
    by (cases s) (simp add: s'_def memset_page_def kalloc_st_def)
  then have "\<exists>m l. s' = s\<lparr>mem := m, freelist := l\<rparr>" by blast
  ultimately show ?thesis using wf pages xs(1) by (auto simp: vm_ok_def)
qed

section \<open>Frames\<close>

lemma get_frame_kalloc:
  "active_frames s < int MAX_FRAMES \<Longrightarrow> freelist s \<noteq> 0 \<Longrightarrow> locks_free s \<Longrightarrow> get_frame s = Ok (freelist s, kalloc_st s)"
  by (simp add: get_frame_def kalloc_ok Let_def locks_free_def)

lemma get_frame_evict:
  "\<not> active_frames s < int MAX_FRAMES \<Longrightarrow> locks_free s \<Longrightarrow> get_frame s = clock_evict s"
  by (simp add: get_frame_def Let_def locks_free_def)

lemma frames_ok_cong:
  assumes "frames_ok s" "frametable t = frametable s" "active_frames t = active_frames s"
    "\<And>p. resident_pages (procs t p) = resident_pages (procs s p)"
  shows "frames_ok t"
  using assms by (simp add: frames_ok_def)

lemma frametable_alloc_room:
  assumes "frames_ok s" "locks_free s" "active_frames s < int MAX_FRAMES" "pa \<noteq> 0"
  shows "\<exists>i u. frametable_alloc pa p va s = Ok u \<and> u = ft_alloc i pa p va s \<and> frames_ok u"
proof -
  obtain i where i: "search (\<lambda>i. \<not> used (frametable s i)) 0 MAX_FRAMES = Some i"
    using frames_ok_room [OF assms(1)] assms(3) by blast
  then show ?thesis
    using frametable_alloc_ok [OF _ assms(4) i] frames_ok_ft_alloc [OF assms(1) i] assms(2) by (auto simp: locks_free_def)
qed

section \<open>The way to the swap disk and back\<close>

lemma px_PGROUNDDOWN [simp]: "px level (PGROUNDDOWN va) = px level va"
proof -
  have "PX level (PGROUNDDOWN va) = PX level va"
    by (rule bit_eqI) (auto simp: PX_bits PGROUNDDOWN_eq bit_simps add.assoc dest: bit_imp_le_length)
  then show ?thesis by (simp add: px_def)
qed

lemma walk_levels_PGROUNDDOWN [simp]: "walk_levels m 2 pt (PGROUNDDOWN va) = walk_levels m 2 pt va"
  by (simp add: walk_levels_leaf leaf_path_def)

lemma PTE_FLAGS_take [simp]: "take_bit 10 (PTE_FLAGS e) = PTE_FLAGS e"
  by (simp add: PTE_FLAGS_eq)

lemma pte_slot_swap_pte: "i < MAX_SWAP \<Longrightarrow> pte_slot (swap_pte i e) = int i"
proof -
  assume i: "i < MAX_SWAP"
  have "drop_bit 10 (swap_pte i e) = of_nat i"
    unfolding swap_pte_def using i by (intro swap_pte_slot) (simp_all add: word_less_nat_alt unat_of_nat)
  moreover have "uint (ucast (of_nat i :: uint64) :: 32 word) = int i"
    using i by (simp add: unsigned_ucast_eq unsigned_of_nat take_bit_nat_eq_self take_bit_int_eq_self)
  ultimately show ?thesis using i by (simp add: pte_slot_def sint_uint signed_take_bit_int_eq_self)
qed

lemma and_flag: "(w :: uint64) AND PTE_V = 0 \<longleftrightarrow> \<not> bit w 0" "w AND PTE_S = 0 \<longleftrightarrow> \<not> bit w 8"
  using and_exp_eq_0_iff_not_bit [of w 0] and_exp_eq_0_iff_not_bit [of w 8] by simp_all

lemma bit_flag: "bit PTE_V n \<longleftrightarrow> n = 0" "bit PTE_S n \<longleftrightarrow> n = 8"
  using bit_exp_iff [where 'a = "64 word", of 0 n] bit_exp_iff [where 'a = "64 word", of 8 n] by auto

lemma bit_swap_pte:
  "bit (swap_pte i e) n \<longleftrightarrow> n = 8 \<or> (if n < 10 then bit e n \<and> n \<noteq> 0 else bit (push_bit 10 (of_nat i) :: uint64) n)"
  unfolding swap_pte_def bit_or_iff bit_and_iff bit_not_iff bit_flag PTE_FLAGS_eq bit_take_bit_iff
  by (auto simp: bit_push_bit_iff dest: bit_imp_le_length)

lemma swap_pte_bits: "swap_pte i e AND PTE_V = 0" "swap_pte i e AND PTE_S \<noteq> 0"
  by (simp_all add: and_flag bit_swap_pte)

lemma swap_pte_flags:
  assumes "e AND PTE_V \<noteq> 0"
  shows "(PTE_FLAGS (swap_pte i e) AND NOT PTE_S) OR PTE_V = PTE_FLAGS e AND NOT PTE_S"
proof (rule bit_eqI)
  fix n assume "possible_bit TYPE(64 word) n"
  then show "bit ((PTE_FLAGS (swap_pte i e) AND NOT PTE_S) OR PTE_V) n = bit (PTE_FLAGS e AND NOT PTE_S) n"
    using assms unfolding and_flag bit_or_iff bit_and_iff bit_not_iff bit_flag PTE_FLAGS_eq bit_take_bit_iff bit_swap_pte
    by auto
qed

lemma store_freelist [simp]:
  "store_inv mode (s\<lparr>freelist := l\<rparr>) = store_inv mode s" "store_lookup mode (s\<lparr>freelist := l\<rparr>) = store_lookup mode s"
  by (auto simp: store_inv_def store_lookup_def dq_ready_def disks_wf_def page_on_def blk_def myproc_def fun_eq_iff)

lemma store_kalloc_st [simp]:
  "store_inv mode (kalloc_st s) = store_inv mode s" "store_lookup mode (kalloc_st s) = store_lookup mode s"
  by (simp_all add: kalloc_st_def)

lemma upd_proc_kmem [simp]:
  "mem (upd_proc p f s) = mem s" "freelist (upd_proc p f s) = freelist s" "frametable (upd_proc p f s) = frametable s"
  "active_frames (upd_proc p f s) = active_frames s" "swaptable (upd_proc p f s) = swaptable s" "kend (upd_proc p f s) = kend s"
  by (simp_all add: upd_proc_def)

lemma locks_free_upd_proc [simp]: "locks_free (upd_proc p f s) = locks_free s"
  by (simp add: locks_free_def)

lemma ft_alloc_mem [simp]: "mem (ft_alloc i pa p va s) = mem s"
  by (simp add: ft_alloc_def split: option.split)

lemma same_but_disk_stats_resident: "same_but_disk_stats p q \<Longrightarrow> resident_pages p = resident_pages q"
  by (auto elim!: same_but_disk_statsE)

text \<open>A fault on a swapped-out page, with a free page at hand: the page comes back in that page.\<close>

lemma vmfault_swapped:
  assumes va: "va < MAXVA" "walk_levels (mem s) 2 pt va = Some x" "ld64 (mem s) x = swap_pte i e"
    and p: "myproc s = Some p" "va < sz (procs s p)"
    and fr: "frames_ok s" "active_frames s < int MAX_FRAMES" "free_list s (pa # xs)" "locks_free s"
    and slot: "i < MAX_SWAP" "sused (swaptable s i)" "store_inv mode s" "raid_known mode" "slot_ok mode (int i)"
      "store_lookup mode s (int i) = Some page" "length page = 4096"
    and x: "x = q + 8 * of_nat k" "page_aligned q" "k < 512" "q \<noteq> pa"
  shows "\<exists>u m. vmfault pt va s = Ok (pa, u) \<and> frames_ok u \<and>
    mem u = st64 m x (PA2PTE pa OR ((PTE_FLAGS (swap_pte i e) AND NOT PTE_S) OR PTE_V)) \<and>
    (\<forall>r. r \<noteq> pa \<longrightarrow> page_eq r m (mem s)) \<and> ld_bytes m pa 4096 = page"
proof -
  define s1 where "s1 = upd_proc p (\<lambda>q. q\<lparr>page_faults := page_faults q + 1\<rparr>) s"
  have fl: "freelist s1 = pa" "pa \<noteq> 0" "page_aligned pa"
    using kalloc_pop [OF fr(3)] by (simp_all add: s1_def alloc_page_def)
  have lk: "locks_free s1" "SwapLock \<notin> held (kalloc_st s1)" using fr(4) by (simp_all add: locks_free_def s1_def)
  have "get_frame s1 = Ok (pa, kalloc_st s1)" using get_frame_kalloc [of s1] fr(2) fl lk by (simp add: s1_def)
  moreover obtain s2 where s2: "swapin pa (int i) (kalloc_st s1) = Ok s2" "swap_frame (kalloc_st s1) s2"
    "mem s2 = st_bytes (mem (kalloc_st s1)) pa page"
    using swapin_ok [OF lk(2) slot(1), of mode page pa] slot by (auto simp: s1_def)
  have eq: "page_eq r (mem s2) (mem s)" if "r \<noteq> pa" for r
  proof -
    have "page_eq r (mem s2) (mem (kalloc_st s1))" using that fl(3) slot(7) by (simp add: s2(3) st_page_eq)
    moreover have "page_eq r (mem (kalloc_st s1)) (mem s)"
      using kalloc_page_eq [of s1 r] that fl by (simp add: s1_def)
    ultimately show ?thesis by (rule page_eq_trans)
  qed
  have e2: "ld64 (mem s2) x = swap_pte i e"
    using ld64_page_cong [OF x(2,3) eq [OF x(4)]] va(3) by (simp add: x(1))
  let ?v = "PA2PTE pa OR (PTE_FLAGS (swap_pte i e) AND NOT PTE_S) OR PTE_V"
  define s3 where "s3 = upd_proc p (\<lambda>q. q\<lparr>pages_swapped_in := pages_swapped_in q + 1\<rparr>) (s2\<lparr>mem := st64 (mem s2) x ?v\<rparr>)"
  have sf: "frametable s2 = frametable s" "active_frames s2 = active_frames s" "held s2 = held s"
    using s2(2) by (auto simp: swap_frame_def s1_def)
  have "same_but_disk_stats (procs s2 q) (procs s1 q)" for q using s2(2) by (simp add: swap_frame_def)
  then have "resident_pages (procs s2 q) = resident_pages (procs s1 q)" for q by (rule same_but_disk_stats_resident)
  then have rp: "resident_pages (procs s2 q) = resident_pages (procs s q)" for q by (simp add: s1_def)
  have "frames_ok s3" "locks_free s3" "active_frames s3 < int MAX_FRAMES"
    using fr sf rp by (auto simp: s3_def locks_free_def intro: frames_ok_cong [OF fr(1)])
  then obtain j u where u: "frametable_alloc pa (Some p) (PGROUNDDOWN va) s3 = Ok u"
    "u = ft_alloc j pa (Some p) (PGROUNDDOWN va) s3" "frames_ok u"
    using frametable_alloc_room [OF _ _ _ fl(2)] by blast
  have "PGROUNDDOWN va < MAXVA" using PGROUNDDOWN_le [of va] va(1) by (rule le_less_trans)
  then have "ismapped pt (PGROUNDDOWN va) s = Ok False" using va by (simp add: ismapped_def swap_pte_bits)
  then have "vmfault pt va s = Ok (pa, u)"
    using va p u(1) \<open>get_frame s1 = _\<close> fl(2) s2(1) e2
    by (simp add: vmfault_def swap_pte_bits pte_slot_swap_pte [OF slot(1)] Let_def s1_def s3_def not_le)
  moreover have "ld_bytes (mem s2) pa 4096 = page" by (simp add: s2(3) ld_st_page slot(7))
  ultimately show ?thesis using u(2,3) eq by (intro exI [of _ u] exI [of _ "mem s2"]) (auto simp: s3_def)
qed

section \<open>Properties of mapping and faulting\<close>

text \<open>The table pages of the example state of theory Kalloc.\<close>

lemma km_child:
  assumes "i < 512"
  shows "child km_mem 0x80001000 i = (if i = 0 then Some 0x80002000 else None)"
    "child km_mem 0x80002000 i = (if i = 0 then Some 0x80003000 else None)"
proof -
  have z: "ld64 (\<lambda>_. 0) a = 0" for a by (simp add: ld64_def)
  have ld: "ld64 (st64 m p v) (q + 8 * of_nat i) = (if p = q \<and> i = 0 then v else ld64 m (q + 8 * of_nat i))"
    if "page_aligned p" "page_aligned q" for m p q v
    using ld64_st64_slot [OF that, of 0 i m v] assms by auto
  have al: "page_aligned 0x80001000" "page_aligned 0x80002000" "page_aligned 0x80003000"
    by (simp_all add: page_aligned_def)
  show "child km_mem 0x80001000 i = (if i = 0 then Some 0x80002000 else None)"
    using al km_mem_ld by (cases "i = 0") (simp_all add: child_def next_level_def km_mem_def ld z PTE2PA_def)
  show "child km_mem 0x80002000 i = (if i = 0 then Some 0x80003000 else None)"
    using al km_mem_ld by (cases "i = 0") (simp_all add: child_def next_level_def km_mem_def ld z PTE2PA_def)
qed

lemma km_pt:
  "pt_path P \<Longrightarrow> pt_page km_mem 0x80001000 P =
     (if P = [] then Some 0x80001000 else if P = [0] then Some 0x80002000 else if P = [0, 0] then Some 0x80003000 else None)"
  using km_child
  by (cases P rule: list.exhaust; cases "tl P" rule: list.exhaust; cases "tl (tl P)" rule: list.exhaust)
     (auto simp: pt_path_def pt_page.simps)

lemma km_pt_wf: "pt_wf km_mem 0x80001000" "pt_pages km_mem 0x80001000 = {0x80001000, 0x80002000, 0x80003000}"
proof -
  show "pt_wf km_mem 0x80001000"
    unfolding pt_wf_def by (auto simp: km_pt page_aligned_def split: if_splits)
  have "pt_page km_mem 0x80001000 [] = Some 0x80001000" "pt_page km_mem 0x80001000 [0] = Some 0x80002000"
    "pt_page km_mem 0x80001000 [0, 0] = Some 0x80003000" "pt_path [0]" "pt_path [0, 0]"
    by (simp_all add: km_pt pt_path_def)
  then have "{0x80001000, 0x80002000, 0x80003000} \<subseteq> pt_pages km_mem 0x80001000"
    using pt_page_in pt_path_px(2) by (metis empty_subsetI insert_subset)
  moreover have "pt_pages km_mem 0x80001000 \<subseteq> {0x80001000, 0x80002000, 0x80003000}"
    by (auto simp: pt_pages_def km_pt split: if_splits)
  ultimately show "pt_pages km_mem 0x80001000 = {0x80001000, 0x80002000, 0x80003000}" by blast
qed

definition km1 :: kmem where
  "km1 = kfree_st 0x80005000 km0"

lemma km1_vm: "vm_ok km1 0x80001000 [0x80005000]"
proof -
  have eq: "page_eq p (mem km0) (mem km1)" if "p \<in> pt_pages (mem km0) 0x80001000" for p
    unfolding km1_def by (rule page_eq_sym [OF kfree_page_eq]) (use that km_pt_wf(2) in \<open>auto simp: page_aligned_def\<close>)
  have wf: "pt_wf (mem km0) 0x80001000" using km_pt_wf(1) by simp
  show ?thesis
    using pt_frame [OF wf eq] km0_free km_pt_wf(2) by (auto simp: vm_ok_def km1_def locks_free_def)
qed

lemma km1_frames: "frames_ok km1" "active_frames km1 = 1" "myproc km1 = Some 0" "procs km1 = procs km0"
proof -
  have "ft_free 0x80005000 km0 = km0"
    by (simp add: ft_free_def search_None_iff [THEN iffD2])
  then show "active_frames km1 = 1" "myproc km1 = Some 0" "procs km1 = procs km0"
    by (simp_all add: km1_def kfree_st_def myproc_def)
  then show "frames_ok km1"
    using \<open>ft_free _ _ = _\<close> by (intro frames_ok_cong [OF km0_frames]) (simp_all add: km1_def)
qed

lemma mappages_ok:
  assumes "vm_ok s pt xs" "page_aligned va" "0 < n" "unat va + 4096 * n \<le> unat MAXVA" "2 * n \<le> length xs"
    "\<forall>b. page_aligned b \<longrightarrow> b < MAXVA \<longrightarrow> in_run va n b \<longrightarrow> pte_of (mem s) pt b AND PTE_V = 0"
  shows "\<exists>s' ys zs. mappages pt va (PGSIZE * of_nat n) pa perm s = Ok (0, s') \<and> xs = ys @ zs \<and> length ys \<le> 2 * n \<and>
    vm_ok s' pt zs \<and> vm_grow pt ys s s' \<and>
    (\<forall>b. page_aligned b \<longrightarrow> b < MAXVA \<longrightarrow> pte_of (mem s') pt b =
       (if in_run va n b then PA2PTE (pa + (b - va)) OR perm OR PTE_V else pte_of (mem s) pt b))"
proof -
  obtain k where n: "n = Suc k" using assms(3) by (cases n) auto
  have len: "unat (PGSIZE * of_nat n :: uint64) = 4096 * n"
    using assms(4) by (subst unat_mult_lem [THEN iffD1]) (simp_all add: unat_of_nat)
  then have "va mod PGSIZE = 0" "PGSIZE * of_nat n mod PGSIZE = (0 :: uint64)" "PGSIZE * of_nat n \<noteq> (0 :: uint64)"
    using assms(2,3) by (simp_all add: page_aligned_def word_unat_eq_iff unat_mod)
  moreover have last: "va + PGSIZE * of_nat n - PGSIZE = va + PGSIZE * of_nat k" by (simp add: n algebra_simps)
  ultimately have "mappages pt va (PGSIZE * of_nat n) pa perm s = mappages_loop pt va (va + PGSIZE * of_nat k) pa perm s"
    by (simp add: mappages_def last)
  then show ?thesis using mappages_loop_ok [of s pt xs va k pa perm] assms by (simp only: n)
qed

text \<open>C10: \<open>mappages\<close> is an update of the address space. For \<open>n\<close> unmapped pages below \<open>MAXVA\<close> and two free pages
  for each, it succeeds; afterwards the entry of the \<open>i\<close>-th page is the \<open>i\<close>-th physical page with the given
  permissions, every other entry is as before, the table is still a tree, and all it consumed are the
  first pages of the free list, which became table pages.\<close>

theorem mappages_refines_update:
  assumes "vm_ok s pt xs" "page_aligned va" "0 < n" "unat va + 4096 * n \<le> unat MAXVA" "2 * n \<le> length xs"
    "\<forall>b. page_aligned b \<longrightarrow> b < MAXVA \<longrightarrow> in_run va n b \<longrightarrow> pte_of (mem s) pt b AND PTE_V = 0"
  shows "\<exists>s' ys zs. mappages pt va (PGSIZE * of_nat n) pa perm s = Ok (0, s') \<and> xs = ys @ zs \<and>
    vm_ok s' pt zs \<and> vm_grow pt ys s s' \<and>
    (\<forall>b. page_aligned b \<longrightarrow> b < MAXVA \<longrightarrow> pte_of (mem s') pt b =
       (if in_run va n b then PA2PTE (pa + (b - va)) OR perm OR PTE_V else pte_of (mem s) pt b))"
  using mappages_ok [OF assms] by blast

definition km3 :: kmem where
  "km3 = kfree_st 0x80007000 (kfree_st 0x80006000 km1)"

lemma km3_free: "free_list km3 [0x80007000, 0x80006000, 0x80005000]" "locks_free km3"
proof -
  have "free_list (kfree_st 0x80006000 km1) [0x80006000, 0x80005000]"
    by (rule kfree_push) (use km0_free in \<open>simp_all add: km1_def alloc_page_def page_aligned_def\<close>)
  then show "free_list km3 [0x80007000, 0x80006000, 0x80005000]"
    unfolding km3_def by (rule kfree_push) (simp_all add: km1_def alloc_page_def page_aligned_def)
  show "locks_free km3" by (simp add: km3_def km1_def locks_free_def)
qed

theorem mappages_refines_update_witness:
  "\<exists>s s' pt. uvmcreate km3 = Ok (pt, s) \<and> mappages pt 0x1000 (PGSIZE * of_nat 1) 0x80004000 PTE_R s = Ok (0, s') \<and>
     pte_of (mem s') pt 0x1000 = PA2PTE 0x80004000 OR PTE_R OR PTE_V"
proof -
  obtain s where s: "uvmcreate km3 = Ok (0x80007000, s)" "vm_ok s 0x80007000 [0x80006000, 0x80005000]"
    "\<forall>va. pte_of (mem s) 0x80007000 va = 0"
    using uvmcreate_ok [OF km3_free] by blast
  then show ?thesis
    using mappages_refines_update [OF s(2), of "0x1000" 1 "0x80004000" PTE_R]
    by (force simp: page_aligned_def in_run_def)
qed

lemma pte_walk:
  assumes "pte_of m pt va \<noteq> 0"
  obtains q where "pt_page m pt (leaf_path va) = Some q" "walk_levels m 2 pt va = Some (q + 8 * of_nat (px 0 va))"
    "ld64 m (q + 8 * of_nat (px 0 va)) = pte_of m pt va"
  using assms by (cases "pt_page m pt (leaf_path va)") (auto simp: pte_of_def walk_levels_leaf)

lemma swapout_vm:
  assumes vm: "vm_ok s pt xs" and va: "va < MAXVA" "pte_of (mem s) pt va AND PTE_V \<noteq> 0" and ready: "evict_ready k s"
  shows "\<exists>t. swapout pt va s = Ok (int k, t) \<and> vm_ok t pt xs \<and> swap_frame s t \<and>
    (\<forall>vb. pte_of (mem t) pt vb = (if same_vpage vb va then swap_pte k (pte_of (mem s) pt va) else pte_of (mem s) pt vb)) \<and>
    sused (swaptable t k) \<and> store_inv (raid_mode s) t \<and>
    store_lookup (raid_mode s) t (int k) = Some (ld_bytes (mem s) (PTE2PA (pte_of (mem s) pt va)) 4096)"
proof -
  let ?e = "pte_of (mem s) pt va"
  have "?e \<noteq> 0" using va(2) by auto
  then obtain q where q: "pt_page (mem s) pt (leaf_path va) = Some q" "walk_levels (mem s) 2 pt va = Some (q + 8 * of_nat (px 0 va))"
    "ld64 (mem s) (q + 8 * of_nat (px 0 va)) = ?e" by (rule pte_walk)
  have st: "SwapLock \<notin> held s" "store_inv (raid_mode s) s" "raid_known (raid_mode s)" "slot_ok (raid_mode s) (int k)"
    "search (\<lambda>i. \<not> sused (swaptable s i)) 0 MAX_SWAP = Some k" using ready by (auto simp: evict_ready_def locks_free_def)
  obtain t where t: "swapout pt va s = Ok (int k, t)" "swap_frame s t"
    "mem t = st64 (mem s) (q + 8 * of_nat (px 0 va)) (swap_pte k ?e)"
    "swaptable t = (swaptable s)(k := \<lparr>sused = True, spage_table = pt, sva = va, sraid_mode = raid_mode s\<rparr>)"
    "store_inv (raid_mode s) t" "store_lookup (raid_mode s) t (int k) = Some (ld_bytes (mem s) (PTE2PA ?e) 4096)"
    using swapout_ok [OF va(1) q(2) _ st(1,5,2,3,4)] va(2) q(3) by auto
  note sv = vm_store [OF vm q(1), of "swap_pte k ?e", folded t(3)]
  have "vm_ok t pt xs"
    using sv(1) t(2) by (simp add: vm_ok_def locks_free_def free_list_def alloc_page_def t(3) [symmetric] swap_frame_def)
  then show ?thesis using t sv(3) by (intro exI [of _ t]) auto
qed

lemma vmfault_vm:
  assumes vm: "vm_ok t pt (pa # xs)" and va: "va < MAXVA" "pte_of (mem t) pt va = swap_pte k e"
    and p: "myproc t = Some p" "va < sz (procs t p)" and fr: "frames_ok t" "active_frames t < int MAX_FRAMES"
    and slot: "k < MAX_SWAP" "sused (swaptable t k)" "store_inv mode t" "raid_known mode" "slot_ok mode (int k)"
      "store_lookup mode t (int k) = Some page" "length page = 4096"
  shows "\<exists>u. vmfault pt va t = Ok (pa, u) \<and> frames_ok u \<and> ld_bytes (mem u) pa 4096 = page \<and>
    (\<forall>vb. pte_of (mem u) pt vb = (if same_vpage vb va
        then PA2PTE pa OR ((PTE_FLAGS (swap_pte k e) AND NOT PTE_S) OR PTE_V) else pte_of (mem t) pt vb))"
proof -
  have "pte_of (mem t) pt va \<noteq> 0" using va(2) swap_pte_bits(2) [of k e] by auto
  then obtain q where q: "pt_page (mem t) pt (leaf_path va) = Some q" "walk_levels (mem t) 2 pt va = Some (q + 8 * of_nat (px 0 va))"
    "ld64 (mem t) (q + 8 * of_nat (px 0 va)) = pte_of (mem t) pt va" by (rule pte_walk)
  have wf: "pt_wf (mem t) pt" "pt_pages (mem t) pt \<inter> set (pa # xs) = {}" using vm by (simp_all add: vm_ok_def)
  have al: "page_aligned q" "page_aligned pa" "page_aligned pt"
    using vm pt_page_aligned [OF _ q(1)] by (auto simp: vm_ok_def pt_wf_def free_list_def alloc_page_def)
  have qpa: "q \<noteq> pa" using wf(2) pt_page_in [OF pt_path_px(1) q(1)] by auto
  obtain u m where u: "vmfault pt va t = Ok (pa, u)" "frames_ok u"
    "mem u = st64 m (q + 8 * of_nat (px 0 va)) (PA2PTE pa OR ((PTE_FLAGS (swap_pte k e) AND NOT PTE_S) OR PTE_V))"
    "\<forall>r. r \<noteq> pa \<longrightarrow> page_eq r m (mem t)" "ld_bytes m pa 4096 = page"
    using vmfault_swapped [OF va(1) q(2) q(3) [unfolded va(2)] p fr _ _ slot refl al(1) px_less qpa, of xs] vm
    by (auto simp: vm_ok_def)
  have eq: "page_eq r (mem t) m" if "r \<in> pt_pages (mem t) pt" for r
    by (rule page_eq_sym) (use that u(4) wf(2) in auto)
  note fm = pt_frame [OF wf(1) eq]
  have "pt_page m pt (leaf_path va) = Some q" using pt_page_cong [OF al(3) pt_path_px(1) eq] q(1) by simp
  note sv = pt_store_leaf [OF fm(1) this, of "PA2PTE pa OR ((PTE_FLAGS (swap_pte k e) AND NOT PTE_S) OR PTE_V)"]
  have "page_eq pa (mem u) m" unfolding u(3) by (rule st64_page_eq [OF al(1) px_less]) (use qpa in simp)
  then have "ld_bytes (mem u) pa 4096 = page" using ld_page_cong [OF al(2)] u(5) by simp
  then show ?thesis using u(1,2) sv(3) fm(3) by (intro exI [of _ u]) (simp add: u(3))
qed

text \<open>C18: A page that is written to the swap disk comes back on the next access. After \<open>swapout\<close> of a present
  page its entry is invalid, and \<open>vmfault\<close> then gives the address space a frame with the same 4096 bytes,
  mapped at the same address with the same permissions, leaves every other entry as it was and keeps
  the frame counters exact.\<close>

theorem swap_fault_roundtrip:
  assumes vm: "vm_ok s pt (pa # xs)" and va: "va < MAXVA" "pte_of (mem s) pt va AND PTE_V \<noteq> 0"
    and p: "myproc s = Some p" "va < sz (procs s p)" and fr: "frames_ok s" "active_frames s < int MAX_FRAMES"
    and ready: "evict_ready k s"
  shows "\<exists>t u. swapout pt va s = Ok (int k, t) \<and> pte_of (mem t) pt va AND PTE_V = 0 \<and> vmfault pt va t = Ok (pa, u) \<and>
    ld_bytes (mem u) pa 4096 = ld_bytes (mem s) (PTE2PA (pte_of (mem s) pt va)) 4096 \<and>
    pte_of (mem u) pt va = PA2PTE pa OR (PTE_FLAGS (pte_of (mem s) pt va) AND NOT PTE_S) \<and>
    (\<forall>vb. \<not> same_vpage vb va \<longrightarrow> pte_of (mem u) pt vb = pte_of (mem s) pt vb) \<and> frames_ok u"
proof -
  let ?e = "pte_of (mem s) pt va"
  have k: "k < MAX_SWAP" "raid_known (raid_mode s)" "slot_ok (raid_mode s) (int k)"
    using ready by (simp_all add: evict_ready_def search_Some_iff)
  obtain t where t: "swapout pt va s = Ok (int k, t)" "vm_ok t pt (pa # xs)" "swap_frame s t"
    "\<forall>vb. pte_of (mem t) pt vb = (if same_vpage vb va then swap_pte k ?e else pte_of (mem s) pt vb)"
    "sused (swaptable t k)" "store_inv (raid_mode s) t"
    "store_lookup (raid_mode s) t (int k) = Some (ld_bytes (mem s) (PTE2PA ?e) 4096)"
    using swapout_vm [OF vm va ready] by blast
  have same: "frametable t = frametable s" "active_frames t = active_frames s" "cpu_proc t = cpu_proc s"
    "same_but_disk_stats (procs t i) (procs s i)" for i
    using t(3) by (simp_all add: swap_frame_def)
  have fr': "frames_ok t" "active_frames t < int MAX_FRAMES"
    using same fr(2) same_but_disk_stats_resident [OF same(4)] by (auto intro: frames_ok_cong [OF fr(1)])
  have p': "myproc t = Some p" "va < sz (procs t p)"
    using p same same_but_stats_sel(4) [OF same_but_disk_stats_stats [OF same(4)]] by (simp_all add: myproc_def)
  have vt: "pte_of (mem t) pt va = swap_pte k ?e" using t(4) by (simp add: same_vpage_def)
  obtain u where "vmfault pt va t = Ok (pa, u)" "frames_ok u" "ld_bytes (mem u) pa 4096 = ld_bytes (mem s) (PTE2PA ?e) 4096"
    "\<forall>vb. pte_of (mem u) pt vb = (if same_vpage vb va
        then PA2PTE pa OR ((PTE_FLAGS (swap_pte k ?e) AND NOT PTE_S) OR PTE_V) else pte_of (mem t) pt vb)"
    using vmfault_vm [OF t(2) va(1) vt p' fr' k(1) t(5,6) k(2,3) t(7)] by auto
  then show ?thesis
    using t(1,4) vt swap_pte_bits(1) swap_pte_flags [OF va(2)]
    by (intro exI [of _ t] exI [of _ u]) (simp add: same_vpage_def)
qed

lemma km1_ready: "evict_ready 0 km1"
proof -
  have "ft_free 0x80005000 km0 = km0" by (simp add: ft_free_def search_None_iff [THEN iffD2])
  then show ?thesis
    using km0_ready by (simp add: evict_ready_def km1_def kfree_st_def locks_free_def scan_pre_def)
qed

lemma km1_pte: "pte_of (mem km1) 0x80001000 0 = 0x20001057"
proof -
  have eq: "page_eq p (mem km0) (mem km1)" if "p \<in> pt_pages (mem km0) 0x80001000" for p
    unfolding km1_def by (rule page_eq_sym [OF kfree_page_eq]) (use that km_pt_wf(2) in \<open>auto simp: page_aligned_def\<close>)
  have "pte_of km_mem 0x80001000 0 = 0x20001057"
    using km_pt [of "[0, 0]"] km_mem_ld by (simp add: pte_of_def leaf_path_def px_def PX_def pt_path_def)
  then show ?thesis using pt_frame(3) [OF _ eq, of "0x80001000" 0] km_pt_wf(1) by simp
qed

theorem swap_fault_roundtrip_witness:
  "\<exists>t u. swapout 0x80001000 0 km1 = Ok (int 0, t) \<and> vmfault 0x80001000 0 t = Ok (0x80005000, u) \<and>
    ld_bytes (mem u) 0x80005000 4096 = ld_bytes (mem km1) (PTE2PA 0x20001057) 4096"
  using swap_fault_roundtrip [OF km1_vm _ _ km1_frames(3) _ km1_frames(1) _ km1_ready, of 0] km1_frames(2,4) km1_pte
  by auto

text \<open>A frame from \<open>get_frame\<close> can always be registered. With exact counters and with free memory as long
  as the frame table has room, the entry \<open>frametable_alloc\<close> looks for exists, so its search never fails
  and the panic of a full table is not reached; the counters stay exact.\<close>

theorem get_frame_registers:
  assumes fr: "frames_ok s" "locks_free s" "active_frames s < int MAX_FRAMES \<longrightarrow> freelist s \<noteq> 0"
    and ev: "evict_ready k s" and gf: "get_frame s = Ok (pa, t)" "pa \<noteq> 0"
  shows "active_frames t < int MAX_FRAMES \<and> (\<exists>u. frametable_alloc pa p va t = Ok u \<and> frames_ok u \<and>
    active_frames u = active_frames t + 1)"
proof -
  have "frames_ok t \<and> locks_free t \<and> active_frames t < int MAX_FRAMES"
  proof (cases "active_frames s < int MAX_FRAMES")
    case True
    then show ?thesis
      using get_frame_kalloc [OF True _ fr(2)] fr gf frames_ok_cong [OF fr(1), of "kalloc_st s"] by auto
  next
    case False
    then have ce: "clock_evict s = Ok (pa, t)" using gf(1) get_frame_evict [OF False fr(2)] by simp
    then obtain j where j: "j < MAX_FRAMES" "elig s j"
      using clock_evict_none [of s] ev fr(2) gf(2) by (fastforce simp: evict_ready_def)
    have "active_frames s \<le> int MAX_FRAMES" using fr(1) count_upto_le [of _ MAX_FRAMES] by (simp add: frames_ok_def)
    from ev j show ?thesis
    proof (rule clock_evict_victim)
      fix i v x t'
      assume t': "clock_evict s = Ok (fpa (frametable s i), t')" "i < MAX_FRAMES" "fproc (frametable s i) = Some v"
        "frametable t' = (frametable s)(i := (frametable s i)\<lparr>fproc := None, used := False\<rparr>)"
        "active_frames t' = active_frames s - 1" "held t' = held s"
        "\<And>p. resident_pages (procs t' p) = resident_pages (procs s p) - of_bool (p = v)"
      have "used (frametable s i)" using fr(1) t'(2,3) by (auto simp: frames_ok_def)
      then have "frames_ok t'" using t' by (intro frames_okI [OF fr(1) t'(2,4)]) auto
      then show ?thesis
        using t' ce fr(2) \<open>active_frames s \<le> int MAX_FRAMES\<close> by (auto simp: locks_free_def)
    qed
  qed
  then show ?thesis
    using frametable_alloc_room [OF _ _ _ gf(2), of t p va] by (auto simp: ft_alloc_def split: option.splits)
qed

lemma uvmunmap_untouched:
  assumes "page_aligned va" "va < MAXVA" "0 < npages" "npages < 2 ^ 26"
    and "pt_page (mem s) pt (leaf_path va) \<noteq> None" "pte_of (mem s) pt va = 0" "locks_free s" "0 < kend s"
  shows "uvmunmap pt va npages True s = Panic ''kfree''"
proof -
  obtain q where q: "pt_page (mem s) pt (leaf_path va) = Some q" using assms(5) by auto
  have "va < va + npages * PGSIZE"
  proof -
    have "unat npages < 2 ^ 26" using assms(4) by (simp add: word_less_nat_alt)
    then have "unat (npages * PGSIZE) = unat npages * 4096" by (subst unat_mult_lem [THEN iffD1]) simp_all
    moreover have "unat va < 2 ^ 38" using assms(2) by (simp add: word_less_nat_alt)
    ultimately have "unat (va + npages * PGSIZE) = unat va + unat npages * 4096"
      using \<open>unat npages < 2 ^ 26\<close> by (subst unat_add_lem [THEN iffD1]) simp_all
    then show ?thesis using assms(3) by (simp add: word_less_nat_alt)
  qed
  moreover have "kfree 0 (ft_free 0 s) = Panic ''kfree''" using assms(8) by (simp add: kfree_def)
  then have "uvmunmap_page pt va True s = Panic ''kfree''"
    using q assms pte_of_leaf [OF q]
    by (simp add: uvmunmap_page_def walk_levels_leaf Let_def frametablefree_ok locks_free_def PTE2PA_def)
  ultimately show ?thesis
    using assms(1) unfolding uvmunmap_def page_mod by (subst uvmunmap_loop.simps) simp
qed



lemma copy_until_nul_spec:
  "copy_until_nul bs = (w, b) \<Longrightarrow> length w \<le> length bs \<and>
     (if b then w \<noteq> [] \<and> last w = 0 \<and> 0 \<notin> set (butlast w) else w = bs \<and> 0 \<notin> set w)"
  by (induction bs arbitrary: w b) (auto split: if_splits prod.splits)

text \<open>\<open>copyinstr\<close> stays inside its buffer and says so correctly: it never writes more than \<open>max\<close> bytes;
  when it returns 0 the bytes end in the first null byte of the user string, and otherwise it returns
  -1 and wrote no null byte.\<close>

theorem copyinstr_bounded:
  "copyinstr m pt srcva maxlen = (r, w) \<Longrightarrow> length w \<le> maxlen \<and>
     (r = 0 \<and> w \<noteq> [] \<and> last w = 0 \<and> 0 \<notin> set (butlast w) \<or> r = -1 \<and> 0 \<notin> set w)"
proof (induction m pt srcva maxlen arbitrary: r w rule: copyinstr.induct)
  case (1 m pt srcva maxlen)
  define pa0 where "pa0 = walkaddr m pt (PGROUNDDOWN srcva)"
  define n where "n = chunk srcva maxlen"
  obtain w1 b where w1: "copy_until_nul (ld_bytes m (pa0 + (srcva - PGROUNDDOWN srcva)) n) = (w1, b)" by fastforce
  obtain r2 w2 where r2: "copyinstr m pt (PGROUNDDOWN srcva + PGSIZE) (maxlen - n) = (r2, w2)" by fastforce
  have n: "n \<le> maxlen" by (simp add: n_def chunk_def)
  note spec = copy_until_nul_spec [OF w1]
  show ?case
  proof (cases "maxlen = 0 \<or> pa0 = 0 \<or> b")
    case True
    then show ?thesis
      using "1.prems" spec w1 n by (subst (asm) copyinstr.simps) (auto simp: pa0_def n_def Let_def split: if_splits)
  next
    case False
    then have "r = r2" "w = w1 @ w2"
      using "1.prems" w1 r2 by (subst (asm) copyinstr.simps, simp add: pa0_def n_def Let_def)+
    moreover have "length w2 \<le> maxlen - n \<and>
        (r2 = 0 \<and> w2 \<noteq> [] \<and> last w2 = 0 \<and> 0 \<notin> set (butlast w2) \<or> r2 = -1 \<and> 0 \<notin> set w2)"
      using "1.IH" [of "PGROUNDDOWN srcva" pa0 n "(w1, b)" w1 b r2 w2] False w1 r2 by (simp add: pa0_def n_def)
    ultimately show ?thesis using spec False n by (auto simp: butlast_append)
  qed
qed

section \<open>User memory\<close>

text \<open>The byte a process sees at a virtual address.\<close>

definition user_byte :: "bytemem \<Rightarrow> uint64 \<Rightarrow> uint64 \<Rightarrow> uint8" where
  "user_byte m pt va = m (walkaddr m pt (PGROUNDDOWN va) + (va - PGROUNDDOWN va))"

text \<open>An address space whose present user pages are distinct and are not table pages.\<close>

definition user_ok :: "bytemem \<Rightarrow> uint64 \<Rightarrow> bool" where
  "user_ok m pt \<longleftrightarrow> pt_wf m pt \<and>
     (\<forall>a. page_aligned a \<longrightarrow> walkaddr m pt a \<noteq> 0 \<longrightarrow> walkaddr m pt a \<notin> pt_pages m pt) \<and>
     (\<forall>a b. page_aligned a \<longrightarrow> page_aligned b \<longrightarrow> walkaddr m pt a \<noteq> 0 \<longrightarrow> walkaddr m pt a = walkaddr m pt b \<longrightarrow> a = b)"

definition user_writable :: "bytemem \<Rightarrow> uint64 \<Rightarrow> uint64 \<Rightarrow> nat \<Rightarrow> bool" where
  "user_writable m pt va n \<longleftrightarrow> unat va + n \<le> unat MAXVA \<and>
     (\<forall>i<n. walkaddr m pt (PGROUNDDOWN (va + of_nat i)) \<noteq> 0 \<and> pte_of m pt (va + of_nat i) AND PTE_W \<noteq> 0)"

lemma walkaddr_pte:
  "walkaddr m pt va = (let e = pte_of m pt va in
     if va < MAXVA \<and> e AND PTE_V \<noteq> 0 \<and> e AND PTE_U \<noteq> 0 then PTE2PA e else 0)"
  by (auto simp: walkaddr_def pte_of_def walk_levels_leaf Let_def not_le split: option.splits)

lemma page_aligned_walkaddr [simp]: "page_aligned (walkaddr m pt va)"
  by (auto simp: walkaddr_pte Let_def page_aligned_def) (metis page_aligned_PTE2PA page_aligned_def)

text \<open>Writing inside a user page leaves the tables, and so the address space, as they are.\<close>

lemma st_bytes_page_eq:
  assumes "page_aligned p" "off + length bs \<le> 4096" "q \<noteq> p"
  shows "page_eq q (st_bytes m (p + of_nat off) bs) m"
  unfolding page_eq_def
proof (intro allI impI)
  fix x assume "PGROUNDDOWN x = q"
  then have np: "\<not> unat (x - p) < 4096" using in_page_iff [OF assms(1)] assms(3) by auto
  show "st_bytes m (p + of_nat off) bs x = m x"
  proof (cases "unat (x - (p + of_nat off)) < length bs")
    case True
    define d where "d = x - (p + of_nat off)"
    have "x - p = d + of_nat off" by (simp add: d_def)
    moreover have "unat (d + of_nat off) = unat d + off"
      using True assms(2) by (subst unat_add_lem [THEN iffD1]) (simp_all add: d_def unat_of_nat)
    ultimately show ?thesis using np True assms(2) by (simp add: d_def)
  qed (simp add: st_bytes_def)
qed

lemma same_page_iff: "PGROUNDDOWN a = PGROUNDDOWN b \<longleftrightarrow> unat a div 4096 = unat b div 4096"
  by (simp add: word_unat_eq_iff unat_PGROUNDDOWN)

lemma unat_diff_range:
  fixes a b :: uint64
  assumes "n \<le> 4096" "unat a < 2 ^ 40" "unat b < 2 ^ 40"
  shows "unat (b - a) < n \<longleftrightarrow> unat a \<le> unat b \<and> unat b < unat a + n"
proof (cases "a \<le> b")
  case True
  then show ?thesis by (auto simp: unat_sub word_le_nat_alt)
next
  case False
  then have lt: "unat b < unat a" by (simp add: word_le_nat_alt)
  then have "unat (b - a) = unat b + 2 ^ 64 - unat a" by (simp add: unat_sub_if')
  then show ?thesis using assms lt by simp
qed

lemma user_byte_step:
  assumes ok: "user_ok m pt" and pa: "walkaddr m pt (PGROUNDDOWN a) \<noteq> 0" "unat a < unat MAXVA"
    and n: "length bs \<le> 4096 - unat a mod 4096"
  defines "m1 \<equiv> st_bytes m (walkaddr m pt (PGROUNDDOWN a) + (a - PGROUNDDOWN a)) bs"
  shows "pte_of m1 pt = pte_of m pt" "walkaddr m1 pt = walkaddr m pt" "user_ok m1 pt"
    "walkaddr m pt (PGROUNDDOWN va) \<noteq> 0 \<Longrightarrow> user_byte m1 pt va =
       (if unat a \<le> unat va \<and> unat va < unat a + length bs then bs ! (unat va - unat a) else user_byte m pt va)"
proof -
  let ?pa = "walkaddr m pt (PGROUNDDOWN a)"
  define off where "off = unat a mod 4096"
  have off: "a - PGROUNDDOWN a = of_nat off" "off + length bs \<le> 4096" "off < 4096"
    using PGROUNDDOWN_offset [of a] n by (simp_all add: off_def word_unat_eq_iff unat_of_nat)
  have eq: "page_eq q m1 m" if "q \<noteq> ?pa" for q
    unfolding m1_def off(1) by (rule st_bytes_page_eq [OF _ off(2) that]) simp
  have tab: "page_eq q m m1" if "q \<in> pt_pages m pt" for q
    using ok pa(1) that by (intro page_eq_sym [OF eq]) (auto simp: user_ok_def)
  have wf: "pt_wf m pt" using ok by (simp add: user_ok_def)
  note fm = pt_frame [OF wf tab]
  show pte: "pte_of m1 pt = pte_of m pt" using fm(3) by (rule ext)
  then show wa: "walkaddr m1 pt = walkaddr m pt" by (simp add: walkaddr_pte fun_eq_iff)
  show "user_ok m1 pt" using ok fm(1,2) by (simp add: user_ok_def wa)
  assume va: "walkaddr m pt (PGROUNDDOWN va) \<noteq> 0"
  show "user_byte m1 pt va =
       (if unat a \<le> unat va \<and> unat va < unat a + length bs then bs ! (unat va - unat a) else user_byte m pt va)"
  proof (cases "PGROUNDDOWN va = PGROUNDDOWN a")
    case True
    have "unat va < 2 ^ 40"
    proof -
      have "unat va = 4096 * (unat a div 4096) + unat va mod 4096" using True by (simp add: same_page_iff) (metis mult_div_mod_eq)
      moreover have "4096 * (unat a div 4096) \<le> unat a" "unat va mod 4096 < 4096" by simp_all
      ultimately show ?thesis using pa(2) by simp
    qed
    moreover have "unat a < 2 ^ 40" using pa(2) by simp
    ultimately have rng: "unat (va - a) < length bs \<longleftrightarrow> unat a \<le> unat va \<and> unat va < unat a + length bs"
      using off(2) by (intro unat_diff_range) simp_all
    have "(?pa + (va - PGROUNDDOWN a)) - (?pa + (a - PGROUNDDOWN a)) = va - a" by simp
    then have "m1 (?pa + (va - PGROUNDDOWN a)) =
        (if unat (va - a) < length bs then bs ! unat (va - a) else m (?pa + (va - PGROUNDDOWN a)))"
      by (simp only: m1_def st_bytes_def)
    then show ?thesis
      using rng True wa by (auto simp: user_byte_def unat_sub word_le_nat_alt)
  next
    case False
    then have "walkaddr m pt (PGROUNDDOWN va) \<noteq> ?pa" using ok va unfolding user_ok_def by (metis page_aligned_PGROUNDDOWN)
    moreover have "PGROUNDDOWN (walkaddr m pt (PGROUNDDOWN va) + (va - PGROUNDDOWN va)) = walkaddr m pt (PGROUNDDOWN va)"
      by (rule in_page_iff [THEN iffD1]) (simp_all add: PGROUNDDOWN_offset)
    ultimately have "user_byte m1 pt va = user_byte m pt va"
      using eq by (simp add: user_byte_def wa page_eq_def)
    moreover have "\<not> (unat a \<le> unat va \<and> unat va < unat a + length bs)"
    proof
      assume r: "unat a \<le> unat va \<and> unat va < unat a + length bs"
      have "unat a = 4096 * (unat a div 4096) + off" by (simp add: off_def)
      then have "unat va div 4096 = unat a div 4096"
        using r off(2) by (intro div_nat_eqI) simp_all
      then show False using False by (simp add: same_page_iff)
    qed
    ultimately show ?thesis by auto
  qed
qed

lemma page_next:
  assumes "unat a + n \<le> unat MAXVA" "c = min (4096 - unat a mod 4096) n" "c < n"
  shows "PGROUNDDOWN a + PGSIZE = a + of_nat c" "unat (PGROUNDDOWN a + PGSIZE) = unat a + c"
proof -
  have c: "c = 4096 - unat a mod 4096" using assms(2,3) by auto
  have eq: "unat a + c = 4096 * (unat a div 4096) + 4096"
    using mult_div_mod_eq [of 4096 "unat a"] mod_less_divisor [of 4096 "unat a"] unfolding c by linarith
  have lt: "unat a + c < 2 ^ 40" using assms(1,3) by simp
  then have "unat (PGROUNDDOWN a + PGSIZE) = 4096 * (unat a div 4096) + 4096"
    unfolding eq by (subst unat_add_lem [THEN iffD1]) (simp_all add: unat_PGROUNDDOWN)
  then show u: "unat (PGROUNDDOWN a + PGSIZE) = unat a + c" using eq by simp
  have "unat (a + of_nat c) = unat a + c"
    using lt by (subst unat_add_lem [THEN iffD1]) (simp_all add: unat_of_nat)
  then show "PGROUNDDOWN a + PGSIZE = a + of_nat c" using u by (simp add: word_unat_eq_iff)
qed

lemma chunk_eq: "chunk a n = min (4096 - unat a mod 4096) n"
  by (simp add: chunk_def PGROUNDDOWN_offset)

lemma pte_of_PGROUNDDOWN [simp]: "pte_of m pt (PGROUNDDOWN va) = pte_of m pt va"
  by (simp add: pte_of_def leaf_path_def split: option.split)

lemma user_writable_drop:
  assumes "user_writable m pt a n" "c \<le> n" "b = a + of_nat c" "unat b = unat a + c"
  shows "user_writable m pt b (n - c)"
  unfolding user_writable_def
proof (intro conjI allI impI)
  show "unat b + (n - c) \<le> unat MAXVA" using assms by (simp add: user_writable_def)
  fix i assume "i < n - c"
  then have "c + i < n" by simp
  moreover have "b + of_nat i = a + of_nat (c + i)" by (simp add: assms(3) ac_simps)
  ultimately show "walkaddr m pt (PGROUNDDOWN (b + of_nat i)) \<noteq> 0" "pte_of m pt (b + of_nat i) AND PTE_W \<noteq> 0"
    using assms(1) unfolding user_writable_def by metis+
qed

lemma copyout_writes:
  assumes "user_ok (mem s) pt" "user_writable (mem s) pt a (length src)"
  shows "\<exists>m'. copyout pt a src s = Ok (0, s\<lparr>mem := m'\<rparr>) \<and> walkaddr m' pt = walkaddr (mem s) pt \<and> user_ok m' pt \<and>
    pte_of m' pt = pte_of (mem s) pt \<and>
    (\<forall>va. walkaddr (mem s) pt (PGROUNDDOWN va) \<noteq> 0 \<longrightarrow> user_byte m' pt va =
       (if unat a \<le> unat va \<and> unat va < unat a + length src then src ! (unat va - unat a) else user_byte (mem s) pt va))"
  using assms
proof (induction "length src" arbitrary: src a s rule: less_induct)
  case less
  show ?case
  proof (cases "src = []")
    case True
    then show ?thesis using less.prems by (subst copyout.simps) (auto intro!: exI [of _ "mem s"])
  next
    case False
    let ?m = "mem s" and ?n = "chunk a (length src)"
    let ?pa = "walkaddr ?m pt (PGROUNDDOWN a)"
    let ?s1 = "s\<lparr>mem := st_bytes ?m (?pa + (a - PGROUNDDOWN a)) (take ?n src)\<rparr>"
    have len: "0 < length src" using False by simp
    then have a': "?pa \<noteq> 0" "pte_of ?m pt a AND PTE_W \<noteq> 0" "unat a + length src \<le> unat MAXVA"
      using less.prems(2) spec [of "\<lambda>i. i < length src \<longrightarrow> walkaddr ?m pt (PGROUNDDOWN (a + of_nat i)) \<noteq> 0 \<and>
          pte_of ?m pt (a + of_nat i) AND PTE_W \<noteq> 0" 0] unfolding user_writable_def by auto
    have "unat a < unat MAXVA" using a'(3) len by linarith
    note a = a'(1,2) this a'(3)
    have n: "0 < ?n" "?n \<le> length src" "length (take ?n src) \<le> 4096 - unat a mod 4096" "length (take ?n src) = ?n"
      using chunk_pos False by (auto simp: chunk_eq)
    note st = user_byte_step [OF less.prems(1) a(1,3) n(3)]
    have low: "PGROUNDDOWN a < MAXVA" using a(3) PGROUNDDOWN_le [of a] by (simp add: word_less_nat_alt word_le_nat_alt)
    have "pte_of ?m pt a \<noteq> 0" using a(2) by auto
    then obtain q where q: "walk_levels ?m 2 pt a = Some (q + 8 * of_nat (px 0 a))"
      "ld64 ?m (q + 8 * of_nat (px 0 a)) = pte_of ?m pt a" by (rule pte_walk)
    have unf: "copyout pt a src s = copyout pt (PGROUNDDOWN a + PGSIZE) (drop ?n src) ?s1"
      using False low a(1,2) q by (subst copyout.simps) (auto simp: user_page_def Let_def)
    have split: "src = take ?n src @ drop ?n src" by simp
    show ?thesis
    proof (cases "?n < length src")
      case True
      note nx = page_next [OF a(4) chunk_eq True]
      have "user_writable (mem ?s1) pt (PGROUNDDOWN a + PGSIZE) (length (drop ?n src))"
        using user_writable_drop [OF less.prems(2) n(2) nx] st(1,2) by (simp add: user_writable_def)
      then obtain m' where m': "copyout pt (PGROUNDDOWN a + PGSIZE) (drop ?n src) ?s1 = Ok (0, ?s1\<lparr>mem := m'\<rparr>)"
        "walkaddr m' pt = walkaddr (mem ?s1) pt" "user_ok m' pt" "pte_of m' pt = pte_of (mem ?s1) pt"
        "\<forall>va. walkaddr (mem ?s1) pt (PGROUNDDOWN va) \<noteq> 0 \<longrightarrow> user_byte m' pt va =
          (if unat a + ?n \<le> unat va \<and> unat va < unat a + ?n + (length src - ?n)
           then drop ?n src ! (unat va - (unat a + ?n)) else user_byte (mem ?s1) pt va)"
        using less.hyps [of "drop ?n src" ?s1 "PGROUNDDOWN a + PGSIZE"] n(1,2) st(3) False nx(2) by auto
      show ?thesis
        using m' unf st n(2,4) by (intro exI [of _ m']) (auto simp: nth_append)
    next
      case nt: False
      then have all: "drop ?n src = []" "take ?n src = src" by auto
      have "copyout pt (PGROUNDDOWN a + PGSIZE) (drop ?n src) ?s1 = Ok (0, ?s1)"
        unfolding all(1) by (subst copyout.simps) simp
      then show ?thesis
        using unf st all(2) by (intro exI [of _ "mem ?s1"]) auto
    qed
  qed
qed

lemma copyin_reads:
  assumes "unat a + n \<le> unat MAXVA" "\<forall>i<n. walkaddr (mem s) pt (PGROUNDDOWN (a + of_nat i)) \<noteq> 0"
  shows "copyin pt a n s = Ok (0, map (\<lambda>i. user_byte (mem s) pt (a + of_nat i)) [0..<n], s)"
  using assms
proof (induction n arbitrary: a rule: less_induct)
  case (less n)
  show ?case
  proof (cases "n = 0")
    case True
    then show ?thesis by (subst copyin.simps) simp
  next
    case False
    let ?c = "chunk a n" and ?pa = "walkaddr (mem s) pt (PGROUNDDOWN a)"
    have c: "0 < ?c" "?c \<le> n" using chunk_pos False by (auto simp: chunk_eq)
    have pa: "?pa \<noteq> 0" using spec [OF less.prems(2), of 0] False by simp
    have page: "user_byte (mem s) pt (a + of_nat i) = mem s (?pa + (a - PGROUNDDOWN a) + of_nat i)" if "i < ?c" for i
    proof -
      have "unat (a - PGROUNDDOWN a + of_nat i) < 4096"
        using that PGROUNDDOWN_offset [of a] by (subst unat_add_lem [THEN iffD1]) (auto simp: chunk_eq unat_of_nat)
      then have "unat ((a + of_nat i) - PGROUNDDOWN a) < 4096" by (simp add: algebra_simps)
      then have "PGROUNDDOWN (a + of_nat i) = PGROUNDDOWN a" by (simp add: in_page_iff)
      then show ?thesis by (simp add: user_byte_def algebra_simps)
    qed
    have rest: "copyin pt (PGROUNDDOWN a + PGSIZE) (n - ?c) s =
      Ok (0, map (\<lambda>i. user_byte (mem s) pt (a + of_nat (?c + i))) [0..<n - ?c], s)"
    proof (cases "?c < n")
      case True
      note nx = page_next [OF less.prems(1) chunk_eq True]
      have sh: "PGROUNDDOWN a + PGSIZE + of_nat i = a + of_nat (?c + i)" for i by (simp add: nx(1) ac_simps)
      have "copyin pt (PGROUNDDOWN a + PGSIZE) (n - ?c) s =
          Ok (0, map (\<lambda>i. user_byte (mem s) pt (PGROUNDDOWN a + PGSIZE + of_nat i)) [0..<n - ?c], s)"
        by (rule less.IH) (use c less.prems nx(2) True in \<open>auto simp only: sh\<close>)
      then show ?thesis unfolding sh .
    next
      case False
      then show ?thesis by (subst copyin.simps) simp
    qed
    have "[0..<n] = [0..<?c] @ map (\<lambda>i. i + ?c) [0..<n - ?c]"
      using c upt_add_eq_append [of 0 ?c "n - ?c"] by (simp add: map_add_upt)
    then have "map (\<lambda>i. user_byte (mem s) pt (a + of_nat i)) [0..<n] =
        ld_bytes (mem s) (?pa + (a - PGROUNDDOWN a)) ?c @ map (\<lambda>i. user_byte (mem s) pt (a + of_nat (?c + i))) [0..<n - ?c]"
      using page by (simp add: ld_bytes_def ac_simps)
    then show ?thesis
      using False pa rest by (subst copyin.simps) (simp add: user_page_def Let_def)
  qed
qed

text \<open>C15: The kernel's copies read what they wrote. On present, writable user pages \<open>copyout\<close> succeeds, a following
  \<open>copyin\<close> of the same range gives back the bytes, across page boundaries, and no other byte of the
  address space changes.\<close>

theorem copyout_copyin_roundtrip:
  assumes "user_ok (mem s) pt" "user_writable (mem s) pt a (length src)"
  shows "\<exists>s'. copyout pt a src s = Ok (0, s') \<and> copyin pt a (length src) s' = Ok (0, src, s') \<and>
    (\<forall>va. walkaddr (mem s) pt (PGROUNDDOWN va) \<noteq> 0 \<longrightarrow> \<not> (unat a \<le> unat va \<and> unat va < unat a + length src) \<longrightarrow>
       user_byte (mem s') pt va = user_byte (mem s) pt va)"
proof -
  obtain m' where m': "copyout pt a src s = Ok (0, s\<lparr>mem := m'\<rparr>)" "walkaddr m' pt = walkaddr (mem s) pt"
    "\<forall>va. walkaddr (mem s) pt (PGROUNDDOWN va) \<noteq> 0 \<longrightarrow> user_byte m' pt va =
       (if unat a \<le> unat va \<and> unat va < unat a + length src then src ! (unat va - unat a) else user_byte (mem s) pt va)"
    using copyout_writes [OF assms] by blast
  have w: "unat a + length src \<le> unat MAXVA" "\<forall>i<length src. walkaddr (mem s) pt (PGROUNDDOWN (a + of_nat i)) \<noteq> 0"
    using assms(2) by (simp_all add: user_writable_def)
  have "unat (a + of_nat i) = unat a + i" if "i < length src" for i
    using w(1) that by (subst unat_add_lem [THEN iffD1]) (simp_all add: unat_of_nat)
  then have "map (\<lambda>i. user_byte m' pt (a + of_nat i)) [0..<length src] = src"
    using m'(3) w(2) by (intro nth_equalityI) simp_all
  then have "copyin pt a (length src) (s\<lparr>mem := m'\<rparr>) = Ok (0, src, s\<lparr>mem := m'\<rparr>)"
    using copyin_reads [of a "length src" "s\<lparr>mem := m'\<rparr>" pt] w m'(2) by simp
  then show ?thesis using m'(1,3) by (intro exI [of _ "s\<lparr>mem := m'\<rparr>"]) auto
qed

lemma km_pte:
  "pte_of km_mem 0x80001000 va = (if leaf_path va = [0, 0] \<and> px 0 va = 0 then 0x20001057 else 0)"
proof (cases "leaf_path va = [0, 0]")
  case True
  have z: "ld64 (\<lambda>_. 0) a = 0" for a by (simp add: ld64_def)
  have "ld64 km_mem (0x80003000 + 8 * of_nat (px 0 va)) = (if px 0 va = 0 then 0x20001057 else 0)"
    using ld64_st64_slot [of "0x80003000" "0x80003000" 0 "px 0 va"] ld64_st64_slot [of "0x80002000" "0x80003000" 0 "px 0 va"]
      ld64_st64_slot [of "0x80001000" "0x80003000" 0 "px 0 va"]
    by (simp add: km_mem_def z page_aligned_def)
  then show ?thesis using True km_pt [OF pt_path_px(1), of va] by (simp add: pte_of_def)
next
  case False
  then have "pt_page km_mem 0x80001000 (leaf_path va) = None"
    unfolding km_pt [OF pt_path_px(1)] by (simp add: leaf_path_def)
  then show ?thesis using False by (simp add: pte_of_def)
qed

lemma km_user: "user_ok km_mem 0x80001000" "walkaddr km_mem 0x80001000 0 = 0x80004000"
proof -
  have 0: "leaf_path 0 = [0, 0]" "px 0 0 = 0" by (simp_all add: leaf_path_def px_def PX_def)
  have w: "walkaddr km_mem 0x80001000 a = 0x80004000 \<and> a = 0" if "page_aligned a" "walkaddr km_mem 0x80001000 a \<noteq> 0" for a
  proof -
    have "a < MAXVA" "pte_of km_mem 0x80001000 a \<noteq> 0"
      using that(2) by (auto simp: walkaddr_pte Let_def split: if_splits)
    then have "same_vpage a 0" using 0 by (auto simp: km_pte same_vpage_def split: if_splits)
    then have "a = 0" using same_vpage_eq [OF that(1), of 0] \<open>a < MAXVA\<close> by (simp add: page_aligned_def)
    then show ?thesis using 0 by (simp add: walkaddr_pte km_pte PTE2PA_def)
  qed
  show "user_ok km_mem 0x80001000"
    unfolding user_ok_def km_pt_wf(2)
  proof (intro conjI allI impI)
    fix a b
    assume a: "page_aligned a" "walkaddr km_mem 0x80001000 a \<noteq> 0"
    show "walkaddr km_mem 0x80001000 a \<notin> {0x80001000, 0x80002000, 0x80003000}" using w [OF a, THEN conjunct1] by simp
    assume b: "page_aligned b" "walkaddr km_mem 0x80001000 a = walkaddr km_mem 0x80001000 b"
    then have "walkaddr km_mem 0x80001000 b \<noteq> 0" using a(2) by metis
    then show "a = b" using w [OF a, THEN conjunct2] w [OF b(1), THEN conjunct2] by blast
  qed (rule km_pt_wf(1))
  show "walkaddr km_mem 0x80001000 0 = 0x80004000"
    using 0 by (simp add: walkaddr_pte km_pte PTE2PA_def)
qed

theorem copyout_copyin_roundtrip_witness:
  "\<exists>s'. copyout 0x80001000 8 [104, 105] km0 = Ok (0, s') \<and> copyin 0x80001000 8 (length [104, 105 :: uint8]) s' = Ok (0, [104, 105], s')"
proof -
  have "user_writable km_mem 0x80001000 8 (length [104, 105 :: uint8])"
    unfolding user_writable_def
  proof (intro conjI allI impI)
    fix i :: nat
    assume "i < length [104, 105 :: uint8]"
    then have "i = 0 \<or> i = 1" by auto
    then show "walkaddr km_mem 0x80001000 (PGROUNDDOWN (8 + of_nat i)) \<noteq> 0" "pte_of km_mem 0x80001000 (8 + of_nat i) AND PTE_W \<noteq> 0"
      using km_user(2) by (auto simp: PGROUNDDOWN_def km_pte leaf_path_def px_def PX_def)
  qed simp
  then show ?thesis using copyout_copyin_roundtrip [of km0 "0x80001000" 8 "[104, 105]"] km_user(1) by auto
qed

end
