(* ===== verification/Proc.thy ===== *)
theory Proc
  imports Vm "HOL-Library.Sublist"
begin

text \<open>
  kernel/proc.c without the parts that need the file system, and the scheduling part of
  kernel/trap.c: the process table, process memory, the multi-level feedback queue with its
  scheduler, boost and timer tick, sleep and wakeup, kill and wait.

  A process that switches to the scheduler leaves a kernel function in the middle. \<open>sched\<close> is
  modelled up to the switch, and a function that sleeps has a part before and a part after it. The
  round of the scheduler takes what the chosen processes do as a parameter.
\<close>

unbundle bit_operations_syntax

section \<open>Model\<close>

text \<open>The globals of proc.c and trap.c. \<open>trampoline_pa\<close> and \<open>forkret_pa\<close> are addresses the linker chooses.\<close>

record kglob = kmem +
  nextpid :: int
  initproc :: "nat option"
  kticks :: uint32
  last_boost :: uint32
  trampoline_pa :: uint64
  forkret_pa :: uint64

definition time_slice :: "int \<Rightarrow> int" where
  "time_slice level = [2, 4, 8, 16] ! nat level"

subsection \<open>The process table\<close>

definition procinit :: "'z kglob_scheme \<Rightarrow> 'z kglob_scheme" where
  "procinit s =
     fold (\<lambda>p. upd_proc p (\<lambda>q. q\<lparr>pstate := UNUSED, kstack := KSTACK p, syscount := 0, page_faults := 0,
       pages_evicted := 0, pages_swapped_in := 0, pages_swapped_out := 0, resident_pages := 0\<rparr>)) [0..<NPROC] s"

definition allocpid :: "'z kglob_scheme \<Rightarrow> (int \<times> 'z kglob_scheme) res" where
  "allocpid s =
     bindr (acquire PidLock s) (\<lambda>s.
     let p = nextpid s;
         s = s\<lparr>nextpid := nextpid s + 1\<rparr>
     in bindr (release PidLock s) (\<lambda>s. Ok (p, s)))"

definition proc_pagetable :: "nat \<Rightarrow> 'z kglob_scheme \<Rightarrow> (uint64 \<times> 'z kglob_scheme) res" where
  "proc_pagetable p s =
     bindr (uvmcreate s) (\<lambda>(pt, s).
     if pt = 0 then Ok (0, s)
     else
       bindr (mappages pt TRAMPOLINE PGSIZE (trampoline_pa s) (PTE_R OR PTE_X) s) (\<lambda>(r, s).
       if r < 0 then bindr (uvmfree pt 0 s) (\<lambda>s. Ok (0, s))
       else
         bindr (mappages pt TRAPFRAME PGSIZE (trapframe (procs s p)) (PTE_R OR PTE_W) s) (\<lambda>(r, s).
         if r < 0
         then bindr (uvmunmap pt TRAMPOLINE 1 False s) (\<lambda>s. bindr (uvmfree pt 0 s) (\<lambda>s. Ok (0, s)))
         else Ok (pt, s))))"

definition proc_freepagetable :: "uint64 \<Rightarrow> uint64 \<Rightarrow> 'z kglob_scheme \<Rightarrow> 'z kglob_scheme res" where
  "proc_freepagetable pt size_bytes s =
     bindr (uvmunmap pt TRAMPOLINE 1 False s) (\<lambda>s.
     bindr (uvmunmap pt TRAPFRAME 1 False s) (\<lambda>s.
     uvmfree pt size_bytes s))"

definition freeproc :: "nat \<Rightarrow> 'z kglob_scheme \<Rightarrow> 'z kglob_scheme res" where
  "freeproc p s =
     bindr (if trapframe (procs s p) \<noteq> 0 then kfree (trapframe (procs s p)) s else Ok s) (\<lambda>s.
     let s = upd_proc p (\<lambda>q. q\<lparr>trapframe := 0\<rparr>) s
     in bindr (if pagetable (procs s p) \<noteq> 0
               then proc_freepagetable (pagetable (procs s p)) (sz (procs s p)) s else Ok s) (\<lambda>s.
        Ok (upd_proc p (\<lambda>q. q\<lparr>pagetable := 0, sz := 0, pid := 0, parent := None, pname := (pname q)[0 := 0],
              chan := ChanNone, killed := 0, xstate := 0, syscount := 0, pstate := UNUSED, page_faults := 0,
              pages_evicted := 0, pages_swapped_in := 0, pages_swapped_out := 0, resident_pages := 0\<rparr>) s)))"

text \<open>The search of \<open>allocproc\<close>; it keeps the lock of the entry it found.\<close>

fun allocproc_scan :: "nat list \<Rightarrow> 'z kglob_scheme \<Rightarrow> (nat option \<times> 'z kglob_scheme) res" where
  "allocproc_scan [] s = Ok (None, s)"
| "allocproc_scan (p # ps) s =
     bindr (acquire (ProcLock p) s) (\<lambda>s.
     if pstate (procs s p) = UNUSED then Ok (Some p, s)
     else bindr (release (ProcLock p) s) (allocproc_scan ps))"

definition alloc_fail :: "nat \<Rightarrow> 'z kglob_scheme \<Rightarrow> (nat option \<times> 'z kglob_scheme) res" where
  "alloc_fail p s = bindr (freeproc p s) (\<lambda>s. bindr (release (ProcLock p) s) (\<lambda>s. Ok (None, s)))"

definition allocproc :: "'z kglob_scheme \<Rightarrow> (nat option \<times> 'z kglob_scheme) res" where
  "allocproc s =
     bindr (allocproc_scan [0..<NPROC] s) (\<lambda>(found, s).
     case found of
       None \<Rightarrow> Ok (None, s)
     | Some p \<Rightarrow>
       bindr (allocpid s) (\<lambda>(i, s).
       let s = upd_proc p (\<lambda>q. q\<lparr>pid := i, pstate := USED, syscount := 0, cur_queue_lvl := 0, ticks_each_level := 0,
                 pticks := (\<lambda>l. if l \<le> 3 then 0 else pticks q l), no_of_schedules := 0, temp := 0, page_faults := 0,
                 pages_evicted := 0, pages_swapped_in := 0, pages_swapped_out := 0, resident_pages := 0\<rparr>) s
       in bindr (kalloc s) (\<lambda>(tf, s).
          let s = upd_proc p (\<lambda>q. q\<lparr>trapframe := tf\<rparr>) s
          in if tf = 0 then alloc_fail p s
             else
               bindr (proc_pagetable p s) (\<lambda>(pt, s).
               let s = upd_proc p (\<lambda>q. q\<lparr>pagetable := pt\<rparr>) s
               in if pt = 0 then alloc_fail p s
                  else
                    Ok (Some p, upd_proc p (\<lambda>q. q\<lparr>pcontext := \<lparr>ra = forkret_pa s, sp = kstack q + PGSIZE,
                      saved = (\<lambda>_. 0)\<rparr>\<rparr>) s)))))"

subsection \<open>Process memory\<close>

text \<open>The argument of \<open>growproc\<close> is a C \<open>int\<close>, converted to \<open>uint64\<close> by the addition.\<close>

definition growproc :: "int \<Rightarrow> 'z kglob_scheme \<Rightarrow> (int \<times> 'z kglob_scheme) res" where
  "growproc n s =
     (case myproc s of
        None \<Rightarrow> Panic ''kerneltrap''
      | Some p \<Rightarrow>
        let sz0 = sz (procs s p);
            pt = pagetable (procs s p);
            set_sz = (\<lambda>z s. Ok (0, upd_proc p (\<lambda>q. q\<lparr>sz := z\<rparr>) s))
        in if 0 < n then
             if sz0 + of_int n > TRAPFRAME then Ok (-1, s)
             else
               bindr (uvmalloc pt sz0 (sz0 + of_int n) PTE_W s) (\<lambda>(z, s).
               if z = 0 then Ok (-1, s) else set_sz z s)
           else if n < 0 then bindr (uvmdealloc pt sz0 (sz0 + of_int n) s) (\<lambda>(z, s). set_sz z s)
           else set_sz sz0 s)"

definition either_copyout :: "bool \<Rightarrow> uint64 \<Rightarrow> uint8 list \<Rightarrow> 'z kglob_scheme \<Rightarrow> (int \<times> 'z kglob_scheme) res" where
  "either_copyout user_dst dst src s =
     (if user_dst
      then (case myproc s of None \<Rightarrow> Panic ''kerneltrap'' | Some p \<Rightarrow> copyout (pagetable (procs s p)) dst src s)
      else Ok (0, s\<lparr>mem := st_bytes (mem s) dst src\<rparr>))"

definition either_copyin :: "bool \<Rightarrow> uint64 \<Rightarrow> nat \<Rightarrow> 'z kglob_scheme \<Rightarrow> (int \<times> uint8 list \<times> 'z kglob_scheme) res" where
  "either_copyin user_src src len s =
     (if user_src
      then (case myproc s of None \<Rightarrow> Panic ''kerneltrap'' | Some p \<Rightarrow> copyin (pagetable (procs s p)) src len s)
      else Ok (0, ld_bytes (mem s) src len, s))"

subsection \<open>Scheduling\<close>

text \<open>\<open>sched\<close> up to the switch. The locks a CPU holds are as many as its \<open>noff\<close>, and interrupts are off
  while it holds one.\<close>

definition sched :: "'z kglob_scheme \<Rightarrow> 'z kglob_scheme res" where
  "sched s =
     (case myproc s of
        None \<Rightarrow> Panic ''kerneltrap''
      | Some p \<Rightarrow>
        if ProcLock p \<notin> held s then Panic ''sched p->lock''
        else if card (held s) \<noteq> 1 then Panic ''sched locks''
        else if pstate (procs s p) = RUNNING then Panic ''sched RUNNING''
        else Ok s)"

text \<open>\<open>yield\<close> and \<open>sleep\<close> in two parts: up to the switch to the scheduler, and after the switch back.\<close>

definition yield :: "'z kglob_scheme \<Rightarrow> 'z kglob_scheme res" where
  "yield s =
     (case myproc s of
        None \<Rightarrow> Panic ''kerneltrap''
      | Some p \<Rightarrow>
        bindr (acquire (ProcLock p) s) (\<lambda>s. sched (upd_proc p (\<lambda>q. q\<lparr>pstate := RUNNABLE\<rparr>) s)))"

definition yield_back :: "'z kglob_scheme \<Rightarrow> 'z kglob_scheme res" where
  "yield_back s = (case myproc s of None \<Rightarrow> Panic ''kerneltrap'' | Some p \<Rightarrow> release (ProcLock p) s)"

definition sleep :: "channel \<Rightarrow> klock \<Rightarrow> 'z kglob_scheme \<Rightarrow> 'z kglob_scheme res" where
  "sleep ch lk s =
     (case myproc s of
        None \<Rightarrow> Panic ''kerneltrap''
      | Some p \<Rightarrow>
        bindr (acquire (ProcLock p) s) (\<lambda>s.
        bindr (release lk s) (\<lambda>s.
        sched (upd_proc p (\<lambda>q. q\<lparr>chan := ch, pstate := SLEEPING\<rparr>) s))))"

definition sleep_back :: "klock \<Rightarrow> 'z kglob_scheme \<Rightarrow> 'z kglob_scheme res" where
  "sleep_back lk s =
     (case myproc s of
        None \<Rightarrow> Panic ''kerneltrap''
      | Some p \<Rightarrow>
        bindr (release (ProcLock p) (upd_proc p (\<lambda>q. q\<lparr>chan := ChanNone\<rparr>) s)) (acquire lk))"

definition wakeup :: "channel \<Rightarrow> 'z kglob_scheme \<Rightarrow> 'z kglob_scheme res" where
  "wakeup ch =
     loop_res (\<lambda>p s.
       if myproc s \<noteq> Some p
       then
         bindr (acquire (ProcLock p) s) (\<lambda>s.
         let s = (if pstate (procs s p) = SLEEPING \<and> chan (procs s p) = ch
                  then upd_proc p (\<lambda>q. q\<lparr>pstate := RUNNABLE\<rparr>) s else s)
         in release (ProcLock p) s)
       else Ok s) [0..<NPROC]"

text \<open>One turn of the inner loop of \<open>scheduler\<close>. \<open>run\<close> is what the chosen process does until it switches
  back; the list collects the processes that were run, with their levels.\<close>

definition scheduler_turn ::
    "(nat \<Rightarrow> 'z kglob_scheme \<Rightarrow> 'z kglob_scheme) \<Rightarrow> int \<times> nat \<Rightarrow> (int \<times> nat) list \<times> 'z kglob_scheme \<Rightarrow>
     ((int \<times> nat) list \<times> 'z kglob_scheme) res" where
  "scheduler_turn run = (\<lambda>(level, p) (tr, s).
     bindr (acquire (ProcLock p) s) (\<lambda>s.
     let (tr, s) =
       (if pstate (procs s p) = RUNNABLE \<and> cur_queue_lvl (procs s p) = level
        then
          let s = upd_proc p (\<lambda>q. q\<lparr>pstate := RUNNING\<rparr>) s;
              s = s\<lparr>cpu_proc := Some p\<rparr>;
              s = upd_proc p (\<lambda>q. q\<lparr>no_of_schedules := no_of_schedules q + 1, temp := syscount q\<rparr>) s;
              s = run p s
          in (tr @ [(level, p)], s\<lparr>cpu_proc := None\<rparr>)
        else (tr, s))
     in bindr (release (ProcLock p) s) (\<lambda>s. Ok (tr, s))))"

definition scan_order :: "(int \<times> nat) list" where
  "scan_order = concat (map (\<lambda>level. map (\<lambda>p. (level, p)) [0..<NPROC]) [0, 1, 2, 3])"

text \<open>One round of the endless loop; the CPU waits for an interrupt when the result list is empty.\<close>

definition scheduler_round ::
    "(nat \<Rightarrow> 'z kglob_scheme \<Rightarrow> 'z kglob_scheme) \<Rightarrow> 'z kglob_scheme \<Rightarrow>
     ((int \<times> nat) list \<times> 'z kglob_scheme) res" where
  "scheduler_round run s = loop_res (scheduler_turn run) scan_order ([], s\<lparr>cpu_proc := None\<rparr>)"

definition priority_boost :: "'z kglob_scheme \<Rightarrow> 'z kglob_scheme res" where
  "priority_boost =
     loop_res (\<lambda>p s.
       bindr (acquire (ProcLock p) s) (\<lambda>s.
       let s = (if pstate (procs s p) = RUNNABLE
                then upd_proc p (\<lambda>q. q\<lparr>cur_queue_lvl := 0, ticks_each_level := 0, temp := syscount q\<rparr>) s else s)
       in release (ProcLock p) s)) [0..<NPROC]"

subsection \<open>Killing and waiting\<close>

fun kkill_scan :: "nat list \<Rightarrow> int \<Rightarrow> 'z kglob_scheme \<Rightarrow> (int \<times> 'z kglob_scheme) res" where
  "kkill_scan [] i s = Ok (-1, s)"
| "kkill_scan (p # ps) i s =
     bindr (acquire (ProcLock p) s) (\<lambda>s.
     if pid (procs s p) = i
     then
       let s = upd_proc p (\<lambda>q. q\<lparr>killed := 1\<rparr>) s;
           s = (if pstate (procs s p) = SLEEPING then upd_proc p (\<lambda>q. q\<lparr>pstate := RUNNABLE\<rparr>) s else s)
       in bindr (release (ProcLock p) s) (\<lambda>s. Ok (0, s))
     else bindr (release (ProcLock p) s) (kkill_scan ps i))"

definition kkill :: "int \<Rightarrow> 'z kglob_scheme \<Rightarrow> (int \<times> 'z kglob_scheme) res" where
  "kkill i = kkill_scan [0..<NPROC] i"

definition setkilled :: "nat \<Rightarrow> 'z kglob_scheme \<Rightarrow> 'z kglob_scheme res" where
  "setkilled p s =
     bindr (acquire (ProcLock p) s) (\<lambda>s. release (ProcLock p) (upd_proc p (\<lambda>q. q\<lparr>killed := 1\<rparr>) s))"

definition is_killed :: "nat \<Rightarrow> 'z kglob_scheme \<Rightarrow> (int \<times> 'z kglob_scheme) res" where
  "is_killed p s =
     bindr (acquire (ProcLock p) s) (\<lambda>s.
     let k = killed (procs s p) in bindr (release (ProcLock p) s) (\<lambda>s. Ok (k, s)))"

definition reparent :: "nat \<Rightarrow> 'z kglob_scheme \<Rightarrow> 'z kglob_scheme res" where
  "reparent p =
     loop_res (\<lambda>pp s.
       if parent (procs s pp) = Some p
       then
         let s = upd_proc pp (\<lambda>q. q\<lparr>parent := initproc s\<rparr>) s
         in wakeup (case initproc s of None \<Rightarrow> ChanNone | Some i \<Rightarrow> ChanProc i) s
       else Ok s) [0..<NPROC]"

text \<open>The four bytes of a C \<open>int\<close> in memory.\<close>

definition int_bytes :: "int \<Rightarrow> uint8 list" where
  "int_bytes x = map (\<lambda>i. ucast (drop_bit (8 * i) (of_int x :: uint32))) [0..<4]"

text \<open>The scan of \<open>kwait\<close> for exited children: the value it returns, if it returns, and whether there
  are children.\<close>

fun kwait_scan ::
    "nat list \<Rightarrow> nat \<Rightarrow> uint64 \<Rightarrow> bool \<Rightarrow> 'z kglob_scheme \<Rightarrow> (int option \<times> bool \<times> 'z kglob_scheme) res" where
  "kwait_scan [] p addr havekids s = Ok (None, havekids, s)"
| "kwait_scan (pp # pps) p addr havekids s =
     (if parent (procs s pp) = Some p
      then
        bindr (acquire (ProcLock pp) s) (\<lambda>s.
        if pstate (procs s pp) = ZOMBIE
        then
          let i = pid (procs s pp)
          in bindr (if addr \<noteq> 0
                    then copyout (pagetable (procs s p)) addr (int_bytes (xstate (procs s pp))) s
                    else Ok (0, s)) (\<lambda>(r, s).
             if r < 0
             then bindr (release (ProcLock pp) s) (\<lambda>s. bindr (release WaitLock s) (\<lambda>s. Ok (Some (-1), True, s)))
             else
               bindr (freeproc pp s) (\<lambda>s.
               bindr (release (ProcLock pp) s) (\<lambda>s.
               bindr (release WaitLock s) (\<lambda>s. Ok (Some i, True, s)))))
        else bindr (release (ProcLock pp) s) (kwait_scan pps p addr True))
      else kwait_scan pps p addr havekids s)"

text \<open>One turn of the loop of \<open>kwait\<close>, entered with \<open>wait_lock\<close> held: \<open>Some r\<close> returns \<open>r\<close>, \<open>None\<close> is the
  sleep on the process itself, after which the loop is entered again through \<open>sleep_back\<close>.\<close>

definition kwait_turn :: "uint64 \<Rightarrow> 'z kglob_scheme \<Rightarrow> (int option \<times> 'z kglob_scheme) res" where
  "kwait_turn addr s =
     (case myproc s of
        None \<Rightarrow> Panic ''kerneltrap''
      | Some p \<Rightarrow>
        bindr (kwait_scan [0..<NPROC] p addr False s) (\<lambda>(r, havekids, s).
        case r of
          Some i \<Rightarrow> Ok (Some i, s)
        | None \<Rightarrow>
          bindr (if havekids then is_killed p s else Ok (1, s)) (\<lambda>(k, s).
          if \<not> havekids \<or> k \<noteq> 0 then bindr (release WaitLock s) (\<lambda>s. Ok (Some (-1), s))
          else bindr (sleep (ChanProc p) WaitLock s) (\<lambda>s. Ok (None, s)))))"

definition kwait :: "uint64 \<Rightarrow> 'z kglob_scheme \<Rightarrow> (int option \<times> 'z kglob_scheme) res" where
  "kwait addr s = bindr (acquire WaitLock s) (kwait_turn addr)"

subsection \<open>The timer tick of \<open>usertrap\<close>\<close>

text \<open>What trap.c does to the running process on a timer interrupt, before it gives up the CPU.\<close>

definition mlfq_tick :: "proc \<Rightarrow> proc" where
  "mlfq_tick p =
     (let lvl = cur_queue_lvl p;
          p = p\<lparr>ticks_each_level := ticks_each_level p + 1, pticks := (pticks p)(nat lvl := pticks p (nat lvl) + 1)\<rparr>
      in if ticks_each_level p \<ge> time_slice lvl
         then
           let p = (if syscount p - temp p < ticks_each_level p \<and> lvl < 3 then p\<lparr>cur_queue_lvl := lvl + 1\<rparr> else p)
           in p\<lparr>ticks_each_level := 0, temp := syscount p\<rparr>
         else p)"

definition timer_tick :: "'z kglob_scheme \<Rightarrow> 'z kglob_scheme res" where
  "timer_tick s =
     (case myproc s of
        None \<Rightarrow> Ok s
      | Some p \<Rightarrow>
        bindr (acquire (ProcLock p) s) (\<lambda>s.
        bindr (release (ProcLock p) (upd_proc p mlfq_tick s)) yield))"

text \<open>\<open>no_of_ticks - last_boost\<close> is unsigned arithmetic on 32 bits.\<close>

definition clockintr :: "nat \<Rightarrow> 'z kglob_scheme \<Rightarrow> 'z kglob_scheme res" where
  "clockintr cpuid s =
     (if cpuid = 0
      then
        bindr (acquire TicksLock s) (\<lambda>s.
        let s = s\<lparr>kticks := kticks s + 1\<rparr>;
            no_of_ticks = kticks s
        in bindr (wakeup ChanTicks s) (\<lambda>s.
           bindr (release TicksLock s) (\<lambda>s.
           if no_of_ticks - last_boost s \<ge> 128
           then bindr (priority_boost s) (\<lambda>s. Ok (s\<lparr>last_boost := no_of_ticks\<rparr>))
           else Ok s)))
      else Ok s)"

section \<open>Table scans under the process locks\<close>

definition plocks_free :: "'z kproc_scheme \<Rightarrow> bool" where
  "plocks_free s \<longleftrightarrow> (\<forall>p. ProcLock p \<notin> held s)"

text \<open>A loop that locks each entry, updates it and unlocks it, as a map over the table.\<close>

definition plocked :: "(nat \<Rightarrow> proc \<Rightarrow> proc) \<Rightarrow> nat \<Rightarrow> 'z kproc_scheme \<Rightarrow> 'z kproc_scheme res" where
  "plocked f p s = bindr (acquire (ProcLock p) s) (\<lambda>s. release (ProcLock p) (upd_proc p (f p) s))"

lemma plocked_ok: "ProcLock p \<notin> held s \<Longrightarrow> plocked f p s = Ok (s\<lparr>procs := (procs s)(p := f p (procs s p))\<rparr>)"
  by (simp add: plocked_def upd_proc_def)

lemma plock_loop:
  assumes "plocks_free s" "distinct ps"
  shows "loop_res (plocked f) ps s = Ok (s\<lparr>procs := (\<lambda>p. if p \<in> set ps then f p (procs s p) else procs s p)\<rparr>)"
  using assms
proof (induction ps arbitrary: s)
  case (Cons p ps)
  let ?s = "s\<lparr>procs := (procs s)(p := f p (procs s p))\<rparr>"
  have "plocked f p s = Ok ?s" using Cons.prems(1) by (simp add: plocked_ok plocks_free_def)
  moreover have "plocks_free ?s" using Cons.prems(1) by (simp add: plocks_free_def)
  ultimately have "loop_res (plocked f) (p # ps) s =
      Ok (?s\<lparr>procs := (\<lambda>q. if q \<in> set ps then f q (procs ?s q) else procs ?s q)\<rparr>)"
    using Cons.IH [of ?s] Cons.prems(2) by (simp only: loop_res.simps bindr.simps distinct.simps)
  also have "\<dots> = Ok (s\<lparr>procs := (\<lambda>q. if q \<in> set (p # ps) then f q (procs s q) else procs s q)\<rparr>)"
    using Cons.prems(2) by (auto simp: fun_eq_iff intro!: arg_cong [where f = "\<lambda>P. s\<lparr>procs := P\<rparr>"])
  finally show ?case .
qed simp

definition boosted :: "proc \<Rightarrow> proc" where
  "boosted q = (if pstate q = RUNNABLE then q\<lparr>cur_queue_lvl := 0, ticks_each_level := 0, temp := syscount q\<rparr> else q)"

lemma upd_proc_id: "f (procs s p) = procs s p \<Longrightarrow> upd_proc p f s = s"
  by (simp add: upd_proc_def)

lemma priority_boost_ok:
  fixes s :: "'z kglob_scheme"
  assumes "plocks_free s"
  shows "priority_boost s = Ok (s\<lparr>procs := (\<lambda>p. if p < NPROC then boosted (procs s p) else procs s p)\<rparr>)"
proof -
  have "priority_boost = (loop_res (plocked (\<lambda>_. boosted)) [0..<NPROC] :: 'z kglob_scheme \<Rightarrow> 'z kglob_scheme res)"
    unfolding priority_boost_def plocked_def
    by (auto simp: fun_eq_iff boosted_def upd_proc_def
        intro!: arg_cong [where f = "\<lambda>f. loop_res f _ _"] arg_cong [where f = "bindr _"])
  then show ?thesis using plock_loop [OF assms, of "[0..<NPROC]" "\<lambda>_. boosted"] by simp
qed

definition woken :: "channel \<Rightarrow> proc \<Rightarrow> proc" where
  "woken ch q = (if pstate q = SLEEPING \<and> chan q = ch then q\<lparr>pstate := RUNNABLE\<rparr> else q)"

lemma wakeup_ok:
  assumes "plocks_free s"
  shows "wakeup ch s =
    Ok (s\<lparr>procs := (\<lambda>p. if p < NPROC \<and> myproc s \<noteq> Some p then woken ch (procs s p) else procs s p)\<rparr>)"
proof -
  let ?f = "\<lambda>p q. if myproc s \<noteq> Some p then woken ch q else q"
  let ?body = "\<lambda>p s. if myproc s \<noteq> Some p
       then bindr (acquire (ProcLock p) s) (\<lambda>s.
         let s = (if pstate (procs s p) = SLEEPING \<and> chan (procs s p) = ch
                  then upd_proc p (\<lambda>q. q\<lparr>pstate := RUNNABLE\<rparr>) s else s)
         in release (ProcLock p) s)
       else Ok s"
  have "loop_res ?body ps t = loop_res (plocked ?f) ps t" if "plocks_free t" "myproc t = myproc s" for ps t
    using that
  proof (induction ps arbitrary: t)
    case (Cons p ps)
    let ?t = "t\<lparr>procs := (procs t)(p := ?f p (procs t p))\<rparr>"
    have fr: "ProcLock p \<notin> held t" using Cons.prems(1) by (simp add: plocks_free_def)
    have "?body p t = Ok ?t" using fr Cons.prems(2) by (auto simp: woken_def upd_proc_def fun_upd_idem)
    moreover have "plocked ?f p t = Ok ?t" using fr by (rule plocked_ok)
    moreover have "plocks_free ?t" "myproc ?t = myproc s" using Cons.prems by (simp_all add: plocks_free_def myproc_def)
    ultimately show ?case using Cons.IH [of ?t] by (simp only: loop_res.simps bindr.simps)
  qed simp
  from this [OF assms refl] plock_loop [OF assms, of "[0..<NPROC]" ?f]
  have "wakeup ch s = Ok (s\<lparr>procs := (\<lambda>p. if p \<in> set [0..<NPROC] then ?f p (procs s p) else procs s p)\<rparr>)"
    by (simp only: wakeup_def distinct_upt)
  also have "\<dots> = Ok (s\<lparr>procs := (\<lambda>p. if p < NPROC \<and> myproc s \<noteq> Some p then woken ch (procs s p) else procs s p)\<rparr>)"
    by (auto simp: fun_eq_iff intro!: arg_cong [where f = "\<lambda>P. s\<lparr>procs := P\<rparr>"])
  finally show ?thesis .
qed

section \<open>The scheduler\<close>

text \<open>What a round relies on: a process comes back from its run with the locks it started with, that is,
  with its own lock only (\<open>sched\<close> panics otherwise).\<close>

definition runs_ok :: "(nat \<Rightarrow> 'z kglob_scheme \<Rightarrow> 'z kglob_scheme) \<Rightarrow> bool" where
  "runs_ok run \<longleftrightarrow> (\<forall>q t. held (run q t) = held t)"

definition chosen :: "nat \<Rightarrow> 'z kglob_scheme \<Rightarrow> 'z kglob_scheme" where
  "chosen p s = (upd_proc p (\<lambda>q. q\<lparr>pstate := RUNNING, no_of_schedules := no_of_schedules q + 1, temp := syscount q\<rparr>) s)
     \<lparr>cpu_proc := Some p, held := insert (ProcLock p) (held s)\<rparr>"

lemma scheduler_turn_ok:
  assumes "plocks_free s" "runs_ok run"
  shows "scheduler_turn run (l, p) (tr, s) =
    (if pstate (procs s p) = RUNNABLE \<and> cur_queue_lvl (procs s p) = l
     then Ok (tr @ [(l, p)], (run p (chosen p s))\<lparr>cpu_proc := None, held := held s\<rparr>)
     else Ok (tr, s))"
proof -
  have fr: "ProcLock p \<notin> held s" using assms(1) by (simp add: plocks_free_def)
  have h: "held (run q t) = held t" for q t using assms(2) by (simp add: runs_ok_def)
  have c: "(upd_proc p (\<lambda>q. q\<lparr>no_of_schedules := no_of_schedules q + 1, temp := syscount q\<rparr>)
       ((upd_proc p (\<lambda>q. q\<lparr>pstate := RUNNING\<rparr>) (s\<lparr>held := insert (ProcLock p) (held s)\<rparr>))\<lparr>cpu_proc := Some p\<rparr>)) = chosen p s"
    by (simp add: chosen_def upd_proc_def)
  show ?thesis
    using fr h [of p "chosen p s"] by (auto simp: scheduler_turn_def Let_def c chosen_def)
qed

lemma scheduler_scan:
  assumes "runs_ok run" "plocks_free s"
  shows "\<exists>tr' t. loop_res (scheduler_turn run) xs (tr, s) = Ok (tr @ tr', t) \<and> subseq tr' xs \<and> plocks_free t"
  using assms(2)
proof (induction xs arbitrary: tr s)
  case (Cons x xs)
  obtain l p where x: "x = (l, p)" by fastforce
  show ?case
  proof (cases "pstate (procs s p) = RUNNABLE \<and> cur_queue_lvl (procs s p) = l")
    case True
    let ?t = "(run p (chosen p s))\<lparr>cpu_proc := None, held := held s\<rparr>"
    have "plocks_free ?t" using Cons.prems by (simp add: plocks_free_def)
    from Cons.IH [OF this, of "tr @ [x]"] obtain tr' t where
      "loop_res (scheduler_turn run) xs (tr @ [x], ?t) = Ok (tr @ (x # tr'), t)" "subseq tr' xs" "plocks_free t" by auto
    then show ?thesis
      using scheduler_turn_ok [OF Cons.prems assms(1)] True
      by (intro exI [of _ "x # tr'"] exI [of _ t]) (simp add: x)
  next
    case False
    then show ?thesis
      using Cons.IH [OF Cons.prems, of tr] scheduler_turn_ok [OF Cons.prems assms(1)] by (auto simp: x intro: list_emb_Cons)
  qed
qed simp

lemma sorted_scan_order: "sorted (map fst scan_order)" "distinct scan_order"
  by (auto simp: scan_order_def sorted_append distinct_map inj_on_def comp_def map_replicate_const)

lemma scheduler_scan_picks:
  assumes "runs_ok run" "plocks_free s" "(l, p) \<in> set xs"
    and keep: "\<And>q t. q \<noteq> p \<Longrightarrow> pstate (procs (run q t) p) = pstate (procs t p) \<and>
        cur_queue_lvl (procs (run q t) p) = cur_queue_lvl (procs t p)"
    and p: "pstate (procs s p) = RUNNABLE" "cur_queue_lvl (procs s p) = l"
  shows "\<exists>tr' t. loop_res (scheduler_turn run) xs (tr, s) = Ok (tr @ tr', t) \<and> (l, p) \<in> set tr'"
  using assms(2,3) p
proof (induction xs arbitrary: tr s)
  case (Cons x xs)
  obtain k q where x: "x = (k, q)" by fastforce
  note turn = scheduler_turn_ok [OF Cons.prems(1) assms(1), of k q tr]
  show ?case
  proof (cases "pstate (procs s q) = RUNNABLE \<and> cur_queue_lvl (procs s q) = k")
    case True
    let ?t = "(run q (chosen q s))\<lparr>cpu_proc := None, held := held s\<rparr>"
    have t: "plocks_free ?t" using Cons.prems(1) by (simp add: plocks_free_def)
    show ?thesis
    proof (cases "q = p")
      case pq: True
      from scheduler_scan [OF assms(1) t, of xs "tr @ [x]"] obtain tr' u where
        "loop_res (scheduler_turn run) xs (tr @ [x], ?t) = Ok (tr @ (x # tr'), u)" by auto
      then show ?thesis
        using turn True pq Cons.prems(3,4) by (intro exI [of _ "x # tr'"] exI [of _ u]) (simp add: x)
    next
      case False
      have "pstate (procs ?t p) = RUNNABLE" "cur_queue_lvl (procs ?t p) = l"
        using keep [OF False, of "chosen q s"] Cons.prems(3,4) False by (simp_all add: chosen_def)
      moreover have "(l, p) \<in> set xs" using Cons.prems(2) False x by simp
      ultimately obtain tr' u where "loop_res (scheduler_turn run) xs (tr @ [x], ?t) = Ok (tr @ [x] @ tr', u)" "(l, p) \<in> set tr'"
        using Cons.IH [OF t, of "tr @ [x]"] by auto
      then show ?thesis
        using turn True by (intro exI [of _ "x # tr'"] exI [of _ u]) (simp add: x)
    qed
  next
    case False
    then have "(l, p) \<in> set xs" using Cons.prems(2-4) x by auto
    then show ?thesis using Cons.IH [OF Cons.prems(1) _ Cons.prems(3,4), of tr] turn False by (simp add: x)
  qed
qed simp

section \<open>The feedback queues\<close>

text \<open>A level is one of the four queues, and the ticks used at it are fewer than its slice.\<close>

definition mlfq_ok :: "proc \<Rightarrow> bool" where
  "mlfq_ok q \<longleftrightarrow> cur_queue_lvl q \<in> {0, 1, 2, 3} \<and> 0 \<le> ticks_each_level q \<and> ticks_each_level q < time_slice (cur_queue_lvl q)"

lemma time_slice_simps [simp]: "time_slice 0 = 2" "time_slice 1 = 4" "time_slice 2 = 8" "time_slice 3 = 16"
  by (simp_all add: time_slice_def)

lemma mlfq_ok_tick: "mlfq_ok q \<Longrightarrow> mlfq_ok (mlfq_tick q)"
  by (auto simp: mlfq_ok_def mlfq_tick_def Let_def)

lemma mlfq_ok_boosted: "mlfq_ok q \<Longrightarrow> mlfq_ok (boosted q)"
  by (simp add: mlfq_ok_def boosted_def)

lemma mlfq_ok_pstate [simp]: "mlfq_ok (q\<lparr>pstate := x\<rparr>) = mlfq_ok q"
  by (simp add: mlfq_ok_def)

lemma yield_ok:
  assumes "held s = {}" "myproc s = Some p"
  shows "yield s = Ok ((upd_proc p (\<lambda>q. q\<lparr>pstate := RUNNABLE\<rparr>) s)\<lparr>held := {ProcLock p}\<rparr>)"
  using assms by (simp add: yield_def sched_def upd_proc_def myproc_def)

lemma timer_tick_ok:
  assumes "held s = {}" "myproc s = Some p"
  shows "timer_tick s = Ok ((upd_proc p (\<lambda>q. (mlfq_tick q)\<lparr>pstate := RUNNABLE\<rparr>) s)\<lparr>held := {ProcLock p}\<rparr>)"
proof -
  let ?s = "upd_proc p mlfq_tick s"
  have "timer_tick s = bindr (plocked (\<lambda>_. mlfq_tick) p s) yield"
    using assms(2) by (simp add: timer_tick_def plocked_def bindr_assoc)
  also have "\<dots> = yield ?s" using assms(1) by (subst plocked_ok) (simp_all add: upd_proc_def)
  finally have "timer_tick s = yield ?s" .
  moreover have "held ?s = {}" "myproc ?s = Some p" using assms by simp_all
  ultimately show ?thesis using yield_ok [of ?s p] by (simp add: upd_proc_def)
qed

text \<open>What a process goes through per tick of its slice: it is chosen, makes \<open>k\<close> system calls, and the tick
  takes the CPU away from it.\<close>

definition mlfq_turn :: "int \<Rightarrow> proc \<Rightarrow> proc" where
  "mlfq_turn k q = mlfq_tick (q\<lparr>temp := syscount q, syscount := syscount q + k\<rparr>)"

lemma mlfq_turns:
  assumes "mlfq_ok q" "ticks_each_level q = 0" "int n < time_slice (cur_queue_lvl q)"
  shows "cur_queue_lvl ((mlfq_turn k ^^ n) q) = cur_queue_lvl q" "ticks_each_level ((mlfq_turn k ^^ n) q) = int n"
  using assms by (induction n) (simp_all add: mlfq_turn_def mlfq_tick_def Let_def)

lemma mlfq_last_turn:
  assumes "mlfq_ok q" "ticks_each_level q = 0"
  defines "n \<equiv> nat (time_slice (cur_queue_lvl q))"
  shows "cur_queue_lvl ((mlfq_turn k ^^ n) q) =
    (if k < time_slice (cur_queue_lvl q) \<and> cur_queue_lvl q < 3 then cur_queue_lvl q + 1 else cur_queue_lvl q)"
proof -
  have "0 < time_slice (cur_queue_lvl q)" using assms(1) by (auto simp: mlfq_ok_def)
  then have n: "int n = time_slice (cur_queue_lvl q)" "0 < n" by (simp_all add: n_def)
  then obtain m where m: "n = Suc m" by (cases n) auto
  then have "time_slice (cur_queue_lvl q) = int m + 1" using n(1) by simp
  then show ?thesis using mlfq_turns [OF assms(1,2), of m k] by (simp add: m)  (simp add: mlfq_turn_def mlfq_tick_def Let_def)
qed

section \<open>Properties of scheduling\<close>

definition kg0 :: kglob where
  "kg0 = kmem.extend km0 (kglob.fields 2 (Some 0) 0 0 0x80000000 0x80000100)"

lemma kg0_sel [simp]: "procs kg0 = procs km0" "held kg0 = {}" "myproc kg0 = Some 0" "nextpid kg0 = 2" "initproc kg0 = Some 0"
  "cpu_proc kg0 = Some 0"
proof -
  have "cpu_proc kg0 = cpu_proc km0" "procs kg0 = procs km0" "held kg0 = held km0"
    by (simp_all add: kg0_def kmem.defs)
  then show "procs kg0 = procs km0" "held kg0 = {}" "myproc kg0 = Some 0" "cpu_proc kg0 = Some 0"
    by (simp_all add: myproc_def)
  show "nextpid kg0 = 2" "initproc kg0 = Some 0" by (simp_all add: kg0_def kmem.defs kglob.defs)
qed

text \<open>C20: No runnable process is starved. In every round of the scheduler, each process that stays runnable in its
  queue until its turn is run, whatever the other processes do on the CPU in the meantime.\<close>

theorem scheduler_no_starvation:
  assumes "runs_ok run" "plocks_free s" "p < NPROC" "pstate (procs s p) = RUNNABLE" "cur_queue_lvl (procs s p) \<in> {0, 1, 2, 3}"
    and "\<forall>q t. q \<noteq> p \<longrightarrow> pstate (procs (run q t) p) = pstate (procs t p) \<and>
        cur_queue_lvl (procs (run q t) p) = cur_queue_lvl (procs t p)"
  shows "\<exists>tr t. scheduler_round run s = Ok (tr, t) \<and> (cur_queue_lvl (procs s p), p) \<in> set tr"
proof -
  have "(cur_queue_lvl (procs s p), p) \<in> set scan_order" using assms(3,5) by (auto simp: scan_order_def)
  moreover have "plocks_free (s\<lparr>cpu_proc := None\<rparr>)" using assms(2) by (simp add: plocks_free_def)
  ultimately show ?thesis
    using scheduler_scan_picks [OF assms(1), of "s\<lparr>cpu_proc := None\<rparr>" _ p scan_order "[]"] assms(4,6)
    by (simp add: scheduler_round_def)
qed

theorem scheduler_no_starvation_witness:
  "\<exists>tr t. scheduler_round (\<lambda>_ s. s) (upd_proc 5 (\<lambda>q. q\<lparr>pstate := RUNNABLE\<rparr>) kg0) = Ok (tr, t) \<and> (0, 5) \<in> set tr"
  using scheduler_no_starvation [of "\<lambda>_ s. s" "upd_proc 5 (\<lambda>q. q\<lparr>pstate := RUNNABLE\<rparr>) kg0" 5]
  by (simp add: runs_ok_def plocks_free_def proc0_def)



text \<open>C32: The queue level of every process is one of the four and its ticks stay below the slice of its level,
  so the accesses to \<open>time_slice\<close> and \<open>ticks\<close> are within bounds: the timer tick and the priority boost preserve
  it, and neither panics.\<close>

theorem mlfq_levels_bounded:
  assumes "\<forall>q. mlfq_ok (procs s q)" "held s = {}"
  shows "(\<exists>t. timer_tick s = Ok t \<and> (\<forall>q. mlfq_ok (procs t q))) \<and> (\<exists>t. priority_boost s = Ok t \<and> (\<forall>q. mlfq_ok (procs t q)))"
proof (intro conjI)
  show "\<exists>t. timer_tick s = Ok t \<and> (\<forall>q. mlfq_ok (procs t q))"
  proof (cases "myproc s")
    case None
    then show ?thesis using assms by (simp add: timer_tick_def)
  next
    case (Some p)
    then show ?thesis using timer_tick_ok [OF assms(2) Some] assms(1) mlfq_ok_tick by simp
  qed
  show "\<exists>t. priority_boost s = Ok t \<and> (\<forall>q. mlfq_ok (procs t q))"
    using priority_boost_ok [of s] assms mlfq_ok_boosted by (simp add: plocks_free_def)
qed

theorem mlfq_levels_bounded_witness: "\<exists>t. timer_tick kg0 = Ok t \<and> mlfq_ok (procs t 0)"
proof -
  have "\<forall>q. mlfq_ok (procs kg0 q)" by (simp add: mlfq_ok_def proc0_def)
  then show ?thesis using mlfq_levels_bounded [of kg0] by auto
qed



section \<open>Allocating a process\<close>

lemma allocproc_scan_ok:
  assumes "plocks_free s"
  shows "allocproc_scan [i..<n] s =
    (case search (\<lambda>p. pstate (procs s p) = UNUSED) i n of
       None \<Rightarrow> Ok (None, s)
     | Some p \<Rightarrow> Ok (Some p, s\<lparr>held := insert (ProcLock p) (held s)\<rparr>))"
proof (induction "n - i" arbitrary: i)
  case 0
  then show ?case by simp
next
  case (Suc d)
  have fr: "ProcLock i \<notin> held s" using assms by (simp add: plocks_free_def)
  have i: "i < n" "d = n - Suc i" using Suc.hyps(2) by simp_all
  then show ?case
    using fr Suc.hyps(1) [OF i(2)] by (simp add: upt_conv_Cons search.simps [of _ i n])
qed

lemma mappages_page:
  assumes "vm_ok s pt xs" "page_aligned va" "unat va + 4096 \<le> unat MAXVA" "2 \<le> length xs" "pte_of (mem s) pt va = 0"
  shows "\<exists>s' ys zs. mappages pt va PGSIZE pa perm s = Ok (0, s') \<and> xs = ys @ zs \<and> length ys \<le> 2 \<and>
    vm_ok s' pt zs \<and> vm_grow pt ys s s' \<and>
    (\<forall>b. page_aligned b \<longrightarrow> b < MAXVA \<longrightarrow> pte_of (mem s') pt b = (if b = va then PA2PTE pa OR perm OR PTE_V else pte_of (mem s) pt b))"
proof -
  have run: "in_run va 1 b \<longleftrightarrow> b = va" if "page_aligned b" for b
    using in_run_Suc [OF assms(2) that assms(3), of 0] by (auto simp: in_run_def)
  then obtain s' ys zs where "mappages pt va PGSIZE pa perm s = Ok (0, s')" "xs = ys @ zs" "length ys \<le> 2"
    "vm_ok s' pt zs" "vm_grow pt ys s s'"
    "\<forall>b. page_aligned b \<longrightarrow> b < MAXVA \<longrightarrow> pte_of (mem s') pt b =
       (if in_run va 1 b then PA2PTE (pa + (b - va)) OR perm OR PTE_V else pte_of (mem s) pt b)"
    using mappages_ok [OF assms(1,2), of 1 pa perm] assms(3-5) by auto
  then show ?thesis
    using run by (intro exI [of _ s'] exI [of _ ys] exI [of _ zs]) simp
qed

text \<open>The page table of a new process: trampoline and trap frame, and nothing else.\<close>

definition fresh_space :: "bytemem \<Rightarrow> uint64 \<Rightarrow> uint64 \<Rightarrow> uint64 \<Rightarrow> bool" where
  "fresh_space m pt tramp tf \<longleftrightarrow> (\<forall>b. page_aligned b \<longrightarrow> b < MAXVA \<longrightarrow> pte_of m pt b =
     (if b = TRAPFRAME then PA2PTE tf OR (PTE_R OR PTE_W) OR PTE_V
      else if b = TRAMPOLINE then PA2PTE tramp OR (PTE_R OR PTE_X) OR PTE_V else 0))"

lemma proc_pagetable_ok:
  assumes "free_list s xs" "locks_free s" "5 \<le> length xs"
  shows "\<exists>t zs. proc_pagetable p s = Ok (hd xs, t) \<and> vm_ok t (hd xs) zs \<and> set zs \<subseteq> set xs \<and>
    (\<exists>m l. t = s\<lparr>mem := m, freelist := l\<rparr>) \<and> fresh_space (mem t) (hd xs) (trampoline_pa s) (trapframe (procs s p))"
proof -
  obtain pt ys where xs: "xs = pt # ys" using assms(3) by (cases xs) auto
  have al: "page_aligned TRAMPOLINE" "page_aligned TRAPFRAME" by (simp_all add: page_aligned_def)
  obtain s1 m1 l1 where s1: "uvmcreate s = Ok (pt, s1)" "vm_ok s1 pt ys" "\<forall>va. pte_of (mem s1) pt va = 0"
    "s1 = s\<lparr>mem := m1, freelist := l1\<rparr>"
    using uvmcreate_ok [of s pt ys] assms(1,2) xs by auto
  obtain s2 as bs where s2: "mappages pt TRAMPOLINE PGSIZE (trampoline_pa s) (PTE_R OR PTE_X) s1 = Ok (0, s2)" "ys = as @ bs"
    "length as \<le> 2" "vm_ok s2 pt bs" "vm_grow pt as s1 s2"
    "\<forall>b. page_aligned b \<longrightarrow> b < MAXVA \<longrightarrow> pte_of (mem s2) pt b =
       (if b = TRAMPOLINE then PA2PTE (trampoline_pa s) OR (PTE_R OR PTE_X) OR PTE_V else pte_of (mem s1) pt b)"
    using mappages_page [OF s1(2) al(1), of "trampoline_pa s" "PTE_R OR PTE_X"] s1(3) assms(3) xs by auto
  obtain m2 l2 where m2: "s2 = s1\<lparr>mem := m2, freelist := l2\<rparr>" using s2(5) by (auto simp: vm_grow_def)
  have z: "pte_of (mem s2) pt TRAPFRAME = 0" using s2(6) s1(3) al by simp
  obtain s3 cs ds where s3: "mappages pt TRAPFRAME PGSIZE (trapframe (procs s p)) (PTE_R OR PTE_W) s2 = Ok (0, s3)" "bs = cs @ ds"
    "vm_ok s3 pt ds" "vm_grow pt cs s2 s3"
    "\<forall>b. page_aligned b \<longrightarrow> b < MAXVA \<longrightarrow> pte_of (mem s3) pt b =
       (if b = TRAPFRAME then PA2PTE (trapframe (procs s p)) OR (PTE_R OR PTE_W) OR PTE_V else pte_of (mem s2) pt b)"
    using mappages_page [OF s2(4) al(2) _ _ z, of "trapframe (procs s p)" "PTE_R OR PTE_W"] s2(2,3) assms(3) xs by auto
  obtain m3 l3 where m3: "s3 = s2\<lparr>mem := m3, freelist := l3\<rparr>" using s3(4) by (auto simp: vm_grow_def)
  have "pt \<noteq> 0" using assms(1) xs by (simp add: free_list_def)
  then have "proc_pagetable p s = Ok (pt, s3)" using s1(1,4) s2(1) m2 s3(1) by (simp add: proc_pagetable_def)
  moreover have "s3 = s\<lparr>mem := m3, freelist := l3\<rparr>" by (cases s) (simp add: m3 m2 s1(4))
  moreover have "fresh_space (mem s3) pt (trampoline_pa s) (trapframe (procs s p))"
    using s3(5) s2(6) s1(3) by (simp add: fresh_space_def)
  ultimately show ?thesis using s3(2,3) s2(2) xs by (intro exI [of _ s3] exI [of _ ds]) auto
qed

text \<open>Process ids are handed out once: every one in use is below \<open>nextpid\<close>, and no two processes share one.\<close>

definition pids_ok :: "'z kglob_scheme \<Rightarrow> bool" where
  "pids_ok s \<longleftrightarrow> (\<forall>p. pstate (procs s p) \<noteq> UNUSED \<longrightarrow> pid (procs s p) < nextpid s) \<and>
     (\<forall>p q. pstate (procs s p) \<noteq> UNUSED \<longrightarrow> pstate (procs s q) \<noteq> UNUSED \<longrightarrow> pid (procs s p) = pid (procs s q) \<longrightarrow> p = q)"

lemma free_list_cong:
  "mem t = mem s \<Longrightarrow> freelist t = freelist s \<Longrightarrow> kend t = kend s \<Longrightarrow> free_list t xs = free_list s xs"
  by (simp add: free_list_def alloc_page_def)

lemma allocproc_ok:
  assumes lk: "plocks_free s" "locks_free s" "PidLock \<notin> held s"
    and free: "search (\<lambda>p. pstate (procs s p) = UNUSED) 0 NPROC = Some p" and xs: "free_list s (tf # xs)" "5 \<le> length xs"
  shows "\<exists>t zs. allocproc s = Ok (Some p, t) \<and> vm_ok t (hd xs) zs \<and>
    fresh_space (mem t) (hd xs) (trampoline_pa s) tf \<and> held t = insert (ProcLock p) (held s) \<and> nextpid t = nextpid s + 1 \<and>
    (\<forall>q. q \<noteq> p \<longrightarrow> procs t q = procs s q) \<and> pid (procs t p) = nextpid s \<and> pstate (procs t p) = USED \<and>
    trapframe (procs t p) = tf \<and> pagetable (procs t p) = hd xs \<and> cur_queue_lvl (procs t p) = 0 \<and>
    ra (pcontext (procs t p)) = forkret_pa s \<and> disk_reads (procs t p) = disk_reads (procs s p)"
proof -
  define s1 where "s1 = s\<lparr>held := insert (ProcLock p) (held s)\<rparr>"
  define s2 where "s2 = upd_proc p (\<lambda>q. q\<lparr>pid := nextpid s, pstate := USED, syscount := 0, cur_queue_lvl := 0, ticks_each_level := 0,
                 pticks := (\<lambda>l. if l \<le> 3 then 0 else pticks q l), no_of_schedules := 0, temp := 0, page_faults := 0,
                 pages_evicted := 0, pages_swapped_in := 0, pages_swapped_out := 0, resident_pages := 0\<rparr>)
         (s1\<lparr>nextpid := nextpid s + 1\<rparr>)"
  define s3 where "s3 = upd_proc p (\<lambda>q. q\<lparr>trapframe := tf\<rparr>) (kalloc_st s2)"
  have pid: "allocpid s1 = Ok (nextpid s, s1\<lparr>nextpid := nextpid s + 1\<rparr>)"
    using lk(3) by (simp add: allocpid_def s1_def)
  have lf: "locks_free s2" using lk(2) by (simp add: locks_free_def s2_def s1_def)
  have fl: "free_list s2 (tf # xs)" using xs(1) by (simp add: s2_def s1_def free_list_def alloc_page_def)
  note pop = kalloc_pop [OF fl]
  have ka: "kalloc s2 = Ok (tf, kalloc_st s2)" using kalloc_ok [of s2] pop(1,2) lf by simp
  have lf3: "locks_free s3" using lf by (simp add: s3_def)
  have fl3: "free_list s3 xs" using pop(3) by (simp add: s3_def free_list_def alloc_page_def)
  obtain t zs m l where t: "proc_pagetable p s3 = Ok (hd xs, t)" "vm_ok t (hd xs) zs" "t = s3\<lparr>mem := m, freelist := l\<rparr>"
    "fresh_space (mem t) (hd xs) (trampoline_pa s3) (trapframe (procs s3 p))"
    using proc_pagetable_ok [OF fl3 lf3 xs(2)] by blast
  have nz: "hd xs \<noteq> 0" using fl3 xs(2) by (cases xs) (auto simp: free_list_def)
  define u where "u = upd_proc p (\<lambda>q. q\<lparr>pcontext := \<lparr>ra = forkret_pa s, sp = kstack q + PGSIZE, saved = (\<lambda>_. 0)\<rparr>\<rparr>)
     (upd_proc p (\<lambda>q. q\<lparr>pagetable := hd xs\<rparr>) t)"
  have "forkret_pa t = forkret_pa s" by (simp add: t(3) s3_def s2_def s1_def upd_proc_def kalloc_st_def)
  then have "allocproc s = Ok (Some p, u)"
    using allocproc_scan_ok [OF lk(1), of 0 NPROC] free pid ka t(1) pop(2) nz
    by (simp add: allocproc_def s1_def [symmetric] s2_def [symmetric] s3_def [symmetric] Let_def u_def)
       (simp add: upd_proc_def)
  moreover have "vm_ok u (hd xs) zs" using t(2) by (simp add: u_def vm_ok_def free_list_def alloc_page_def)
  moreover have "trampoline_pa s3 = trampoline_pa s" "trapframe (procs s3 p) = tf"
    by (simp_all add: s3_def s2_def s1_def upd_proc_def kalloc_st_def)
  ultimately show ?thesis
    using t(4) by (intro exI [of _ u] exI [of _ zs]) (simp add: u_def t(3) s3_def s2_def s1_def upd_proc_def kalloc_st_def)
qed


definition kg1 :: kglob where
  "kg1 = kfree_st 0x8000A000 (kfree_st 0x80009000 (kfree_st 0x80008000 (kfree_st 0x80007000
           (kfree_st 0x80006000 (kfree_st 0x80005000 kg0)))))"

lemma kg0_kmem [simp]: "mem kg0 = km_mem" "freelist kg0 = 0" "kend kg0 = 0x80001000" "frametable kg0 = frametable km0"
  using km0_sel by (simp_all add: kg0_def kmem.defs)

lemma kfree_plain:
  fixes s :: "'z kglob_scheme"
  assumes "frametable s = frametable km0" "pa \<noteq> 0x80004000"
  shows "frametable (kfree_st pa s) = frametable km0" "procs (kfree_st pa s) = procs s" "nextpid (kfree_st pa s) = nextpid s"
proof -
  have "ft_free pa s = s" using assms by (simp add: ft_free_def search_None_iff [THEN iffD2])
  then show "frametable (kfree_st pa s) = frametable km0" "procs (kfree_st pa s) = procs s" "nextpid (kfree_st pa s) = nextpid s"
    using assms(1) by (simp_all add: kfree_st_def)
qed

lemma kg1_free: "free_list kg1 [0x8000A000, 0x80009000, 0x80008000, 0x80007000, 0x80006000, 0x80005000]"
  unfolding kg1_def
  by (rule kfree_push; (rule kfree_push)?; (rule kfree_push)?; (rule kfree_push)?; (rule kfree_push)?; (rule kfree_push)?)
     (simp_all add: free_list_def alloc_page_def page_aligned_def)

lemma kg1_sel: "procs kg1 = procs km0" "nextpid kg1 = 2" "held kg1 = {}"
  by (simp_all add: kg1_def kfree_plain del: kfree_st_sel(6))


section \<open>Growing and shrinking\<close>

lemma uvmalloc_loop_result: "uvmalloc_loop pt oldsz a newsz xperm s = Ok (r, t) \<Longrightarrow> r = 0 \<or> r = newsz"
proof (induction pt oldsz a newsz xperm s rule: uvmalloc_loop.induct)
  case (1 pt oldsz a newsz xperm s)
  show ?case
  proof (rule ccontr)
    assume n: "\<not> (r = 0 \<or> r = newsz)"
    from 1(2) n obtain pg s1 r1 s2 s3 where st: "a < newsz" "get_frame s = Ok (pg, s1)" "pg \<noteq> 0"
      "mappages pt a PGSIZE pg (PTE_R OR PTE_U OR xperm) (memset_page pg 0 s1) = Ok (r1, s2)" "r1 = 0"
      "frametable_alloc pg (myproc s2) a s2 = Ok s3" "uvmalloc_loop pt oldsz (a + PGSIZE) newsz xperm s3 = Ok (r, t)"
      by (subst (asm) uvmalloc_loop.simps) (auto split: if_splits)
    then show False using "1.IH" [OF st(1,2) refl st(3,4) refl _ st(6,7)] n by simp
  qed
qed

lemma uvmalloc_result:
  "uvmalloc pt oldsz newsz xperm s = Ok (r, t) \<Longrightarrow> oldsz \<le> newsz \<Longrightarrow> r = 0 \<or> r = newsz"
  by (auto simp: uvmalloc_def dest: uvmalloc_loop_result split: if_splits)

lemma uvmdealloc_result: "uvmdealloc pt oldsz newsz s = Ok (r, t) \<Longrightarrow> r = (if newsz \<ge> oldsz then oldsz else newsz)"
  by (auto simp: uvmdealloc_def Let_def split: if_splits)

text \<open>The size of a process. When \<open>growproc\<close> returns 0 for an \<open>int\<close> argument, the process has grown by exactly \<open>n\<close>
  bytes and still ends at or below the trap frame page; for a negative \<open>n\<close> it has shrunk by exactly that
  much, or, when that is more than its size, it has not changed at all.\<close>

theorem growproc_size:
  assumes "growproc n s = Ok (0, t)" "myproc s = Some p" "sz (procs s p) \<le> TRAPFRAME" "- (2 ^ 31) \<le> n" "n < 2 ^ 31"
  shows "uint (sz (procs t p)) =
      (if 0 \<le> uint (sz (procs s p)) + n then uint (sz (procs s p)) + n else uint (sz (procs s p))) \<and>
    sz (procs t p) \<le> TRAPFRAME"
proof -
  define z where "z = sz (procs s p)"
  have z: "uint z \<le> uint TRAPFRAME" "0 \<le> uint z" using assms(3) by (simp_all add: z_def word_le_def)
  have zn: "z + of_int n = of_int (uint z + n)" by simp
  consider "0 < n" | "n = 0" | "n < 0" by linarith
  then show ?thesis
  proof cases
    case 1
    have add: "uint (z + of_int n) = uint z + n"
      unfolding zn using z 1 assms(5) by (simp add: uint_word_of_int_eq take_bit_int_eq_self del: of_int_add)
    have le: "z \<le> z + of_int n" using add 1 by (simp add: word_le_def)
    obtain r t' where r: "uvmalloc (pagetable (procs s p)) z (z + of_int n) PTE_W s = Ok (r, t')" "r \<noteq> 0"
      "t = upd_proc p (\<lambda>q. q\<lparr>sz := r\<rparr>) t'" "z + of_int n \<le> TRAPFRAME"
      using assms(1,2) 1 by (auto simp: growproc_def Let_def z_def not_less split: if_splits)
    have "r = z + of_int n" using uvmalloc_result [OF r(1) le] r(2) by simp
    then show ?thesis using r(3,4) add 1 z(2) by (simp add: z_def [symmetric])
  next
    case 2
    then show ?thesis using assms by (auto simp: growproc_def Let_def)
  next
    case 3
    obtain r t' where r: "uvmdealloc (pagetable (procs s p)) z (z + of_int n) s = Ok (r, t')"
      "t = upd_proc p (\<lambda>q. q\<lparr>sz := r\<rparr>) t'"
      using assms(1,2) 3 by (auto simp: growproc_def Let_def z_def split: if_splits)
    show ?thesis
    proof (cases "0 \<le> uint z + n")
      case True
      have add: "uint (z + of_int n) = uint z + n"
        unfolding zn using z 3 True by (simp add: uint_word_of_int_eq take_bit_int_eq_self del: of_int_add)
      then have "\<not> z \<le> z + of_int n" using 3 by (simp add: word_le_def)
      then have "r = z + of_int n" using uvmdealloc_result [OF r(1)] by simp
      moreover have "z + of_int n \<le> TRAPFRAME" using add z 3 by (simp add: word_le_def)
      ultimately show ?thesis using r(2) add True by (simp add: z_def [symmetric])
    next
      case False
      have "uint (z + of_int n) = (uint z + n + 2 ^ 64) mod 2 ^ 64"
        unfolding zn by (simp add: uint_word_of_int_eq take_bit_eq_mod del: of_int_add)
      also have "\<dots> = uint z + n + 2 ^ 64"
      proof (rule mod_pos_pos_trivial)
        have "-2147483648 \<le> n" using assms(4) by simp
        then have "0 \<le> uint z + n + 18446744073709551616" using z(2) by linarith
        then show "0 \<le> uint z + n + 2 ^ 64" by simp
      qed (use False in simp)
      finally have "z \<le> z + of_int n" using assms(4) by (simp add: word_le_def)
      then have "r = z" using uvmdealloc_result [OF r(1)] by simp
      then show ?thesis using r(2) False assms(3) by (simp add: z_def [symmetric])
    qed
  qed
qed

end
