(* ===== verification/Sleeplock.thy ===== *)
theory Sleeplock
  imports Proc
begin

text \<open>Sleep locks (\<open>kernel/sleeplock.c\<close>). A sleep lock is an entry of a table, \<open>slk\<close>; the buffers and the inodes have
  their indices in it. The inner spin lock of entry \<open>n\<close> is \<open>SleepInner n\<close>, the channel its waiters sleep on
  \<open>ChanLock n\<close>.\<close>

unbundle bit_operations_syntax

section \<open>Sleep locks\<close>

record sleeplock =
  slocked :: bool
  spid :: int

record ksleep = kglob +
  slk :: "nat \<Rightarrow> sleeplock"

definition upd_slk :: "nat \<Rightarrow> sleeplock \<Rightarrow> 'z ksleep_scheme \<Rightarrow> 'z ksleep_scheme" where
  "upd_slk n lk s = s\<lparr>slk := (slk s)(n := lk)\<rparr>"

definition mypid :: "'z ksleep_scheme \<Rightarrow> int res" where
  "mypid s = (case myproc s of None \<Rightarrow> Panic ''kerneltrap'' | Some p \<Rightarrow> Ok (pid (procs s p)))"

definition initsleeplock :: "nat \<Rightarrow> 'z ksleep_scheme \<Rightarrow> 'z ksleep_scheme" where
  "initsleeplock n s = upd_slk n \<lparr>slocked = False, spid = 0\<rparr> s"

text \<open>One turn of the loop of \<open>acquiresleep\<close>, entered with the inner lock held: it takes the lock and returns
  (\<open>True\<close>), or goes to sleep (\<open>False\<close>) and enters the loop again through \<open>sleep_back\<close>.\<close>

definition acquiresleep_turn :: "nat \<Rightarrow> 'z ksleep_scheme \<Rightarrow> (bool \<times> 'z ksleep_scheme) res" where
  "acquiresleep_turn n s =
     (if slocked (slk s n) then bindr (sleep (ChanLock n) (SleepInner n) s) (\<lambda>s. Ok (False, s))
      else
        bindr (mypid s) (\<lambda>i.
        bindr (release (SleepInner n) (upd_slk n \<lparr>slocked = True, spid = i\<rparr> s)) (\<lambda>s. Ok (True, s))))"

definition acquiresleep :: "nat \<Rightarrow> 'z ksleep_scheme \<Rightarrow> (bool \<times> 'z ksleep_scheme) res" where
  "acquiresleep n s = bindr (acquire (SleepInner n) s) (acquiresleep_turn n)"

definition releasesleep :: "nat \<Rightarrow> 'z ksleep_scheme \<Rightarrow> 'z ksleep_scheme res" where
  "releasesleep n s =
     bindr (acquire (SleepInner n) s) (\<lambda>s.
     bindr (wakeup (ChanLock n) (upd_slk n \<lparr>slocked = False, spid = 0\<rparr> s)) (release (SleepInner n)))"

definition holdingsleep :: "nat \<Rightarrow> 'z ksleep_scheme \<Rightarrow> (bool \<times> 'z ksleep_scheme) res" where
  "holdingsleep n s =
     bindr (acquire (SleepInner n) s) (\<lambda>s.
     bindr (if slocked (slk s n) then bindr (mypid s) (\<lambda>i. Ok (spid (slk s n) = i)) else Ok False) (\<lambda>r.
     bindr (release (SleepInner n) s) (\<lambda>s. Ok (r, s))))"

text \<open>Where the code above follows one path of the kernel, a call that goes to sleep ends the path; this is the
  outcome \<open>waits\<close>, not a panic of the kernel.\<close>

definition waits :: "'a res" where
  "waits = Panic ''sleep''"

definition lock_now :: "nat \<Rightarrow> 'z ksleep_scheme \<Rightarrow> 'z ksleep_scheme res" where
  "lock_now n s = bindr (acquiresleep n s) (\<lambda>(locked, s). if locked then Ok s else waits)"

section \<open>Locks on one path\<close>

definition wake :: "channel \<Rightarrow> 'z kglob_scheme \<Rightarrow> 'z kglob_scheme" where
  "wake ch s = s\<lparr>procs := (\<lambda>p. if p < NPROC \<and> myproc s \<noteq> Some p then woken ch (procs s p) else procs s p)\<rparr>"

lemma woken_pid [simp]: "pid (woken ch p) = pid p"
  by (simp add: woken_def)

lemma wakeup_wake: "plocks_free s \<Longrightarrow> wakeup ch s = Ok (wake ch s)"
  by (simp add: wakeup_ok wake_def)

lemma mypid_sel [simp]:
  "mypid (s\<lparr>held := H\<rparr>) = mypid s" "mypid (upd_slk n lk s) = mypid s" "mypid (wake ch s) = mypid s"
  by (simp_all add: mypid_def upd_slk_def myproc_def wake_def split: option.split)

lemma upd_slk_sel [simp]:
  "held (upd_slk n lk s) = held s" "slk (upd_slk n lk s) = (slk s)(n := lk)" "myproc (upd_slk n lk s) = myproc s"
  "procs (upd_slk n lk s) = procs s" "(upd_slk n lk s)\<lparr>held := H\<rparr> = upd_slk n lk (s\<lparr>held := H\<rparr>)"
  by (simp_all add: upd_slk_def myproc_def)

lemma wake_sel [simp]:
  "held (wake ch s) = held s" "myproc (wake ch s) = myproc s" "(wake ch s)\<lparr>held := H\<rparr> = wake ch (s\<lparr>held := H\<rparr>)"
  by (simp_all add: wake_def myproc_def fun_eq_iff)

lemma acquiresleep_ok:
  "SleepInner n \<notin> held s \<Longrightarrow> \<not> slocked (slk s n) \<Longrightarrow> mypid s = Ok i \<Longrightarrow>
   acquiresleep n s = Ok (True, upd_slk n \<lparr>slocked = True, spid = i\<rparr> s)"
  by (simp add: acquiresleep_def acquiresleep_turn_def held_update_id)

lemma lock_now_ok:
  "SleepInner n \<notin> held s \<Longrightarrow> \<not> slocked (slk s n) \<Longrightarrow> mypid s = Ok i \<Longrightarrow>
   lock_now n s = Ok (upd_slk n \<lparr>slocked = True, spid = i\<rparr> s)"
  by (simp add: lock_now_def acquiresleep_ok)

lemma holdingsleep_ok:
  "SleepInner n \<notin> held s \<Longrightarrow> slk s n = \<lparr>slocked = True, spid = i\<rparr> \<Longrightarrow> mypid s = Ok i \<Longrightarrow> holdingsleep n s = Ok (True, s)"
  by (simp add: holdingsleep_def held_update_id)

lemma releasesleep_ok:
  assumes "SleepInner n \<notin> held s" "plocks_free s"
  shows "releasesleep n s = Ok (wake (ChanLock n) (upd_slk n \<lparr>slocked = False, spid = 0\<rparr> s))"
proof -
  let ?t = "upd_slk n \<lparr>slocked = False, spid = 0\<rparr> (s\<lparr>held := insert (SleepInner n) (held s)\<rparr>)"
  have "wakeup (ChanLock n) ?t = Ok (wake (ChanLock n) ?t)"
    using assms by (intro wakeup_wake) (simp add: plocks_free_def upd_slk_def)
  then show ?thesis using assms(1) by (simp add: releasesleep_def held_update_id)
qed

end
