(* ===== verification/Bio.thy ===== *)
theory Bio
  imports Sleeplock
begin

text \<open>The buffer cache (\<open>kernel/bio.c\<close>) over a disk of blocks. The cache and the disk are seen through \<open>view\<close>, the
  content a reader of a block gets; the lemmas give each operation's effect on it for a path that holds the
  buffers \<open>H\<close> while the log pins the buffers \<open>P\<close>.\<close>

unbundle bit_operations_syntax

section \<open>Buffer cache\<close>

definition MAXOPBLOCKS :: nat where "MAXOPBLOCKS = 10"
definition LOGBLOCKS :: nat where "LOGBLOCKS = MAXOPBLOCKS * 3"
definition NBUF :: nat where "NBUF = MAXOPBLOCKS * 3"

record buf =
  bvalid :: bool
  bdev :: nat
  blockno :: nat
  refcnt :: int
  bdata :: "uint8 list"

text \<open>\<open>lru\<close> is the list through \<open>next\<close> from \<open>bcache.head\<close>, the most recently used buffer first. \<open>disk\<close> is the
  content of the disk by block number; \<open>dwrites\<close> records the writes the disk has received, in their order.\<close>

record kbio = ksleep +
  bufs :: "nat \<Rightarrow> buf"
  lru :: "nat list"
  disk :: "nat \<Rightarrow> uint8 list"
  dwrites :: "(nat \<times> uint8 list) list"

definition upd_buf :: "nat \<Rightarrow> (buf \<Rightarrow> buf) \<Rightarrow> 'z kbio_scheme \<Rightarrow> 'z kbio_scheme" where
  "upd_buf i f s = s\<lparr>bufs := (bufs s)(i := f (bufs s i))\<rparr>"

definition uint_dec :: "int \<Rightarrow> int" where
  "uint_dec x = (x - 1) mod 2 ^ 32"

definition uint_inc :: "int \<Rightarrow> int" where
  "uint_inc x = (x + 1) mod 2 ^ 32"

definition binit :: "'z kbio_scheme \<Rightarrow> 'z kbio_scheme" where
  "binit s = fold (\<lambda>b s. initsleeplock b (s\<lparr>lru := b # lru s\<rparr>)) [0..<NBUF] (s\<lparr>lru := []\<rparr>)"

definition bget :: "nat \<Rightarrow> nat \<Rightarrow> 'z kbio_scheme \<Rightarrow> (nat \<times> 'z kbio_scheme) res" where
  "bget dev bno s =
     bindr (acquire BcacheLock s) (\<lambda>s.
     case find (\<lambda>b. bdev (bufs s b) = dev \<and> blockno (bufs s b) = bno) (lru s) of
       Some b \<Rightarrow>
         bindr (release BcacheLock (upd_buf b (\<lambda>x. x\<lparr>refcnt := uint_inc (refcnt x)\<rparr>) s)) (\<lambda>s.
         bindr (lock_now b s) (\<lambda>s. Ok (b, s)))
     | None \<Rightarrow>
       (case find (\<lambda>b. refcnt (bufs s b) = 0) (rev (lru s)) of
          Some b \<Rightarrow>
            bindr (release BcacheLock (upd_buf b (\<lambda>x. x\<lparr>bdev := dev, blockno := bno, bvalid := False, refcnt := 1\<rparr>) s)) (\<lambda>s.
            bindr (lock_now b s) (\<lambda>s. Ok (b, s)))
        | None \<Rightarrow> Panic ''bget: no buffers''))"

text \<open>A finished request of \<open>virtio_disk_rw\<close>: the block goes to or comes from the disk.\<close>

definition disk_rw :: "nat \<Rightarrow> bool \<Rightarrow> 'z kbio_scheme \<Rightarrow> 'z kbio_scheme" where
  "disk_rw b write s =
     (let n = blockno (bufs s b)
      in if write then s\<lparr>disk := (disk s)(n := bdata (bufs s b)), dwrites := dwrites s @ [(n, bdata (bufs s b))]\<rparr>
         else upd_buf b (\<lambda>x. x\<lparr>bdata := disk s n\<rparr>) s)"

definition bread :: "nat \<Rightarrow> nat \<Rightarrow> 'z kbio_scheme \<Rightarrow> (nat \<times> 'z kbio_scheme) res" where
  "bread dev bno s =
     bindr (bget dev bno s) (\<lambda>(b, s).
     Ok (b, if bvalid (bufs s b) then s else upd_buf b (\<lambda>x. x\<lparr>bvalid := True\<rparr>) (disk_rw b False s)))"

definition bwrite :: "nat \<Rightarrow> 'z kbio_scheme \<Rightarrow> 'z kbio_scheme res" where
  "bwrite b s = bindr (holdingsleep b s) (\<lambda>(h, s). if \<not> h then Panic ''bwrite'' else Ok (disk_rw b True s))"

definition brelse :: "nat \<Rightarrow> 'z kbio_scheme \<Rightarrow> 'z kbio_scheme res" where
  "brelse b s =
     bindr (holdingsleep b s) (\<lambda>(h, s).
     if \<not> h then Panic ''brelse''
     else
       bindr (releasesleep b s) (\<lambda>s.
       bindr (acquire BcacheLock s) (\<lambda>s.
       let s = upd_buf b (\<lambda>x. x\<lparr>refcnt := uint_dec (refcnt x)\<rparr>) s;
           s = (if refcnt (bufs s b) = 0 then s\<lparr>lru := b # remove1 b (lru s)\<rparr> else s)
       in release BcacheLock s)))"

definition bpin :: "nat \<Rightarrow> 'z kbio_scheme \<Rightarrow> 'z kbio_scheme res" where
  "bpin b s =
     bindr (acquire BcacheLock s) (\<lambda>s. release BcacheLock (upd_buf b (\<lambda>x. x\<lparr>refcnt := uint_inc (refcnt x)\<rparr>) s))"

definition bunpin :: "nat \<Rightarrow> 'z kbio_scheme \<Rightarrow> 'z kbio_scheme res" where
  "bunpin b s =
     bindr (acquire BcacheLock s) (\<lambda>s. release BcacheLock (upd_buf b (\<lambda>x. x\<lparr>refcnt := uint_dec (refcnt x)\<rparr>) s))"

section \<open>What a path sees of the cache\<close>

text \<open>What the buffer cache changes of the state; processes change by being woken.\<close>

definition woken_up :: "proc \<Rightarrow> proc \<Rightarrow> bool" where
  "woken_up p q \<longleftrightarrow> p\<lparr>pstate := UNUSED\<rparr> = q\<lparr>pstate := UNUSED\<rparr>"

definition bio_frame :: "'z kbio_scheme \<Rightarrow> 'z kbio_scheme \<Rightarrow> bool" where
  "bio_frame s s' \<longleftrightarrow> (\<exists>P K B L D W. s' = s\<lparr>procs := P, slk := K, bufs := B, lru := L, disk := D, dwrites := W\<rparr> \<and>
     (\<forall>p. woken_up (procs s p) (P p)))"

lemma woken_up_refl [simp]: "woken_up p p"
  by (simp add: woken_up_def)

lemma woken_up_woken: "woken_up p (woken ch p)"
  by (simp add: woken_up_def woken_def)

lemma woken_up_trans: "woken_up p q \<Longrightarrow> woken_up q r \<Longrightarrow> woken_up p r"
  by (simp add: woken_up_def)

lemma woken_up_sel:
  assumes "woken_up p q"
  shows "pid q = pid p" "pagetable q = pagetable p" "sz q = sz p" "ofile q = ofile p" "cwd q = cwd p" "trapframe q = trapframe p"
proof -
  have "f (p\<lparr>pstate := UNUSED\<rparr>) = f (q\<lparr>pstate := UNUSED\<rparr>)" for f :: "proc \<Rightarrow> 'b" using assms by (simp add: woken_up_def)
  note e = this
  show "pid q = pid p" using e [of pid] by simp
qed (use assms in \<open>cases p, cases q, simp add: woken_up_def\<close>)+

lemma bio_frameI:
  assumes "s' = s\<lparr>procs := P, slk := K, bufs := B, lru := L, disk := D, dwrites := W\<rparr>" "\<And>p. woken_up (procs s p) (P p)"
  shows "bio_frame s s'"
  using assms unfolding bio_frame_def by blast

lemma bio_frame_refl [simp]: "bio_frame s s"
  by (rule bio_frameI [where P = "procs s" and K = "slk s" and B = "bufs s" and L = "lru s" and D = "disk s" and W = "dwrites s"]) simp_all

lemma bio_frame_trans [trans]:
  assumes "bio_frame s t" "bio_frame t u"
  shows "bio_frame s u"
proof -
  obtain P K B L D W where t: "t = s\<lparr>procs := P, slk := K, bufs := B, lru := L, disk := D, dwrites := W\<rparr>"
    "\<And>p. woken_up (procs s p) (P p)" using assms(1) unfolding bio_frame_def by blast
  obtain P' K' B' L' D' W' where u: "u = t\<lparr>procs := P', slk := K', bufs := B', lru := L', disk := D', dwrites := W'\<rparr>"
    "\<And>p. woken_up (procs t p) (P' p)" using assms(2) unfolding bio_frame_def by blast
  show ?thesis
  proof (rule bio_frameI)
    show "u = s\<lparr>procs := P', slk := K', bufs := B', lru := L', disk := D', dwrites := W'\<rparr>"
      unfolding u(1) t(1) by (cases s) simp
    show "woken_up (procs s p) (P' p)" for p
      using t(2) [of p] u(2) [of p] unfolding t(1) by (simp add: woken_up_trans)
  qed
qed

lemma bio_frame_sel:
  assumes "bio_frame s t"
  shows "held t = held s" "myproc t = myproc s" "mypid t = mypid s" "kbio.more t = kbio.more s" "mem t = mem s"
    "woken_up (procs s p) (procs t p)"
proof -
  obtain P K B L D W where t: "t = s\<lparr>procs := P, slk := K, bufs := B, lru := L, disk := D, dwrites := W\<rparr>"
    "\<And>p. woken_up (procs s p) (P p)" using assms(1) unfolding bio_frame_def by blast
  show "held t = held s" "myproc t = myproc s" "kbio.more t = kbio.more s" "mem t = mem s"
    by (simp_all add: t(1) myproc_def)
  show p: "woken_up (procs s p) (procs t p)" for p using t by simp
  show "mypid t = mypid s" using \<open>myproc t = myproc s\<close> woken_up_sel(1) [OF p] by (simp add: mypid_def split: option.split)
qed

lemma bio_frame_upd:
  "bio_frame s (upd_slk n lk s)" "bio_frame s (upd_buf i f s)" "bio_frame s (s\<lparr>lru := L'\<rparr>)" "bio_frame s (disk_rw i w s)"
  "bio_frame s (wake ch s)"
proof -
  show "bio_frame s (upd_slk n lk s)"
    by (rule bio_frameI [where P = "procs s" and K = "(slk s)(n := lk)" and B = "bufs s" and L = "lru s" and D = "disk s" and W = "dwrites s"]) (simp_all add: upd_slk_def)
  show u: "bio_frame s (upd_buf i f s)" for f
    by (rule bio_frameI [where P = "procs s" and K = "slk s" and B = "(bufs s)(i := f (bufs s i))" and L = "lru s" and D = "disk s" and W = "dwrites s"])
      (simp_all add: upd_buf_def)
  show "bio_frame s (s\<lparr>lru := L'\<rparr>)"
    by (rule bio_frameI [where P = "procs s" and K = "slk s" and B = "bufs s" and L = L' and D = "disk s" and W = "dwrites s"]) simp_all
  have "bio_frame s (s\<lparr>disk := D, dwrites := W\<rparr>)" for D W
    by (rule bio_frameI [where P = "procs s" and K = "slk s" and B = "bufs s" and L = "lru s" and D = D and W = W]) simp_all
  then show "bio_frame s (disk_rw i w s)" by (simp add: disk_rw_def Let_def u)
  show "bio_frame s (wake ch s)"
    by (rule bio_frameI [where P = "procs (wake ch s)" and K = "slk s" and B = "bufs s" and L = "lru s" and D = "disk s" and W = "dwrites s"])
      (simp_all add: wake_def woken_up_woken)
qed

definition ROOTDEV :: nat where "ROOTDEV = 1"

text \<open>The cache as a path finds it that holds the locked buffers \<open>H\<close>, while the log has pinned the buffers \<open>P\<close>: the
  list is a permutation of the buffers, a block is in at most one of them, reference counts and locks are those
  of the holder and the log, and a buffer neither held nor pinned is a copy of its block on the disk.\<close>

definition path_ok :: "nat set \<Rightarrow> 'z kbio_scheme \<Rightarrow> bool" where
  "path_ok H s \<longleftrightarrow> held s = {} \<and> (\<exists>i. mypid s = Ok i \<and> (\<forall>b \<in> H. slk s b = \<lparr>slocked = True, spid = i\<rparr>)) \<and>
     (\<forall>b < NBUF. b \<notin> H \<longrightarrow> \<not> slocked (slk s b))"

definition lru_ok :: "'z kbio_scheme \<Rightarrow> bool" where
  "lru_ok s \<longleftrightarrow> distinct (lru s) \<and> set (lru s) = {..<NBUF}"

definition keys_ok :: "(nat \<Rightarrow> buf) \<Rightarrow> bool" where
  "keys_ok B \<longleftrightarrow> (\<forall>b < NBUF. bdev (B b) = 0 \<or> bdev (B b) = ROOTDEV) \<and>
     (\<forall>b < NBUF. \<forall>c < NBUF. bdev (B b) = ROOTDEV \<longrightarrow> bdev (B c) = ROOTDEV \<longrightarrow> blockno (B b) = blockno (B c) \<longrightarrow> b = c)"

definition counts_ok :: "nat set \<Rightarrow> nat set \<Rightarrow> (nat \<Rightarrow> buf) \<Rightarrow> bool" where
  "counts_ok H P B \<longleftrightarrow> H \<subseteq> {..<NBUF} \<and> P \<subseteq> {..<NBUF} \<and>
     (\<forall>b < NBUF. refcnt (B b) = (if b \<in> H then 1 else 0) + (if b \<in> P then 1 else 0)) \<and>
     (\<forall>b \<in> H \<union> P. bvalid (B b) \<and> bdev (B b) = ROOTDEV)"

definition copies_ok :: "nat set \<Rightarrow> (nat \<Rightarrow> buf) \<Rightarrow> (nat \<Rightarrow> uint8 list) \<Rightarrow> bool" where
  "copies_ok X B d \<longleftrightarrow>
     (\<forall>b < NBUF. bvalid (B b) \<longrightarrow> bdev (B b) = ROOTDEV \<longrightarrow> b \<notin> X \<longrightarrow> bdata (B b) = d (blockno (B b)))"

definition cache_ok :: "nat set \<Rightarrow> nat set \<Rightarrow> 'z kbio_scheme \<Rightarrow> bool" where
  "cache_ok H P s \<longleftrightarrow>
     path_ok H s \<and> lru_ok s \<and> keys_ok (bufs s) \<and> counts_ok H P (bufs s) \<and> copies_ok (H \<union> P) (bufs s) (disk s)"

definition caches :: "'z kbio_scheme \<Rightarrow> nat \<Rightarrow> nat \<Rightarrow> bool" where
  "caches s n b \<longleftrightarrow> b < NBUF \<and> bdev (bufs s b) = ROOTDEV \<and> blockno (bufs s b) = n \<and> bvalid (bufs s b)"

text \<open>What a read of block \<open>n\<close> gives.\<close>

definition view :: "'z kbio_scheme \<Rightarrow> nat \<Rightarrow> uint8 list" where
  "view s n = (case find (caches s n) [0..<NBUF] of Some b \<Rightarrow> bdata (bufs s b) | None \<Rightarrow> disk s n)"

lemma keys_okD: "keys_ok B \<Longrightarrow> b < NBUF \<Longrightarrow> c < NBUF \<Longrightarrow> bdev (B b) = ROOTDEV \<Longrightarrow> bdev (B c) = ROOTDEV \<Longrightarrow>
    blockno (B b) = blockno (B c) \<Longrightarrow> b = c"
  unfolding keys_ok_def by blast

lemma copies_okD: "copies_ok X B d \<Longrightarrow> b < NBUF \<Longrightarrow> bvalid (B b) \<Longrightarrow> bdev (B b) = ROOTDEV \<Longrightarrow> b \<notin> X \<Longrightarrow>
    bdata (B b) = d (blockno (B b))"
  unfolding copies_ok_def by blast

lemma cache_okD:
  assumes "cache_ok H P s"
  shows "path_ok H s" "lru_ok s" "keys_ok (bufs s)" "counts_ok H P (bufs s)" "copies_ok (H \<union> P) (bufs s) (disk s)"
  using assms unfolding cache_ok_def by simp_all

lemma find_caches:
  assumes "cache_ok H P s" "caches s n b"
  shows "find (caches s n) [0..<NBUF] = Some b"
proof (cases "find (caches s n) [0..<NBUF]")
  case None
  then show ?thesis using assms(2) by (auto simp: find_None_iff caches_def)
next
  case (Some c)
  then have "caches s n c" by (auto simp: find_Some_iff)
  then have "c = b" using assms(2) keys_okD [OF cache_okD(3) [OF assms(1)], of c b] by (simp add: caches_def)
  then show ?thesis using Some by simp
qed

lemma view_cached: "cache_ok H P s \<Longrightarrow> caches s n b \<Longrightarrow> view s n = bdata (bufs s b)"
  by (simp add: view_def find_caches)

lemma view_uncached: "(\<And>b. \<not> caches s n b) \<Longrightarrow> view s n = disk s n"
proof -
  assume "\<And>b. \<not> caches s n b"
  then have "find (caches s n) [0..<NBUF] = None" by (simp add: find_None_iff)
  then show ?thesis by (simp add: view_def)
qed

lemma view_disk:
  assumes "cache_ok H P s" "\<And>b. b \<in> H \<union> P \<Longrightarrow> blockno (bufs s b) \<noteq> n"
  shows "view s n = disk s n"
proof (cases "\<exists>b. caches s n b")
  case True
  then obtain b where b: "caches s n b" by blast
  then have "b \<notin> H \<union> P" using assms(2) by (auto simp: caches_def)
  then show ?thesis using view_cached [OF assms(1) b] copies_okD [OF cache_okD(5) [OF assms(1)], of b] b by (simp add: caches_def)
qed (simp add: view_uncached)

text \<open>A change of the buffers that keeps what is cached keeps the view.\<close>

lemma view_cong:
  assumes "cache_ok H P s" "cache_ok H' P' t" "\<And>m. m \<noteq> n \<Longrightarrow> disk t m = disk s m"
    and "\<And>m b. m \<noteq> n \<Longrightarrow> caches t m b \<Longrightarrow> bdata (bufs t b) = view s m"
    and "\<And>m b. m \<noteq> n \<Longrightarrow> caches s m b \<Longrightarrow> bdata (bufs s b) = disk s m \<or> caches t m b"
    and "m \<noteq> n"
  shows "view t m = view s m"
proof (cases "\<exists>b. caches t m b")
  case True
  then obtain b where "caches t m b" by blast
  then show ?thesis using view_cached [OF assms(2)] assms(4,6) by simp
next
  case False
  then have "view t m = disk s m" using view_uncached [of t m] assms(3,6) by simp
  moreover have "view s m = disk s m"
  proof (cases "\<exists>b. caches s m b")
    case True
    then obtain b where b: "caches s m b" by blast
    then show ?thesis using view_cached [OF assms(1) b] assms(5) [OF assms(6) b] False by auto
  qed (simp add: view_uncached)
  ultimately show ?thesis by simp
qed


section \<open>Operations on the cache\<close>

lemma upd_buf_sel [simp]:
  "bufs (upd_buf b f s) = (bufs s)(b := f (bufs s b))" "slk (upd_buf b f s) = slk s" "lru (upd_buf b f s) = lru s"
  "disk (upd_buf b f s) = disk s" "dwrites (upd_buf b f s) = dwrites s" "held (upd_buf b f s) = held s"
  "mypid (upd_buf b f s) = mypid s" "(upd_buf b f s)\<lparr>held := X\<rparr> = upd_buf b f (s\<lparr>held := X\<rparr>)"
  by (simp_all add: upd_buf_def mypid_def myproc_def split: option.split)

lemma upd_buf_comm [simp]:
  "upd_buf b f (upd_slk n lk s) = upd_slk n lk (upd_buf b f s)" "upd_buf b f (upd_buf b g s) = upd_buf b (\<lambda>x. f (g x)) s"
  by (simp_all add: upd_buf_def upd_slk_def)

lemma upd_buf_cong: "f (bufs s b) = g (bufs s b) \<Longrightarrow> upd_buf b f s = upd_buf b g s"
  by (simp add: upd_buf_def)

lemma disk_rw_read: "disk_rw b False s = upd_buf b (\<lambda>x. x\<lparr>bdata := disk s (blockno (bufs s b))\<rparr>) s"
  by (simp add: disk_rw_def)

lemma slk_bio_sel [simp]:
  "bufs (upd_slk n lk s) = bufs s" "lru (upd_slk n lk s) = lru s" "disk (upd_slk n lk s) = disk s"
  "dwrites (upd_slk n lk s) = dwrites s"
  "bufs (wake ch s) = bufs s" "lru (wake ch s) = lru s" "disk (wake ch s) = disk s" "dwrites (wake ch s) = dwrites s"
  "slk (wake ch s) = slk s"
  by (simp_all add: upd_slk_def wake_def)

lemma findD: "find Q xs = Some c \<Longrightarrow> Q c \<and> c \<in> set xs"
  unfolding find_Some_iff by (auto intro: nth_mem)

lemma find_unique:
  assumes "Q b" "b \<in> set xs" "\<And>c. c \<in> set xs \<Longrightarrow> Q c \<Longrightarrow> c = b"
  shows "find Q xs = Some b"
proof (cases "find Q xs")
  case None
  then show ?thesis using assms(1,2) by (simp add: find_None_iff)
next
  case (Some c)
  then show ?thesis using findD [OF Some] assms(3) by blast
qed

definition keyed :: "'z kbio_scheme \<Rightarrow> nat \<Rightarrow> nat \<Rightarrow> bool" where
  "keyed s n b \<longleftrightarrow> b < NBUF \<and> bdev (bufs s b) = ROOTDEV \<and> blockno (bufs s b) = n"

text \<open>The buffer \<open>bread\<close> returns.\<close>

definition read_buf :: "nat set \<Rightarrow> nat \<Rightarrow> nat \<Rightarrow> 'z kbio_scheme \<Rightarrow> buf" where
  "read_buf P n b s =
     \<lparr>bvalid = True, bdev = ROOTDEV, blockno = n, refcnt = 1 + (if b \<in> P then 1 else 0), bdata = view s n\<rparr>"

lemma bget_hit:
  assumes c: "cache_ok H P s" and b: "keyed s n b" "b \<notin> H" and i: "mypid s = Ok i"
  shows "bget ROOTDEV n s =
    Ok (b, upd_slk b \<lparr>slocked = True, spid = i\<rparr> (upd_buf b (\<lambda>x. x\<lparr>refcnt := uint_inc (refcnt x)\<rparr>) s))"
proof -
  have h: "held s = {}" using cache_okD(1) [OF c] by (simp add: path_ok_def)
  have f: "find (\<lambda>b. bdev (bufs s b) = ROOTDEV \<and> blockno (bufs s b) = n) (lru s) = Some b"
    using b(1) cache_okD(2) [OF c] keys_okD [OF cache_okD(3) [OF c], of _ b]
    by (intro find_unique) (auto simp: keyed_def lru_ok_def)
  have u: "\<not> slocked (slk s b)" using cache_okD(1) [OF c] b by (simp add: path_ok_def keyed_def)
  show ?thesis using h f u i by (simp add: bget_def lock_now_ok held_update_id)
qed

lemma bget_miss:
  assumes c: "cache_ok H P s" and m: "\<And>b. \<not> keyed s n b" and i: "mypid s = Ok i" and room: "card (H \<union> P) < NBUF"
  obtains b where "b < NBUF" "b \<notin> H \<union> P" "bget ROOTDEV n s =
    Ok (b, upd_slk b \<lparr>slocked = True, spid = i\<rparr> (upd_buf b (\<lambda>x. x\<lparr>bdev := ROOTDEV, blockno := n, bvalid := False, refcnt := 1\<rparr>) s))"
proof -
  have h: "held s = {}" using cache_okD(1) [OF c] by (simp add: path_ok_def)
  have l: "set (lru s) = {..<NBUF}" using cache_okD(2) [OF c] by (simp add: lru_ok_def)
  have f: "find (\<lambda>b. bdev (bufs s b) = ROOTDEV \<and> blockno (bufs s b) = n) (lru s) = None"
    using m l by (auto simp: find_None_iff keyed_def)
  have cnt: "refcnt (bufs s b) = 0 \<longleftrightarrow> b \<notin> H \<union> P" if "b < NBUF" for b
    using cache_okD(4) [OF c] that by (simp add: counts_ok_def)
  have "\<not> {..<NBUF} \<subseteq> H \<union> P"
  proof
    assume "{..<NBUF} \<subseteq> H \<union> P"
    then have "H \<union> P = {..<NBUF}" using cache_okD(4) [OF c] by (auto simp: counts_ok_def)
    then show False using room by simp
  qed
  then obtain a where a: "a < NBUF" "a \<notin> H \<union> P" by auto
  obtain b where b: "find (\<lambda>b. refcnt (bufs s b) = 0) (rev (lru s)) = Some b"
    using a cnt [of a] l by (cases "find (\<lambda>b. refcnt (bufs s b) = 0) (rev (lru s))") (auto simp: find_None_iff)
  then have "b \<in> set (rev (lru s))" "refcnt (bufs s b) = 0" using findD by fastforce+
  then have nb: "b < NBUF" "b \<notin> H \<union> P" using l cnt [of b] by auto
  then have u: "\<not> slocked (slk s b)" using cache_okD(1) [OF c] by (simp add: path_ok_def)
  show thesis by (rule that [OF nb]) (use h f b u i in \<open>simp add: bget_def lock_now_ok held_update_id\<close>)
qed

lemma bread_eq:
  assumes c: "cache_ok H P s" and n: "\<And>b. b \<in> H \<Longrightarrow> blockno (bufs s b) \<noteq> n" and i: "mypid s = Ok i"
    and room: "card (H \<union> P) < NBUF \<or> keyed s n a"
  obtains b where "b < NBUF" "b \<notin> H" "b \<in> P \<longrightarrow> blockno (bufs s b) = n" "\<And>b'. keyed s n b' \<Longrightarrow> b' = b"
    "bread ROOTDEV n s = Ok (b, upd_slk b \<lparr>slocked = True, spid = i\<rparr> (upd_buf b (\<lambda>_. read_buf P n b s) s))"
proof (cases "\<exists>b. keyed s n b")
  case True
  then obtain b where b: "keyed s n b" by blast
  then have bH: "b \<notin> H" using n by (auto simp: keyed_def)
  have r: "uint_inc (refcnt (bufs s b)) = 1 + (if b \<in> P then 1 else 0)"
    using cache_okD(4) [OF c] b bH by (auto simp: counts_ok_def keyed_def uint_inc_def)
  have v: "view s n = (if bvalid (bufs s b) then bdata (bufs s b) else disk s n)"
  proof (cases "bvalid (bufs s b)")
    case True
    then show ?thesis using view_cached [OF c, of n b] b by (simp add: caches_def keyed_def)
  next
    case False
    have "\<not> caches s n b'" for b' using keys_okD [OF cache_okD(3) [OF c], of b' b] b False by (auto simp: caches_def keyed_def)
    then show ?thesis using False view_uncached by auto
  qed
  have u: "b' = b" if "keyed s n b'" for b'
    using that b keys_okD [OF cache_okD(3) [OF c], of b' b] by (simp add: keyed_def)
  show thesis
  proof (rule that [of b])
    show "bread ROOTDEV n s = Ok (b, upd_slk b \<lparr>slocked = True, spid = i\<rparr> (upd_buf b (\<lambda>_. read_buf P n b s) s))"
      using b r v
      by (auto simp: bread_def bget_hit [OF c b bH i] disk_rw_read keyed_def read_buf_def
          intro!: arg_cong [where f = "upd_slk _ _"] upd_buf_cong)
    show "b' = b" if "keyed s n b'" for b' by (rule u [OF that])
  qed (use b bH in \<open>simp_all add: keyed_def\<close>)
next
  case False
  then have m: "\<And>b. \<not> keyed s n b" by blast
  then have v: "view s n = disk s n" by (intro view_uncached) (auto simp: caches_def keyed_def)
  obtain b where b: "b < NBUF" "b \<notin> H \<union> P" "bget ROOTDEV n s =
    Ok (b, upd_slk b \<lparr>slocked = True, spid = i\<rparr> (upd_buf b (\<lambda>x. x\<lparr>bdev := ROOTDEV, blockno := n, bvalid := False, refcnt := 1\<rparr>) s))"
    by (rule bget_miss [OF c m i]) (use room m in auto)
  show thesis
  proof (rule that [of b])
    show "bread ROOTDEV n s = Ok (b, upd_slk b \<lparr>slocked = True, spid = i\<rparr> (upd_buf b (\<lambda>_. read_buf P n b s) s))"
      using b v by (auto simp: bread_def disk_rw_read read_buf_def intro!: arg_cong [where f = "upd_slk _ _"] upd_buf_cong)
    show "b' = b" if "keyed s n b'" for b' using m that by blast
  qed (use b in simp_all)
qed

lemma copies_ok_mono: "copies_ok X B d \<Longrightarrow> X \<subseteq> Y \<Longrightarrow> copies_ok Y B d"
  unfolding copies_ok_def by blast

lemma cache_okI: "path_ok H s \<Longrightarrow> lru_ok s \<Longrightarrow> keys_ok (bufs s) \<Longrightarrow> counts_ok H P (bufs s) \<Longrightarrow>
    copies_ok (H \<union> P) (bufs s) (disk s) \<Longrightarrow> cache_ok H P s"
  unfolding cache_ok_def by blast

lemma cache_mypid: "cache_ok H P s \<Longrightarrow> \<exists>i. mypid s = Ok i"
  unfolding cache_ok_def path_ok_def by blast

lemma keys_ok_upd:
  assumes "keys_ok B" "bdev x = ROOTDEV" "\<And>c. c < NBUF \<Longrightarrow> c \<noteq> b \<Longrightarrow> bdev (B c) = ROOTDEV \<Longrightarrow> blockno (B c) \<noteq> blockno x"
  shows "keys_ok (B(b := x))"
  unfolding keys_ok_def
proof (intro conjI allI impI)
  fix c assume "c < NBUF"
  then show "bdev ((B(b := x)) c) = 0 \<or> bdev ((B(b := x)) c) = ROOTDEV" using assms(1,2) by (simp add: keys_ok_def)
next
  fix c d assume cd: "c < NBUF" "d < NBUF" "bdev ((B(b := x)) c) = ROOTDEV" "bdev ((B(b := x)) d) = ROOTDEV"
    "blockno ((B(b := x)) c) = blockno ((B(b := x)) d)"
  show "c = d"
    using cd assms(3) [of c] assms(3) [of d] keys_okD [OF assms(1), of c d] by (cases "c = b"; cases "d = b") auto
qed

lemma bread_ok:
  assumes c: "cache_ok H P s" and n: "\<And>b. b \<in> H \<Longrightarrow> blockno (bufs s b) \<noteq> n"
    and room: "card (H \<union> P) < NBUF \<or> keyed s n a"
  obtains b t where "bread ROOTDEV n s = Ok (b, t)" "cache_ok (insert b H) P t" "b < NBUF" "b \<notin> H" "bufs t b = read_buf P n b s"
    "\<And>c. c \<noteq> b \<Longrightarrow> bufs t c = bufs s c" "b \<in> P \<longrightarrow> blockno (bufs s b) = n" "\<And>b'. keyed s n b' \<Longrightarrow> b' = b"
    "view t = view s" "disk t = disk s" "dwrites t = dwrites s" "bio_frame s t"
proof -
  obtain i where i: "mypid s = Ok i" using cache_mypid [OF c] by blast
  obtain b where b: "b < NBUF" "b \<notin> H" "b \<in> P \<longrightarrow> blockno (bufs s b) = n" "\<And>b'. keyed s n b' \<Longrightarrow> b' = b"
    "bread ROOTDEV n s = Ok (b, upd_slk b \<lparr>slocked = True, spid = i\<rparr> (upd_buf b (\<lambda>_. read_buf P n b s) s))"
    by (rule bread_eq [OF c n i room]) auto
  let ?t = "upd_slk b \<lparr>slocked = True, spid = i\<rparr> (upd_buf b (\<lambda>_. read_buf P n b s) s)"
  have bt: "bufs ?t = (bufs s)(b := read_buf P n b s)" by simp
  have ok: "cache_ok (insert b H) P ?t"
  proof (rule cache_okI)
    show "path_ok (insert b H) ?t" using cache_okD(1) [OF c] i b(1) by (auto simp: path_ok_def)
    show "lru_ok ?t" using cache_okD(2) [OF c] by (simp add: lru_ok_def)
    show "keys_ok (bufs ?t)" unfolding bt
      by (rule keys_ok_upd [OF cache_okD(3) [OF c]]) (use b(4) in \<open>auto simp: read_buf_def keyed_def\<close>)
    show "counts_ok (insert b H) P (bufs ?t)" unfolding bt using cache_okD(4) [OF c] b(1,2)
      by (auto simp: counts_ok_def read_buf_def)
    show "copies_ok (insert b H \<union> P) (bufs ?t) (disk ?t)"
      using copies_ok_mono [OF cache_okD(5) [OF c], of "insert b H \<union> P"] by (auto simp: copies_ok_def)
  qed
  have "view ?t m = view s m" for m
  proof (cases "m = n")
    case True
    have "caches ?t n b" using b(1) by (simp add: caches_def read_buf_def)
    then show ?thesis using view_cached [OF ok] True by (simp add: read_buf_def)
  next
    case False
    show ?thesis
    proof (rule view_cong [OF c ok _ _ _ False])
      show "bdata (bufs ?t b') = view s k" if "k \<noteq> n" "caches ?t k b'" for k b'
      proof -
        have "b' \<noteq> b" using that by (auto simp: caches_def read_buf_def)
        then show ?thesis using that(2) view_cached [OF c, of k b'] by (simp add: caches_def)
      qed
      show "bdata (bufs s b') = disk s k \<or> caches ?t k b'" if "k \<noteq> n" "caches s k b'" for k b'
      proof (cases "b' = b")
        case True
        then have "b \<notin> H \<union> P" using that b(2,3) by (auto simp: caches_def)
        then show ?thesis using copies_okD [OF cache_okD(5) [OF c], of b] that(2) True by (simp add: caches_def)
      next
        case False
        then show ?thesis using that(2) by (simp add: caches_def)
      qed
    qed simp
  qed
  then have "view ?t = view s" by (rule ext)
  moreover have "bio_frame s ?t" by (rule bio_frame_trans [OF bio_frame_upd(2) bio_frame_upd(1)])
  ultimately show thesis using that [OF b(5) ok b(1,2) _ _ b(3,4)] by simp
qed

lemma lru_held [simp]: "s\<lparr>lru := L, held := X\<rparr> = s\<lparr>held := X, lru := L\<rparr>"
  by (cases s) simp

lemma keys_ok_same:
  assumes "keys_ok B" "\<And>c. bdev (B' c) = bdev (B c)" "\<And>c. blockno (B' c) = blockno (B c)"
  shows "keys_ok B'"
  using assms(1) unfolding keys_ok_def assms(2,3) .

lemma cache_held:
  assumes "cache_ok H P s" "b \<in> H"
  shows "b < NBUF" "bvalid (bufs s b)" "bdev (bufs s b) = ROOTDEV" "caches s (blockno (bufs s b)) b"
    "mypid s = Ok i \<Longrightarrow> slk s b = \<lparr>slocked = True, spid = i\<rparr>"
  using cache_okD(1,4) [OF assms(1)] assms(2) by (auto simp: path_ok_def counts_ok_def caches_def)

lemma cache_other:
  assumes "cache_ok H P s" "b \<in> H" "caches s n c" "n \<noteq> blockno (bufs s b) \<or> c \<noteq> b"
  shows "c \<noteq> b" "n \<noteq> blockno (bufs s b)"
  using keys_okD [OF cache_okD(3) [OF assms(1)], of c b] cache_held [OF assms(1,2)] assms(3,4) by (auto simp: caches_def)

text \<open>The holder of a buffer stores into it.\<close>

definition set_data :: "nat \<Rightarrow> uint8 list \<Rightarrow> 'z kbio_scheme \<Rightarrow> 'z kbio_scheme" where
  "set_data b d = upd_buf b (\<lambda>x. x\<lparr>bdata := d\<rparr>)"

lemma set_data_sel [simp]:
  "bufs (set_data b d s) = (bufs s)(b := (bufs s b)\<lparr>bdata := d\<rparr>)" "disk (set_data b d s) = disk s"
  "dwrites (set_data b d s) = dwrites s" "bio_frame s (set_data b d s)"
  by (simp_all add: set_data_def bio_frame_upd)

lemma set_data_ok:
  assumes c: "cache_ok H P s" and b: "b \<in> H"
  shows "cache_ok H P (set_data b d s)" "view (set_data b d s) = (view s)(blockno (bufs s b) := d)"
proof -
  let ?t = "set_data b d s"
  note hb = cache_held [OF c b]
  show ok: "cache_ok H P ?t"
  proof (rule cache_okI)
    show "path_ok H ?t" using cache_okD(1) [OF c] by (simp add: path_ok_def set_data_def)
    show "lru_ok ?t" using cache_okD(2) [OF c] by (simp add: lru_ok_def set_data_def)
    show "keys_ok (bufs ?t)" by (rule keys_ok_same [OF cache_okD(3) [OF c]]) simp_all
    show "counts_ok H P (bufs ?t)" using cache_okD(4) [OF c] by (auto simp: counts_ok_def)
    show "copies_ok (H \<union> P) (bufs ?t) (disk ?t)" using cache_okD(5) [OF c] b by (auto simp: copies_ok_def)
  qed
  have "view ?t n = ((view s)(blockno (bufs s b) := d)) n" for n
  proof (cases "n = blockno (bufs s b)")
    case True
    then have "caches ?t n b" using hb by (simp add: caches_def)
    then show ?thesis using view_cached [OF ok] True by simp
  next
    case False
    have same: "caches ?t m c \<longleftrightarrow> caches s m c" for m c by (auto simp: caches_def)
    have "view ?t n = view s n"
    proof (rule view_cong [OF c ok _ _ _ False])
      show "bdata (bufs ?t c) = view s m" if "m \<noteq> blockno (bufs s b)" "caches ?t m c" for m c
        using that view_cached [OF c, of m c] same by (auto simp: caches_def)
    qed (simp_all add: same)
    then show ?thesis using False by simp
  qed
  then show "view ?t = (view s)(blockno (bufs s b) := d)" by (rule ext)
qed

lemma bwrite_ok:
  assumes c: "cache_ok H P s" and b: "b \<in> H"
  obtains t where "bwrite b s = Ok t" "cache_ok H P t" "bufs t = bufs s" "view t = view s"
    "disk t = (disk s)(blockno (bufs s b) := bdata (bufs s b))" "bio_frame s t"
    "dwrites t = dwrites s @ [(blockno (bufs s b), bdata (bufs s b))]"
proof -
  obtain i where i: "mypid s = Ok i" using cache_mypid [OF c] by blast
  note hb = cache_held [OF c b]
  let ?n = "blockno (bufs s b)" and ?t = "disk_rw b True s"
  have eq: "bwrite b s = Ok ?t"
    using holdingsleep_ok [of b s i] hb(5) [OF i] i cache_okD(1) [OF c] by (simp add: bwrite_def path_ok_def)
  have sel: "bufs ?t = bufs s" "disk ?t = (disk s)(?n := bdata (bufs s b))" "slk ?t = slk s" "lru ?t = lru s" "held ?t = held s"
    "dwrites ?t = dwrites s @ [(?n, bdata (bufs s b))]" "mypid ?t = mypid s"
    using bio_frame_sel(3) [OF bio_frame_upd(4), of b True s] by (simp_all add: disk_rw_def Let_def)
  have ok: "cache_ok H P ?t"
  proof (rule cache_okI)
    show "path_ok H ?t" using cache_okD(1) [OF c] by (simp add: path_ok_def sel)
    show "lru_ok ?t" using cache_okD(2) [OF c] by (simp add: lru_ok_def sel)
    show "copies_ok (H \<union> P) (bufs ?t) (disk ?t)"
      using cache_okD(5) [OF c] cache_other(2) [OF c b] b unfolding copies_ok_def sel
      by (fastforce simp: caches_def)
  qed (use cache_okD(3,4) [OF c] in \<open>simp_all add: sel\<close>)
  have same: "caches ?t m c \<longleftrightarrow> caches s m c" for m c by (simp add: caches_def sel)
  have "view ?t m = view s m" for m
  proof (cases "m = ?n")
    case True
    then show ?thesis using view_cached [OF ok, of m b] view_cached [OF c, of m b] hb(4) same sel(1) by simp
  next
    case False
    show ?thesis
    proof (rule view_cong [OF c ok _ _ _ False])
      show "bdata (bufs ?t c) = view s k" if "k \<noteq> ?n" "caches ?t k c" for k c
        using that view_cached [OF c, of k c] same sel(1) by simp
    qed (simp_all add: same sel)
  qed
  then have "view ?t = view s" by (rule ext)
  then show thesis using that [OF eq ok] sel bio_frame_upd(4) by blast
qed

lemma brelse_ok:
  assumes c: "cache_ok H P s" and b: "b \<in> H" and d: "b \<in> P \<or> bdata (bufs s b) = disk s (blockno (bufs s b))"
  obtains t where "brelse b s = Ok t" "cache_ok (H - {b}) P t" "bufs t = (bufs s)(b := (bufs s b)\<lparr>refcnt := if b \<in> P then 1 else 0\<rparr>)"
    "view t = view s" "disk t = disk s" "dwrites t = dwrites s" "bio_frame s t"
proof -
  obtain i where i: "mypid s = Ok i" using cache_mypid [OF c] by blast
  note hb = cache_held [OF c b]
  let ?B = "(bufs s)(b := (bufs s b)\<lparr>refcnt := if b \<in> P then 1 else 0\<rparr>)"
  let ?w = "wake (ChanLock b) (upd_slk b \<lparr>slocked = False, spid = 0\<rparr> s)"
  let ?u = "upd_buf b (\<lambda>x. x\<lparr>refcnt := uint_dec (refcnt x)\<rparr>) ?w"
  let ?t = "if b \<in> P then ?u else ?u\<lparr>lru := b # remove1 b (lru ?u)\<rparr>"
  have h: "held s = {}" using cache_okD(1) [OF c] by (simp add: path_ok_def)
  have r: "uint_dec (refcnt (bufs s b)) = (if b \<in> P then 1 else 0)"
    using cache_okD(4) [OF c] b hb(1) by (simp add: counts_ok_def uint_dec_def)
  have "releasesleep b s = Ok ?w" by (rule releasesleep_ok) (simp_all add: h plocks_free_def)
  then have eq: "brelse b s = Ok ?t"
    using holdingsleep_ok [of b s i] hb(5) [OF i] i h r by (simp add: brelse_def held_update_id)
  have sel: "bufs ?t = ?B" "disk ?t = disk s" "slk ?t = (slk s)(b := \<lparr>slocked = False, spid = 0\<rparr>)" "held ?t = {}"
    "dwrites ?t = dwrites s" "lru ?t = (if b \<in> P then lru s else b # remove1 b (lru s))" using h r by simp_all
  have fu: "bio_frame s ?u" by (rule bio_frame_trans [OF bio_frame_trans [OF bio_frame_upd(1) bio_frame_upd(5)] bio_frame_upd(2)])
  have fr: "bio_frame s ?t" using fu bio_frame_trans [OF fu bio_frame_upd(3)] by (cases "b \<in> P") (simp_all only: if_True if_False)
  have ok: "cache_ok (H - {b}) P ?t"
  proof (rule cache_okI)
    show "path_ok (H - {b}) ?t" using cache_okD(1) [OF c] bio_frame_sel(3) [OF fr] unfolding path_ok_def sel by auto
    show "lru_ok ?t" using cache_okD(2) [OF c] hb(1) unfolding lru_ok_def sel by auto
    show "keys_ok (bufs ?t)" unfolding sel by (rule keys_ok_same [OF cache_okD(3) [OF c]]) simp_all
    show "counts_ok (H - {b}) P (bufs ?t)" unfolding sel using cache_okD(4) [OF c] by (auto simp: counts_ok_def)
    show "copies_ok (H - {b} \<union> P) (bufs ?t) (disk ?t)" using cache_okD(5) [OF c] d unfolding copies_ok_def sel by auto
  qed
  have same: "caches ?t m c \<longleftrightarrow> caches s m c" for m c unfolding caches_def sel by auto
  have dt: "bdata (bufs ?t c) = bdata (bufs s c)" for c unfolding sel by simp
  have "view ?t m = view s m" for m
    by (rule view_cong [OF c ok, where n = "Suc m"]) (use same dt view_cached [OF c] sel(2) in simp_all)
  then have "view ?t = view s" by (rule ext)
  then show thesis using that [OF eq ok] sel fr by blast
qed

lemma bpin_ok: "BcacheLock \<notin> held s \<Longrightarrow> bpin b s = Ok (upd_buf b (\<lambda>x. x\<lparr>refcnt := uint_inc (refcnt x)\<rparr>) s)"
  by (simp add: bpin_def held_update_id)

text \<open>Pinning a held buffer, and unpinning one whose block on the disk is up to date or that is held.\<close>

lemma pin_ok:
  assumes c: "cache_ok H P s" and b: "b \<in> H" "b \<notin> P"
  shows "cache_ok H (insert b P) (upd_buf b (\<lambda>x. x\<lparr>refcnt := uint_inc (refcnt x)\<rparr>) s)" (is "cache_ok _ _ ?t")
    "view (upd_buf b (\<lambda>x. x\<lparr>refcnt := uint_inc (refcnt x)\<rparr>) s) = view s"
proof -
  note hb = cache_held [OF c b(1)]
  have r: "uint_inc (refcnt (bufs s b)) = 2" using cache_okD(4) [OF c] b hb(1) by (simp add: counts_ok_def uint_inc_def)
  show ok: "cache_ok H (insert b P) ?t"
  proof (rule cache_okI)
    show "path_ok H ?t" using cache_okD(1) [OF c] by (simp add: path_ok_def)
    show "lru_ok ?t" using cache_okD(2) [OF c] by (simp add: lru_ok_def)
    show "keys_ok (bufs ?t)" by (rule keys_ok_same [OF cache_okD(3) [OF c]]) simp_all
    show "counts_ok H (insert b P) (bufs ?t)" using cache_okD(4) [OF c] r b hb by (auto simp: counts_ok_def)
    show "copies_ok (H \<union> insert b P) (bufs ?t) (disk ?t)" using cache_okD(5) [OF c] by (auto simp: copies_ok_def)
  qed
  have same: "caches ?t m c \<longleftrightarrow> caches s m c" for m c by (auto simp: caches_def)
  have dt: "bdata (bufs ?t c) = bdata (bufs s c)" for c by simp
  have "view ?t m = view s m" for m
    by (rule view_cong [OF c ok, where n = "Suc m"]) (use same dt view_cached [OF c] in simp_all)
  then show "view ?t = view s" by (rule ext)
qed

lemma bunpin_ok:
  assumes c: "cache_ok H P s" and b: "b \<in> H" "b \<in> P"
  obtains t where "bunpin b s = Ok t" "cache_ok H (P - {b}) t" "bufs t = (bufs s)(b := (bufs s b)\<lparr>refcnt := 1\<rparr>)"
    "view t = view s" "disk t = disk s" "dwrites t = dwrites s" "bio_frame s t"
proof -
  note hb = cache_held [OF c b(1)]
  let ?t = "upd_buf b (\<lambda>x. x\<lparr>refcnt := uint_dec (refcnt x)\<rparr>) s"
  have h: "held s = {}" using cache_okD(1) [OF c] by (simp add: path_ok_def)
  have r: "uint_dec (refcnt (bufs s b)) = 1" using cache_okD(4) [OF c] b hb(1) by (simp add: counts_ok_def uint_dec_def)
  have eq: "bunpin b s = Ok ?t" by (simp add: bunpin_def held_update_id h)
  have ok: "cache_ok H (P - {b}) ?t"
  proof (rule cache_okI)
    show "path_ok H ?t" using cache_okD(1) [OF c] by (simp add: path_ok_def)
    show "lru_ok ?t" using cache_okD(2) [OF c] by (simp add: lru_ok_def)
    show "keys_ok (bufs ?t)" by (rule keys_ok_same [OF cache_okD(3) [OF c]]) simp_all
    show "counts_ok H (P - {b}) (bufs ?t)" using cache_okD(4) [OF c] r b hb by (auto simp: counts_ok_def)
    show "copies_ok (H \<union> (P - {b})) (bufs ?t) (disk ?t)" using cache_okD(5) [OF c] b by (auto simp: copies_ok_def)
  qed
  have same: "caches ?t m c \<longleftrightarrow> caches s m c" for m c by (auto simp: caches_def)
  have dt: "bdata (bufs ?t c) = bdata (bufs s c)" for c by simp
  have "view ?t m = view s m" for m
    by (rule view_cong [OF c ok, where n = "Suc m"]) (use same dt view_cached [OF c] in simp_all)
  then have "view ?t = view s" by (rule ext)
  then show thesis using that [OF eq ok _ _ _ _ bio_frame_upd(2)] r by simp
qed

lemma lock_now_OkD: "lock_now n s = Ok t \<Longrightarrow> \<exists>lk. t = upd_slk n lk s"
  by (auto simp: lock_now_def acquiresleep_def acquiresleep_turn_def waits_def held_update_id
      dest!: acquire_OkD release_OkD split: if_splits)

lemma bget_frame: "bget dev n s = Ok (b, t) \<Longrightarrow> bio_frame s t"
  by (auto simp: bget_def held_update_id dest!: acquire_OkD release_OkD lock_now_OkD split: option.splits
      intro!: bio_frame_trans [OF bio_frame_upd(2) bio_frame_upd(1)])

lemma bread_frame:
  assumes "bread dev n s = Ok (b, t)"
  shows "bio_frame s t"
proof -
  obtain u where u: "bget dev n s = Ok (b, u)" "t = u \<or> t = upd_buf b (\<lambda>x. x\<lparr>bvalid := True\<rparr>) (disk_rw b False u)"
    using assms by (auto simp: bread_def split: if_splits)
  show ?thesis
    using u(2) bget_frame [OF u(1)] bio_frame_trans [OF bio_frame_trans [OF bget_frame [OF u(1)] bio_frame_upd(4)] bio_frame_upd(2)]
    by blast
qed

end
