(* ===== verification/Log.thy ===== *)
theory Log
  imports Bio "HOL-Library.Sublist"
begin

text \<open>The write-ahead log (\<open>kernel/log.c\<close>): transactions of file system calls are collected in the buffer cache and
  committed through an on-disk log. The main result is crash safety: whatever prefix of the disk writes of
  \<open>commit\<close> has reached the disk, recovery at the next boot leaves the disk with all blocks of the transaction or
  with none.\<close>

unbundle bit_operations_syntax

section \<open>Integers in blocks\<close>

text \<open>Little-endian fields of structures stored in a block.\<close>

definition get_u16 :: "uint8 list \<Rightarrow> nat \<Rightarrow> nat" where
  "get_u16 xs k = unat (xs ! k) + 256 * unat (xs ! (k + 1))"

definition get_u32 :: "uint8 list \<Rightarrow> nat \<Rightarrow> nat" where
  "get_u32 xs k = get_u16 xs k + 65536 * get_u16 xs (k + 2)"

definition get_s32 :: "uint8 list \<Rightarrow> nat \<Rightarrow> int" where
  "get_s32 xs k = (let v = int (get_u32 xs k) in if v < 2 ^ 31 then v else v - 2 ^ 32)"

definition put_u16 :: "nat \<Rightarrow> nat \<Rightarrow> uint8 list \<Rightarrow> uint8 list" where
  "put_u16 k v xs = xs[k := of_nat v, k + 1 := of_nat (v div 256)]"

definition put_u32 :: "nat \<Rightarrow> nat \<Rightarrow> uint8 list \<Rightarrow> uint8 list" where
  "put_u32 k v xs = put_u16 (k + 2) (v div 65536) (put_u16 k v xs)"

section \<open>Model\<close>

record superblock =
  sb_magic :: nat
  sb_size :: nat
  sb_nblocks :: nat
  sb_ninodes :: nat
  sb_nlog :: nat
  sb_logstart :: nat
  sb_inodestart :: nat
  sb_bmapstart :: nat

text \<open>\<open>struct log\<close>; \<open>lh_n\<close> and \<open>lh_block\<close> are the in-memory \<open>struct logheader\<close>.\<close>

record klog = kbio +
  log_start :: nat
  log_dev :: nat
  outstanding :: int
  committing :: bool
  lh_n :: int
  lh_block :: "nat \<Rightarrow> nat"

definition LOGHEADER_SIZE :: nat where
  "LOGHEADER_SIZE = 4 + 4 * LOGBLOCKS"

definition install_trans :: "bool \<Rightarrow> 'z klog_scheme \<Rightarrow> 'z klog_scheme res" where
  "install_trans recovering s =
     loop_res (\<lambda>tail s.
       bindr (bread (log_dev s) (log_start s + tail + 1) s) (\<lambda>(lbuf, s).
       bindr (bread (log_dev s) (lh_block s tail) s) (\<lambda>(dbuf, s).
       let s = set_data dbuf (bdata (bufs s lbuf)) s
       in bindr (bwrite dbuf s) (\<lambda>s.
          bindr (if \<not> recovering then bunpin dbuf s else Ok s) (\<lambda>s.
          bindr (brelse lbuf s) (brelse dbuf)))))) [0..<nat (lh_n s)] s"

definition read_head :: "'z klog_scheme \<Rightarrow> 'z klog_scheme res" where
  "read_head s =
     bindr (bread (log_dev s) (log_start s) s) (\<lambda>(b, s).
     let d = bdata (bufs s b);
         n = get_s32 d 0
     in brelse b (s\<lparr>lh_n := n, lh_block := (\<lambda>i. if int i < n then get_u32 d (4 + 4 * i) else lh_block s i)\<rparr>))"

definition head_block :: "nat \<Rightarrow> (nat \<Rightarrow> nat) \<Rightarrow> uint8 list \<Rightarrow> uint8 list" where
  "head_block n blocks d = fold (\<lambda>i. put_u32 (4 + 4 * i) (blocks i)) [0..<n] (put_u32 0 n d)"

definition write_head :: "'z klog_scheme \<Rightarrow> 'z klog_scheme res" where
  "write_head s =
     bindr (bread (log_dev s) (log_start s) s) (\<lambda>(b, s).
     let s = set_data b (head_block (nat (lh_n s)) (lh_block s) (bdata (bufs s b))) s
     in bindr (bwrite b s) (brelse b))"

definition recover_from_log :: "'z klog_scheme \<Rightarrow> 'z klog_scheme res" where
  "recover_from_log s =
     bindr (read_head s) (\<lambda>s.
     bindr (install_trans True s) (\<lambda>s.
     write_head (s\<lparr>lh_n := 0\<rparr>)))"

definition initlog :: "nat \<Rightarrow> superblock \<Rightarrow> 'z klog_scheme \<Rightarrow> 'z klog_scheme res" where
  "initlog dev sb s =
     (if LOGHEADER_SIZE \<ge> BSIZE then Panic ''initlog: too big logheader''
      else recover_from_log (s\<lparr>log_start := sb_logstart sb, log_dev := dev\<rparr>))"

text \<open>One turn of the loop of \<open>begin_op\<close>, entered with the log's lock held: the operation is admitted (\<open>True\<close>), or
  goes to sleep (\<open>False\<close>).\<close>

definition begin_op_turn :: "'z klog_scheme \<Rightarrow> (bool \<times> 'z klog_scheme) res" where
  "begin_op_turn s =
     (if committing s then bindr (sleep ChanLog LogLock s) (\<lambda>s. Ok (False, s))
      else if lh_n s + (outstanding s + 1) * int MAXOPBLOCKS > int LOGBLOCKS
      then bindr (sleep ChanLog LogLock s) (\<lambda>s. Ok (False, s))
      else bindr (release LogLock (s\<lparr>outstanding := outstanding s + 1\<rparr>)) (\<lambda>s. Ok (True, s)))"

definition begin_op :: "'z klog_scheme \<Rightarrow> 'z klog_scheme res" where
  "begin_op s =
     bindr (acquire LogLock s) (\<lambda>s.
     bindr (begin_op_turn s) (\<lambda>(admitted, s). if admitted then Ok s else waits))"

definition write_log :: "'z klog_scheme \<Rightarrow> 'z klog_scheme res" where
  "write_log s =
     loop_res (\<lambda>tail s.
       bindr (bread (log_dev s) (log_start s + tail + 1) s) (\<lambda>(to, s).
       bindr (bread (log_dev s) (lh_block s tail) s) (\<lambda>(from, s).
       let s = set_data to (bdata (bufs s from)) s
       in bindr (bwrite to s) (\<lambda>s.
          bindr (brelse from s) (brelse to))))) [0..<nat (lh_n s)] s"

definition commit :: "'z klog_scheme \<Rightarrow> 'z klog_scheme res" where
  "commit s =
     (if lh_n s > 0 then
        bindr (write_log s) (\<lambda>s.
        bindr (write_head s) (\<lambda>s.
        bindr (install_trans False s) (\<lambda>s.
        write_head (s\<lparr>lh_n := 0\<rparr>))))
      else Ok s)"

definition end_op :: "'z klog_scheme \<Rightarrow> 'z klog_scheme res" where
  "end_op s =
     bindr (acquire LogLock s) (\<lambda>s.
     let s = s\<lparr>outstanding := outstanding s - 1\<rparr>
     in if committing s then Panic ''log.committing''
        else
          bindr (if outstanding s = 0 then Ok (s\<lparr>committing := True\<rparr>) else wakeup ChanLog s) (\<lambda>s.
          let do_commit = (outstanding s = 0)
          in bindr (release LogLock s) (\<lambda>s.
             if do_commit then
               bindr (commit s) (\<lambda>s.
               bindr (acquire LogLock s) (\<lambda>s.
               bindr (wakeup ChanLog (s\<lparr>committing := False\<rparr>)) (release LogLock)))
             else Ok s)))"

definition log_write :: "nat \<Rightarrow> 'z klog_scheme \<Rightarrow> 'z klog_scheme res" where
  "log_write b s =
     bindr (acquire LogLock s) (\<lambda>s.
     if lh_n s \<ge> int LOGBLOCKS then Panic ''too big a transaction''
     else if outstanding s < 1 then Panic ''log_write outside of trans''
     else
       let i = (case search (\<lambda>i. lh_block s i = blockno (bufs s b)) 0 (nat (lh_n s)) of Some i \<Rightarrow> i | None \<Rightarrow> nat (lh_n s));
           s = s\<lparr>lh_block := (lh_block s)(i := blockno (bufs s b))\<rparr>
       in bindr (if i = nat (lh_n s) then bindr (bpin b s) (\<lambda>s. Ok (s\<lparr>lh_n := lh_n s + 1\<rparr>)) else Ok s) (release LogLock))"

section \<open>The header block\<close>

lemma length_put [simp]: "length (put_u16 k v xs) = length xs" "length (put_u32 k v xs) = length xs"
  by (simp_all add: put_u16_def put_u32_def)

lemma get_put_u16: "k + 1 < length xs \<Longrightarrow> get_u16 (put_u16 k v xs) k = v mod 65536"
  using mod_mult2_eq [of v 256 256] by (simp add: get_u16_def put_u16_def unat_of_nat)

lemma get_put_u16_other: "k + 1 < j \<or> j + 1 < k \<Longrightarrow> get_u16 (put_u16 j v xs) k = get_u16 xs k"
  by (auto simp: get_u16_def put_u16_def)

lemma get_put_u32: "k + 3 < length xs \<Longrightarrow> v < 2 ^ 32 \<Longrightarrow> get_u32 (put_u32 k v xs) k = v"
  using mod_mult2_eq [of v 65536 65536] by (simp add: get_u32_def put_u32_def get_put_u16 get_put_u16_other)

lemma get_put_u32_other: "k + 3 < j \<or> j + 3 < k \<Longrightarrow> get_u32 (put_u32 j v xs) k = get_u32 xs k"
  by (elim disjE) (simp_all add: get_u32_def put_u32_def get_put_u16_other)

lemma fold_put:
  assumes "4 * n + 4 \<le> length d" "\<And>i. i < n \<Longrightarrow> blocks i < 2 ^ 32"
  shows "length (fold (\<lambda>i. put_u32 (4 + 4 * i) (blocks i)) [0..<n] d) = length d"
    "get_u32 (fold (\<lambda>i. put_u32 (4 + 4 * i) (blocks i)) [0..<n] d) 0 = get_u32 d 0"
    "i < n \<Longrightarrow> get_u32 (fold (\<lambda>i. put_u32 (4 + 4 * i) (blocks i)) [0..<n] d) (4 + 4 * i) = blocks i"
proof -
  have "length (fold (\<lambda>i. put_u32 (4 + 4 * i) (blocks i)) [0..<n] d) = length d \<and>
    get_u32 (fold (\<lambda>i. put_u32 (4 + 4 * i) (blocks i)) [0..<n] d) 0 = get_u32 d 0 \<and>
    (\<forall>i < n. get_u32 (fold (\<lambda>i. put_u32 (4 + 4 * i) (blocks i)) [0..<n] d) (4 + 4 * i) = blocks i)"
    using assms
  proof (induction n)
    case (Suc n)
    let ?f = "fold (\<lambda>i. put_u32 (4 + 4 * i) (blocks i)) [0..<n] d"
    have "get_u32 (put_u32 (4 + 4 * n) (blocks n) ?f) 0 = get_u32 ?f 0" by (rule get_put_u32_other) simp
    then show ?case using Suc by (auto simp: get_put_u32_other get_put_u32 less_Suc_eq)
  qed simp
  then show "length (fold (\<lambda>i. put_u32 (4 + 4 * i) (blocks i)) [0..<n] d) = length d"
    "get_u32 (fold (\<lambda>i. put_u32 (4 + 4 * i) (blocks i)) [0..<n] d) 0 = get_u32 d 0"
    "i < n \<Longrightarrow> get_u32 (fold (\<lambda>i. put_u32 (4 + 4 * i) (blocks i)) [0..<n] d) (4 + 4 * i) = blocks i" by blast+
qed

lemma head_block_ok:
  assumes "length d = BSIZE" "n \<le> LOGBLOCKS" "\<And>i. i < n \<Longrightarrow> blocks i < 2 ^ 32"
  shows "length (head_block n blocks d) = BSIZE" "get_s32 (head_block n blocks d) 0 = int n"
    "i < n \<Longrightarrow> get_u32 (head_block n blocks d) (4 + 4 * i) = blocks i"
proof -
  have l: "4 * n + 4 \<le> length (put_u32 0 n d)" using assms(1,2) by (simp add: LOGBLOCKS_def MAXOPBLOCKS_def)
  note f = fold_put [OF l assms(3)]
  show "length (head_block n blocks d) = BSIZE" using f(1) assms(1) by (simp add: head_block_def)
  have n: "n < 2 ^ 31" using assms(2) by (simp add: LOGBLOCKS_def MAXOPBLOCKS_def)
  have "get_u32 (head_block n blocks d) 0 = n"
    using f(2) get_put_u32 [of 0 d n] assms(1) n by (simp add: head_block_def)
  then show "get_s32 (head_block n blocks d) 0 = int n" using n by (simp add: get_s32_def)
  show "i < n \<Longrightarrow> get_u32 (head_block n blocks d) (4 + 4 * i) = blocks i" using f(3) by (simp add: head_block_def)
qed

section \<open>Copying through the cache\<close>

lemma log_frame:
  fixes s t :: "'z klog_scheme"
  assumes "bio_frame s t"
  shows "log_start t = log_start s" "log_dev t = log_dev s" "outstanding t = outstanding s" "committing t = committing s"
    "lh_n t = lh_n s" "lh_block t = lh_block s"
  using assms unfolding bio_frame_def by auto

lemma cache_ok_log [simp]:
  fixes s :: "'z klog_scheme"
  shows "cache_ok H P (s\<lparr>lh_n := x\<rparr>) = cache_ok H P s" "cache_ok H P (s\<lparr>lh_block := y\<rparr>) = cache_ok H P s"
    "cache_ok H P (s\<lparr>log_start := k\<rparr>) = cache_ok H P s" "cache_ok H P (s\<lparr>log_dev := k\<rparr>) = cache_ok H P s"
  by (simp_all add: cache_ok_def path_ok_def lru_ok_def mypid_def myproc_def cong: option.case_cong)

lemma view_same:
  assumes "bufs t = bufs s" "disk t = disk s"
  shows "view t = view s"
proof
  have e: "caches t = caches s" by (intro ext) (simp add: caches_def assms)
  show "view t n = view s n" for n unfolding view_def e assms ..
qed

lemma view_log [simp]:
  fixes s :: "'z klog_scheme"
  shows "view (s\<lparr>lh_n := x\<rparr>) = view s" "view (s\<lparr>lh_block := y\<rparr>) = view s"
    "view (s\<lparr>log_start := k\<rparr>) = view s" "view (s\<lparr>log_dev := k\<rparr>) = view s"
  by (rule view_same; simp)+

lemma pinned_finite: "cache_ok H P s \<Longrightarrow> finite P"
  by (meson cache_okD(4) counts_ok_def finite_lessThan finite_subset)

text \<open>The body of the loop of \<open>write_log\<close>.\<close>

lemma copy_out:
  assumes c: "cache_ok {} P s" and a: "\<And>b. b \<in> P \<Longrightarrow> blockno (bufs s b) \<noteq> a" and room: "card P < NBUF"
    and p: "p \<in> P" "blockno (bufs s p) = m"
  shows "\<exists>t. bindr (bread ROOTDEV a s) (\<lambda>(to, s). bindr (bread ROOTDEV m s) (\<lambda>(from, s).
      let s = set_data to (bdata (bufs s from)) s
      in bindr (bwrite to s) (\<lambda>s. bindr (brelse from s) (brelse to)))) = Ok t \<and>
    cache_ok {} P t \<and> view t = (view s)(a := view s m) \<and> disk t = (disk s)(a := view s m) \<and>
    dwrites t = dwrites s @ [(a, view s m)] \<and> (\<forall>b \<in> P. blockno (bufs t b) = blockno (bufs s b)) \<and> bio_frame s t"
proof -
  obtain to s1 where r1: "bread ROOTDEV a s = Ok (to, s1)" "cache_ok {to} P s1" "bufs s1 to = read_buf P a to s"
    "\<And>c. c \<noteq> to \<Longrightarrow> bufs s1 c = bufs s c" "to \<in> P \<longrightarrow> blockno (bufs s to) = a"
    "view s1 = view s" "disk s1 = disk s" "dwrites s1 = dwrites s" "bio_frame s s1"
    by (rule bread_ok [OF c, of a]) (use room in simp_all)
  have toP: "to \<notin> P" using r1(5) a by blast
  have am: "a \<noteq> m" using a p by blast
  have "p \<noteq> to" using p(1) toP by blast
  then have k: "keyed s1 m p" using p r1(4) [of p] cache_okD(4) [OF r1(2)] by (auto simp: keyed_def counts_ok_def)
  have nto: "blockno (bufs s1 b) \<noteq> m" if "b \<in> {to}" for b using that r1(3) am by (simp add: read_buf_def)
  obtain "from" s2 where r2: "bread ROOTDEV m s1 = Ok (from, s2)" "cache_ok {from, to} P s2" "from \<notin> {to}" "bufs s2 from = read_buf P m from s1"
    "\<And>c. c \<noteq> from \<Longrightarrow> bufs s2 c = bufs s1 c" "\<And>b'. keyed s1 m b' \<Longrightarrow> b' = from" "view s2 = view s1" "disk s2 = disk s1"
    "dwrites s2 = dwrites s1" "bio_frame s1 s2"
    by (rule bread_ok [OF r1(2) nto disjI2 [OF k]]) blast+
  have fp: "from = p" "from \<noteq> to" using r2(3) r2(6) [OF k] by auto
  let ?d = "view s m" and ?s3 = "set_data to (view s m) s2"
  have bt: "blockno (bufs s2 to) = a" "bdata (bufs s2 from) = ?d"
    using r1(3) fp(2) r2(4,5) r1(6) by (simp_all add: read_buf_def)
  note sd = set_data_ok [OF r2(2), of to ?d]
  obtain s4 where r4: "bwrite to ?s3 = Ok s4" "cache_ok {from, to} P s4" "bufs s4 = bufs ?s3" "view s4 = view ?s3"
    "disk s4 = (disk s)(a := ?d)" "bio_frame ?s3 s4" "dwrites s4 = dwrites s @ [(a, ?d)]"
    by (rule bwrite_ok [OF sd(1), of to]) (use bt r2(8,9) r1(7,8) in simp_all)
  obtain s5 where r5: "brelse from s4 = Ok s5" "cache_ok ({from, to} - {from}) P s5"
    "bufs s5 = (bufs s4)(from := (bufs s4 from)\<lparr>refcnt := if from \<in> P then 1 else 0\<rparr>)"
    "view s5 = view s4" "disk s5 = disk s4" "dwrites s5 = dwrites s4" "bio_frame s4 s5"
    by (rule brelse_ok [OF r4(2), of "from"]) (use p fp in simp_all)
  have c5: "cache_ok {to} P s5" using r5(2) fp(2) by (simp add: insert_Diff_if)
  obtain s6 where r6: "brelse to s5 = Ok s6" "cache_ok ({to} - {to}) P s6"
    "bufs s6 = (bufs s5)(to := (bufs s5 to)\<lparr>refcnt := if to \<in> P then 1 else 0\<rparr>)"
    "view s6 = view s5" "disk s6 = disk s5" "dwrites s6 = dwrites s5" "bio_frame s5 s6"
    by (rule brelse_ok [OF c5, of to]) (use r5(3,5) r4(3,5) fp(2) bt in simp_all)
  have "bio_frame s s6"
    using bio_frame_trans [OF bio_frame_trans [OF bio_frame_trans [OF bio_frame_trans [OF bio_frame_trans [OF r1(9) r2(10)] set_data_sel(4)] r4(6)] r5(7)] r6(7)] .
  moreover have "blockno (bufs s6 b) = blockno (bufs s b)" if "b \<in> P" for b
  proof -
    have "b \<noteq> to" using toP that by blast
    then show ?thesis using r6(3) r5(3) r4(3) r2(4) r2(5) [of b] r1(4) [of b] fp p(2) by (auto simp: read_buf_def)
  qed
  moreover have "view s6 = (view s)(a := ?d)" using r6(4) r5(4) r4(4) sd(2) bt(1) r2(7) r1(6) by simp
  ultimately show ?thesis using r1(1) r2(1) r4(1) r5(1) r6(1,2,5,6) r5(5,6) r4(5,7) bt(2) by (auto simp: Let_def)
qed


text \<open>The body of the loop of \<open>install_trans\<close>, at recovery and after a commit.\<close>

lemma copy_home:
  assumes c: "cache_ok {} P s" and a: "\<And>b. b \<in> P \<Longrightarrow> blockno (bufs s b) \<noteq> a" and am: "a \<noteq> m" and room: "card P < NBUF"
    and p: "if recovering then P = {} else p \<in> P \<and> blockno (bufs s p) = m"
  shows "\<exists>t. bindr (bread ROOTDEV a s) (\<lambda>(lbuf, s). bindr (bread ROOTDEV m s) (\<lambda>(dbuf, s).
      let s = set_data dbuf (bdata (bufs s lbuf)) s
      in bindr (bwrite dbuf s) (\<lambda>s. bindr (if \<not> recovering then bunpin dbuf s else Ok s) (\<lambda>s.
         bindr (brelse lbuf s) (brelse dbuf))))) = Ok t \<and>
    cache_ok {} (if recovering then {} else P - {p}) t \<and> view t = (view s)(m := view s a) \<and> disk t = (disk s)(m := view s a) \<and>
    dwrites t = dwrites s @ [(m, view s a)] \<and> (\<forall>b \<in> P. blockno (bufs t b) = blockno (bufs s b)) \<and> bio_frame s t"
proof -
  obtain l s1 where r1: "bread ROOTDEV a s = Ok (l, s1)" "cache_ok {l} P s1" "bufs s1 l = read_buf P a l s"
    "\<And>c. c \<noteq> l \<Longrightarrow> bufs s1 c = bufs s c" "l \<in> P \<longrightarrow> blockno (bufs s l) = a"
    "view s1 = view s" "disk s1 = disk s" "dwrites s1 = dwrites s" "bio_frame s s1"
    by (rule bread_ok [OF c, of a]) (use room in simp_all)
  have lP: "l \<notin> P" using r1(5) a by blast
  let ?Q = "if recovering then {} else P - {p}"
  have k: "keyed s1 m p" if "\<not> recovering"
  proof -
    have "p \<noteq> l" "p \<in> P" using that p lP by auto
    then show ?thesis using that p r1(4) [of p] cache_okD(4) [OF r1(2)] by (auto simp: keyed_def counts_ok_def)
  qed
  have nl: "blockno (bufs s1 b) \<noteq> m" if "b \<in> {l}" for b using that r1(3) am by (simp add: read_buf_def)
  have room1: "card ({l} \<union> P) < NBUF \<or> keyed s1 m p"
    using k p by (cases recovering) (simp_all add: NBUF_def MAXOPBLOCKS_def)
  obtain d s2 where r2: "bread ROOTDEV m s1 = Ok (d, s2)" "cache_ok {d, l} P s2" "d \<notin> {l}" "bufs s2 d = read_buf P m d s1"
    "\<And>c. c \<noteq> d \<Longrightarrow> bufs s2 c = bufs s1 c" "\<And>b'. keyed s1 m b' \<Longrightarrow> b' = d" "view s2 = view s1" "disk s2 = disk s1"
    "dwrites s2 = dwrites s1" "bio_frame s1 s2"
    by (rule bread_ok [OF r1(2) nl room1]) blast+
  have dl: "d \<noteq> l" and dp: "\<not> recovering \<Longrightarrow> d = p" using r2(3) r2(6) [OF k] by auto
  let ?x = "view s a" and ?s3 = "set_data d (view s a) s2"
  have bt: "blockno (bufs s2 d) = m" "bdata (bufs s2 l) = ?x" "blockno (bufs s2 l) = a"
    using r1(3) dl r2(4,5) r1(6) by (simp_all add: read_buf_def)
  note sd = set_data_ok [OF r2(2), of d ?x]
  obtain s4 where r4: "bwrite d ?s3 = Ok s4" "cache_ok {d, l} P s4" "bufs s4 = bufs ?s3" "view s4 = view ?s3"
    "disk s4 = (disk s)(m := ?x)" "bio_frame ?s3 s4" "dwrites s4 = dwrites s @ [(m, ?x)]"
    by (rule bwrite_ok [OF sd(1), of d]) (use bt r2(8,9) r1(7,8) in simp_all)
  have "\<exists>s5. (if \<not> recovering then bunpin d s4 else Ok s4) = Ok s5 \<and> cache_ok {d, l} ?Q s5 \<and> view s5 = view s4 \<and> disk s5 = disk s4 \<and>
      dwrites s5 = dwrites s4 \<and> bio_frame s4 s5 \<and> (\<forall>b. blockno (bufs s5 b) = blockno (bufs s4 b) \<and> bdata (bufs s5 b) = bdata (bufs s4 b))"
  proof (cases recovering)
    case True
    then show ?thesis using r4(2) p by simp
  next
    case False
    then have "d \<in> P" using dp p by simp
    then show ?thesis using False dp by (rule_tac bunpin_ok [OF r4(2), of d]) auto
  qed
  then obtain s5 where r5: "(if \<not> recovering then bunpin d s4 else Ok s4) = Ok s5" "cache_ok {d, l} ?Q s5" "view s5 = view s4"
    "disk s5 = disk s4" "dwrites s5 = dwrites s4" "bio_frame s4 s5" "\<And>b. blockno (bufs s5 b) = blockno (bufs s4 b)"
    "\<And>b. bdata (bufs s5 b) = bdata (bufs s4 b)" by blast
  have lQ: "l \<notin> ?Q" using lP by simp
  have dlog: "?x = disk s a"
    using view_disk [OF c, of a] a by simp
  obtain s6 where r6: "brelse l s5 = Ok s6" "cache_ok ({d, l} - {l}) ?Q s6"
    "bufs s6 = (bufs s5)(l := (bufs s5 l)\<lparr>refcnt := if l \<in> ?Q then 1 else 0\<rparr>)"
    "view s6 = view s5" "disk s6 = disk s5" "dwrites s6 = dwrites s5" "bio_frame s5 s6"
    by (rule brelse_ok [OF r5(2), of l]) (use r5(4,7,8) r4(3,5) dl bt am dlog in simp_all)
  have c6: "cache_ok {d} ?Q s6" using r6(2) dl by (simp add: insert_Diff_if)
  obtain s7 where r7: "brelse d s6 = Ok s7" "cache_ok ({d} - {d}) ?Q s7"
    "bufs s7 = (bufs s6)(d := (bufs s6 d)\<lparr>refcnt := if d \<in> ?Q then 1 else 0\<rparr>)"
    "view s7 = view s6" "disk s7 = disk s6" "dwrites s7 = dwrites s6" "bio_frame s6 s7"
    by (rule brelse_ok [OF c6, of d]) (use r6(3,5) r5(4,7,8) r4(3,5) dl bt in simp_all)
  have fr: "bio_frame s s7"
    using bio_frame_trans [OF bio_frame_trans [OF bio_frame_trans [OF bio_frame_trans [OF bio_frame_trans [OF bio_frame_trans
      [OF r1(9) r2(10)] set_data_sel(4)] r4(6)] r5(6)] r6(7)] r7(7)] .
  have blk: "blockno (bufs s7 b) = blockno (bufs s b)" if "b \<in> P" for b
  proof -
    have "b \<noteq> l" using lP that by blast
    moreover have "d = b \<Longrightarrow> blockno (bufs s b) = m" using dp p that by (auto split: if_splits)
    ultimately show ?thesis using r7(3) r6(3) r5(7) r4(3) r2(5) [of b] r1(4) [of b] bt(1) by (cases "b = d") auto
  qed
  have "view s7 = (view s)(m := ?x)" using r7(4) r6(4) r5(3) r4(4) sd(2) bt(1) r2(7) r1(6) by simp
  then show ?thesis using r1(1) r2(1) r4(1) r5(1) r6(1) r7(1,2,5,6) r6(5,6) r5(4,5) r4(5,7) bt(2) fr blk
    by (auto simp: Let_def)
qed

section \<open>The steps of a commit\<close>

text \<open>A transaction of the blocks \<open>lh_block s i\<close>, \<open>i < n\<close>, ready to be committed: the log pins exactly their buffers,
  they are different blocks outside the log area, and at least one buffer is left for the log's own blocks.\<close>

definition log_area :: "nat \<Rightarrow> nat set" where
  "log_area L = {L .. L + LOGBLOCKS}"

definition txn :: "nat set \<Rightarrow> nat \<Rightarrow> 'z klog_scheme \<Rightarrow> bool" where
  "txn P n s \<longleftrightarrow> cache_ok {} P s \<and> log_dev s = ROOTDEV \<and> lh_n s = int n \<and> n < NBUF \<and> inj_on (lh_block s) {..<n} \<and>
     (\<forall>i < n. lh_block s i \<notin> log_area (log_start s) \<and> lh_block s i < 2 ^ 32) \<and>
     (\<lambda>b. blockno (bufs s b)) ` P = lh_block s ` {..<n}"

lemma txnD:
  assumes "txn P n s"
  shows "cache_ok {} P s" "log_dev s = ROOTDEV" "lh_n s = int n" "n < NBUF" "inj_on (lh_block s) {..<n}"
    "i < n \<Longrightarrow> lh_block s i \<notin> log_area (log_start s)" "i < n \<Longrightarrow> lh_block s i < 2 ^ 32"
    "(\<lambda>b. blockno (bufs s b)) ` P = lh_block s ` {..<n}"
  using assms unfolding txn_def by blast+

lemma txn_pins:
  assumes "txn P n s"
  shows "card P < NBUF" "b \<in> P \<Longrightarrow> blockno (bufs s b) \<notin> log_area (log_start s)" "n \<le> LOGBLOCKS"
proof -
  note t = txnD [OF assms]
  have "inj_on (\<lambda>b. blockno (bufs s b)) P"
  proof (rule inj_onI)
    fix x y assume xy: "x \<in> P" "y \<in> P" "blockno (bufs s x) = blockno (bufs s y)"
    have "b < NBUF" "bdev (bufs s b) = ROOTDEV" if "b \<in> P" for b using cache_okD(4) [OF t(1)] that by (auto simp: counts_ok_def)
    then show "x = y" using keys_okD [OF cache_okD(3) [OF t(1)], of x y] xy by blast
  qed
  then have "card P = card (lh_block s ` {..<n})" using t(8) card_image by metis
  also have "\<dots> \<le> n" using card_image_le [of "{..<n}" "lh_block s"] by simp
  finally show "card P < NBUF" using t(4) by simp
  show "blockno (bufs s b) \<notin> log_area (log_start s)" if "b \<in> P"
  proof -
    obtain i where "i < n" "blockno (bufs s b) = lh_block s i" using t(8) \<open>b \<in> P\<close> by blast
    then show ?thesis using t(6) by simp
  qed
  show "n \<le> LOGBLOCKS" using t(4) by (simp add: NBUF_def LOGBLOCKS_def)
qed

text \<open>Disk writes and their effect on a disk; the effect of a path on the disk, on what readers see, and on the record
  of writes.\<close>

definition apply_writes :: "(nat \<times> uint8 list) list \<Rightarrow> (nat \<Rightarrow> uint8 list) \<Rightarrow> nat \<Rightarrow> uint8 list" where
  "apply_writes W d = fold (\<lambda>(n, x) d. d(n := x)) W d"

definition wrote :: "'z kbio_scheme \<Rightarrow> (nat \<times> uint8 list) list \<Rightarrow> 'z kbio_scheme \<Rightarrow> bool" where
  "wrote s W t \<longleftrightarrow> disk t = apply_writes W (disk s) \<and> view t = apply_writes W (view s) \<and> dwrites t = dwrites s @ W \<and> bio_frame s t"

lemma apply_writes_simps [simp]:
  "apply_writes [] d = d" "apply_writes (W @ V) d = apply_writes V (apply_writes W d)"
  "apply_writes ((n, x) # W) d = apply_writes W (d(n := x))"
  by (simp_all add: apply_writes_def)

lemma apply_writes_other: "m \<notin> fst ` set W \<Longrightarrow> apply_writes W d m = d m"
  by (induction W arbitrary: d) auto

lemma wrote_refl: "wrote s [] s"
  by (simp add: wrote_def)

lemma wrote_trans: "wrote s W t \<Longrightarrow> wrote t V u \<Longrightarrow> wrote s (W @ V) u"
  unfolding wrote_def by (auto intro: bio_frame_trans)

lemma write_log_ok:
  fixes s :: "'z klog_scheme"
  assumes tx: "txn P n s"
  defines "x \<equiv> \<lambda>i. view s (lh_block s i)" and "L \<equiv> log_start s"
  shows "\<exists>t. write_log s = Ok t \<and> txn P n t \<and> wrote s (map (\<lambda>i. (L + i + 1, x i)) [0..<n]) t"
proof -
  note t = txnD [OF tx] and pin = txn_pins [OF tx]
  let ?body = "\<lambda>tail s. bindr (bread (log_dev s) (log_start s + tail + 1) s) (\<lambda>(to, s).
       bindr (bread (log_dev s) (lh_block s tail) s) (\<lambda>(from, s).
       let s = set_data to (bdata (bufs s from)) s
       in bindr (bwrite to s) (\<lambda>s. bindr (brelse from s) (brelse to))))"
  let ?W = "\<lambda>k. map (\<lambda>i. (L + i + 1, x i)) [0..<k]"
  let ?I = "\<lambda>k u. cache_ok {} P u \<and> wrote s (?W k) u \<and> (\<forall>b \<in> P. blockno (bufs u b) = blockno (bufs s b))"
  have "\<exists>u'. ?body k u = Ok u' \<and> ?I (Suc k) u'" if k: "k < n" and I: "?I k u" for k u
  proof -
    have fr: "bio_frame s u" using I by (simp add: wrote_def)
    note lf = log_frame [OF fr]
    have area: "L + i + 1 \<in> log_area L" if "i \<le> k" for i using that k pin(3) by (simp add: log_area_def)
    have blk: "lh_block s k \<notin> log_area L" using t(6) [OF k] by (simp add: L_def)
    have "lh_block s k \<in> (\<lambda>b. blockno (bufs s b)) ` P" unfolding t(8) using k by simp
    then obtain p where p: "p \<in> P" "blockno (bufs s p) = lh_block s k" by auto
    have "lh_block s k \<notin> fst ` set (?W k)" using blk area by (auto simp del: add_Suc_right)
    then have vx: "view u (lh_block s k) = x k" using I by (simp add: wrote_def apply_writes_other x_def)
    have eq: "?body k u = bindr (bread ROOTDEV (L + k + 1) u) (\<lambda>(to, s').
       bindr (bread ROOTDEV (lh_block s k) s') (\<lambda>(from, s). let s = set_data to (bdata (bufs s from)) s
       in bindr (bwrite to s) (\<lambda>s. bindr (brelse from s) (brelse to))))"
      unfolding lf(1,2) t(2) L_def [symmetric]
    proof (rule bindr_cong [OF refl], clarify)
      fix "to" v assume "bread ROOTDEV (L + k + 1) u = Ok (to, v)"
      from log_frame [OF bread_frame [OF this]] show "bindr (bread (log_dev v) (lh_block v k) v) (\<lambda>(from, s).
          let s = set_data to (bdata (bufs s from)) s in bindr (bwrite to s) (\<lambda>s. bindr (brelse from s) (brelse to))) =
        bindr (bread ROOTDEV (lh_block s k) v) (\<lambda>(from, s).
          let s = set_data to (bdata (bufs s from)) s in bindr (bwrite to s) (\<lambda>s. bindr (brelse from s) (brelse to)))"
        using lf t(2) by simp
    qed
    have "\<exists>u'. ?body k u = Ok u' \<and> cache_ok {} P u' \<and> view u' = (view u)(L + k + 1 := view u (lh_block s k)) \<and>
      disk u' = (disk u)(L + k + 1 := view u (lh_block s k)) \<and> dwrites u' = dwrites u @ [(L + k + 1, view u (lh_block s k))] \<and>
      (\<forall>b \<in> P. blockno (bufs u' b) = blockno (bufs u b)) \<and> bio_frame u u'"
      unfolding eq
    proof (rule copy_out)
      show "blockno (bufs u b) \<noteq> L + k + 1" if "b \<in> P" for b
        using I that pin(2) [OF that] area [of k] by (auto simp: L_def)
    qed (use I p pin(1) in auto)
    then obtain u' where u': "?body k u = Ok u'" "cache_ok {} P u'" "wrote u [(L + k + 1, x k)] u'"
      "\<forall>b \<in> P. blockno (bufs u' b) = blockno (bufs u b)" unfolding vx wrote_def by auto
    have "?I (Suc k) u'" using u' I wrote_trans [OF _ u'(3)] by simp
    then show ?thesis using u'(1) by blast
  qed
  moreover have "?I 0 s" using t(1) by (simp add: wrote_refl)
  ultimately obtain u where u: "loop_res ?body [0..<n] s = Ok u" "?I n u"
    using loop_res_upt_induct [of ?I s n ?body] by blast
  have "write_log s = Ok u" using u(1) t(3) by (simp add: write_log_def)
  moreover have "txn P n u"
    using u(2) t log_frame [of s u] by (auto simp: txn_def wrote_def intro: image_cong)
  ultimately show ?thesis using u(2) by blast
qed

lemma update_block:
  assumes c: "cache_ok {} P s" and a: "\<And>b. b \<in> P \<Longrightarrow> blockno (bufs s b) \<noteq> a" and room: "card P < NBUF"
  shows "\<exists>t. bindr (bread ROOTDEV a s) (\<lambda>(b, s). let s = set_data b (f (bdata (bufs s b))) s in bindr (bwrite b s) (brelse b)) = Ok t \<and>
    cache_ok {} P t \<and> wrote s [(a, f (view s a))] t \<and> (\<forall>b \<in> P. blockno (bufs t b) = blockno (bufs s b))"
proof -
  obtain b s1 where r1: "bread ROOTDEV a s = Ok (b, s1)" "cache_ok {b} P s1" "bufs s1 b = read_buf P a b s"
    "\<And>c. c \<noteq> b \<Longrightarrow> bufs s1 c = bufs s c" "b \<in> P \<longrightarrow> blockno (bufs s b) = a"
    "view s1 = view s" "disk s1 = disk s" "dwrites s1 = dwrites s" "bio_frame s s1"
    by (rule bread_ok [OF c, of a]) (use room in simp_all)
  have bP: "b \<notin> P" using r1(5) a by blast
  let ?d = "f (view s a)" and ?s2 = "set_data b (f (view s a)) s1"
  note sd = set_data_ok [OF r1(2), of b ?d]
  obtain s3 where r3: "bwrite b ?s2 = Ok s3" "cache_ok {b} P s3" "bufs s3 = bufs ?s2" "view s3 = view ?s2"
    "disk s3 = (disk s)(a := ?d)" "bio_frame ?s2 s3" "dwrites s3 = dwrites s @ [(a, ?d)]"
    by (rule bwrite_ok [OF sd(1), of b]) (use r1(3,7,8) in \<open>simp_all add: read_buf_def\<close>)
  obtain s4 where r4: "brelse b s3 = Ok s4" "cache_ok ({b} - {b}) P s4"
    "bufs s4 = (bufs s3)(b := (bufs s3 b)\<lparr>refcnt := if b \<in> P then 1 else 0\<rparr>)"
    "view s4 = view s3" "disk s4 = disk s3" "dwrites s4 = dwrites s3" "bio_frame s3 s4"
    by (rule brelse_ok [OF r3(2), of b]) (use r3(3,5) r1(3) in \<open>simp_all add: read_buf_def\<close>)
  have "bio_frame s s4" using bio_frame_trans [OF bio_frame_trans [OF bio_frame_trans [OF r1(9) set_data_sel(4)] r3(6)] r4(7)] .
  moreover have "view s4 = (view s)(a := ?d)" using r4(4) r3(4) sd(2) r1(3,6) by (simp add: read_buf_def)
  moreover have "blockno (bufs s4 c) = blockno (bufs s c)" if "c \<in> P" for c
  proof -
    have "c \<noteq> b" using bP that by blast
    then show ?thesis using r4(3) r3(3) r1(4) [of c] by simp
  qed
  moreover have "bdata (bufs s1 b) = view s a" using r1(3) by (simp add: read_buf_def)
  ultimately show ?thesis using r1(1) r3(1) r4(1,2,5,6) r3(5,7) by (simp add: Let_def wrote_def)
qed

lemma write_head_ok:
  fixes s :: "'z klog_scheme"
  assumes c: "cache_ok {} P s" and dev: "log_dev s = ROOTDEV" and a: "\<And>b. b \<in> P \<Longrightarrow> blockno (bufs s b) \<noteq> log_start s"
    and room: "card P < NBUF"
  shows "\<exists>t. write_head s = Ok t \<and> cache_ok {} P t \<and>
    wrote s [(log_start s, head_block (nat (lh_n s)) (lh_block s) (view s (log_start s)))] t \<and>
    (\<forall>b \<in> P. blockno (bufs t b) = blockno (bufs s b))"
proof -
  let ?f = "head_block (nat (lh_n s)) (lh_block s)"
  have eq: "write_head s = bindr (bread ROOTDEV (log_start s) s) (\<lambda>(b, s). let s = set_data b (?f (bdata (bufs s b))) s in bindr (bwrite b s) (brelse b))"
    unfolding write_head_def dev
  proof (rule bindr_cong [OF refl], clarify)
    fix b v assume "bread ROOTDEV (log_start s) s = Ok (b, v)"
    from log_frame [OF bread_frame [OF this]]
    show "(let s = set_data b (head_block (nat (lh_n v)) (lh_block v) (bdata (bufs v b))) v in bindr (bwrite b s) (brelse b)) =
      (let s = set_data b (?f (bdata (bufs v b))) v in bindr (bwrite b s) (brelse b))" by simp
  qed
  show ?thesis unfolding eq by (rule update_block [OF c a room])
qed

text \<open>The buffers still pinned after the first \<open>k\<close> blocks have been installed.\<close>

definition pins_left :: "nat set \<Rightarrow> nat \<Rightarrow> 'z klog_scheme \<Rightarrow> nat set" where
  "pins_left P k s = {b \<in> P. blockno (bufs s b) \<notin> lh_block s ` {..<k}}"

lemma next_pin:
  assumes "txn P n s" and k: "k < n"
  shows "\<exists>p. p \<in> pins_left P k s \<and> blockno (bufs s p) = lh_block s k \<and> pins_left P (Suc k) s = pins_left P k s - {p}"
proof -
  note t = txnD [OF assms(1)]
  have "lh_block s k \<in> (\<lambda>b. blockno (bufs s b)) ` P" unfolding t(8) using k by simp
  then obtain p where p: "p \<in> P" "blockno (bufs s p) = lh_block s k" by auto
  have "lh_block s k \<notin> lh_block s ` {..<k}" using inj_onD [OF t(5), of k] k by fastforce
  then have pQ: "p \<in> pins_left P k s" using p by (simp add: pins_left_def)
  have pin: "c < NBUF" "bdev (bufs s c) = ROOTDEV" if "c \<in> P" for c using cache_okD(4) [OF t(1)] that by (auto simp: counts_ok_def)
  have "b = p" if "b \<in> P" "blockno (bufs s b) = lh_block s k" for b
    by (rule keys_okD [OF cache_okD(3) [OF t(1)]]) (simp_all add: pin that p)
  then have "pins_left P (Suc k) s = pins_left P k s - {p}" using p unfolding pins_left_def lessThan_Suc by blast
  then show ?thesis using pQ p(2) by blast
qed

lemma install_ok:
  fixes s :: "'z klog_scheme"
  assumes c: "cache_ok {} P s" and dev: "log_dev s = ROOTDEV" and n: "lh_n s = int n" "n \<le> LOGBLOCKS"
    and blk: "\<And>i. i < n \<Longrightarrow> lh_block s i \<notin> log_area (log_start s)"
    and tx: "if recovering then P = {} else txn P n s"
  defines "L \<equiv> log_start s"
  shows "\<exists>t. install_trans recovering s = Ok t \<and> cache_ok {} {} t \<and>
    wrote s (map (\<lambda>i. (lh_block s i, view s (L + i + 1))) [0..<n]) t"
proof -
  let ?body = "\<lambda>tail s. bindr (bread (log_dev s) (log_start s + tail + 1) s) (\<lambda>(lbuf, s).
       bindr (bread (log_dev s) (lh_block s tail) s) (\<lambda>(dbuf, s).
       let s = set_data dbuf (bdata (bufs s lbuf)) s
       in bindr (bwrite dbuf s) (\<lambda>s. bindr (if \<not> recovering then bunpin dbuf s else Ok s) (\<lambda>s. bindr (brelse lbuf s) (brelse dbuf)))))"
  let ?rest = "\<lambda>lbuf. \<lambda>(dbuf, s). let s = set_data dbuf (bdata (bufs s lbuf)) s
       in bindr (bwrite dbuf s) (\<lambda>s. bindr (if \<not> recovering then bunpin dbuf s else Ok s) (\<lambda>s. bindr (brelse lbuf s) (brelse dbuf)))"
  let ?W = "\<lambda>k. map (\<lambda>i. (lh_block s i, view s (L + i + 1))) [0..<k]"
  let ?Q = "\<lambda>k. pins_left P k s"
  let ?I = "\<lambda>k u. cache_ok {} (?Q k) u \<and> wrote s (?W k) u \<and> (\<forall>b \<in> ?Q k. blockno (bufs u b) = blockno (bufs s b))"
  have "\<exists>u'. ?body k u = Ok u' \<and> ?I (Suc k) u'" if k: "k < n" and I: "?I k u" for k u
  proof -
    have fr: "bio_frame s u" using I by (simp add: wrote_def)
    note lf = log_frame [OF fr]
    have area: "L + k + 1 \<in> log_area L" using k n(2) by (simp add: log_area_def)
    have "L + k + 1 \<notin> fst ` set (?W k)" using blk area k by (auto simp: L_def simp del: add_Suc_right)
    then have vx: "view u (L + k + 1) = view s (L + k + 1)" using I by (simp add: wrote_def apply_writes_other)
    have eq: "?body k u = bindr (bread ROOTDEV (L + k + 1) u) (\<lambda>(lbuf, s'). bindr (bread ROOTDEV (lh_block s k) s') (?rest lbuf))"
      unfolding lf(1,2) dev L_def [symmetric]
    proof (rule bindr_cong [OF refl], clarify)
      fix lb v assume "bread ROOTDEV (L + k + 1) u = Ok (lb, v)"
      from log_frame [OF bread_frame [OF this]]
      show "bindr (bread (log_dev v) (lh_block v k) v) (?rest lb) = bindr (bread ROOTDEV (lh_block s k) v) (?rest lb)"
        using lf dev by simp
    qed
    have "\<exists>p. if recovering then ?Q k = {} else p \<in> ?Q k \<and> blockno (bufs u p) = lh_block s k \<and> ?Q (Suc k) = ?Q k - {p}"
    proof (cases recovering)
      case False
      then show ?thesis using next_pin [of P n s k] tx k I by auto
    qed (use tx in \<open>simp add: pins_left_def\<close>)
    then obtain p where p: "if recovering then ?Q k = {} else p \<in> ?Q k \<and> blockno (bufs u p) = lh_block s k \<and> ?Q (Suc k) = ?Q k - {p}" by blast
    have "card P < NBUF" using tx txn_pins(1) [of P n s] by (cases recovering) (simp_all add: NBUF_def MAXOPBLOCKS_def)
    then have room: "card (?Q k) < NBUF" using card_mono [OF pinned_finite [OF c], of "?Q k"] by (fastforce simp: pins_left_def)
    have "\<exists>u'. ?body k u = Ok u' \<and> cache_ok {} (if recovering then {} else ?Q k - {p}) u' \<and>
      view u' = (view u)(lh_block s k := view u (L + k + 1)) \<and> disk u' = (disk u)(lh_block s k := view u (L + k + 1)) \<and>
      dwrites u' = dwrites u @ [(lh_block s k, view u (L + k + 1))] \<and> (\<forall>b \<in> ?Q k. blockno (bufs u' b) = blockno (bufs u b)) \<and> bio_frame u u'"
      unfolding eq
    proof (rule copy_home)
      show "blockno (bufs u b) \<noteq> L + k + 1" if b: "b \<in> ?Q k" for b
      proof -
        have "\<not> recovering" "b \<in> P" using tx b by (auto simp: pins_left_def)
        then show ?thesis using txn_pins(2) [of P n s b] tx I b area by (auto simp: L_def)
      qed
      show "L + k + 1 \<noteq> lh_block s k" using blk [OF k] area by (auto simp: L_def)
    qed (use I p room in \<open>auto split: if_splits\<close>)
    then obtain u' where u': "?body k u = Ok u'" "cache_ok {} (if recovering then {} else ?Q k - {p}) u'"
      "wrote u [(lh_block s k, view s (L + k + 1))] u'" "\<forall>b \<in> ?Q k. blockno (bufs u' b) = blockno (bufs u b)"
      unfolding vx wrote_def by auto
    have "?Q (Suc k) = (if recovering then {} else ?Q k - {p})" "?Q (Suc k) \<subseteq> ?Q k" using p by (auto simp: pins_left_def split: if_splits)
    then have "?I (Suc k) u'" using u' I wrote_trans [OF _ u'(3)] by auto
    then show ?thesis using u'(1) by blast
  qed
  moreover have "?I 0 s" using c by (simp add: wrote_refl pins_left_def)
  ultimately obtain u where u: "loop_res ?body [0..<n] s = Ok u" "?I n u"
    using loop_res_upt_induct [of ?I s n ?body] by blast
  have "?Q n = {}" using tx txnD(8) [of P n s] by (cases recovering) (auto simp: pins_left_def)
  then show ?thesis using u n(1) by (auto simp: install_trans_def)
qed

section \<open>Commit and recovery\<close>

lemma apply_writes_map:
  assumes "inj_on f {..<n}" "i < n"
  shows "apply_writes (map (\<lambda>i. (f i, x i)) [0..<n]) d (f i) = x i"
  using assms
proof (induction n)
  case (Suc n)
  have "f n \<noteq> f i" if "i \<noteq> n" using inj_onD [OF Suc.prems(1), of n i] Suc.prems(2) that by auto
  then show ?case using Suc by (cases "i = n") (auto simp: inj_on_def)
qed simp

text \<open>The writes of a commit: the log blocks, the header, the home blocks, and the emptied header.\<close>

definition commit_writes :: "nat \<Rightarrow> 'z klog_scheme \<Rightarrow> (nat \<times> uint8 list) list" where
  "commit_writes n s =
     (let L = log_start s; x = (\<lambda>i. view s (lh_block s i)); h = head_block n (lh_block s) (view s L)
      in map (\<lambda>i. (L + i + 1, x i)) [0..<n] @ [(L, h)] @ map (\<lambda>i. (lh_block s i, x i)) [0..<n] @ [(L, head_block 0 (lh_block s) h)])"

lemma log_slots:
  "n \<le> LOGBLOCKS \<Longrightarrow> fst ` set (map (\<lambda>i. (L + i + 1, x i)) [0..<n]) \<subseteq> log_area L"
  "L \<notin> fst ` set (map (\<lambda>i. (L + i + 1, x i)) [0..<n])" "L \<in> log_area L" "inj_on (\<lambda>i. L + i + 1) {..<n}"
  by (auto simp: log_area_def inj_on_def)

lemma wrote_frame: "wrote s W t \<Longrightarrow> bio_frame s t"
  by (simp add: wrote_def)

lemma bio_frame_lh:
  fixes s t :: "'z klog_scheme"
  assumes "bio_frame s t"
  shows "bio_frame (s\<lparr>lh_n := k\<rparr>) (t\<lparr>lh_n := k\<rparr>)"
proof -
  obtain P K B L D W where t: "t = s\<lparr>procs := P, slk := K, bufs := B, lru := L, disk := D, dwrites := W\<rparr>"
    "\<And>p. woken_up (procs s p) (P p)" using assms unfolding bio_frame_def by blast
  show ?thesis
    by (rule bio_frameI [where P = P and K = K and B = B and L = L and D = D and W = W]) (use t in \<open>cases s, simp_all\<close>)
qed

lemma wrote_lh:
  fixes s t :: "'z klog_scheme"
  assumes "wrote s W t"
  shows "wrote (s\<lparr>lh_n := k\<rparr>) W (t\<lparr>lh_n := k\<rparr>)"
  using assms bio_frame_lh [of s t k] by (simp add: wrote_def)

lemma commit_ok:
  fixes s :: "'z klog_scheme"
  assumes tx: "txn P n s" and n: "0 < n"
  shows "\<exists>t. commit s = Ok t \<and> cache_ok {} {} t \<and> wrote (s\<lparr>lh_n := 0\<rparr>) (commit_writes n s) t"
proof -
  let ?L = "log_start s" and ?x = "\<lambda>i. view s (lh_block s i)"
  let ?A = "map (\<lambda>i. (?L + i + 1, ?x i)) [0..<n]" and ?h = "head_block n (lh_block s) (view s ?L)"
  note pin = txn_pins [OF tx] and t0 = txnD [OF tx]
  obtain u where u: "write_log s = Ok u" "txn P n u" "wrote s ?A u" using write_log_ok [OF tx] by blast
  note uf = log_frame [OF wrote_frame [OF u(3)]]
  note ut = txnD [OF u(2)] and up = txn_pins [OF u(2)]
  have vL: "view u ?L = view s ?L"
    using u(3) apply_writes_other [OF log_slots(2) [of ?L ?x n], of "view s"] by (simp add: wrote_def)
  have uL: "blockno (bufs u b) \<noteq> log_start u" if "b \<in> P" for b using up(2) [OF that] log_slots(3) by auto
  have hu: "head_block (nat (lh_n u)) (lh_block u) (view u ?L) = ?h" using uf(6) ut(3) vL by simp
  obtain v where v: "write_head u = Ok v" "cache_ok {} P v" "\<forall>b \<in> P. blockno (bufs v b) = blockno (bufs u b)" "wrote u [(?L, ?h)] v"
    using write_head_ok [OF ut(1,2) uL up(1)] unfolding uf(1) hu by blast
  note vf = log_frame [OF wrote_frame [OF v(4)]]
  have tv: "txn P n v" using v(2,3) ut vf by (auto simp: txn_def intro: image_cong)
  have vs: "view v (?L + i + 1) = ?x i" if "i < n" for i
    using v(4) u(3) apply_writes_map [OF log_slots(4) that, of ?L ?x "view s"] by (simp add: wrote_def)
  obtain w where w: "install_trans False v = Ok w" "cache_ok {} {} w"
      "wrote v (map (\<lambda>i. (lh_block v i, view v (log_start v + i + 1))) [0..<n]) w"
    using install_ok [OF v(2), of n False] txnD [OF tv] txn_pins(3) [OF tv] tv by auto
  have w3: "wrote v (map (\<lambda>i. (lh_block s i, ?x i)) [0..<n]) w"
  proof -
    have "map (\<lambda>i. (lh_block v i, view v (log_start v + i + 1))) [0..<n] = map (\<lambda>i. (lh_block s i, ?x i)) [0..<n]"
      by (rule map_cong) (use vf uf vs in auto)
    then show ?thesis using w(3) by (simp only:)
  qed
  note wf = log_frame [OF wrote_frame [OF w3]]
  have "?L \<notin> fst ` set (map (\<lambda>i. (lh_block s i, ?x i)) [0..<n])" using t0(6) log_slots(3) by fastforce
  then have wL: "view w ?L = ?h" using w3 v(4) by (simp add: wrote_def apply_writes_other)
  obtain y where y: "write_head (w\<lparr>lh_n := 0\<rparr>) = Ok y" "cache_ok {} {} y" "wrote (w\<lparr>lh_n := 0\<rparr>) [(?L, head_block 0 (lh_block s) ?h)] y"
    using write_head_ok [of "{}" "w\<lparr>lh_n := 0\<rparr>"] w(2) wf vf uf t0(2) wL by (auto simp: NBUF_def MAXOPBLOCKS_def)
  have "wrote (s\<lparr>lh_n := 0\<rparr>) (commit_writes n s) y"
    using wrote_trans [OF wrote_lh [OF wrote_trans [OF wrote_trans [OF u(3) v(4)] w3]] y(3)] by (simp add: commit_writes_def Let_def)
  moreover have "commit s = Ok y" using u(1) v(1) w(1) y(1) t0(3) n by (simp add: commit_def)
  ultimately show ?thesis using y(2) by blast
qed


lemma read_head_ok:
  fixes r :: "'z klog_scheme"
  assumes c: "cache_ok {} {} r" and dev: "log_dev r = ROOTDEV"
  defines "h \<equiv> disk r (log_start r)"
  shows "\<exists>u. read_head r = Ok u \<and> cache_ok {} {} u \<and> disk u = disk r \<and> lh_n u = get_s32 h 0 \<and> log_dev u = ROOTDEV \<and>
    log_start u = log_start r \<and> (\<forall>i. int i < get_s32 h 0 \<longrightarrow> lh_block u i = get_u32 h (4 + 4 * i))"
proof -
  obtain b s1 where r1: "bread ROOTDEV (log_start r) r = Ok (b, s1)" "cache_ok {b} {} s1" "bufs s1 b = read_buf {} (log_start r) b r"
    "disk s1 = disk r" "bio_frame r s1"
    by (rule bread_ok [OF c, of "log_start r"]) (simp_all add: NBUF_def MAXOPBLOCKS_def)
  have vh: "view r (log_start r) = h" using view_disk [OF c] by (simp add: h_def)
  let ?u = "s1\<lparr>lh_n := get_s32 h 0, lh_block := (\<lambda>i. if int i < get_s32 h 0 then get_u32 h (4 + 4 * i) else lh_block s1 i)\<rparr>"
  have c1: "cache_ok {b} {} ?u" using r1(2) by simp
  obtain s2 where r2: "brelse b ?u = Ok s2" "cache_ok ({b} - {b}) {} s2" "disk s2 = disk ?u" "bio_frame ?u s2"
    by (rule brelse_ok [OF c1, of b]) (use r1(3,4) vh in \<open>simp_all add: read_buf_def h_def\<close>)
  have "bdata (bufs s1 b) = h" using r1(3) vh by (simp add: read_buf_def)
  then have "read_head r = Ok s2" using r1(1) r2(1) dev by (simp add: read_head_def Let_def cong: if_cong)
  then show ?thesis using r1(4) r2(2,3) log_frame [OF r2(4)] log_frame [OF r1(5)] dev by simp
qed

text \<open>Recovery from a disk whose header is well-formed.\<close>

lemma initlog_ok:
  fixes r :: "'z klog_scheme"
  assumes c: "cache_ok {} {} r" and L: "sb_logstart sb = L"
    and h: "get_s32 (disk r L) 0 = int n" "n \<le> LOGBLOCKS" "length (disk r L) = BSIZE"
    and blk: "\<And>i. i < n \<Longrightarrow> get_u32 (disk r L) (4 + 4 * i) \<notin> log_area L"
  shows "\<exists>r'. initlog ROOTDEV sb r = Ok r' \<and> cache_ok {} {} r' \<and> lh_n r' = 0 \<and> get_s32 (disk r' L) 0 = 0 \<and>
    (\<forall>m. m \<notin> log_area L \<longrightarrow>
       disk r' m = apply_writes (map (\<lambda>i. (get_u32 (disk r L) (4 + 4 * i), disk r (L + i + 1))) [0..<n]) (disk r) m)"
proof -
  let ?r = "r\<lparr>log_start := L, log_dev := ROOTDEV\<rparr>" and ?b = "\<lambda>i. get_u32 (disk r L) (4 + 4 * i)"
  obtain u where u: "read_head ?r = Ok u" "cache_ok {} {} u" "disk u = disk r" "lh_n u = int n" "log_dev u = ROOTDEV"
    "log_start u = L" "\<And>i. i < n \<Longrightarrow> lh_block u i = ?b i"
    using read_head_ok [of ?r] c h by auto
  have vu: "view u m = disk r m" for m using view_disk [OF u(2)] u(3) by simp
  obtain w where w: "install_trans True u = Ok w" "cache_ok {} {} w"
      "wrote u (map (\<lambda>i. (lh_block u i, view u (log_start u + i + 1))) [0..<n]) w"
    using install_ok [OF u(2,5,4) h(2), of True] blk u(6,7) by auto
  have "map (\<lambda>i. (lh_block u i, view u (log_start u + i + 1))) [0..<n] = map (\<lambda>i. (?b i, disk r (L + i + 1))) [0..<n]"
    by (rule map_cong) (use u(6,7) vu in auto)
  then have w3: "wrote u (map (\<lambda>i. (?b i, disk r (L + i + 1))) [0..<n]) w" using w(3) by (simp only:)
  note wf = log_frame [OF wrote_frame [OF w3]]
  have "L \<notin> fst ` set (map (\<lambda>i. (?b i, disk r (L + i + 1))) [0..<n])" using blk log_slots(3) by fastforce
  then have wL: "view w L = disk r L" using w3 vu by (simp add: wrote_def apply_writes_other)
  obtain y where y: "write_head (w\<lparr>lh_n := 0\<rparr>) = Ok y" "cache_ok {} {} y" "wrote (w\<lparr>lh_n := 0\<rparr>) [(L, head_block 0 (lh_block w) (disk r L))] y"
    using write_head_ok [of "{}" "w\<lparr>lh_n := 0\<rparr>"] w(2) wf u(5,6) wL by (auto simp: NBUF_def MAXOPBLOCKS_def)
  have "get_s32 (disk y L) 0 = 0" using y(3) head_block_ok(2) [OF h(3), of 0] by (simp add: wrote_def)
  moreover have "disk y m = apply_writes (map (\<lambda>i. (?b i, disk r (L + i + 1))) [0..<n]) (disk r) m" if "m \<notin> log_area L" for m
  proof -
    have "m \<noteq> L" using that log_slots(3) by blast
    then show ?thesis using y(3) w3 u(3) by (simp add: wrote_def)
  qed
  moreover have "initlog ROOTDEV sb r = Ok y"
    using u(1) w(1) y(1) L
    by (simp add: initlog_def recover_from_log_def LOGHEADER_SIZE_def LOGBLOCKS_def MAXOPBLOCKS_def)
  moreover have "lh_n y = 0" using log_frame(5) [OF wrote_frame [OF y(3)]] by simp
  ultimately show ?thesis using y(2) by blast
qed


section \<open>Crash safety\<close>

lemma commit_prefix:
  assumes "prefix ws (commit_writes n s)"
  defines "L \<equiv> log_start s" and "x \<equiv> \<lambda>i. view s (lh_block s i)"
  defines "A \<equiv> map (\<lambda>i. (L + i + 1, x i)) [0..<n]" and "h \<equiv> head_block n (lh_block s) (view s L)"
    and "I \<equiv> map (\<lambda>i. (lh_block s i, x i)) [0..<n]"
  obtains "prefix ws A" | vs where "ws = A @ (L, h) # vs" "prefix vs I" | "ws = A @ (L, h) # I @ [(L, head_block 0 (lh_block s) h)]"
proof -
  have "prefix ws (A @ (L, h) # I @ [(L, head_block 0 (lh_block s) h)])"
    using assms(1) unfolding commit_writes_def Let_def A_def h_def I_def x_def L_def by simp
  then consider "prefix ws A" | us where "ws = A @ us" "prefix us ((L, h) # I @ [(L, head_block 0 (lh_block s) h)])"
    unfolding prefix_append by blast
  then show thesis
  proof cases
    case 2
    then show thesis using that
      by (cases us) (auto simp: prefix_append prefix_Cons)
  qed (use that in blast)
qed

text \<open>Off the log area, installing the transaction gives what readers of the cache saw.\<close>

lemma installed_view:
  assumes tx: "txn P n s" and m: "m \<notin> lh_block s ` {..<n} \<Longrightarrow> d m = disk s m"
  shows "apply_writes (map (\<lambda>i. (lh_block s i, view s (lh_block s i))) [0..<n]) d m = view s m"
proof (cases "m \<in> lh_block s ` {..<n}")
  case True
  then obtain i where "i < n" "m = lh_block s i" by auto
  then show ?thesis using apply_writes_map [OF txnD(5) [OF tx]] by simp
next
  case False
  have "view s m = disk s m"
    by (rule view_disk [OF txnD(1) [OF tx]]) (use txnD(8) [OF tx] False in auto)
  moreover have "m \<notin> fst ` set (map (\<lambda>i. (lh_block s i, view s (lh_block s i))) [0..<n])" using False by auto
  ultimately show ?thesis using m [OF False] by (simp add: apply_writes_other)
qed

text \<open>Recovery from a disk with an empty header changes nothing off the log area.\<close>

lemma initlog_empty:
  fixes r :: "'z klog_scheme"
  assumes "cache_ok {} {} r" "sb_logstart sb = L" "get_s32 (disk r L) 0 = 0" "length (disk r L) = BSIZE"
  shows "\<exists>r'. initlog ROOTDEV sb r = Ok r' \<and> cache_ok {} {} r' \<and> lh_n r' = 0 \<and> get_s32 (disk r' L) 0 = 0 \<and>
    (\<forall>m. m \<notin> log_area L \<longrightarrow> disk r' m = disk r m)"
  using initlog_ok [OF assms(1,2), of 0] assms(3,4) by simp

lemma crash_before:
  fixes s r :: "'z klog_scheme"
  assumes n: "n \<le> LOGBLOCKS" and hd: "length (disk s L) = BSIZE" "get_s32 (disk s L) 0 = 0"
    and ws: "prefix ws (map (\<lambda>i. (L + i + 1, x i)) [0..<n])" and r: "cache_ok {} {} r" "disk r = apply_writes ws (disk s)"
    and sb: "sb_logstart sb = L"
  shows "\<exists>r'. initlog ROOTDEV sb r = Ok r' \<and> cache_ok {} {} r' \<and> lh_n r' = 0 \<and> get_s32 (disk r' L) 0 = 0 \<and>
    (\<forall>m. m \<notin> log_area L \<longrightarrow> disk r' m = disk s m)"
proof -
  have "fst ` set ws \<subseteq> fst ` set (map (\<lambda>i. (L + i + 1, x i)) [0..<n])" using set_mono_prefix [OF ws] by blast
  then have w: "L \<notin> fst ` set ws" "fst ` set ws \<subseteq> log_area L" using log_slots(1) [OF n] log_slots(2) by blast+
  have "disk r L = disk s L" using w(1) r(2) by (simp add: apply_writes_other)
  moreover have "disk r m = disk s m" if "m \<notin> log_area L" for m
  proof -
    have "m \<notin> fst ` set ws" using that w(2) by blast
    then show ?thesis using r(2) by (simp add: apply_writes_other)
  qed
  ultimately show ?thesis using initlog_empty [OF r(1) sb] hd by auto
qed

lemma crash_between:
  fixes s r :: "'z klog_scheme"
  assumes tx: "txn P n s" and L: "L = log_start s" and x: "x = (\<lambda>i. view s (lh_block s i))" and h: "h = head_block n (lh_block s) (disk s L)"
    and hd: "length (disk s L) = BSIZE"
    and vs: "prefix vs (map (\<lambda>i. (lh_block s i, x i)) [0..<n])" and r: "cache_ok {} {} r"
      "disk r = apply_writes (map (\<lambda>i. (L + i + 1, x i)) [0..<n] @ (L, h) # vs) (disk s)"
    and sb: "sb_logstart sb = L"
  shows "\<exists>r'. initlog ROOTDEV sb r = Ok r' \<and> cache_ok {} {} r' \<and> lh_n r' = 0 \<and> get_s32 (disk r' L) 0 = 0 \<and>
    (\<forall>m. m \<notin> log_area L \<longrightarrow> disk r' m = view s m)"
proof -
  let ?A = "map (\<lambda>i. (L + i + 1, x i)) [0..<n]"
  note t = txnD [OF tx] and n = txn_pins(3) [OF tx]
  have vsub: "fst ` set vs \<subseteq> lh_block s ` {..<n}" using set_mono_prefix [OF vs] by auto
  have off: "m \<notin> fst ` set vs" if "m \<in> log_area L" for m using vsub t(6) that L by fastforce
  have dL: "disk r L = h" using off [OF log_slots(3)] r(2) by (simp add: apply_writes_other)
  note hb = head_block_ok [OF hd n, of "lh_block s", OF t(7), folded h]
  have slot: "disk r (L + i + 1) = x i" if "i < n" for i
  proof -
    have "L + i + 1 \<in> log_area L" using that n by (simp add: log_area_def)
    from off [OF this] show ?thesis using r(2) apply_writes_map [OF log_slots(4) that, of L x "disk s"] by (simp add: apply_writes_other)
  qed
  have maps: "map (\<lambda>i. (get_u32 (disk r L) (4 + 4 * i), disk r (L + i + 1))) [0..<n] = map (\<lambda>i. (lh_block s i, x i)) [0..<n]"
    by (rule map_cong) (use dL hb(3) slot in auto)
  obtain r' where r': "initlog ROOTDEV sb r = Ok r'" "cache_ok {} {} r'" "lh_n r' = 0" "get_s32 (disk r' L) 0 = 0"
    "\<And>m. m \<notin> log_area L \<Longrightarrow> disk r' m = apply_writes (map (\<lambda>i. (lh_block s i, x i)) [0..<n]) (disk r) m"
    using initlog_ok [OF r(1) sb, of n] dL hb n t(6) L unfolding maps by auto
  have "disk r' m = view s m" if m: "m \<notin> log_area L" for m
  proof -
    have "m \<noteq> L" "m \<notin> fst ` set ?A" using m log_slots(3) log_slots(1) [OF n, of L x] by blast+
    moreover have "m \<notin> fst ` set vs" if "m \<notin> lh_block s ` {..<n}" using that vsub by blast
    ultimately have "disk r m = disk s m" if "m \<notin> lh_block s ` {..<n}" using that r(2) by (simp add: apply_writes_other)
    then show ?thesis using r'(5) [OF m] installed_view [OF tx, of m "disk r"] by (simp add: x)
  qed
  then show ?thesis using r' by blast
qed

lemma crash_after:
  fixes s r :: "'z klog_scheme"
  assumes tx: "txn P n s" and L: "L = log_start s" and x: "x = (\<lambda>i. view s (lh_block s i))" and hd: "length h = BSIZE"
    and r: "cache_ok {} {} r"
      "disk r = apply_writes (map (\<lambda>i. (L + i + 1, x i)) [0..<n] @ (L, h) # map (\<lambda>i. (lh_block s i, x i)) [0..<n] @ [(L, head_block 0 (lh_block s) h)]) (disk s)"
    and sb: "sb_logstart sb = L"
  shows "\<exists>r'. initlog ROOTDEV sb r = Ok r' \<and> cache_ok {} {} r' \<and> lh_n r' = 0 \<and> get_s32 (disk r' L) 0 = 0 \<and>
    (\<forall>m. m \<notin> log_area L \<longrightarrow> disk r' m = view s m)"
proof -
  let ?A = "map (\<lambda>i. (L + i + 1, x i)) [0..<n]"
  note n = txn_pins(3) [OF tx] and hb = head_block_ok [OF hd, of 0 "lh_block s", simplified]
  have "disk r m = view s m" if m: "m \<notin> log_area L" for m
  proof -
    have "m \<noteq> L" "m \<notin> fst ` set ?A" using m log_slots(3) log_slots(1) [OF n, of L x] by blast+
    then show ?thesis using r(2) installed_view [OF tx, of m "(apply_writes ?A (disk s))(L := h)"] by (simp add: x apply_writes_other)
  qed
  moreover have "disk r L = head_block 0 (lh_block s) h" using r(2) by simp
  ultimately show ?thesis using initlog_empty [OF r(1) sb] hb by auto
qed


section \<open>Property\<close>

text \<open>C2: Crash safety of the log. Take a transaction of fewer than \<open>NBUF\<close> blocks whose buffers the log has pinned, with an
  empty log header on the disk. Then \<open>commit\<close> returns with every block of the transaction at its home, nothing
  pinned, and an empty transaction. And whatever prefix \<open>ws\<close> of its disk writes has reached the disk when the
  machine stops, \<open>initlog\<close> on that disk returns, with the log emptied and, off the log area, either every block as
  before the transaction or every block as the running system had it; after the last write it is the latter.\<close>

theorem commit_crash_safe:
  fixes s :: "'z klog_scheme"
  assumes tx: "txn P n s" "0 < n" and hd: "length (disk s (log_start s)) = BSIZE" "get_s32 (disk s (log_start s)) 0 = 0"
    and sb: "sb_logstart sb = log_start s"
  shows "\<exists>t W. commit s = Ok t \<and> cache_ok {} {} t \<and> lh_n t = 0 \<and> dwrites t = dwrites s @ W \<and>
    (\<forall>m. m \<notin> log_area (log_start s) \<longrightarrow> disk t m = view s m) \<and>
    (\<forall>ws r :: 'z klog_scheme. prefix ws W \<longrightarrow> cache_ok {} {} r \<longrightarrow> disk r = apply_writes ws (disk s) \<longrightarrow>
      (\<exists>r'. initlog ROOTDEV sb r = Ok r' \<and> cache_ok {} {} r' \<and> lh_n r' = 0 \<and> get_s32 (disk r' (log_start s)) 0 = 0 \<and>
        ((\<forall>m. m \<notin> log_area (log_start s) \<longrightarrow> disk r' m = disk s m) \<and> ws \<noteq> W \<or>
         (\<forall>m. m \<notin> log_area (log_start s) \<longrightarrow> disk r' m = view s m))))"
proof -
  let ?L = "log_start s" and ?x = "\<lambda>i. view s (lh_block s i)" and ?W = "commit_writes n s"
  note n = txn_pins(3) [OF tx(1)]
  obtain t where t: "commit s = Ok t" "cache_ok {} {} t" "wrote (s\<lparr>lh_n := 0\<rparr>) ?W t" using commit_ok [OF tx] by blast
  have vL: "view s ?L = disk s ?L"
    by (rule view_disk [OF txnD(1) [OF tx(1)]]) (use txn_pins(2) [OF tx(1)] log_slots(3) [of ?L] in fastforce)
  have len: "length (head_block n (lh_block s) (disk s ?L)) = BSIZE"
    using head_block_ok(1) [OF hd(1) n] txnD(7) [OF tx(1)] by blast
  have home: "disk t m = view s m" if m: "m \<notin> log_area ?L" for m
  proof -
    have "m \<noteq> ?L" "m \<notin> fst ` set (map (\<lambda>i. (?L + i + 1, ?x i)) [0..<n])" using m log_slots(3) log_slots(1) [OF n, of ?L ?x] by blast+
    then show ?thesis
      using t(3) installed_view [OF tx(1), of m "(apply_writes (map (\<lambda>i. (?L + i + 1, ?x i)) [0..<n]) (disk s))(?L := head_block n (lh_block s) (view s ?L))"]
      by (simp add: wrote_def commit_writes_def Let_def apply_writes_other)
  qed
  have crash: "\<exists>r'. initlog ROOTDEV sb r = Ok r' \<and> cache_ok {} {} r' \<and> lh_n r' = 0 \<and> get_s32 (disk r' ?L) 0 = 0 \<and>
      ((\<forall>m. m \<notin> log_area ?L \<longrightarrow> disk r' m = disk s m) \<and> ws \<noteq> ?W \<or> (\<forall>m. m \<notin> log_area ?L \<longrightarrow> disk r' m = view s m))"
    if ws: "prefix ws ?W" and r: "cache_ok {} {} r" "disk r = apply_writes ws (disk s)" for ws and r :: "'z klog_scheme"
    using ws
  proof (cases rule: commit_prefix)
    case 1
    have "ws \<noteq> ?W" using prefix_length_le [OF 1] by (auto simp: commit_writes_def Let_def)
    then show ?thesis using crash_before [OF n hd 1 r sb] by blast
  next
    case (2 vs)
    show ?thesis using crash_between [OF tx(1) refl refl refl hd(1) 2(2) r(1) _ sb] r(2) 2(1) vL by metis
  next
    case 3
    show ?thesis using crash_after [OF tx(1) refl refl len r(1) _ sb] r(2) 3 vL by metis
  qed
  have "dwrites t = dwrites s @ ?W" "lh_n t = 0" using t(3) log_frame(5) [OF wrote_frame [OF t(3)]] by (simp_all add: wrote_def)
  then show ?thesis using t(1,2) home crash by blast
qed


text \<open>A state with a transaction of block 100, in buffer 0.\<close>

definition lg0 :: klog where
  "lg0 = kbio.extend (ksleep.extend (kglob.extend kg0 (ksleep.fields (\<lambda>_. \<lparr>slocked = False, spid = 0\<rparr>)))
     (kbio.fields (\<lambda>b. if b = 0 then \<lparr>bvalid = True, bdev = ROOTDEV, blockno = 100, refcnt = 1, bdata = replicate 1024 7\<rparr>
         else \<lparr>bvalid = False, bdev = 0, blockno = 0, refcnt = 0, bdata = []\<rparr>)
       [0..<NBUF] (\<lambda>_. replicate 1024 0) []))
     (klog.fields 2 ROOTDEV 0 True 1 (\<lambda>_. 100))"

lemma lg0_sel [simp]:
  "bufs lg0 = (\<lambda>b. if b = 0 then \<lparr>bvalid = True, bdev = ROOTDEV, blockno = 100, refcnt = 1, bdata = replicate 1024 7\<rparr>
         else \<lparr>bvalid = False, bdev = 0, blockno = 0, refcnt = 0, bdata = []\<rparr>)"
  "lru lg0 = [0..<NBUF]" "disk lg0 = (\<lambda>_. replicate 1024 0)" "slk lg0 = (\<lambda>_. \<lparr>slocked = False, spid = 0\<rparr>)"
  "log_start lg0 = 2" "log_dev lg0 = ROOTDEV" "lh_n lg0 = 1" "lh_block lg0 = (\<lambda>_. 100)" "held lg0 = {}" "\<exists>i. mypid lg0 = Ok i"
proof -
  have "held lg0 = held kg0" "cpu_proc lg0 = cpu_proc kg0" by (simp_all add: lg0_def kbio.defs ksleep.defs kglob.defs)
  then show "held lg0 = {}" "\<exists>i. mypid lg0 = Ok i" by (simp_all add: mypid_def myproc_def)
qed (simp_all add: lg0_def kbio.defs ksleep.defs kglob.defs klog.defs)

lemma lg0_txn: "txn {0} 1 lg0"
  by (auto simp: txn_def cache_ok_def path_ok_def lru_ok_def keys_ok_def counts_ok_def copies_ok_def log_area_def
      LOGBLOCKS_def MAXOPBLOCKS_def NBUF_def ROOTDEV_def inj_on_def)

theorem commit_crash_safe_witness:
  "\<exists>t. commit lg0 = Ok t \<and> lh_n t = 0 \<and> disk t 100 = replicate 1024 7"
proof -
  have v: "view lg0 100 = replicate 1024 7"
    using view_cached [OF txnD(1) [OF lg0_txn], of 100 0] by (simp add: caches_def NBUF_def MAXOPBLOCKS_def)
  have "get_s32 (replicate 1024 0) 0 = 0" by (simp add: get_s32_def get_u32_def get_u16_def)
  then show ?thesis
    using commit_crash_safe [OF lg0_txn, of "\<lparr>sb_magic = 0, sb_size = 0, sb_nblocks = 0, sb_ninodes = 0, sb_nlog = 0, sb_logstart = 2, sb_inodestart = 0, sb_bmapstart = 0\<rparr>"] v
    by (auto simp: log_area_def LOGBLOCKS_def MAXOPBLOCKS_def)
qed

end
