(* ===== verification/Fs.thy ===== *)
theory Fs
  imports Log
begin

text \<open>The file system (\<open>kernel/fs.c\<close>, \<open>kernel/fs.h\<close>): the block allocator, inodes and their content, directories and
  path names, on top of the log.

  Inodes are indices of the inode table; the sleep lock of inode \<open>i\<close> is entry \<open>NBUF + i\<close> of the lock table.
  Structures on the disk are read and written as the bytes of their block. \<open>readi\<close> and \<open>writei\<close> get or give kernel
  data in local variables of their callers as byte lists. Unsigned 32-bit arithmetic is on \<open>nat\<close>, with the wrap
  around written out where the code tests for it. Console messages are left out.\<close>

unbundle bit_operations_syntax

section \<open>Model\<close>

definition FSMAGIC :: nat where "FSMAGIC = 0x10203040"
definition ROOTINO :: nat where "ROOTINO = 1"
definition NDIRECT :: nat where "NDIRECT = 12"
definition NINDIRECT :: nat where "NINDIRECT = BSIZE div 4"
definition MAXFILE :: nat where "MAXFILE = NDIRECT + NINDIRECT"
definition DINODE_SIZE :: nat where "DINODE_SIZE = 64"
definition IPB :: nat where "IPB = BSIZE div DINODE_SIZE"
definition BPB :: nat where "BPB = BSIZE * 8"
definition DIRSIZ :: nat where "DIRSIZ = 14"
definition DIRENT_SIZE :: nat where "DIRENT_SIZE = 16"
definition NINODE :: nat where "NINODE = 100"
definition T_DIR :: int where "T_DIR = 1"
definition T_FILE :: int where "T_FILE = 2"
definition T_DEVICE :: int where "T_DEVICE = 3"

definition IBLOCK :: "nat \<Rightarrow> superblock \<Rightarrow> nat" where "IBLOCK i b = i div IPB + sb_inodestart b"
definition BBLOCK :: "nat \<Rightarrow> superblock \<Rightarrow> nat" where "BBLOCK n b = n div BPB + sb_bmapstart b"

record inode =
  idev :: nat
  inum :: nat
  iref :: int
  ivalid :: bool
  itype :: int
  imajor :: int
  iminor :: int
  inlink :: int
  isize :: nat
  iaddrs :: "nat \<Rightarrow> nat"

record kfs = klog +
  sb :: superblock
  inodes :: "nat \<Rightarrow> inode"

definition upd_inode :: "nat \<Rightarrow> (inode \<Rightarrow> inode) \<Rightarrow> 'z kfs_scheme \<Rightarrow> 'z kfs_scheme" where
  "upd_inode ip f s = s\<lparr>inodes := (inodes s)(ip := f (inodes s ip))\<rparr>"

definition ilk :: "nat \<Rightarrow> nat" where
  "ilk ip = NBUF + ip"

definition min_nat :: "nat \<Rightarrow> nat \<Rightarrow> nat" where
  "min_nat a b = (if a < b then a else b)"

definition get_s16 :: "uint8 list \<Rightarrow> nat \<Rightarrow> int" where
  "get_s16 xs k = (let v = int (get_u16 xs k) in if v < 2 ^ 15 then v else v - 2 ^ 16)"

definition put_s16 :: "nat \<Rightarrow> int \<Rightarrow> uint8 list \<Rightarrow> uint8 list" where
  "put_s16 k v = put_u16 k (nat (v mod 2 ^ 16))"

subsection \<open>Super block and block allocator\<close>

definition readsb :: "nat \<Rightarrow> 'z kfs_scheme \<Rightarrow> 'z kfs_scheme res" where
  "readsb dev s =
     bindr (bread dev 1 s) (\<lambda>(bp, s).
     let d = bdata (bufs s bp)
     in brelse bp (s\<lparr>sb := \<lparr>sb_magic = get_u32 d 0, sb_size = get_u32 d 4, sb_nblocks = get_u32 d 8, sb_ninodes = get_u32 d 12,
          sb_nlog = get_u32 d 16, sb_logstart = get_u32 d 20, sb_inodestart = get_u32 d 24, sb_bmapstart = get_u32 d 28\<rparr>\<rparr>))"

definition bzero :: "nat \<Rightarrow> nat \<Rightarrow> 'z kfs_scheme \<Rightarrow> 'z kfs_scheme res" where
  "bzero dev bno s =
     bindr (bread dev bno s) (\<lambda>(bp, s).
     bindr (log_write bp (set_data bp (replicate BSIZE 0) s)) (brelse bp))"

definition bit_clear :: "uint8 list \<Rightarrow> nat \<Rightarrow> bool" where
  "bit_clear d bi \<longleftrightarrow> d ! (bi div 8) AND push_bit (bi mod 8) 1 = 0"

definition set_bitmap :: "nat \<Rightarrow> uint8 list \<Rightarrow> uint8 list" where
  "set_bitmap bi d = d[bi div 8 := d ! (bi div 8) OR push_bit (bi mod 8) 1]"

definition clear_bitmap :: "nat \<Rightarrow> uint8 list \<Rightarrow> uint8 list" where
  "clear_bitmap bi d = d[bi div 8 := d ! (bi div 8) AND NOT (push_bit (bi mod 8) 1)]"

text \<open>The outer loop of \<open>balloc\<close>, over the bitmap blocks; the inner loop is a search in one of them.\<close>

fun balloc_scan :: "nat list \<Rightarrow> nat \<Rightarrow> 'z kfs_scheme \<Rightarrow> (nat \<times> 'z kfs_scheme) res" where
  "balloc_scan [] dev s = Ok (0, s)"
| "balloc_scan (k # ks) dev s =
     (let b = k * BPB
      in bindr (bread dev (BBLOCK b (sb s)) s) (\<lambda>(bp, s).
         case search (\<lambda>bi. bit_clear (bdata (bufs s bp)) bi) 0 (min_nat BPB (sb_size (sb s) - b)) of
           Some bi \<Rightarrow>
             bindr (log_write bp (set_data bp (set_bitmap bi (bdata (bufs s bp))) s)) (\<lambda>s.
             bindr (brelse bp s) (\<lambda>s.
             bindr (bzero dev (b + bi) s) (\<lambda>s. Ok (b + bi, s))))
         | None \<Rightarrow> bindr (brelse bp s) (balloc_scan ks dev)))"

definition balloc :: "nat \<Rightarrow> 'z kfs_scheme \<Rightarrow> (nat \<times> 'z kfs_scheme) res" where
  "balloc dev s = balloc_scan [0..<(sb_size (sb s) + BPB - 1) div BPB] dev s"

definition bfree :: "nat \<Rightarrow> nat \<Rightarrow> 'z kfs_scheme \<Rightarrow> 'z kfs_scheme res" where
  "bfree dev b s =
     bindr (bread dev (BBLOCK b (sb s)) s) (\<lambda>(bp, s).
     let bi = b mod BPB
     in if bit_clear (bdata (bufs s bp)) bi then Panic ''freeing free block''
        else bindr (log_write bp (set_data bp (clear_bitmap bi (bdata (bufs s bp))) s)) (brelse bp))"

subsection \<open>Inodes\<close>

definition iinit :: "'z kfs_scheme \<Rightarrow> 'z kfs_scheme" where
  "iinit s = fold (\<lambda>i. initsleeplock (ilk i)) [0..<NINODE] s"

definition iget :: "nat \<Rightarrow> nat \<Rightarrow> 'z kfs_scheme \<Rightarrow> (nat \<times> 'z kfs_scheme) res" where
  "iget dev i s =
     bindr (acquire ItableLock s) (\<lambda>s.
     case search (\<lambda>ip. iref (inodes s ip) > 0 \<and> idev (inodes s ip) = dev \<and> inum (inodes s ip) = i) 0 NINODE of
       Some ip \<Rightarrow>
         bindr (release ItableLock (upd_inode ip (\<lambda>x. x\<lparr>iref := iref x + 1\<rparr>) s)) (\<lambda>s. Ok (ip, s))
     | None \<Rightarrow>
       (case search (\<lambda>ip. iref (inodes s ip) = 0) 0 NINODE of
          None \<Rightarrow> Panic ''iget: no inodes''
        | Some ip \<Rightarrow>
          bindr (release ItableLock (upd_inode ip (\<lambda>x. x\<lparr>idev := dev, inum := i, iref := 1, ivalid := False\<rparr>) s)) (\<lambda>s. Ok (ip, s))))"

text \<open>The byte offset of a \<open>struct dinode\<close> in its block, and its fields.\<close>

definition dip :: "nat \<Rightarrow> nat" where
  "dip i = DINODE_SIZE * (i mod IPB)"

fun ialloc_scan :: "nat list \<Rightarrow> nat \<Rightarrow> int \<Rightarrow> 'z kfs_scheme \<Rightarrow> (nat option \<times> 'z kfs_scheme) res" where
  "ialloc_scan [] dev type s = Ok (None, s)"
| "ialloc_scan (i # is) dev type s =
     bindr (bread dev (IBLOCK i (sb s)) s) (\<lambda>(bp, s).
     let d = bdata (bufs s bp)
     in if get_s16 d (dip i) = 0 then
          bindr (log_write bp (set_data bp
            (put_s16 (dip i) type (take (dip i) d @ replicate DINODE_SIZE 0 @ drop (dip i + DINODE_SIZE) d)) s)) (\<lambda>s.
          bindr (brelse bp s) (\<lambda>s.
          bindr (iget dev i s) (\<lambda>(ip, s). Ok (Some ip, s))))
        else bindr (brelse bp s) (ialloc_scan is dev type))"

definition ialloc :: "nat \<Rightarrow> int \<Rightarrow> 'z kfs_scheme \<Rightarrow> (nat option \<times> 'z kfs_scheme) res" where
  "ialloc dev type s = ialloc_scan [1..<sb_ninodes (sb s)] dev type s"

definition put_dinode :: "nat \<Rightarrow> inode \<Rightarrow> uint8 list \<Rightarrow> uint8 list" where
  "put_dinode off ip d =
     fold (\<lambda>i. put_u32 (off + 12 + 4 * i) (iaddrs ip i)) [0..<NDIRECT + 1]
       (put_u32 (off + 8) (isize ip) (put_s16 (off + 6) (inlink ip) (put_s16 (off + 4) (iminor ip)
          (put_s16 (off + 2) (imajor ip) (put_s16 off (itype ip) d)))))"

definition get_dinode :: "nat \<Rightarrow> uint8 list \<Rightarrow> inode \<Rightarrow> inode" where
  "get_dinode off d ip =
     ip\<lparr>itype := get_s16 d off, imajor := get_s16 d (off + 2), iminor := get_s16 d (off + 4), inlink := get_s16 d (off + 6),
        isize := get_u32 d (off + 8), iaddrs := (\<lambda>i. if i \<le> NDIRECT then get_u32 d (off + 12 + 4 * i) else iaddrs ip i)\<rparr>"

definition iupdate :: "nat \<Rightarrow> 'z kfs_scheme \<Rightarrow> 'z kfs_scheme res" where
  "iupdate ip s =
     bindr (bread (idev (inodes s ip)) (IBLOCK (inum (inodes s ip)) (sb s)) s) (\<lambda>(bp, s).
     bindr (log_write bp (set_data bp (put_dinode (dip (inum (inodes s ip))) (inodes s ip) (bdata (bufs s bp))) s)) (brelse bp))"

definition idup :: "nat \<Rightarrow> 'z kfs_scheme \<Rightarrow> (nat \<times> 'z kfs_scheme) res" where
  "idup ip s =
     bindr (acquire ItableLock s) (\<lambda>s.
     bindr (release ItableLock (upd_inode ip (\<lambda>x. x\<lparr>iref := iref x + 1\<rparr>) s)) (\<lambda>s. Ok (ip, s)))"

definition ilock :: "nat \<Rightarrow> 'z kfs_scheme \<Rightarrow> 'z kfs_scheme res" where
  "ilock ip s =
     (if iref (inodes s ip) < 1 then Panic ''ilock''
      else
        bindr (lock_now (ilk ip) s) (\<lambda>s.
        if \<not> ivalid (inodes s ip) then
          bindr (bread (idev (inodes s ip)) (IBLOCK (inum (inodes s ip)) (sb s)) s) (\<lambda>(bp, s).
          let s = upd_inode ip (get_dinode (dip (inum (inodes s ip))) (bdata (bufs s bp))) s
          in bindr (brelse bp s) (\<lambda>s.
             let s = upd_inode ip (\<lambda>x. x\<lparr>ivalid := True\<rparr>) s
             in if itype (inodes s ip) = 0 then Panic ''ilock: no type'' else Ok s))
        else Ok s))"

definition iunlock :: "nat \<Rightarrow> 'z kfs_scheme \<Rightarrow> 'z kfs_scheme res" where
  "iunlock ip s =
     bindr (holdingsleep (ilk ip) s) (\<lambda>(h, s).
     if \<not> h \<or> iref (inodes s ip) < 1 then Panic ''iunlock'' else releasesleep (ilk ip) s)"

subsection \<open>Inode content\<close>

text \<open>\<open>bmap\<close> returns block 0 when there is no block left.\<close>

definition bmap :: "nat \<Rightarrow> nat \<Rightarrow> 'z kfs_scheme \<Rightarrow> (nat \<times> 'z kfs_scheme) res" where
  "bmap ip bn s =
     (if bn < NDIRECT then
        let addr = iaddrs (inodes s ip) bn
        in if addr = 0 then
             bindr (balloc (idev (inodes s ip)) s) (\<lambda>(addr, s).
             if addr = 0 then Ok (0, s)
             else Ok (addr, upd_inode ip (\<lambda>x. x\<lparr>iaddrs := (iaddrs x)(bn := addr)\<rparr>) s))
           else Ok (addr, s)
      else
        let bn = bn - NDIRECT
        in if bn < NINDIRECT then
             bindr (let addr = iaddrs (inodes s ip) NDIRECT
                    in if addr = 0 then
                         bindr (balloc (idev (inodes s ip)) s) (\<lambda>(addr, s).
                         if addr = 0 then Ok (0, s)
                         else Ok (addr, upd_inode ip (\<lambda>x. x\<lparr>iaddrs := (iaddrs x)(NDIRECT := addr)\<rparr>) s))
                       else Ok (addr, s)) (\<lambda>(addr, s).
             if addr = 0 then Ok (0, s)
             else
               bindr (bread (idev (inodes s ip)) addr s) (\<lambda>(bp, s).
               let addr = get_u32 (bdata (bufs s bp)) (4 * bn)
               in if addr = 0 then
                    bindr (balloc (idev (inodes s ip)) s) (\<lambda>(addr, s).
                    bindr (if addr \<noteq> 0 then log_write bp (set_data bp (put_u32 (4 * bn) addr (bdata (bufs s bp))) s)
                           else Ok s) (\<lambda>s.
                    bindr (brelse bp s) (\<lambda>s. Ok (addr, s))))
                  else bindr (brelse bp s) (\<lambda>s. Ok (addr, s))))
           else Panic ''bmap: out of range'')"

definition itrunc :: "nat \<Rightarrow> 'z kfs_scheme \<Rightarrow> 'z kfs_scheme res" where
  "itrunc ip s =
     bindr (loop_res (\<lambda>i s.
       if iaddrs (inodes s ip) i \<noteq> 0 then
         bindr (bfree (idev (inodes s ip)) (iaddrs (inodes s ip) i) s) (\<lambda>s.
         Ok (upd_inode ip (\<lambda>x. x\<lparr>iaddrs := (iaddrs x)(i := 0)\<rparr>) s))
       else Ok s) [0..<NDIRECT] s) (\<lambda>s.
     bindr (if iaddrs (inodes s ip) NDIRECT \<noteq> 0 then
         bindr (bread (idev (inodes s ip)) (iaddrs (inodes s ip) NDIRECT) s) (\<lambda>(bp, s).
         bindr (loop_res (\<lambda>j s.
           let a = get_u32 (bdata (bufs s bp)) (4 * j)
           in if a \<noteq> 0 then bfree (idev (inodes s ip)) a s else Ok s) [0..<NINDIRECT] s) (\<lambda>s.
         bindr (brelse bp s) (\<lambda>s.
         bindr (bfree (idev (inodes s ip)) (iaddrs (inodes s ip) NDIRECT) s) (\<lambda>s.
         Ok (upd_inode ip (\<lambda>x. x\<lparr>iaddrs := (iaddrs x)(NDIRECT := 0)\<rparr>) s)))))
       else Ok s) (\<lambda>s.
     iupdate ip (upd_inode ip (\<lambda>x. x\<lparr>isize := 0\<rparr>) s)))"

definition iput :: "nat \<Rightarrow> 'z kfs_scheme \<Rightarrow> 'z kfs_scheme res" where
  "iput ip s =
     bindr (acquire ItableLock s) (\<lambda>s.
     bindr (if iref (inodes s ip) = 1 \<and> ivalid (inodes s ip) \<and> inlink (inodes s ip) = 0 then
         bindr (lock_now (ilk ip) s) (\<lambda>s.
         bindr (release ItableLock s) (\<lambda>s.
         bindr (itrunc ip s) (\<lambda>s.
         bindr (iupdate ip (upd_inode ip (\<lambda>x. x\<lparr>itype := 0\<rparr>) s)) (\<lambda>s.
         bindr (releasesleep (ilk ip) (upd_inode ip (\<lambda>x. x\<lparr>ivalid := False\<rparr>) s)) (acquire ItableLock)))))
       else Ok s) (\<lambda>s.
     release ItableLock (upd_inode ip (\<lambda>x. x\<lparr>iref := iref x - 1\<rparr>) s)))"

definition iunlockput :: "nat \<Rightarrow> 'z kfs_scheme \<Rightarrow> 'z kfs_scheme res" where
  "iunlockput ip s = bindr (iunlock ip s) (iput ip)"

definition ireclaim :: "nat \<Rightarrow> 'z kfs_scheme \<Rightarrow> 'z kfs_scheme res" where
  "ireclaim dev s =
     loop_res (\<lambda>i s.
       bindr (bread dev (IBLOCK i (sb s)) s) (\<lambda>(bp, s).
       let d = bdata (bufs s bp)
       in bindr (if get_s16 d (dip i) \<noteq> 0 \<and> get_s16 d (dip i + 6) = 0
                 then bindr (iget dev i s) (\<lambda>(ip, s). Ok (Some ip, s)) else Ok (None, s)) (\<lambda>(ip, s).
          bindr (brelse bp s) (\<lambda>s.
          case ip of
            None \<Rightarrow> Ok s
          | Some ip \<Rightarrow>
            bindr (begin_op s) (\<lambda>s.
            bindr (ilock ip s) (\<lambda>s.
            bindr (iunlock ip s) (\<lambda>s.
            bindr (iput ip s) end_op)))))))
     [1..<sb_ninodes (sb s)] s"

definition fsinit :: "nat \<Rightarrow> 'z kfs_scheme \<Rightarrow> 'z kfs_scheme res" where
  "fsinit dev s =
     bindr (readsb dev s) (\<lambda>s.
     if sb_magic (sb s) \<noteq> FSMAGIC then Panic ''invalid file system''
     else bindr (initlog dev (sb s) s) (ireclaim dev))"

record fstat =
  st_dev :: nat
  st_ino :: nat
  st_type :: int
  st_nlink :: int
  st_size :: nat

definition stati :: "inode \<Rightarrow> fstat" where
  "stati ip = \<lparr>st_dev = idev ip, st_ino = inum ip, st_type = itype ip, st_nlink = inlink ip, st_size = isize ip\<rparr>"

text \<open>Where \<open>readi\<close> puts its bytes and \<open>writei\<close> gets them: a user address, a kernel address, or a variable of the
  caller.\<close>

datatype dest = ToUser uint64 | ToKernel uint64 | ToLocal
datatype source = FromUser uint64 | FromKernel uint64 | FromLocal "uint8 list"

fun copy_to :: "dest \<Rightarrow> uint8 list \<Rightarrow> 'z kfs_scheme \<Rightarrow> (int \<times> 'z kfs_scheme) res" where
  "copy_to (ToUser a) xs s = either_copyout True a xs s"
| "copy_to (ToKernel a) xs s = either_copyout False a xs s"
| "copy_to ToLocal xs s = Ok (0, s)"

fun dest_add :: "dest \<Rightarrow> nat \<Rightarrow> dest" where
  "dest_add (ToUser a) m = ToUser (a + of_nat m)"
| "dest_add (ToKernel a) m = ToKernel (a + of_nat m)"
| "dest_add ToLocal m = ToLocal"

fun copy_from :: "source \<Rightarrow> nat \<Rightarrow> 'z kfs_scheme \<Rightarrow> (int \<times> uint8 list \<times> 'z kfs_scheme) res" where
  "copy_from (FromUser a) m s = either_copyin True a m s"
| "copy_from (FromKernel a) m s = either_copyin False a m s"
| "copy_from (FromLocal xs) m s = Ok (0, take m xs, s)"

fun source_add :: "source \<Rightarrow> nat \<Rightarrow> source" where
  "source_add (FromUser a) m = FromUser (a + of_nat m)"
| "source_add (FromKernel a) m = FromKernel (a + of_nat m)"
| "source_add (FromLocal xs) m = FromLocal (drop m xs)"

definition piece :: "nat \<Rightarrow> nat \<Rightarrow> nat" where
  "piece n off = min_nat n (BSIZE - off mod BSIZE)"

lemma piece_pos [simp]: "0 < piece n off \<longleftrightarrow> 0 < n"
  using mod_less_divisor [of BSIZE off] by (auto simp: piece_def min_nat_def)

lemma piece_less: "tot < n \<Longrightarrow> n - (tot + piece (n - tot) off) < n - tot"
  using piece_pos [of "n - tot" off] by linarith

function readi_loop ::
  "nat \<Rightarrow> dest \<Rightarrow> nat \<Rightarrow> nat \<Rightarrow> nat \<Rightarrow> uint8 list \<Rightarrow> 'z kfs_scheme \<Rightarrow> (int \<times> uint8 list \<times> 'z kfs_scheme) res" where
  "readi_loop ip dst off tot n got s =
     (if tot < n then
        bindr (bmap ip (off div BSIZE) s) (\<lambda>(addr, s).
        if addr = 0 then Ok (int tot, got, s)
        else
          bindr (bread (idev (inodes s ip)) addr s) (\<lambda>(bp, s).
          let m = piece (n - tot) off;
              xs = take m (drop (off mod BSIZE) (bdata (bufs s bp)))
          in bindr (copy_to dst xs s) (\<lambda>(r, s).
             bindr (brelse bp s) (\<lambda>s.
             if r = -1 then Ok (-1, got, s)
             else readi_loop ip (dest_add dst m) (off + m) (tot + m) n (got @ xs) s))))
      else Ok (int tot, got, s))"
  by auto

termination readi_loop
  by (relation "measure (\<lambda>(_, _, _, tot, n, _). n - tot)") (auto intro: piece_less)

declare readi_loop.simps [simp del]

definition readi :: "nat \<Rightarrow> dest \<Rightarrow> nat \<Rightarrow> nat \<Rightarrow> 'z kfs_scheme \<Rightarrow> (int \<times> uint8 list \<times> 'z kfs_scheme) res" where
  "readi ip dst off n s =
     (if off > isize (inodes s ip) \<or> (off + n) mod 2 ^ 32 < off then Ok (0, [], s)
      else
        let n = (if (off + n) mod 2 ^ 32 > isize (inodes s ip) then isize (inodes s ip) - off else n)
        in readi_loop ip dst off 0 n [] s)"

function writei_loop ::
  "nat \<Rightarrow> source \<Rightarrow> nat \<Rightarrow> nat \<Rightarrow> nat \<Rightarrow> 'z kfs_scheme \<Rightarrow> (nat \<times> nat \<times> 'z kfs_scheme) res" where
  "writei_loop ip src off tot n s =
     (if tot < n then
        bindr (bmap ip (off div BSIZE) s) (\<lambda>(addr, s).
        if addr = 0 then Ok (tot, off, s)
        else
          bindr (bread (idev (inodes s ip)) addr s) (\<lambda>(bp, s).
          let m = piece (n - tot) off
          in bindr (copy_from src m s) (\<lambda>(r, xs, s).
             let d = bdata (bufs s bp);
                 s = set_data bp (take (off mod BSIZE) d @ xs @ drop (off mod BSIZE + length xs) d) s
             in if r = -1 then bindr (brelse bp s) (\<lambda>s. Ok (tot, off, s))
                else bindr (log_write bp s) (\<lambda>s.
                     bindr (brelse bp s) (writei_loop ip (source_add src m) (off + m) (tot + m) n)))))
      else Ok (tot, off, s))"
  by auto

termination writei_loop
  by (relation "measure (\<lambda>(_, _, _, tot, n, _). n - tot)") (auto intro: piece_less)

declare writei_loop.simps [simp del]

definition writei :: "nat \<Rightarrow> source \<Rightarrow> nat \<Rightarrow> nat \<Rightarrow> 'z kfs_scheme \<Rightarrow> (int \<times> 'z kfs_scheme) res" where
  "writei ip src off n s =
     (if off > isize (inodes s ip) \<or> (off + n) mod 2 ^ 32 < off then Ok (-1, s)
      else if (off + n) mod 2 ^ 32 > MAXFILE * BSIZE then Ok (-1, s)
      else
        bindr (writei_loop ip src off 0 n s) (\<lambda>(tot, off, s).
        bindr (iupdate ip (if off > isize (inodes s ip) then upd_inode ip (\<lambda>x. x\<lparr>isize := off\<rparr>) s else s)) (\<lambda>s.
        Ok (int tot, s))))"

subsection \<open>Directories\<close>

text \<open>C strings are the bytes before their end, so that a list ends where the null byte is.\<close>

fun strncmp_list :: "nat \<Rightarrow> uint8 list \<Rightarrow> uint8 list \<Rightarrow> int" where
  "strncmp_list 0 p q = 0"
| "strncmp_list (Suc n) p q =
     (let c = (case p of [] \<Rightarrow> 0 | x # _ \<Rightarrow> x); d = (case q of [] \<Rightarrow> 0 | x # _ \<Rightarrow> x)
      in if c \<noteq> 0 \<and> c = d then strncmp_list n (tl p) (tl q) else uint c - uint d)"

definition namecmp :: "uint8 list \<Rightarrow> uint8 list \<Rightarrow> int" where
  "namecmp p q = strncmp_list DIRSIZ p q"

definition de_inum :: "uint8 list \<Rightarrow> nat" where "de_inum de = get_u16 de 0"
definition de_name :: "uint8 list \<Rightarrow> uint8 list" where "de_name de = take DIRSIZ (drop 2 de)"

definition dirent :: "nat \<Rightarrow> uint8 list \<Rightarrow> uint8 list" where
  "dirent i name = put_u16 0 (i mod 2 ^ 16) (replicate 2 0 @ take DIRSIZ (name @ replicate DIRSIZ 0))"

text \<open>The offset of the first entry of a directory that \<open>P\<close> accepts: both directory loops.\<close>

function dir_scan ::
  "(uint8 list \<Rightarrow> bool) \<Rightarrow> string \<Rightarrow> nat \<Rightarrow> nat \<Rightarrow> nat \<Rightarrow> 'z kfs_scheme \<Rightarrow> ((nat \<times> uint8 list) option \<times> nat \<times> 'z kfs_scheme) res" where
  "dir_scan P msg dp off n s =
     (if off < n then
        bindr (readi dp ToLocal off DIRENT_SIZE s) (\<lambda>(r, de, s).
        if r \<noteq> int DIRENT_SIZE then Panic msg
        else if P de then Ok (Some (off, de), off, s)
        else dir_scan P msg dp (off + DIRENT_SIZE) n s)
      else Ok (None, off, s))"
  by auto

termination dir_scan
  by (relation "measure (\<lambda>(_, _, _, off, n, _). n - off)") (auto simp: DIRENT_SIZE_def)

declare dir_scan.simps [simp del]

definition dirlookup :: "nat \<Rightarrow> uint8 list \<Rightarrow> 'z kfs_scheme \<Rightarrow> ((nat \<times> nat) option \<times> 'z kfs_scheme) res" where
  "dirlookup dp name s =
     (if itype (inodes s dp) \<noteq> T_DIR then Panic ''dirlookup not DIR''
      else
        bindr (dir_scan (\<lambda>de. de_inum de \<noteq> 0 \<and> namecmp name (de_name de) = 0) ''dirlookup read'' dp 0 (isize (inodes s dp)) s) (\<lambda>(r, off, s).
        case r of
          None \<Rightarrow> Ok (None, s)
        | Some (off, de) \<Rightarrow> bindr (iget (idev (inodes s dp)) (de_inum de) s) (\<lambda>(ip, s). Ok (Some (ip, off), s))))"

definition dirlink :: "nat \<Rightarrow> uint8 list \<Rightarrow> nat \<Rightarrow> 'z kfs_scheme \<Rightarrow> (int \<times> 'z kfs_scheme) res" where
  "dirlink dp name i s =
     bindr (dirlookup dp name s) (\<lambda>(r, s).
     case r of
       Some (ip, _) \<Rightarrow> bindr (iput ip s) (\<lambda>s. Ok (-1, s))
     | None \<Rightarrow>
       bindr (dir_scan (\<lambda>de. de_inum de = 0) ''dirlink read'' dp 0 (isize (inodes s dp)) s) (\<lambda>(_, off, s).
       bindr (writei dp (FromLocal (dirent i name)) off DIRENT_SIZE s) (\<lambda>(w, s).
       if w \<noteq> int DIRENT_SIZE then Ok (-1, s) else Ok (0, s))))"

subsection \<open>Paths\<close>

definition SLASH :: uint8 where "SLASH = 47"

text \<open>The rest of the path and the element that was removed from it.\<close>

definition skipelem :: "uint8 list \<Rightarrow> (uint8 list \<times> uint8 list) option" where
  "skipelem path =
     (let path = dropWhile (\<lambda>c. c = SLASH) path
      in if path = [] then None
         else
           let e = takeWhile (\<lambda>c. c \<noteq> SLASH) path;
               path = dropWhile (\<lambda>c. c \<noteq> SLASH) path
           in Some (dropWhile (\<lambda>c. c = SLASH) path, if length e \<ge> DIRSIZ then take DIRSIZ e else e))"

lemma skipelem_shorter:
  assumes "skipelem path = Some (rest, name)"
  shows "length rest < length path"
proof -
  define p where "p = dropWhile (\<lambda>c. c = SLASH) path"
  have p: "p \<noteq> []" and rest: "rest = dropWhile (\<lambda>c. c = SLASH) (dropWhile (\<lambda>c. c \<noteq> SLASH) p)"
    using assms by (auto simp: skipelem_def p_def Let_def split: if_splits)
  have "hd p \<noteq> SLASH" using p hd_dropWhile [of "\<lambda>c. c = SLASH" path] by (simp add: p_def)
  with p have "dropWhile (\<lambda>c. c \<noteq> SLASH) p = dropWhile (\<lambda>c. c \<noteq> SLASH) (tl p)" by (cases p) auto
  then have "length rest \<le> length (tl p)"
    unfolding rest by (metis length_dropWhile_le le_trans)
  also have "\<dots> < length p" using p by (cases p) auto
  also have "\<dots> \<le> length path" by (simp add: p_def length_dropWhile_le)
  finally show ?thesis .
qed

function namex_loop :: "nat \<Rightarrow> uint8 list \<Rightarrow> bool \<Rightarrow> uint8 list \<Rightarrow> 'z kfs_scheme \<Rightarrow> ((nat \<times> uint8 list) option \<times> 'z kfs_scheme) res" where
  "namex_loop ip path nameiparent name s =
     (case skipelem path of
        Some (path, name) \<Rightarrow>
          bindr (ilock ip s) (\<lambda>s.
          if itype (inodes s ip) \<noteq> T_DIR then bindr (iunlockput ip s) (\<lambda>s. Ok (None, s))
          else if nameiparent \<and> path = [] then bindr (iunlock ip s) (\<lambda>s. Ok (Some (ip, name), s))
          else
            bindr (dirlookup ip name s) (\<lambda>(r, s).
            bindr (iunlockput ip s) (\<lambda>s.
            case r of
              None \<Rightarrow> Ok (None, s)
            | Some (ip, _) \<Rightarrow> namex_loop ip path nameiparent name s)))
      | None \<Rightarrow>
          if nameiparent then bindr (iput ip s) (\<lambda>s. Ok (None, s)) else Ok (Some (ip, name), s))"
  by auto

termination namex_loop
  by (relation "measure (\<lambda>(_, path, _). length path)") (auto dest: skipelem_shorter)

declare namex_loop.simps [simp del]

definition namex :: "uint8 list \<Rightarrow> bool \<Rightarrow> 'z kfs_scheme \<Rightarrow> ((nat \<times> uint8 list) option \<times> 'z kfs_scheme) res" where
  "namex path nameiparent s =
     bindr (if path \<noteq> [] \<and> hd path = SLASH then iget ROOTDEV ROOTINO s
            else case myproc s of
              None \<Rightarrow> Panic ''kerneltrap''
            | Some p \<Rightarrow> (case cwd (procs s p) of None \<Rightarrow> Panic ''kerneltrap'' | Some ip \<Rightarrow> idup ip s)) (\<lambda>(ip, s).
     namex_loop ip path nameiparent [] s)"

definition namei :: "uint8 list \<Rightarrow> 'z kfs_scheme \<Rightarrow> (nat option \<times> 'z kfs_scheme) res" where
  "namei path s = bindr (namex path False s) (\<lambda>(r, s). Ok (map_option fst r, s))"

definition nameiparent :: "uint8 list \<Rightarrow> 'z kfs_scheme \<Rightarrow> ((nat \<times> uint8 list) option \<times> 'z kfs_scheme) res" where
  "nameiparent path s = namex path True s"

end
