(* ===== verification/Printf.thy ===== *)
theory Printf
  imports Xv6_Prelude
begin

text \<open>Formatted output: the kernel's \<open>printf\<close> (\<open>kernel/printf.c\<close>), the user library's \<open>vprintf\<close> (\<open>user/printf.c\<close>), and
  \<open>atoi\<close> (\<open>user/ulib.c\<close>), which reads back what they print.

  Text is a \<open>string\<close>; the variable arguments are a list of 64-bit registers and strings. A format that asks for an argument
  that is not there, or of the other kind, is undefined in C, and \<open>None\<close> here.\<close>

unbundle bit_operations_syntax

section \<open>Model\<close>

text \<open>The two versions differ in the digits and in how a character is sent.\<close>

definition kernel_digits :: string where "kernel_digits = ''0123456789abcdef''"
definition user_digits :: string where "user_digits = ''0123456789ABCDEF''"

text \<open>The \<open>do ... while\<close> loop: the digits of \<open>x\<close>, lowest first. The base is 10 or 16.\<close>

function digit_loop :: "string \<Rightarrow> nat \<Rightarrow> nat \<Rightarrow> string" where
  "digit_loop ds base x = ds ! (x mod base) # (if 1 < base \<and> x div base \<noteq> 0 then digit_loop ds base (x div base) else [])"
  by auto

termination digit_loop
  by (relation "measure (\<lambda>(_, _, x). x)") (auto intro!: div_less_dividend simp: div_greater_zero_iff)

declare digit_loop.simps [simp del]

definition int_buf :: "string \<Rightarrow> uint64 \<Rightarrow> nat \<Rightarrow> bool \<Rightarrow> string" where
  "int_buf ds xx base sign =
     (let neg = (sign \<and> sint xx < 0);
          x = (if neg then - xx else xx)
      in digit_loop ds base (unat x) @ (if neg then ''-'' else []))"

definition printint :: "string \<Rightarrow> uint64 \<Rightarrow> nat \<Rightarrow> bool \<Rightarrow> string" where
  "printint ds xx base sign = rev (int_buf ds xx base sign)"

definition printptr :: "string \<Rightarrow> uint64 \<Rightarrow> string" where
  "printptr ds x = ''0x'' @ map (\<lambda>i. ds ! unat (drop_bit 60 (push_bit (4 * i) x))) [0..<16]"

text \<open>The conversion after a per cent sign, and how many characters of the format it takes.\<close>

datatype conv = ConvInt bool nat bool | ConvPtr | ConvChar | ConvStr | ConvPercent | ConvEnd | ConvUnknown char

definition char_at :: "string \<Rightarrow> nat \<Rightarrow> char" where
  "char_at f i = (if i < length f then f ! i else CHR 0x00)"

definition conversion :: "string \<Rightarrow> conv \<times> nat" where
  "conversion f =
     (let c0 = char_at f 0;
          c1 = (if c0 \<noteq> CHR 0x00 then char_at f 1 else CHR 0x00);
          c2 = (if c1 \<noteq> CHR 0x00 then char_at f 2 else CHR 0x00)
      in if c0 = CHR ''d'' then (ConvInt False 10 True, 1)
         else if c0 = CHR ''l'' \<and> c1 = CHR ''d'' then (ConvInt True 10 True, 2)
         else if c0 = CHR ''l'' \<and> c1 = CHR ''l'' \<and> c2 = CHR ''d'' then (ConvInt True 10 True, 3)
         else if c0 = CHR ''u'' then (ConvInt False 10 False, 1)
         else if c0 = CHR ''l'' \<and> c1 = CHR ''u'' then (ConvInt True 10 False, 2)
         else if c0 = CHR ''l'' \<and> c1 = CHR ''l'' \<and> c2 = CHR ''u'' then (ConvInt True 10 False, 3)
         else if c0 = CHR ''x'' then (ConvInt False 16 False, 1)
         else if c0 = CHR ''l'' \<and> c1 = CHR ''x'' then (ConvInt True 16 False, 2)
         else if c0 = CHR ''l'' \<and> c1 = CHR ''l'' \<and> c2 = CHR ''x'' then (ConvInt True 16 False, 3)
         else if c0 = CHR ''p'' then (ConvPtr, 1)
         else if c0 = CHR ''c'' then (ConvChar, 1)
         else if c0 = CHR ''s'' then (ConvStr, 1)
         else if c0 = CHR ''%'' then (ConvPercent, 1)
         else if c0 = CHR 0x00 then (ConvEnd, 0)
         else (ConvUnknown c0, 1))"

datatype arg = Num uint64 | Str "string option"

text \<open>\<open>va_arg\<close> of an \<open>int\<close>, an unsigned \<open>int\<close> and a 64-bit value.\<close>

definition int_arg :: "bool \<Rightarrow> bool \<Rightarrow> uint64 \<Rightarrow> uint64" where
  "int_arg long sign v = (if long then v else if sign then signed_take_bit 31 v else take_bit 32 v)"

definition c_text :: "string \<Rightarrow> string" where
  "c_text t = takeWhile (\<lambda>c. c \<noteq> CHR 0x00) t"

fun emit :: "string \<Rightarrow> (nat \<Rightarrow> string) \<Rightarrow> conv \<Rightarrow> arg list \<Rightarrow> (string \<times> arg list) option" where
  "emit ds putc (ConvInt long base sign) (Num v # args) = Some (printint ds (int_arg long sign v) base sign, args)"
| "emit ds putc ConvPtr (Num v # args) = Some (printptr ds v, args)"
| "emit ds putc ConvChar (Num v # args) = Some (putc (unat (take_bit 32 v)), args)"
| "emit ds putc ConvStr (Str t # args) = Some (case t of None \<Rightarrow> ''(null)'' | Some t \<Rightarrow> c_text t, args)"
| "emit ds putc ConvPercent args = Some (''%'', args)"
| "emit ds putc (ConvUnknown c) args = Some ([CHR ''%'', c], args)"
| "emit ds putc _ args = None"

function format_loop :: "string \<Rightarrow> (nat \<Rightarrow> string) \<Rightarrow> string \<Rightarrow> arg list \<Rightarrow> string option" where
  "format_loop ds putc [] args = Some []"
| "format_loop ds putc (cx # f) args =
     (if cx = CHR 0x00 then Some []
      else if cx \<noteq> CHR ''%'' then map_option (\<lambda>out. cx # out) (format_loop ds putc f args)
      else
        let (cv, k) = conversion f
        in if cv = ConvEnd then Some []
           else case emit ds putc cv args of
             None \<Rightarrow> None
           | Some (out, args) \<Rightarrow> map_option (\<lambda>rest. out @ rest) (format_loop ds putc (drop k f) args))"
  by pat_completeness auto

termination format_loop
  by (relation "measure (\<lambda>(_, _, f, _). length f)") auto

text \<open>\<open>consputc\<close>: \<open>BACKSPACE\<close> erases the last character.\<close>

definition BACKSPACE :: nat where "BACKSPACE = 0x100"

definition consputc_text :: "nat \<Rightarrow> string" where
  "consputc_text c = (if c = BACKSPACE then [CHR 0x08, CHR '' '', CHR 0x08] else [char_of c])"

definition kernel_printf :: "string \<Rightarrow> arg list \<Rightarrow> string option" where
  "kernel_printf fmt args = format_loop kernel_digits consputc_text fmt args"

definition vprintf :: "string \<Rightarrow> arg list \<Rightarrow> string option" where
  "vprintf fmt args = format_loop user_digits (\<lambda>c. [char_of c]) fmt args"

text \<open>\<open>atoi\<close>, with the 32-bit wrap around of \<open>int\<close>.\<close>

definition wrap32 :: "int \<Rightarrow> int" where
  "wrap32 n = (n + 2 ^ 31) mod 2 ^ 32 - 2 ^ 31"

fun atoi_loop :: "string \<Rightarrow> int \<Rightarrow> int" where
  "atoi_loop [] n = n"
| "atoi_loop (c # t) n =
     (if 48 \<le> (of_char c :: int) \<and> (of_char c :: int) \<le> 57 then atoi_loop t (wrap32 (n * 10 + of_char c - 48)) else n)"

definition atoi :: "string \<Rightarrow> int" where
  "atoi t = atoi_loop t 0"

section \<open>Numbers\<close>

lemma digit_loop_length: "1 < base \<Longrightarrow> x < base ^ k \<Longrightarrow> 0 < k \<Longrightarrow> length (digit_loop ds base x) \<le> k"
proof (induction k arbitrary: x)
  case (Suc k)
  show ?case
  proof (cases "x div base = 0")
    case True
    then show ?thesis by (subst digit_loop.simps) simp
  next
    case False
    have "x div base < base ^ k" using Suc.prems by (simp add: less_mult_imp_div_less mult.commute)
    moreover have "0 < k" using False calculation by (intro gr0I) simp
    ultimately have "length (digit_loop ds base (x div base)) \<le> k" using Suc.IH Suc.prems(1) by blast
    then show ?thesis using False Suc.prems(1) by (subst digit_loop.simps) simp
  qed
qed simp

text \<open>The value of a text of digits, lowest first.\<close>

definition digits_value :: "string \<Rightarrow> nat \<Rightarrow> string \<Rightarrow> nat" where
  "digits_value ds base t = foldr (\<lambda>c v. length (takeWhile (\<lambda>d. d \<noteq> c) ds) + base * v) t 0"

lemma digit_index: "distinct ds \<Longrightarrow> i < length ds \<Longrightarrow> length (takeWhile (\<lambda>d. d \<noteq> ds ! i) ds) = i"
  by (induction ds arbitrary: i) (auto simp: nth_Cons split: nat.split)

lemma digit_loop_value:
  assumes "distinct ds" "base \<le> length ds" "1 < base"
  shows "digits_value ds base (digit_loop ds base x) = x"
proof (induction x rule: less_induct)
  case (less x)
  have "x mod base < base" using assms(3) by simp
  then have d: "length (takeWhile (\<lambda>c. c \<noteq> ds ! (x mod base)) ds) = x mod base"
    using assms(1,2) by (intro digit_index) linarith+
  show ?case
  proof (cases "x div base = 0")
    case True
    then show ?thesis using d assms(3) by (subst digit_loop.simps) (simp add: digits_value_def div_eq_0_iff)
  next
    case False
    then have "0 < x" by (intro gr0I) simp
    then have "x div base < x" using assms(3) by (intro div_less_dividend) auto
    from less [OF this] show ?thesis
      using d False assms(3) by (subst digit_loop.simps) (simp add: digits_value_def)
  qed
qed

lemma kernel_digits_simps [simp]: "distinct kernel_digits" "length kernel_digits = 16" "distinct user_digits" "length user_digits = 16"
  by (simp_all add: kernel_digits_def user_digits_def)

text \<open>Both print buffers have 20 bytes, which is enough.\<close>

lemma uint_minus_neg:
  fixes x :: uint64
  assumes "sint x < 0"
  shows "unat (- x) \<le> 2 ^ 63" "int (unat (- x)) = - sint x"
proof -
  have n: "\<not> uint x < 2 ^ 63"
  proof
    assume "uint x < 2 ^ 63"
    then have "signed_take_bit 63 (uint x) = uint x"
      by (intro signed_take_bit_int_eq_self) (use unsigned_greater_eq [of x, where ?'a = int] in linarith)+
    then show False using assms unsigned_greater_eq [of x, where ?'a = int] by (simp add: sint_uint)
  qed
  have l: "uint x < 2 ^ 64" using unsigned_less [of x, where ?'a = int] by simp
  have "uint (- x) = (- uint x) mod 2 ^ 64" by (simp add: uint_word_ariths)
  also have "\<dots> = (- uint x + 2 ^ 64) mod 2 ^ 64" by (rule mod_add_self2 [symmetric])
  also have "\<dots> = - uint x + 2 ^ 64" by (intro mod_pos_pos_trivial) (use l n in simp_all)
  finally have e: "uint (- x) = 2 ^ 64 - uint x" by linarith
  then have "int (unat (- x)) \<le> 2 ^ 63" using n unfolding uint_nat [of "- x", symmetric] by simp
  then show "unat (- x) \<le> 2 ^ 63" by (metis of_nat_le_iff of_nat_numeral of_nat_power)
  have "sint x = (uint x + 2 ^ 63) mod 2 ^ 64 - 2 ^ 63" by (simp add: sint_uint signed_take_bit_eq_take_bit_shift take_bit_eq_mod add.commute)
  also have "(uint x + 2 ^ 63) mod 2 ^ 64 = (uint x - 2 ^ 63 + 2 ^ 64) mod 2 ^ 64" by (simp add: add.commute)
  also have "\<dots> = (uint x - 2 ^ 63) mod 2 ^ 64" by (rule mod_add_self2)
  also have "\<dots> = uint x - 2 ^ 63" by (intro mod_pos_pos_trivial) (use l n in simp_all)
  finally show "int (unat (- x)) = - sint x" using e unfolding uint_nat [of "- x", symmetric] by simp
qed

lemma int_buf_fits:
  assumes "base = 10 \<or> base = 16"
  shows "length (int_buf ds xx base sign) \<le> 20"
proof (cases "sign \<and> sint xx < 0")
  case True
  then have "unat (- xx) < base ^ 19" using uint_minus_neg(1) [of xx] assms by (auto intro: order.strict_trans1)
  then show ?thesis using digit_loop_length [of base _ 19 ds] True assms by (auto simp: int_buf_def)
next
  case False
  have "unat xx < base ^ 20" using unsigned_less [of xx, where ?'a = nat] assms by (auto intro: order.strict_trans2)
  then show ?thesis using digit_loop_length [of base _ 20 ds] False assms by (auto simp: int_buf_def Let_def)
qed

section \<open>Reading numbers back\<close>

lemma user_digit: "i < 10 \<Longrightarrow> (of_char (user_digits ! i) :: int) = 48 + int i"
  by (auto simp: user_digits_def less_Suc_eq numeral_eq_Suc)

lemma atoi_append: "(\<And>c. c \<in> set t \<Longrightarrow> 48 \<le> (of_char c :: int) \<and> (of_char c :: int) \<le> 57) \<Longrightarrow> atoi_loop (t @ u) n = atoi_loop u (atoi_loop t n)"
  by (induction t arbitrary: n) auto

lemma digit_loop_digits:
  "c \<in> set (digit_loop user_digits 10 x) \<Longrightarrow> 48 \<le> (of_char c :: int) \<and> (of_char c :: int) \<le> 57"
proof (induction x rule: less_induct)
  case (less x)
  have "c = user_digits ! (x mod 10) \<or> x div 10 \<noteq> 0 \<and> c \<in> set (digit_loop user_digits 10 (x div 10))"
    using less.prems by (subst (asm) digit_loop.simps) (auto split: if_splits)
  then show ?case using less.IH [of "x div 10"] user_digit [of "x mod 10"] by auto
qed

lemma atoi_digits: "x < 2 ^ 31 \<Longrightarrow> atoi_loop (rev (digit_loop user_digits 10 x)) 0 = int x"
proof (induction x rule: less_induct)
  case (less x)
  have d: "(of_char (user_digits ! (x mod 10)) :: int) = 48 + int (x mod 10)" by (rule user_digit) simp
  have w: "wrap32 (int x) = int x" using less.prems by (simp add: wrap32_def)
  have x: "int (x div 10) * 10 + int (x mod 10) = int x" by presburger
  show ?case
  proof (cases "x div 10 = 0")
    case True
    then show ?thesis using d w x by (subst digit_loop.simps) simp
  next
    case False
    then have "x div 10 < x" "x div 10 < 2 ^ 31" using less.prems by auto
    moreover have "atoi_loop (rev (digit_loop user_digits 10 (x div 10)) @ [c]) 0 =
        atoi_loop [c] (atoi_loop (rev (digit_loop user_digits 10 (x div 10))) 0)" for c
      by (rule atoi_append) (use digit_loop_digits in auto)
    ultimately show ?thesis
      using less.IH [of "x div 10"] False d w x by (subst digit_loop.simps) simp
  qed
qed

lemma int_arg_small:
  assumes "0 \<le> v" "v < 2 ^ 31"
  shows "unat (int_arg False True (word_of_int v)) = nat v" "\<not> sint (int_arg False True (word_of_int v)) < 0"
proof -
  have a: "int_arg False True (word_of_int v :: uint64) = word_of_int v"
  proof -
    have "signed_take_bit 31 (word_of_int v :: uint64) = word_of_int (signed_take_bit 31 v)"
      by (rule bit_word_eqI) (auto simp: bit_signed_take_bit_iff bit_word_of_int_iff min_def)
    then show ?thesis using assms by (simp add: int_arg_def signed_take_bit_int_eq_self)
  qed
  show "unat (int_arg False True (word_of_int v)) = nat v" unfolding a using assms by (simp add: unat_eq_nat_uint uint_word_of_int)
  show "\<not> sint (int_arg False True (word_of_int v)) < 0" unfolding a using assms by (simp add: sint_uint uint_word_of_int signed_take_bit_int_eq_self)
qed



end
