(* ===== verification/Ring.thy ===== *)
theory Ring
  imports Xv6_Prelude
begin

text \<open>Ring buffers with free running 32-bit indices, as the console input buffer and the pipes use them: the bytes between
  the read index \<open>r\<close> and the write index \<open>w\<close>, at their indices modulo the size \<open>N\<close> of the buffer. Such a buffer
  is a queue as long as \<open>N\<close> divides \<open>2 ^ 32\<close>, across the wrap around of the indices.\<close>

definition slot :: "nat \<Rightarrow> uint32 \<Rightarrow> nat" where
  "slot N i = unat i mod N"

definition ring :: "nat \<Rightarrow> (nat \<Rightarrow> uint8) \<Rightarrow> uint32 \<Rightarrow> uint32 \<Rightarrow> uint8 list" where
  "ring N d r w = map (\<lambda>i. d (slot N (r + of_nat i))) [0..<unat (w - r)]"

lemma length_ring [simp]: "length (ring N d r w) = unat (w - r)"
  by (simp add: ring_def)

lemma ring_empty [simp]: "ring N d r r = []" "ring N d r w = [] \<longleftrightarrow> w = r"
  by (simp_all add: ring_def unat_eq_0 eq_iff_diff_eq_0 [symmetric])

lemma slot_add: "N dvd 2 ^ 32 \<Longrightarrow> slot N (r + of_nat i) = (unat r + i) mod N"
  by (simp add: slot_def unat_word_ariths unat_of_nat mod_mod_cancel mod_simps)

lemma slot_less [simp]: "0 < N \<Longrightarrow> slot N i < N"
  by (simp add: slot_def)

lemma slot_neq:
  assumes "N dvd 2 ^ 32" "i < k" "k < N"
  shows "slot N (r + of_nat i) \<noteq> slot N (r + of_nat k)"
proof
  assume "slot N (r + of_nat i) = slot N (r + of_nat k)"
  then have "(unat r + i) mod N = (unat r + k) mod N" by (simp add: slot_add [OF assms(1)])
  then have "N dvd (unat r + k) - (unat r + i)" using assms(2) by (subst mod_eq_dvd_iff_nat [symmetric]) simp_all
  then show False using assms(2,3) by (auto dest: dvd_imp_le)
qed

text \<open>The three moves of the indices: a byte comes in, one goes out, and the last one is taken back.\<close>

lemma index_add: "r + of_nat (unat (w - r)) = (w :: uint32)"
  by simp

lemma ring_push:
  assumes "N dvd 2 ^ 32" "N < 2 ^ 32" "unat (w - r) < N"
  shows "ring N (d(slot N w := c)) r (w + 1) = ring N d r w @ [c]"
proof -
  define k where "k = unat (w - r)"
  have kN: "k < N" using assms(3) by (simp add: k_def)
  have w: "w = r + of_nat k" unfolding k_def by (rule index_add [symmetric])
  have e: "w + 1 - r = 1 + (w - r)" by simp
  have nz: "1 + (w - r) \<noteq> 0"
  proof
    assume "1 + (w - r) = 0"
    then have "w - r = - 1" by (simp add: eq_neg_iff_add_eq_0 add.commute)
    then show False using assms(2,3) by (simp add: unsigned_minus_1_eq_mask mask_eq_exp_minus_1)
  qed
  have "unat (w + 1 - r) = Suc k" unfolding e k_def by (rule unatSuc [OF nz])
  then have "ring N (d(slot N w := c)) r (w + 1) = map (\<lambda>i. (d(slot N w := c)) (slot N (r + of_nat i))) [0..<k] @ [c]"
    by (simp add: ring_def w)
  moreover have "map (\<lambda>i. (d(slot N w := c)) (slot N (r + of_nat i))) [0..<k] = ring N d r w"
    unfolding ring_def k_def [symmetric]
    by (rule map_cong [OF refl]) (use slot_neq [OF assms(1) _ kN, of _ r] in \<open>simp add: w\<close>)
  ultimately show ?thesis by simp
qed

lemma ring_pop:
  assumes "w \<noteq> r"
  shows "ring N d r w = d (slot N r) # ring N d (r + 1) w"
proof -
  have nz: "w - r \<noteq> 0" using assms by simp
  have e: "w - (r + 1) = (w - r) - 1" by simp
  have "0 < unat (w - r)" using nz by (simp add: unat_gt_0)
  then have k: "unat (w - r) = Suc (unat (w - (r + 1)))" unfolding e using unat_minus_one [OF nz] by simp
  have "map (\<lambda>i. d (slot N (r + of_nat i))) [Suc 0..<Suc n] = map (\<lambda>i. d (slot N (r + 1 + of_nat i))) [0..<n]" for n
    unfolding map_Suc_upt [symmetric] map_map by (rule map_cong) (simp_all add: add.assoc)
  then show ?thesis unfolding ring_def k by (simp add: upt_conv_Cons del: upt_Suc)
qed

lemma ring_unpush:
  assumes "w \<noteq> r"
  shows "ring N d r (w - 1) = butlast (ring N d r w)"
proof -
  have nz: "w - r \<noteq> 0" using assms by simp
  have "w - 1 - r = (w - r) - 1" by simp
  then have "unat (w - 1 - r) = unat (w - r) - 1" by (simp only: unat_minus_one [OF nz])
  then show ?thesis by (simp add: ring_def butlast_conv_take take_map)
qed

text \<open>What the clients of a bounded queue of bytes rely on.\<close>

locale byte_queue =
  fixes contents :: "'s \<Rightarrow> uint8 list" and cap :: nat and put :: "uint8 \<Rightarrow> 's \<Rightarrow> 's" and front :: "'s \<Rightarrow> uint8"
    and pop :: "'s \<Rightarrow> 's" and empty :: "'s \<Rightarrow> bool" and full :: "'s \<Rightarrow> bool"
  assumes put: "length (contents x) < cap \<Longrightarrow> contents (put c x) = contents x @ [c]"
    and pop: "contents x \<noteq> [] \<Longrightarrow> contents x = front x # contents (pop x)"
    and empty_iff: "empty x \<longleftrightarrow> contents x = []"
    and full_iff: "length (contents x) \<le> cap \<Longrightarrow> full x \<longleftrightarrow> length (contents x) = cap"
begin

lemma front_hd: "contents x \<noteq> [] \<Longrightarrow> front x = hd (contents x)"
  using pop [of x] by (metis list.sel(1))

lemma pop_tl: "contents x \<noteq> [] \<Longrightarrow> contents (pop x) = tl (contents x)"
  using pop [of x] by (metis list.sel(3))

lemma puts:
  "length (contents x) + length bs \<le> cap \<Longrightarrow> contents (fold put bs x) = contents x @ bs"
  by (induction bs arbitrary: x) (simp_all add: put)

lemma pops: "k \<le> length (contents x) \<Longrightarrow> contents ((pop ^^ k) x) = drop k (contents x)"
proof (induction k)
  case (Suc k)
  then have "contents ((pop ^^ k) x) = drop k (contents x)" "drop k (contents x) \<noteq> []" by simp_all
  then show ?case using pop_tl [of "(pop ^^ k) x"] by (simp add: tl_drop drop_Suc)
qed simp

end

end
