(* ===== verification/Console.thy ===== *)
theory Console
  imports Fs Printf Ring
begin

text \<open>The console (\<open>kernel/console.c\<close>) and the UART driver below it (\<open>kernel/uart.c\<close>): output, the line discipline of the
  input interrupt, and reading a line.

  The state records what has been sent to the transmit register. A function that has to wait for the UART or for input goes
  to sleep and returns what it needs to go on (\<open>Inr\<close>) when it is woken, in place of its result (\<open>Inl\<close>).\<close>

unbundle bit_operations_syntax

section \<open>Model\<close>

definition INPUT_BUF_SIZE :: nat where "INPUT_BUF_SIZE = 128"
definition CONSOLE :: int where "CONSOLE = 1"

record kcons = kfs +
  cons_buf :: "nat \<Rightarrow> uint8"
  cons_r :: uint32
  cons_w :: uint32
  cons_e :: uint32
  uart_out :: "uint8 list"
  tx_busy :: bool

subsection \<open>UART\<close>

definition uartputc_sync :: "uint8 \<Rightarrow> 'z kcons_scheme \<Rightarrow> 'z kcons_scheme" where
  "uartputc_sync c s = s\<lparr>uart_out := uart_out s @ [c]\<rparr>"

text \<open>The loop of \<open>uartwrite\<close>, with the lock held: the bytes that are left when it has to sleep, or none.\<close>

fun uartwrite_loop :: "uint8 list \<Rightarrow> 'z kcons_scheme \<Rightarrow> (uint8 list \<times> 'z kcons_scheme) res" where
  "uartwrite_loop [] s = bindr (release UartLock s) (\<lambda>s. Ok ([], s))"
| "uartwrite_loop (c # cs) s =
     (if tx_busy s then bindr (sleep ChanUart UartLock s) (\<lambda>s. Ok (c # cs, s))
      else uartwrite_loop cs (s\<lparr>uart_out := uart_out s @ [c], tx_busy := True\<rparr>))"

definition uartwrite :: "uint8 list \<Rightarrow> 'z kcons_scheme \<Rightarrow> (uint8 list \<times> 'z kcons_scheme) res" where
  "uartwrite buf s = bindr (acquire UartLock s) (uartwrite_loop buf)"

definition uartwrite_resume :: "uint8 list \<Rightarrow> 'z kcons_scheme \<Rightarrow> (uint8 list \<times> 'z kcons_scheme) res" where
  "uartwrite_resume buf s = bindr (sleep_back UartLock s) (uartwrite_loop buf)"

subsection \<open>Console output\<close>

definition consputc :: "nat \<Rightarrow> 'z kcons_scheme \<Rightarrow> 'z kcons_scheme" where
  "consputc c s =
     (if c = BACKSPACE then uartputc_sync 8 (uartputc_sync 32 (uartputc_sync 8 s)) else uartputc_sync (of_nat c) s)"

definition kprintf :: "string \<Rightarrow> arg list \<Rightarrow> 'z kcons_scheme \<Rightarrow> 'z kcons_scheme res" where
  "kprintf fmt args s =
     bindr (acquire PrLock s) (\<lambda>s.
     release PrLock (case kernel_printf fmt args of
         Some t \<Rightarrow> s\<lparr>uart_out := uart_out s @ map of_char t\<rparr> | None \<Rightarrow> s))"

fun state_text :: "procstate \<Rightarrow> string" where
  "state_text UNUSED = ''unused''"
| "state_text USED = ''used''"
| "state_text SLEEPING = ''sleep ''"
| "state_text RUNNABLE = ''runble''"
| "state_text RUNNING = ''run   ''"
| "state_text ZOMBIE = ''zombie''"

definition procdump :: "'z kcons_scheme \<Rightarrow> 'z kcons_scheme res" where
  "procdump s =
     bindr (kprintf [CHR 0x0A] [] s)
     (loop_res (\<lambda>i s.
        let p = procs s i
        in if pstate p = UNUSED then Ok s
           else bindr (kprintf ''%d %s %s''
               [Num (of_int (pid p)), Str (Some (state_text (pstate p))), Str (Some (map (\<lambda>c. char_of (unat c)) (pname p)))] s)
             (kprintf [CHR 0x0A] [])) [0..<NPROC])"

text \<open>The loop of \<open>consolewrite\<close> from byte \<open>i\<close> on: the number of bytes written, or the batch it is in and what is left of it.\<close>

function consolewrite_loop ::
  "bool \<Rightarrow> uint64 \<Rightarrow> nat \<Rightarrow> nat \<Rightarrow> 'z kcons_scheme \<Rightarrow> ((int + nat \<times> uint8 list) \<times> 'z kcons_scheme) res" where
  "consolewrite_loop user_src src n i s =
     (if i < n then
        let nn = (if 32 > n - i then n - i else 32)
        in bindr (either_copyin user_src (src + of_nat i) nn s) (\<lambda>(r, buf, s).
           if r = -1 then Ok (Inl (int i), s)
           else bindr (uartwrite buf s) (\<lambda>(rest, s).
             if rest \<noteq> [] then Ok (Inr (i, rest), s)
             else consolewrite_loop user_src src n (i + nn) s))
      else Ok (Inl (int i), s))"
  by auto

termination consolewrite_loop
  by (relation "measure (\<lambda>(_, _, n, i, _). n - i)") auto

declare consolewrite_loop.simps [simp del]

definition consolewrite :: "bool \<Rightarrow> uint64 \<Rightarrow> int \<Rightarrow> 'z kcons_scheme \<Rightarrow> ((int + nat \<times> uint8 list) \<times> 'z kcons_scheme) res" where
  "consolewrite user_src src n s = consolewrite_loop user_src src (nat n) 0 s"

definition consolewrite_resume ::
  "bool \<Rightarrow> uint64 \<Rightarrow> int \<Rightarrow> nat \<Rightarrow> uint8 list \<Rightarrow> 'z kcons_scheme \<Rightarrow> ((int + nat \<times> uint8 list) \<times> 'z kcons_scheme) res" where
  "consolewrite_resume user_src src n i rest s =
     bindr (uartwrite_resume rest s) (\<lambda>(rest, s).
     if rest \<noteq> [] then Ok (Inr (i, rest), s)
     else consolewrite_loop user_src src (nat n) (i + (if 32 > nat n - i then nat n - i else 32)) s)"

subsection \<open>Console input\<close>

definition CTRL_D :: uint8 where "CTRL_D = 4"
definition NEWLINE :: uint8 where "NEWLINE = 10"

text \<open>\<open>consoleread\<close> with \<open>n\<close> of \<open>target\<close> bytes still to read, and the lock held.\<close>

fun consoleread_loop ::
  "bool \<Rightarrow> uint64 \<Rightarrow> nat \<Rightarrow> nat \<Rightarrow> 'z kcons_scheme \<Rightarrow> ((int + uint64 \<times> nat) \<times> 'z kcons_scheme) res" where
  "consoleread_loop user_dst dst 0 target s = bindr (release ConsLock s) (\<lambda>s. Ok (Inl (int target), s))"
| "consoleread_loop user_dst dst (Suc n) target s =
     (if cons_r s = cons_w s then
        (case myproc s of
           None \<Rightarrow> Panic ''kerneltrap''
         | Some p \<Rightarrow>
           bindr (is_killed p s) (\<lambda>(k, s).
           if k \<noteq> 0 then bindr (release ConsLock s) (\<lambda>s. Ok (Inl (-1), s))
           else bindr (sleep ChanCons ConsLock s) (\<lambda>s. Ok (Inr (dst, Suc n), s))))
      else
        let c = cons_buf s (slot INPUT_BUF_SIZE (cons_r s));
            s = s\<lparr>cons_r := cons_r s + 1\<rparr>
        in if c = CTRL_D then
             bindr (release ConsLock (if Suc n < target then s\<lparr>cons_r := cons_r s - 1\<rparr> else s)) (\<lambda>s.
             Ok (Inl (int target - int (Suc n)), s))
           else
             bindr (either_copyout user_dst dst [c] s) (\<lambda>(r, s).
             if r = -1 then bindr (release ConsLock s) (\<lambda>s. Ok (Inl (int target - int (Suc n)), s))
             else if c = NEWLINE then bindr (release ConsLock s) (\<lambda>s. Ok (Inl (int target - int n), s))
             else consoleread_loop user_dst (dst + 1) n target s))"

definition consoleread :: "bool \<Rightarrow> uint64 \<Rightarrow> int \<Rightarrow> 'z kcons_scheme \<Rightarrow> ((int + uint64 \<times> nat) \<times> 'z kcons_scheme) res" where
  "consoleread user_dst dst n s = bindr (acquire ConsLock s) (consoleread_loop user_dst dst (nat n) (nat n))"

definition consoleread_resume ::
  "bool \<Rightarrow> uint64 \<Rightarrow> nat \<Rightarrow> nat \<Rightarrow> 'z kcons_scheme \<Rightarrow> ((int + uint64 \<times> nat) \<times> 'z kcons_scheme) res" where
  "consoleread_resume user_dst dst n target s = bindr (sleep_back ConsLock s) (consoleread_loop user_dst dst n target)"

function kill_line :: "'z kcons_scheme \<Rightarrow> 'z kcons_scheme" where
  "kill_line s =
     (if cons_e s \<noteq> cons_w s \<and> cons_buf s (slot INPUT_BUF_SIZE (cons_e s - 1)) \<noteq> NEWLINE
      then kill_line (consputc BACKSPACE (s\<lparr>cons_e := cons_e s - 1\<rparr>)) else s)"
  by auto

termination kill_line
proof (relation "measure (\<lambda>s. unat (cons_e s - cons_w s))")
  fix s :: "'z kcons_scheme"
  assume "cons_e s \<noteq> cons_w s \<and> cons_buf s (slot INPUT_BUF_SIZE (cons_e s - 1)) \<noteq> NEWLINE"
  then have nz: "cons_e s - cons_w s \<noteq> 0" by simp
  have "cons_e s - 1 - cons_w s = (cons_e s - cons_w s) - 1" by simp
  then have "unat (cons_e s - 1 - cons_w s) < unat (cons_e s - cons_w s)" by (simp only: measure_unat [OF nz])
  then show "(consputc BACKSPACE (s\<lparr>cons_e := cons_e s - 1\<rparr>), s) \<in> measure (\<lambda>s. unat (cons_e s - cons_w s))"
    by (simp add: consputc_def uartputc_sync_def)
qed simp

declare kill_line.simps [simp del]

definition consoleintr :: "nat \<Rightarrow> 'z kcons_scheme \<Rightarrow> 'z kcons_scheme res" where
  "consoleintr c s =
     bindr (acquire ConsLock s) (\<lambda>s.
     bindr (if c = 16 then procdump s
       else if c = 21 then Ok (kill_line s)
       else if c = 8 \<or> c = 127 then
         Ok (if cons_e s \<noteq> cons_w s then consputc BACKSPACE (s\<lparr>cons_e := cons_e s - 1\<rparr>) else s)
       else if c \<noteq> 0 \<and> unat (cons_e s - cons_r s) < INPUT_BUF_SIZE then
         let c = (if c = 13 then 10 else c);
             s = consputc c s;
             s = s\<lparr>cons_buf := (cons_buf s)(slot INPUT_BUF_SIZE (cons_e s) := of_nat c), cons_e := cons_e s + 1\<rparr>
         in if c = 10 \<or> c = 4 \<or> unat (cons_e s - cons_r s) = INPUT_BUF_SIZE
            then wakeup ChanCons (s\<lparr>cons_w := cons_e s\<rparr>) else Ok s
       else Ok s) (release ConsLock))"

text \<open>A UART interrupt: the transmitter is idle or not, and the bytes that have been received.\<close>

definition uartintr :: "bool \<Rightarrow> uint8 list \<Rightarrow> 'z kcons_scheme \<Rightarrow> 'z kcons_scheme res" where
  "uartintr tx_idle received s =
     bindr (acquire UartLock s) (\<lambda>s.
     bindr (if tx_idle then wakeup ChanUart (s\<lparr>tx_busy := False\<rparr>) else Ok s) (\<lambda>s.
     bindr (release UartLock s)
     (loop_res (\<lambda>c. consoleintr (unat c)) received)))"

end
