(* ===== verification/File.thy ===== *)
theory File
  imports Console
begin

text \<open>Open files (\<open>kernel/file.c\<close>) and pipes (\<open>kernel/pipe.c\<close>).

  A pipe is identified by the address of the page that holds it. Reading and writing a pipe or the console may put the
  caller to sleep; \<open>pipewrite\<close> and \<open>piperead\<close> then return how far they are (\<open>Inr\<close>) in place of a result (\<open>Inl\<close>), and the
  functions on files return \<open>None\<close>.\<close>

unbundle bit_operations_syntax

section \<open>Model\<close>

definition NFILE :: nat where "NFILE = 100"
definition NDEV :: int where "NDEV = 10"
definition PIPESIZE :: nat where "PIPESIZE = 512"

datatype fdtype = FD_NONE | FD_PIPE | FD_INODE | FD_DEVICE

record "file" =
  ftype :: fdtype
  fref :: int
  freadable :: bool
  fwritable :: bool
  fpipe :: uint64
  fip :: nat
  foff :: nat
  fmajor :: int

record pipe =
  pdata :: "nat \<Rightarrow> uint8"
  nread :: uint32
  nwrite :: uint32
  readopen :: bool
  writeopen :: bool

record kfile = kcons +
  ftable :: "nat \<Rightarrow> file"
  pipes :: "uint64 \<Rightarrow> pipe"

definition upd_file :: "nat \<Rightarrow> (file \<Rightarrow> file) \<Rightarrow> 'z kfile_scheme \<Rightarrow> 'z kfile_scheme" where
  "upd_file f g s = s\<lparr>ftable := (ftable s)(f := g (ftable s f))\<rparr>"

definition upd_pipe :: "uint64 \<Rightarrow> (pipe \<Rightarrow> pipe) \<Rightarrow> 'z kfile_scheme \<Rightarrow> 'z kfile_scheme" where
  "upd_pipe p g s = s\<lparr>pipes := (pipes s)(p := g (pipes s p))\<rparr>"

definition pipe_lock :: "uint64 \<Rightarrow> klock" where "pipe_lock p = PipeLock (unat p)"
definition read_chan :: "uint64 \<Rightarrow> channel" where "read_chan p = ChanPipeRead (unat p)"
definition write_chan :: "uint64 \<Rightarrow> channel" where "write_chan p = ChanPipeWrite (unat p)"

subsection \<open>Pipes\<close>

definition pipeclose :: "uint64 \<Rightarrow> bool \<Rightarrow> 'z kfile_scheme \<Rightarrow> 'z kfile_scheme res" where
  "pipeclose p writable s =
     bindr (acquire (pipe_lock p) s) (\<lambda>s.
     bindr (if writable then wakeup (read_chan p) (upd_pipe p (\<lambda>x. x\<lparr>writeopen := False\<rparr>) s)
            else wakeup (write_chan p) (upd_pipe p (\<lambda>x. x\<lparr>readopen := False\<rparr>) s)) (\<lambda>s.
     if \<not> readopen (pipes s p) \<and> \<not> writeopen (pipes s p)
     then bindr (release (pipe_lock p) s) (kfree p) else release (pipe_lock p) s))"

definition pipe_put :: "uint8 \<Rightarrow> pipe \<Rightarrow> pipe" where
  "pipe_put c x = x\<lparr>pdata := (pdata x)(slot PIPESIZE (nwrite x) := c), nwrite := nwrite x + 1\<rparr>"

definition pipewrite_end :: "uint64 \<Rightarrow> nat \<Rightarrow> 'z kfile_scheme \<Rightarrow> ((int + nat) \<times> 'z kfile_scheme) res" where
  "pipewrite_end p i s =
     bindr (wakeup (read_chan p) s) (\<lambda>s. bindr (release (pipe_lock p) s) (\<lambda>s. Ok (Inl (int i), s)))"

function pipewrite_loop :: "uint64 \<Rightarrow> uint64 \<Rightarrow> nat \<Rightarrow> nat \<Rightarrow> 'z kfile_scheme \<Rightarrow> ((int + nat) \<times> 'z kfile_scheme) res" where
  "pipewrite_loop p addr n i s =
     (if i < n then
        (case myproc s of
           None \<Rightarrow> Panic ''kerneltrap''
         | Some pr \<Rightarrow>
           if \<not> readopen (pipes s p) then bindr (release (pipe_lock p) s) (\<lambda>s. Ok (Inl (-1), s))
           else
             bindr (is_killed pr s) (\<lambda>(k, s).
             if k \<noteq> 0 then bindr (release (pipe_lock p) s) (\<lambda>s. Ok (Inl (-1), s))
             else if nwrite (pipes s p) = nread (pipes s p) + of_nat PIPESIZE then
               bindr (wakeup (read_chan p) s) (\<lambda>s.
               bindr (sleep (write_chan p) (pipe_lock p) s) (\<lambda>s. Ok (Inr i, s)))
             else
               bindr (copyin (pagetable (procs s pr)) (addr + of_nat i) 1 s) (\<lambda>(r, ch, s).
               if r = -1 then pipewrite_end p i s
               else pipewrite_loop p addr n (i + 1) (upd_pipe p (pipe_put (hd ch)) s))))
      else pipewrite_end p i s)"
  by auto

termination pipewrite_loop
  by (relation "measure (\<lambda>(_, _, n, i, _). n - i)") auto

declare pipewrite_loop.simps [simp del]

definition pipewrite :: "uint64 \<Rightarrow> uint64 \<Rightarrow> int \<Rightarrow> 'z kfile_scheme \<Rightarrow> ((int + nat) \<times> 'z kfile_scheme) res" where
  "pipewrite p addr n s = bindr (acquire (pipe_lock p) s) (pipewrite_loop p addr (nat n) 0)"

definition pipewrite_resume :: "uint64 \<Rightarrow> uint64 \<Rightarrow> int \<Rightarrow> nat \<Rightarrow> 'z kfile_scheme \<Rightarrow> ((int + nat) \<times> 'z kfile_scheme) res" where
  "pipewrite_resume p addr n i s = bindr (sleep_back (pipe_lock p) s) (pipewrite_loop p addr (nat n) i)"

definition piperead_end :: "uint64 \<Rightarrow> int \<Rightarrow> 'z kfile_scheme \<Rightarrow> ((int + unit) \<times> 'z kfile_scheme) res" where
  "piperead_end p i s =
     bindr (wakeup (write_chan p) s) (\<lambda>s. bindr (release (pipe_lock p) s) (\<lambda>s. Ok (Inl i, s)))"

function piperead_copy :: "uint64 \<Rightarrow> uint64 \<Rightarrow> nat \<Rightarrow> nat \<Rightarrow> 'z kfile_scheme \<Rightarrow> ((int + unit) \<times> 'z kfile_scheme) res" where
  "piperead_copy p addr n i s =
     (if i < n then
        if nread (pipes s p) = nwrite (pipes s p) then piperead_end p (int i) s
        else
          let ch = pdata (pipes s p) (slot PIPESIZE (nread (pipes s p)))
          in case myproc s of
               None \<Rightarrow> Panic ''kerneltrap''
             | Some pr \<Rightarrow>
               bindr (copyout (pagetable (procs s pr)) (addr + of_nat i) [ch] s) (\<lambda>(r, s).
               if r = -1 then piperead_end p (if i = 0 then -1 else int i) s
               else piperead_copy p addr n (i + 1) (upd_pipe p (\<lambda>x. x\<lparr>nread := nread x + 1\<rparr>) s))
      else piperead_end p (int i) s)"
  by auto

termination piperead_copy
  by (relation "measure (\<lambda>(_, _, n, i, _). n - i)") auto

declare piperead_copy.simps [simp del]

text \<open>The waiting loop of \<open>piperead\<close>, entered with the lock held.\<close>

definition piperead_turn :: "uint64 \<Rightarrow> uint64 \<Rightarrow> int \<Rightarrow> 'z kfile_scheme \<Rightarrow> ((int + unit) \<times> 'z kfile_scheme) res" where
  "piperead_turn p addr n s =
     (if nread (pipes s p) = nwrite (pipes s p) \<and> writeopen (pipes s p) then
        (case myproc s of
           None \<Rightarrow> Panic ''kerneltrap''
         | Some pr \<Rightarrow>
           bindr (is_killed pr s) (\<lambda>(k, s).
           if k \<noteq> 0 then bindr (release (pipe_lock p) s) (\<lambda>s. Ok (Inl (-1), s))
           else bindr (sleep (read_chan p) (pipe_lock p) s) (\<lambda>s. Ok (Inr (), s))))
      else piperead_copy p addr (nat n) 0 s)"

definition piperead :: "uint64 \<Rightarrow> uint64 \<Rightarrow> int \<Rightarrow> 'z kfile_scheme \<Rightarrow> ((int + unit) \<times> 'z kfile_scheme) res" where
  "piperead p addr n s = bindr (acquire (pipe_lock p) s) (piperead_turn p addr n)"

definition piperead_resume :: "uint64 \<Rightarrow> uint64 \<Rightarrow> int \<Rightarrow> 'z kfile_scheme \<Rightarrow> ((int + unit) \<times> 'z kfile_scheme) res" where
  "piperead_resume p addr n s = bindr (sleep_back (pipe_lock p) s) (piperead_turn p addr n)"

subsection \<open>Files\<close>

definition filealloc :: "'z kfile_scheme \<Rightarrow> (nat option \<times> 'z kfile_scheme) res" where
  "filealloc s =
     bindr (acquire FtableLock s) (\<lambda>s.
     case search (\<lambda>f. fref (ftable s f) = 0) 0 NFILE of
       Some f \<Rightarrow> bindr (release FtableLock (upd_file f (\<lambda>x. x\<lparr>fref := 1\<rparr>) s)) (\<lambda>s. Ok (Some f, s))
     | None \<Rightarrow> bindr (release FtableLock s) (\<lambda>s. Ok (None, s)))"

definition filedup :: "nat \<Rightarrow> 'z kfile_scheme \<Rightarrow> 'z kfile_scheme res" where
  "filedup f s =
     bindr (acquire FtableLock s) (\<lambda>s.
     if fref (ftable s f) < 1 then Panic ''filedup''
     else release FtableLock (upd_file f (\<lambda>x. x\<lparr>fref := fref x + 1\<rparr>) s))"

definition fileclose :: "nat \<Rightarrow> 'z kfile_scheme \<Rightarrow> 'z kfile_scheme res" where
  "fileclose f s =
     bindr (acquire FtableLock s) (\<lambda>s.
     if fref (ftable s f) < 1 then Panic ''fileclose''
     else
       let s = upd_file f (\<lambda>x. x\<lparr>fref := fref x - 1\<rparr>) s
       in if fref (ftable s f) > 0 then release FtableLock s
          else
            let ff = ftable s f
            in bindr (release FtableLock (upd_file f (\<lambda>x. x\<lparr>fref := 0, ftype := FD_NONE\<rparr>) s)) (\<lambda>s.
               if ftype ff = FD_PIPE then pipeclose (fpipe ff) (fwritable ff) s
               else if ftype ff = FD_INODE \<or> ftype ff = FD_DEVICE then
                 bindr (begin_op s) (\<lambda>s. bindr (iput (fip ff) s) end_op)
               else Ok s))"

definition pipealloc :: "'z kfile_scheme \<Rightarrow> ((nat \<times> nat) option \<times> 'z kfile_scheme) res" where
  "pipealloc s =
     bindr (filealloc s) (\<lambda>(f0, s).
     case f0 of
       None \<Rightarrow> Ok (None, s)
     | Some f0 \<Rightarrow>
       bindr (filealloc s) (\<lambda>(f1, s).
       case f1 of
         None \<Rightarrow> bindr (fileclose f0 s) (\<lambda>s. Ok (None, s))
       | Some f1 \<Rightarrow>
         bindr (kalloc s) (\<lambda>(p, s).
         if p = 0 then bindr (fileclose f0 s) (\<lambda>s. bindr (fileclose f1 s) (\<lambda>s. Ok (None, s)))
         else
           let s = upd_pipe p (\<lambda>x. x\<lparr>readopen := True, writeopen := True, nwrite := 0, nread := 0\<rparr>) s;
               s = upd_file f0 (\<lambda>x. x\<lparr>ftype := FD_PIPE, freadable := True, fwritable := False, fpipe := p\<rparr>) s;
               s = upd_file f1 (\<lambda>x. x\<lparr>ftype := FD_PIPE, freadable := False, fwritable := True, fpipe := p\<rparr>) s
           in Ok (Some (f0, f1), s))))"

text \<open>The bytes of a \<open>struct stat\<close>; \<open>pad\<close> is what the four bytes of padding before \<open>size\<close> hold on the kernel stack.\<close>

definition stat_bytes :: "uint8 list \<Rightarrow> fstat \<Rightarrow> uint8 list" where
  "stat_bytes pad st =
     put_u32 20 0 (put_u32 16 (st_size st) (put_s16 10 (st_nlink st) (put_s16 8 (st_type st)
       (put_u32 4 (st_ino st) (put_u32 0 (st_dev st) (replicate 12 0 @ take 4 pad @ replicate 8 0))))))"

definition filestat :: "uint8 list \<Rightarrow> nat \<Rightarrow> uint64 \<Rightarrow> 'z kfile_scheme \<Rightarrow> (int \<times> 'z kfile_scheme) res" where
  "filestat pad f addr s =
     (case myproc s of
        None \<Rightarrow> Panic ''kerneltrap''
      | Some p \<Rightarrow>
        if ftype (ftable s f) = FD_INODE \<or> ftype (ftable s f) = FD_DEVICE then
          bindr (ilock (fip (ftable s f)) s) (\<lambda>s.
          let st = stati (inodes s (fip (ftable s f)))
          in bindr (iunlock (fip (ftable s f)) s) (\<lambda>s.
             bindr (copyout (pagetable (procs s p)) addr (stat_bytes pad st) s) (\<lambda>(r, s).
             Ok (if r < 0 then -1 else 0, s))))
        else Ok (-1, s))"

definition dev_ok :: "int \<Rightarrow> bool" where
  "dev_ok major \<longleftrightarrow> \<not> (major < 0 \<or> major \<ge> NDEV) \<and> major = CONSOLE"

fun awake :: "(int + 'b) \<times> 's \<Rightarrow> (int option \<times> 's) res" where
  "awake (Inl r, s) = Ok (Some r, s)"
| "awake (Inr _, s) = Ok (None, s)"

definition fileread :: "nat \<Rightarrow> uint64 \<Rightarrow> int \<Rightarrow> 'z kfile_scheme \<Rightarrow> (int option \<times> 'z kfile_scheme) res" where
  "fileread f addr n s =
     (let x = ftable s f
      in if \<not> freadable x then Ok (Some (-1), s)
         else case ftype x of
           FD_PIPE \<Rightarrow> bindr (piperead (fpipe x) addr n s) awake
         | FD_DEVICE \<Rightarrow> if \<not> dev_ok (fmajor x) then Ok (Some (-1), s) else bindr (consoleread True addr n s) awake
         | FD_INODE \<Rightarrow>
             bindr (ilock (fip x) s) (\<lambda>s.
             bindr (readi (fip x) (ToUser addr) (foff (ftable s f)) (nat (n mod 2 ^ 32)) s) (\<lambda>(r, _, s).
             let s = (if r > 0 then upd_file f (\<lambda>x. x\<lparr>foff := (foff x + nat r) mod 2 ^ 32\<rparr>) s else s)
             in bindr (iunlock (fip x) s) (\<lambda>s. Ok (Some r, s))))
         | FD_NONE \<Rightarrow> Panic ''fileread'')"

definition WRITE_MAX :: nat where
  "WRITE_MAX = ((MAXOPBLOCKS - 1 - 1 - 2) div 2) * BSIZE"

function filewrite_loop :: "nat \<Rightarrow> uint64 \<Rightarrow> nat \<Rightarrow> nat \<Rightarrow> 'z kfile_scheme \<Rightarrow> (nat \<times> 'z kfile_scheme) res" where
  "filewrite_loop f addr n i s =
     (if i < n then
        let n1 = (if n - i > WRITE_MAX then WRITE_MAX else n - i)
        in bindr (begin_op s) (\<lambda>s.
           bindr (ilock (fip (ftable s f)) s) (\<lambda>s.
           bindr (writei (fip (ftable s f)) (FromUser (addr + of_nat i)) (foff (ftable s f)) n1 s) (\<lambda>(r, s).
           let s = (if r > 0 then upd_file f (\<lambda>x. x\<lparr>foff := (foff x + nat r) mod 2 ^ 32\<rparr>) s else s)
           in bindr (iunlock (fip (ftable s f)) s) (\<lambda>s.
              bindr (end_op s) (\<lambda>s.
              if r \<noteq> int n1 then Ok (i, s) else filewrite_loop f addr n (i + n1) s)))))
      else Ok (i, s))"
  by auto

termination filewrite_loop
  by (relation "measure (\<lambda>(_, _, n, i, _). n - i)") (auto simp: WRITE_MAX_def MAXOPBLOCKS_def)

declare filewrite_loop.simps [simp del]

definition filewrite :: "nat \<Rightarrow> uint64 \<Rightarrow> int \<Rightarrow> 'z kfile_scheme \<Rightarrow> (int option \<times> 'z kfile_scheme) res" where
  "filewrite f addr n s =
     (let x = ftable s f
      in if \<not> fwritable x then Ok (Some (-1), s)
         else case ftype x of
           FD_PIPE \<Rightarrow> bindr (pipewrite (fpipe x) addr n s) awake
         | FD_DEVICE \<Rightarrow> if \<not> dev_ok (fmajor x) then Ok (Some (-1), s) else bindr (consolewrite True addr n s) awake
         | FD_INODE \<Rightarrow>
             bindr (filewrite_loop f addr (nat n) 0 s) (\<lambda>(i, s). Ok (Some (if int i = n then n else -1), s))
         | FD_NONE \<Rightarrow> Panic ''filewrite'')"

end
