(* ===== verification/Vm_Frame.thy ===== *)
theory Vm_Frame
  imports Proc
begin

text \<open>What the memory subsystem leaves alone. A page fault in the middle of a copy between kernel and user memory may
  evict a frame, write a page to the swap disk and bring another one in; none of this touches the state of the file
  system, the console or the pipes, the locks held or the running process.

  The relation \<open>undisturbed\<close> states it, and every operation from \<open>disk_submit_and_dispatch\<close> to \<open>copyout\<close> is shown to
  stay in it, whatever it returns. The operations on the process table that a sleeping call uses are treated alike. The
  last section is on buffers of a process that are in memory.\<close>

section \<open>The relation\<close>

definition disk_only :: "'z swapdisk_scheme \<Rightarrow> 'z swapdisk_scheme \<Rightarrow> bool" where
  "disk_only s t \<longleftrightarrow> swapdisk.more t = swapdisk.more s \<and> held t = held s \<and> cpu_proc t = cpu_proc s"

definition undisturbed :: "'z kmem_scheme \<Rightarrow> 'z kmem_scheme \<Rightarrow> bool" where
  "undisturbed s t \<longleftrightarrow> kmem.more t = kmem.more s \<and> held t = held s \<and> cpu_proc t = cpu_proc s"

lemma disk_only_refl [simp]: "disk_only s s"
  by (simp add: disk_only_def)

lemma disk_only_trans: "disk_only s t \<Longrightarrow> disk_only t u \<Longrightarrow> disk_only s u"
  by (simp add: disk_only_def)

lemma undisturbed_refl [simp]: "undisturbed s s"
  by (simp add: undisturbed_def)

lemma undisturbed_trans: "undisturbed s t \<Longrightarrow> undisturbed t u \<Longrightarrow> undisturbed s u"
  by (simp add: undisturbed_def)

lemma disk_only_undisturbed: "disk_only s t \<Longrightarrow> undisturbed s t"
  by (cases s; cases t) (simp add: disk_only_def undisturbed_def)

lemma undisturbed_upd [simp]:
  "undisturbed s (t\<lparr>mem := m\<rparr>) = undisturbed s t"
  "undisturbed s (t\<lparr>freelist := a\<rparr>) = undisturbed s t"
  "undisturbed s (t\<lparr>swaptable := w\<rparr>) = undisturbed s t"
  "undisturbed s (t\<lparr>clock_hand := c\<rparr>) = undisturbed s t"
  "undisturbed s (t\<lparr>active_frames := n\<rparr>) = undisturbed s t"
  "undisturbed s (upd_proc p f t) = undisturbed s t"
  "undisturbed s (upd_frame i g t) = undisturbed s t"
  "undisturbed s (memset_page a b t) = undisturbed s t"
  "undisturbed s (advance_hand t) = undisturbed s t"
  by (simp_all add: undisturbed_def upd_proc_def upd_frame_def memset_page_def advance_hand_def)

lemma disk_only_upd [simp]:
  "disk_only s (upd_proc p f t) = disk_only s t"
  "disk_only s (set_block d b x t) = disk_only s t"
  "disk_only s (t\<lparr>swap_slot_raid_mode := g\<rparr>) = disk_only s t"
  by (simp_all add: disk_only_def upd_proc_def set_block_def)

text \<open>A critical section that keeps the rest keeps the set of locks.\<close>

lemma loop_res_rel:
  assumes "loop_res f xs s = Ok t" "\<And>i s t. f i s = Ok t \<Longrightarrow> R s t"
    and "\<And>s. R s s" "\<And>s t u. R s t \<Longrightarrow> R t u \<Longrightarrow> R s u"
  shows "R s t"
  using assms(1) by (induction xs arbitrary: s) (use assms(2-4) in \<open>simp, fastforce\<close>)

lemma acquire_Ok_iff: "acquire l s = Ok t \<longleftrightarrow> l \<notin> held s \<and> t = s\<lparr>held := insert l (held s)\<rparr>"
  by (auto simp: acquire_def)

lemma release_Ok_iff: "release l s = Ok t \<longleftrightarrow> l \<in> held s \<and> t = s\<lparr>held := held s - {l}\<rparr>"
  by (auto simp: release_def)

lemmas lock_iffs = acquire_Ok_iff release_Ok_iff

section \<open>The swap disk\<close>

lemma disk_submit_frame: "disk_submit_and_dispatch b w s = Ok t \<Longrightarrow> disk_only s t"
  by (auto simp: disk_submit_and_dispatch_def disk_only_def Let_def upd_proc_def lock_iffs
      split: option.splits if_splits)

lemma phys_write_frame: "phys_write d b x m s = Ok t \<Longrightarrow> disk_only s t"
  by (auto simp: phys_write_def Let_def split: if_splits)

lemma raid_write_frame: "raid_write b x m s = Ok t \<Longrightarrow> disk_only s t"
  by (auto simp: raid_write_def Let_def split: if_splits
      dest!: disk_submit_frame phys_write_frame intro: disk_only_trans)

lemma raid_read_frame: "raid_read b x m s = Ok (y, t) \<Longrightarrow> disk_only s t"
  by (auto simp: raid_read_def Let_def split: if_splits dest!: disk_submit_frame)

lemma swap_out_page_frame:
  assumes "swap_out_page x i s = Ok t"
  shows "disk_only s t"
proof -
  obtain u where u: "loop_res (\<lambda>j. raid_write (i * 4 + int j) (page_chunk j x) (raid_mode s)) [0..<4] u = Ok t"
    "disk_only s u"
    using assms by (auto simp: swap_out_page_def Let_def disk_only_def lock_iffs split: if_splits)
  from u(1) have "disk_only u t"
    by (rule loop_res_rel [where R = disk_only]) (auto intro: raid_write_frame disk_only_trans)
  with u(2) show ?thesis by (rule disk_only_trans)
qed

lemma swap_in_page_frame:
  assumes "swap_in_page x i s = Ok (y, t)"
  shows "disk_only s t"
proof -
  have "disk_only (snd (x, s)) (snd (y, t))"
    using assms unfolding swap_in_page_def Let_def
    by (split if_splits; clarsimp simp del: snd_conv)
       (erule loop_res_rel [where R = "\<lambda>a b. disk_only (snd a) (snd b)"],
        auto intro: disk_only_trans dest!: raid_read_frame)
  then show ?thesis by simp
qed

lemma free_block_frame [simp]: "disk_only s (free_block m b t) = disk_only s t"
  by (simp add: free_block_def Let_def)

lemma swap_disk_free_slot_frame [simp]: "disk_only s (swap_disk_free_slot i s)"
  by (simp add: swap_disk_free_slot_def Let_def upt_rec)

section \<open>Frames and swapping\<close>

lemma frametablefree_frame: "frametablefree pa s = Ok t \<Longrightarrow> undisturbed s t"
  by (auto simp: frametablefree_def Let_def lock_iffs undisturbed_def upd_proc_def upd_frame_def split: option.splits)

lemma kfree_frame:
  assumes "kfree pa s = Ok t"
  shows "undisturbed s t"
proof -
  obtain u where u: "frametablefree pa s = Ok u" "undisturbed u t"
    using assms by (auto simp: kfree_def Let_def lock_iffs undisturbed_def memset_page_def split: if_splits)
  show ?thesis using frametablefree_frame [OF u(1)] u(2) by (rule undisturbed_trans)
qed

lemma swap_free_frame:
  assumes "swap_free i s = Ok t"
  shows "undisturbed s t"
proof -
  have "undisturbed u (swap_disk_free_slot i u)" for u :: "'a kmem_scheme"
    by (rule disk_only_undisturbed) simp
  then show ?thesis using assms by (auto simp: swap_free_def Let_def lock_iffs undisturbed_def split: if_splits)
qed

text \<open>The accounting of a transfer to the running process, if there is one.\<close>

lemma account_sel [simp]:
  "undisturbed s (case x of None \<Rightarrow> t | Some p \<Rightarrow> upd_proc p (f p) t) = undisturbed s t"
  "mem (case x of None \<Rightarrow> t | Some p \<Rightarrow> upd_proc p (f p) t) = mem t"
  by (simp_all split: option.split)

lemma swapout_frame:
  assumes "swapout pt va s = Ok (r, t)"
  shows "undisturbed s t"
proof (cases "search (\<lambda>i. \<not> sused (swaptable s i)) 0 MAX_SWAP")
  case None
  then show ?thesis
    using assms by (auto simp: swapout_def Let_def lock_iffs undisturbed_def split: option.split_asm if_split_asm)
next
  case (Some i)
  obtain w where "walk_lookup (mem s) pt va = Ok w" using assms unfolding swapout_def bindr_Ok_iff by blast
  with Some assms consider "t = s"
    | x u v where "swap_out_page x (int i) u = Ok v" "undisturbed s u" "undisturbed v t"
    by (cases w) (auto simp: swapout_def Let_def lock_iffs undisturbed_def [of s] simp del: walk_lookup_walk split: if_split_asm)
  then show ?thesis
    by cases (auto dest!: swap_out_page_frame [THEN disk_only_undisturbed] intro: undisturbed_trans)
qed

lemma swapin_frame:
  assumes "swapin pa i s = Ok t"
  shows "undisturbed s t"
proof -
  obtain y u v where u: "swap_in_page (ld_bytes (mem s) pa 4096) i s = Ok (y, u)" "undisturbed u v" "swap_free i v = Ok t"
    using assms by (auto simp: swapin_def Let_def lock_iffs split: if_split_asm)
      (erule that [rotated 2], assumption, simp)
  have "undisturbed s u" using swap_in_page_frame [OF u(1)] by (rule disk_only_undisturbed)
  with u(2) swap_free_frame [OF u(3)] show ?thesis by (blast intro: undisturbed_trans)
qed

section \<open>Eviction and allocation\<close>

lemma clock_step_frame: "clock_step (b, l, s) = Ok (b', l', t) \<Longrightarrow> undisturbed s t"
  by (auto simp: clock_step_def Let_def split: option.split_asm if_split_asm)

lemma clock_scan_frame:
  assumes "clock_scan s = Ok (b, l, t)"
  shows "undisturbed s t"
proof -
  have "undisturbed (snd (snd (None :: nat option, 0 :: int, s))) (snd (snd (b, l, t)))"
    using assms unfolding clock_scan_def
    by (rule loop_res_rel [where R = "\<lambda>x y. undisturbed (snd (snd x)) (snd (snd y))"]) (auto intro: clock_step_frame undisturbed_trans)
  then show ?thesis by simp
qed

lemma clock_evict_frame:
  assumes "clock_evict s = Ok (pa, t)"
  shows "undisturbed s t"
proof -
  obtain b l u where u: "clock_scan (s\<lparr>held := insert FrameLock (held s)\<rparr>) = Ok (b, l, u)" "FrameLock \<notin> held s"
    using assms by (auto simp: clock_evict_def lock_iffs)
  define i where "i = (if b = None then fallback_frame u else b)"
  have su: "kmem.more u = kmem.more s" "held u = insert FrameLock (held s)" "cpu_proc u = cpu_proc s"
    using clock_scan_frame [OF u(1)] by (simp_all add: undisturbed_def)
  show ?thesis
  proof (cases i)
    case None
    then show ?thesis using assms u su by (auto simp: clock_evict_def lock_iffs i_def Let_def undisturbed_def)
  next
    case (Some j)
    then obtain v r w x t' where w: "swapout v r w = Ok (x, t')" "undisturbed s w" "undisturbed t' t"
      using assms u su
      by (auto simp: clock_evict_def lock_iffs i_def [symmetric] Let_def undisturbed_def upd_frame_def upd_proc_def
          split: option.split_asm if_split_asm)
    show ?thesis using swapout_frame [OF w(1)] w(2,3) by (blast intro: undisturbed_trans)
  qed
qed

lemma kalloc_frame: "kalloc s = Ok (pa, t) \<Longrightarrow> undisturbed s t"
  by (auto simp: kalloc_def Let_def lock_iffs memset_page_def split: if_split_asm dest!: clock_evict_frame)

lemma frametable_alloc_frame: "frametable_alloc pa p va s = Ok t \<Longrightarrow> undisturbed s t"
  by (auto simp: frametable_alloc.simps [of pa p va s] Let_def lock_iffs clock_evict_framelock undisturbed_def
      upd_proc_def upd_frame_def split: option.split_asm if_split_asm)

lemma get_frame_frame:
  assumes "get_frame s = Ok (pa, t)"
  shows "undisturbed s t"
proof -
  have "(\<exists>a u. kalloc s = Ok (a, u) \<and> (u = t \<or> clock_evict u = Ok (pa, t))) \<or> clock_evict s = Ok (pa, t)"
    using assms by (auto simp: get_frame_def lock_iffs Let_def split: if_split_asm)
  then show ?thesis by (auto dest!: kalloc_frame clock_evict_frame intro: undisturbed_trans)
qed

section \<open>Page tables and user memory\<close>

lemma walk_from_frame: "walk_from level pt va al s = Ok (r, t) \<Longrightarrow> undisturbed s t"
proof (induction level arbitrary: pt s)
  case (Suc level)
  from Suc.prems consider q where "walk_from level q va al s = Ok (r, t)" | "t = s" | q u where "kalloc s = Ok (q, u)" "u = t"
    | q u m where "kalloc s = Ok (q, u)" "walk_from level q va al (u\<lparr>mem := m\<rparr>) = Ok (r, t)"
    by (auto simp: Let_def memset_page_def split: if_split_asm)
  then show ?case
    by cases (auto dest!: Suc.IH kalloc_frame simp: undisturbed_def)
qed simp

lemma walk_frame: "walk pt va al s = Ok (r, t) \<Longrightarrow> undisturbed s t"
  by (auto simp: walk_def split: if_split_asm dest: walk_from_frame)

lemma mappages_loop_frame: "mappages_loop pt a l pa perm s = Ok (r, t) \<Longrightarrow> undisturbed s t"
proof (induction "unat MAXVA - unat a" arbitrary: a pa s rule: less_induct)
  case less
  from less.prems obtain q u where u: "walk pt a True s = Ok (q, u)"
    by (subst (asm) mappages_loop.simps) auto
  with less.prems consider "t = u" | m where "t = u\<lparr>mem := m\<rparr>"
    | m where "mappages_loop pt (a + PGSIZE) l (pa + PGSIZE) perm (u\<lparr>mem := m\<rparr>) = Ok (r, t)"
    by (subst (asm) mappages_loop.simps) (auto simp: Let_def split: option.split_asm if_split_asm)
  then have "undisturbed u t"
    by cases (auto dest!: less.hyps [OF below_MAXVA_next [OF walk_OkD [OF u]]] simp: undisturbed_def)
  with walk_frame [OF u] show ?case by (rule undisturbed_trans)
qed

lemma mappages_frame: "mappages pt va len pa perm s = Ok (r, t) \<Longrightarrow> undisturbed s t"
  by (auto simp: mappages_def split: if_split_asm dest: mappages_loop_frame)

lemmas memory_frames = get_frame_frame swapin_frame frametable_alloc_frame mappages_frame kfree_frame walk_frame

lemma vmfault_frame: "vmfault pt va s = Ok (r, t) \<Longrightarrow> undisturbed s t"
  by (auto simp: vmfault_def Let_def split: option.split_asm if_split_asm dest!: memory_frames)
     (auto simp: undisturbed_def upd_proc_def memset_page_def)

lemma user_page_frame: "user_page pt va s = Ok (pa, t) \<Longrightarrow> undisturbed s t"
  by (auto simp: user_page_def Let_def split: if_split_asm dest: vmfault_frame)

theorem copyout_frame: "copyout pt va bs s = Ok (r, t) \<Longrightarrow> undisturbed s t"
proof (induction "length bs" arbitrary: bs va s rule: less_induct)
  case less
  show ?case
  proof (cases "bs = [] \<or> PGROUNDDOWN va \<ge> MAXVA")
    case False
    with less.prems obtain pa u where u: "user_page pt (PGROUNDDOWN va) s = Ok (pa, u)"
      by (subst (asm) copyout.simps) (auto simp: Let_def)
    from False u less.prems consider "t = u" | q v where "walk pt (PGROUNDDOWN va) False u = Ok (q, v)" "t = v"
      | q v m where "walk pt (PGROUNDDOWN va) False u = Ok (q, v)"
        "copyout pt (PGROUNDDOWN va + PGSIZE) (drop (chunk va (length bs)) bs) (v\<lparr>mem := m\<rparr>) = Ok (r, t)"
      by (subst (asm) copyout.simps) (auto simp: Let_def split: option.split_asm if_split_asm)
    then have "undisturbed u t"
      using False chunk_pos [of "length bs" va]
      by cases (auto dest!: walk_frame less.hyps [rotated] simp: undisturbed_def)
    with user_page_frame [OF u] show ?thesis by (rule undisturbed_trans)
  qed (use less.prems in \<open>auto simp: copyout.simps [of pt va bs s] Let_def split: if_split_asm\<close>)
qed

theorem copyin_frame: "copyin pt va n s = Ok (r, bs, t) \<Longrightarrow> undisturbed s t"
proof (induction n arbitrary: va s bs rule: less_induct)
  case (less n)
  show ?case
  proof (cases "n = 0")
    case False
    with less.prems obtain pa u where u: "user_page pt (PGROUNDDOWN va) s = Ok (pa, u)"
      by (subst (asm) copyin.simps) (auto simp: Let_def)
    have "undisturbed u t"
      using False u less.prems less.IH [of "n - chunk va n"] chunk_pos [of n va]
      by (subst (asm) copyin.simps) (auto simp: Let_def split: if_split_asm)
    with user_page_frame [OF u] show ?thesis by (rule undisturbed_trans)
  qed (use less.prems in \<open>simp add: copyin.simps\<close>)
qed

section \<open>Sleep and wakeup\<close>

theorem wakeup_frame: "wakeup ch s = Ok t \<Longrightarrow> undisturbed s t"
  unfolding wakeup_def
  by (erule loop_res_rel [where R = undisturbed])
     (auto simp: Let_def lock_iffs undisturbed_def upd_proc_def split: if_split_asm)

lemma wakeup_user:
  assumes "wakeup ch s = Ok t"
  shows "mem t = mem s \<and> pagetable (procs t p) = pagetable (procs s p) \<and> killed (procs t p) = killed (procs s p)"
  using assms unfolding wakeup_def
  by (rule loop_res_rel [where R = "\<lambda>s t. mem t = mem s \<and> pagetable (procs t p) = pagetable (procs s p) \<and>
      killed (procs t p) = killed (procs s p)"])
     (auto simp: Let_def lock_iffs upd_proc_def split: if_split_asm)

lemma is_killed_frame: "is_killed p s = Ok (k, t) \<Longrightarrow> t = s \<and> k = killed (procs s p)"
  by (auto simp: is_killed_def Let_def lock_iffs)

lemma sched_frame: "sched s = Ok t \<Longrightarrow> t = s"
  by (auto simp: sched_def split: option.split_asm if_split_asm)

lemma sleep_frame:
  assumes "sleep ch lk s = Ok t"
  shows "kmem.more t = kmem.more s" "cpu_proc t = cpu_proc s" "lk \<notin> held t"
  using assms by (auto simp: sleep_def lock_iffs upd_proc_def dest!: sched_frame split: option.split_asm)

lemma sleep_back_frame:
  assumes "sleep_back lk s = Ok t"
  shows "kmem.more t = kmem.more s" "lk \<in> held t" "cpu_proc t = cpu_proc s"
  using assms by (auto simp: sleep_back_def lock_iffs upd_proc_def myproc_def split: option.split_asm)

lemma is_killed_ok: "plocks_free s \<Longrightarrow> is_killed p s = Ok (killed (procs s p), s)"
  by (simp add: is_killed_def plocks_free_def Let_def)

section \<open>Bytes of user memory\<close>

text \<open>The bytes a process sees in a buffer, and copies of single bytes from and to it.\<close>

definition user_bytes :: "bytemem \<Rightarrow> uint64 \<Rightarrow> uint64 \<Rightarrow> nat \<Rightarrow> uint8 list" where
  "user_bytes m pt a n = map (\<lambda>i. user_byte m pt (a + of_nat i)) [0..<n]"

definition user_present :: "bytemem \<Rightarrow> uint64 \<Rightarrow> uint64 \<Rightarrow> nat \<Rightarrow> bool" where
  "user_present m pt a n \<longleftrightarrow> unat a + n \<le> unat MAXVA \<and> (\<forall>i<n. walkaddr m pt (PGROUNDDOWN (a + of_nat i)) \<noteq> 0)"

lemma copyin_byte:
  assumes "user_present (mem s) pt a n" "i < n"
  shows "copyin pt (a + of_nat i) 1 s = Ok (0, [user_byte (mem s) pt (a + of_nat i)], s)"
proof -
  have "unat (a + of_nat i) = unat a + i"
    using assms by (subst unat_add_lem [THEN iffD1]) (simp_all add: unat_of_nat user_present_def)
  then show ?thesis using copyin_reads [of "a + of_nat i" 1 s pt] assms by (simp add: user_present_def)
qed

text \<open>User memory after \<open>bs\<close> has been stored at \<open>a\<close>.\<close>

definition user_put :: "bytemem \<Rightarrow> uint64 \<Rightarrow> uint64 \<Rightarrow> uint8 list \<Rightarrow> bytemem \<Rightarrow> bool" where
  "user_put m pt a bs m' \<longleftrightarrow>
     (\<forall>va. walkaddr m pt (PGROUNDDOWN va) \<noteq> 0 \<longrightarrow> user_byte m' pt va =
        (if unat a \<le> unat va \<and> unat va < unat a + length bs then bs ! (unat va - unat a) else user_byte m pt va))"

lemma user_put_Nil: "user_put m pt a [] m"
  by (auto simp: user_put_def)

lemma user_put_Cons:
  assumes "user_put m pt a [c] m1" "walkaddr m1 pt = walkaddr m pt" "unat (a + 1) = unat a + 1" "user_put m1 pt (a + 1) cs m2"
  shows "user_put m pt a (c # cs) m2"
  unfolding user_put_def
proof (intro allI impI)
  fix va
  assume va: "walkaddr m pt (PGROUNDDOWN va) \<noteq> 0"
  then have "user_byte m2 pt va = (if unat a + 1 \<le> unat va \<and> unat va < unat a + 1 + length cs
      then cs ! (unat va - (unat a + 1)) else user_byte m1 pt va)"
    "user_byte m1 pt va = (if unat a \<le> unat va \<and> unat va < unat a + 1 then c else user_byte m pt va)"
    using assms by (simp_all add: user_put_def)
  then show "user_byte m2 pt va = (if unat a \<le> unat va \<and> unat va < unat a + length (c # cs)
      then (c # cs) ! (unat va - unat a) else user_byte m pt va)"
    by (auto simp: nth_Cons' not_le)
qed

lemma copyout_byte:
  assumes "user_ok (mem s) pt" "user_writable (mem s) pt a (Suc n)"
  shows "\<exists>m'. copyout pt a [c] s = Ok (0, s\<lparr>mem := m'\<rparr>) \<and> walkaddr m' pt = walkaddr (mem s) pt \<and> user_ok m' pt \<and>
    user_writable m' pt (a + 1) n \<and> unat (a + 1) = unat a + 1 \<and> user_put (mem s) pt a [c] m'"
proof -
  have a: "unat (a + 1) = unat a + 1"
    using assms(2) by (subst unat_add_lem [THEN iffD1]) (simp_all add: user_writable_def)
  then have n: "user_writable (mem s) pt (a + 1) n"
    using user_writable_drop [OF assms(2), of 1 "a + 1"] by simp
  have "user_writable (mem s) pt a (length [c])"
    using assms(2) spec [of "\<lambda>i. i < Suc n \<longrightarrow> walkaddr (mem s) pt (PGROUNDDOWN (a + of_nat i)) \<noteq> 0 \<and>
      pte_of (mem s) pt (a + of_nat i) AND PTE_W \<noteq> 0" 0] by (auto simp: user_writable_def)
  from copyout_writes [OF assms(1) this] obtain m' where m': "copyout pt a [c] s = Ok (0, s\<lparr>mem := m'\<rparr>)"
    "walkaddr m' pt = walkaddr (mem s) pt" "user_ok m' pt" "pte_of m' pt = pte_of (mem s) pt" "user_put (mem s) pt a [c] m'"
    unfolding user_put_def by blast
  then show ?thesis using n a by (intro exI [of _ m']) (auto simp: user_writable_def)
qed

end
