(* ===== verification/Fs_Blocks.thy ===== *)
theory Fs_Blocks
  imports Fs
begin

text \<open>The blocks of the file system inside a transaction: reading a block and updating it through the log, and the
  block allocator on top of them.\<close>

unbundle bit_operations_syntax

section \<open>Blocks in a transaction\<close>

text \<open>What logged file system code changes of the state: the cache and the log header.\<close>

definition log_step :: "'z klog_scheme \<Rightarrow> 'z klog_scheme \<Rightarrow> bool" where
  "log_step s t \<longleftrightarrow> bio_frame s (t\<lparr>lh_n := lh_n s, lh_block := lh_block s\<rparr>)"

lemma bio_frame_header:
  fixes s t :: "'z klog_scheme"
  assumes "bio_frame s t"
  shows "bio_frame (s\<lparr>lh_n := x, lh_block := y\<rparr>) (t\<lparr>lh_n := x, lh_block := y\<rparr>)"
proof -
  obtain P K B L D W where t: "t = s\<lparr>procs := P, slk := K, bufs := B, lru := L, disk := D, dwrites := W\<rparr>"
    "\<And>p. woken_up (procs s p) (P p)" using assms unfolding bio_frame_def by blast
  show ?thesis
    by (rule bio_frameI [where P = P and K = K and B = B and L = L and D = D and W = W]) (use t in \<open>cases s, simp_all\<close>)
qed

lemma log_step_bio: "bio_frame s t \<Longrightarrow> log_step s t"
  using log_frame(5,6) [of s t] bio_frame_header [where x = "lh_n s" and y = "lh_block s" and s = s and t = t] by (simp add: log_step_def)

lemma log_step_trans [trans]:
  assumes "log_step s t" "log_step t u"
  shows "log_step s u"
proof -
  have "bio_frame (t\<lparr>lh_n := lh_n s, lh_block := lh_block s\<rparr>) (u\<lparr>lh_n := lh_n s, lh_block := lh_block s\<rparr>)"
    using bio_frame_header [OF assms(2) [unfolded log_step_def], where x = "lh_n s" and y = "lh_block s"] by simp
  with assms(1) show ?thesis unfolding log_step_def by (rule bio_frame_trans)
qed

lemma log_step_sel:
  fixes s t :: "'z klog_scheme"
  assumes "log_step s t"
  shows "log_start t = log_start s" "log_dev t = log_dev s" "outstanding t = outstanding s" "committing t = committing s"
    "held t = held s" "myproc t = myproc s" "mypid t = mypid s" "klog.more t = klog.more s" "mem t = mem s"
proof -
  note f = assms [unfolded log_step_def]
  show "log_start t = log_start s" "log_dev t = log_dev s" "outstanding t = outstanding s" "committing t = committing s"
    using log_frame [OF f] by simp_all
  show "held t = held s" "myproc t = myproc s" "mypid t = mypid s" "mem t = mem s"
    using bio_frame_sel [OF f] by (simp_all add: myproc_def mypid_def cong: option.case_cong)
  obtain P K B L D W where "t\<lparr>lh_n := lh_n s, lh_block := lh_block s\<rparr> = s\<lparr>procs := P, slk := K, bufs := B, lru := L, disk := D, dwrites := W\<rparr>"
    using f unfolding bio_frame_def by blast
  from arg_cong [OF this, of klog.more] show "klog.more t = klog.more s" by simp
qed

lemma log_step_fs:
  fixes s t :: "'z kfs_scheme"
  assumes "log_step s t"
  shows "sb t = sb s" "inodes t = inodes s"
  using log_step_sel(8) [OF assms] by (cases s; cases t; simp)+

lemma log_step_lh [simp]: "log_step s (s\<lparr>lh_n := x\<rparr>)" "log_step s (s\<lparr>lh_block := y\<rparr>)" "log_step s s"
  by (simp_all add: log_step_def)

text \<open>A transaction in progress, on a path that holds the buffers \<open>H\<close>.\<close>

definition logging :: "nat set \<Rightarrow> nat set \<Rightarrow> nat \<Rightarrow> 'z klog_scheme \<Rightarrow> bool" where
  "logging H P n s \<longleftrightarrow> cache_ok H P s \<and> log_dev s = ROOTDEV \<and> lh_n s = int n \<and> n < NBUF \<and> inj_on (lh_block s) {..<n} \<and>
     (\<forall>i < n. lh_block s i \<notin> log_area (log_start s) \<and> lh_block s i < 2 ^ 32) \<and>
     (\<lambda>b. blockno (bufs s b)) ` P = lh_block s ` {..<n} \<and> outstanding s \<ge> 1"

lemma logging_txn: "logging {} P n s \<longleftrightarrow> txn P n s \<and> outstanding s \<ge> 1"
  by (auto simp: logging_def txn_def)

lemma loggingD:
  assumes "logging H P n s"
  shows "cache_ok H P s" "log_dev s = ROOTDEV" "lh_n s = int n" "n < NBUF" "inj_on (lh_block s) {..<n}"
    "i < n \<Longrightarrow> lh_block s i \<notin> log_area (log_start s)" "i < n \<Longrightarrow> lh_block s i < 2 ^ 32"
    "(\<lambda>b. blockno (bufs s b)) ` P = lh_block s ` {..<n}" "outstanding s \<ge> 1"
  using assms unfolding logging_def by blast+

lemma logging_keep:
  assumes "logging H P n s" "cache_ok H' P t" "bio_frame s t" "\<And>b. b \<in> P \<Longrightarrow> blockno (bufs t b) = blockno (bufs s b)"
  shows "logging H' P n t"
proof -
  have "(\<lambda>b. blockno (bufs t b)) ` P = (\<lambda>b. blockno (bufs s b)) ` P" using assms(4) by (rule image_cong [OF refl])
  then show ?thesis using loggingD [OF assms(1)] log_frame [OF assms(3)] assms(2) unfolding logging_def by simp
qed

lemma pin_facts:
  assumes "cache_ok H P s" "b \<in> P"
  shows "b < NBUF" "bdev (bufs s b) = ROOTDEV"
  using cache_okD(4) [OF assms(1)] assms(2) by (auto simp: counts_ok_def)

lemma pin_unique:
  assumes "cache_ok H P s" "b \<in> H \<union> P" "c \<in> H \<union> P" "blockno (bufs s b) = blockno (bufs s c)"
  shows "b = c"
proof -
  have "b < NBUF" "bdev (bufs s b) = ROOTDEV" if "b \<in> H \<union> P" for b using cache_okD(4) [OF assms(1)] that by (auto simp: counts_ok_def)
  then show ?thesis using keys_okD [OF cache_okD(3) [OF assms(1)]] assms(2-4) by blast
qed

lemma logging_card:
  assumes "logging H P n s"
  shows "card P = n"
proof -
  note l = loggingD [OF assms]
  have "inj_on (\<lambda>b. blockno (bufs s b)) P" by (rule inj_onI) (rule pin_unique [OF l(1)], simp_all)
  then have "card P = card (lh_block s ` {..<n})" using l(8) card_image by metis
  also have "\<dots> = n" using card_image [OF l(5)] by simp
  finally show ?thesis .
qed

lemma logging_room:
  assumes "logging H P n s" "card H + n < NBUF"
  shows "card (H \<union> P) < NBUF"
  using card_Un_le [of H P] logging_card [OF assms(1)] assms(2) by linarith

lemma log_write_new:
  assumes l: "logging H P n s" and b: "b \<in> H" "b \<notin> P" and a: "blockno (bufs s b) \<notin> log_area (log_start s)" "blockno (bufs s b) < 2 ^ 32"
    and n: "Suc n < NBUF"
  defines "t \<equiv> upd_buf b (\<lambda>x. x\<lparr>refcnt := uint_inc (refcnt x)\<rparr>) s\<lparr>lh_block := (lh_block s)(n := blockno (bufs s b)), lh_n := int (Suc n)\<rparr>"
  shows "log_write b s = Ok t" "logging H (insert b P) (Suc n) t"
proof -
  note d = loggingD [OF l]
  have h: "held s = {}" using cache_okD(1) [OF d(1)] by (simp add: path_ok_def)
  have new: "lh_block s i \<noteq> blockno (bufs s b)" if "i < n" for i
  proof
    assume e: "lh_block s i = blockno (bufs s b)"
    then have "blockno (bufs s b) \<in> (\<lambda>b. blockno (bufs s b)) ` P" unfolding d(8) using that by (metis imageI lessThan_iff)
    then obtain p where "p \<in> P" "blockno (bufs s p) = blockno (bufs s b)" by auto
    then show False using pin_unique [OF d(1), of p b] b by auto
  qed
  then have "search (\<lambda>i. lh_block s i = blockno (bufs s b)) 0 n = None" by (simp add: search_None_iff)
  then show "log_write b s = Ok t"
    using d(3,4,9) h by (simp add: log_write_def LOGBLOCKS_def NBUF_def bpin_def held_update_id t_def upd_buf_def)
  have img: "(\<lambda>c. blockno (bufs t c)) ` insert b P = lh_block t ` {..<Suc n}"
  proof -
    have "(\<lambda>c. blockno (bufs t c)) ` P = (\<lambda>c. blockno (bufs s c)) ` P" by (rule image_cong) (simp_all add: t_def)
    moreover have "lh_block t ` {..<n} = lh_block s ` {..<n}" by (rule image_cong) (simp_all add: t_def)
    ultimately show ?thesis using d(8) by (simp add: lessThan_Suc) (simp add: t_def)
  qed
  have "inj_on (lh_block t) {..<Suc n}"
  proof (rule inj_onI)
    fix x y assume xy: "x \<in> {..<Suc n}" "y \<in> {..<Suc n}" "lh_block t x = lh_block t y"
    then show "x = y" using new [of x] new [of y] inj_onD [OF d(5), of x y]
      by (cases "x = n"; cases "y = n") (simp_all add: t_def less_Suc_eq)
  qed
  moreover have "lh_block t i \<notin> log_area (log_start t) \<and> lh_block t i < 2 ^ 32" if "i < Suc n" for i
    using that d(6,7) [of i] a by (auto simp: t_def less_Suc_eq upd_buf_def)
  moreover have "cache_ok H (insert b P) t" using pin_ok(1) [OF d(1) b] by (simp add: t_def)
  moreover have "log_dev t = ROOTDEV" "lh_n t = int (Suc n)" "outstanding t \<ge> 1" using d(2,9) by (simp_all add: t_def upd_buf_def)
  ultimately show "logging H (insert b P) (Suc n) t" using img n unfolding logging_def by blast
qed

lemma log_write_again:
  assumes l: "logging H P n s" and b: "b \<in> P"
  shows "log_write b s = Ok s"
proof -
  note d = loggingD [OF l]
  have h: "held s = {}" using cache_okD(1) [OF d(1)] by (simp add: path_ok_def)
  have "blockno (bufs s b) \<in> lh_block s ` {..<n}" unfolding d(8) [symmetric] using b by simp
  then have "search (\<lambda>i. lh_block s i = blockno (bufs s b)) 0 n \<noteq> None" by (auto simp: search_None_iff)
  then obtain i where i: "search (\<lambda>i. lh_block s i = blockno (bufs s b)) 0 n = Some i" by auto
  then have "i < n" "lh_block s i = blockno (bufs s b)" by (auto dest: search_SomeD)
  then show ?thesis
    using d(3,4,9) h i by (simp add: log_write_def LOGBLOCKS_def NBUF_def held_update_id fun_upd_idem)
qed

text \<open>A held buffer is logged: afterwards it is pinned, and readers see what they saw before.\<close>

lemma log_write_ok:
  assumes l: "logging H P n s" and b: "b \<in> H" and a: "blockno (bufs s b) \<notin> log_area (log_start s)" "blockno (bufs s b) < 2 ^ 32"
    and n: "Suc n < NBUF"
  obtains t P' n' where "log_write b s = Ok t" "logging H P' n' t" "b \<in> P'" "P \<subseteq> P'" "P' \<subseteq> insert b P" "n' \<le> Suc n"
    "view t = view s" "disk t = disk s" "\<And>c. c \<noteq> b \<Longrightarrow> bufs t c = bufs s c" "blockno (bufs t b) = blockno (bufs s b)"
    "bdata (bufs t b) = bdata (bufs s b)" "log_step s t"
proof (cases "b \<in> P")
  case True
  then show thesis using that [OF log_write_again [OF l True] l True] by auto
next
  case False
  note w = log_write_new [OF l b False a n]
  let ?u = "upd_buf b (\<lambda>x. x\<lparr>refcnt := uint_inc (refcnt x)\<rparr>) s"
  have "log_step s (?u\<lparr>lh_block := y, lh_n := x\<rparr>)" for x y
    using log_step_trans [OF log_step_trans [OF log_step_bio [OF bio_frame_upd(2)] log_step_lh(2)] log_step_lh(1)] .
  moreover have "view ?u = view s" using pin_ok(2) [OF loggingD(1) [OF l] b False] .
  ultimately show thesis using that [OF w(1,2)] by auto
qed

text \<open>Reading a block, and updating one through the log, as every function of the file system does it.\<close>

lemma block_read:
  assumes l: "logging H P n s" and a: "\<And>b. b \<in> H \<Longrightarrow> blockno (bufs s b) \<noteq> a" and room: "card H + n < NBUF"
  obtains b u where "bread ROOTDEV a s = Ok (b, u)" "logging (insert b H) P n u" "b \<notin> H" "bdata (bufs u b) = view s a"
    "blockno (bufs u b) = a" "view u = view s" "disk u = disk s" "bio_frame s u" "\<And>c. c \<noteq> b \<Longrightarrow> bufs u c = bufs s c"
    "b \<in> P \<or> view s a = disk s a"
proof -
  note d = loggingD [OF l]
  obtain b u where r: "bread ROOTDEV a s = Ok (b, u)" "cache_ok (insert b H) P u" "b \<notin> H" "bufs u b = read_buf P a b s"
    "\<And>c. c \<noteq> b \<Longrightarrow> bufs u c = bufs s c" "b \<in> P \<longrightarrow> blockno (bufs s b) = a" "\<And>b'. keyed s a b' \<Longrightarrow> b' = b"
    "view u = view s" "disk u = disk s" "bio_frame s u"
    by (rule bread_ok [OF d(1), of a]) (use logging_room [OF l room] a in simp_all)
  have "logging (insert b H) P n u"
  proof (rule logging_keep [OF l r(2,10)])
    show "blockno (bufs u c) = blockno (bufs s c)" if "c \<in> P" for c
      using that r(4-6) by (cases "c = b") (simp_all add: read_buf_def)
  qed
  moreover have "view s a = disk s a" if "b \<notin> P"
  proof (rule view_disk [OF d(1)])
    fix c assume c: "c \<in> H \<union> P"
    show "blockno (bufs s c) \<noteq> a"
    proof
      assume e: "blockno (bufs s c) = a"
      then have "c \<in> P" using c a by blast
      then have "keyed s a c" using pin_facts [OF d(1)] e by (simp add: keyed_def)
      then show False using r(7) \<open>c \<in> P\<close> that by blast
    qed
  qed
  ultimately show thesis using that [OF r(1) _ r(3)] r(4,5,8-10) by (auto simp: read_buf_def)
qed

lemma block_release:
  assumes l: "logging (insert b H) P n s" and b: "b \<notin> H" "b \<in> P \<or> bdata (bufs s b) = disk s (blockno (bufs s b))"
  obtains t where "brelse b s = Ok t" "logging H P n t" "view t = view s" "disk t = disk s" "bio_frame s t"
    "\<And>c. c \<in> H \<Longrightarrow> bufs t c = bufs s c"
proof -
  obtain t where t: "brelse b s = Ok t" "cache_ok (insert b H - {b}) P t" "bufs t = (bufs s)(b := (bufs s b)\<lparr>refcnt := if b \<in> P then 1 else 0\<rparr>)"
    "view t = view s" "disk t = disk s" "bio_frame s t"
    by (rule brelse_ok [OF loggingD(1) [OF l], of b]) (use b in simp_all)
  have "logging H P n t" by (rule logging_keep [OF l _ t(6)]) (use t(2,3) b in simp_all)
  then show thesis by (rule that [OF t(1) _ t(4,5,6)]) (use t(3) b in auto)
qed

lemma block_store:
  fixes s :: "'z klog_scheme"
  assumes l: "logging (insert b H) P n s" and b: "b \<notin> H" and n: "Suc n < NBUF"
    and home: "blockno (bufs s b) \<notin> log_area (log_start s)" "blockno (bufs s b) < 2 ^ 32"
  shows "\<exists>t P' n'. bindr (log_write b (set_data b d s)) (brelse b) = Ok t \<and> logging H P' n' t \<and> n' \<le> Suc n \<and>
    view t = (view s)(blockno (bufs s b) := d) \<and> disk t = disk s \<and> log_step s t \<and> (\<forall>c \<in> H. bufs t c = bufs s c)"
proof -
  let ?v = "set_data b d s"
  note sd = set_data_ok [OF loggingD(1) [OF l], of b d]
  have lv: "logging (insert b H) P n ?v"
    by (rule logging_keep [OF l sd(1) set_data_sel(4)]) simp_all
  obtain w P' n' where w: "log_write b ?v = Ok w" "logging (insert b H) P' n' w" "b \<in> P'" "n' \<le> Suc n" "view w = view ?v" "disk w = disk ?v"
    "\<And>c. c \<noteq> b \<Longrightarrow> bufs w c = bufs ?v c" "log_step ?v w"
    by (rule log_write_ok [OF lv, of b]) (use home n log_frame(1) [OF set_data_sel(4), of b d s] in simp_all)
  obtain t where t: "brelse b w = Ok t" "logging H P' n' t" "view t = view w" "disk t = disk w" "bio_frame w t"
    "\<And>c. c \<in> H \<Longrightarrow> bufs t c = bufs w c"
    by (rule block_release [OF w(2) b]) (use w(3) in simp_all)
  have "log_step s t" by (rule log_step_trans [OF log_step_trans [OF log_step_bio [OF set_data_sel(4)] w(8)] log_step_bio [OF t(5)]])
  moreover have "bufs t c = bufs s c" if "c \<in> H" for c
  proof -
    have "c \<noteq> b" using that b by blast
    then show ?thesis using t(6) [OF that] w(7) [of c] by simp
  qed
  ultimately show ?thesis using w(1,4-6) t(1-4) sd(2) by auto
qed

lemma block_update:
  fixes s :: "'z klog_scheme"
  assumes l: "logging H P n s" and a: "\<And>b. b \<in> H \<Longrightarrow> blockno (bufs s b) \<noteq> a" and room: "card H + Suc n < NBUF"
    and home: "a \<notin> log_area (log_start s)" "a < 2 ^ 32"
  shows "\<exists>t P' n'. bindr (bread ROOTDEV a s) (\<lambda>(b, s). bindr (log_write b (set_data b (f (bdata (bufs s b))) s)) (brelse b)) = Ok t \<and>
    logging H P' n' t \<and> n' \<le> Suc n \<and> view t = (view s)(a := f (view s a)) \<and> disk t = disk s \<and> log_step s t \<and> (\<forall>c \<in> H. bufs t c = bufs s c)"
proof -
  obtain b u where r: "bread ROOTDEV a s = Ok (b, u)" "logging (insert b H) P n u" "b \<notin> H" "bdata (bufs u b) = view s a"
    "blockno (bufs u b) = a" "view u = view s" "disk u = disk s" "bio_frame s u" "\<And>c. c \<noteq> b \<Longrightarrow> bufs u c = bufs s c"
    by (rule block_read [OF l a]) (use room in simp_all)
  obtain t P' n' where t: "bindr (log_write b (set_data b (f (view s a)) u)) (brelse b) = Ok t" "logging H P' n' t" "n' \<le> Suc n"
    "view t = (view u)(a := f (view s a))" "disk t = disk u" "log_step u t" "\<forall>c \<in> H. bufs t c = bufs u c"
    using block_store [OF r(2,3), of "f (view s a)"] r(5) home room log_frame(1) [OF r(8)] by auto
  have "bufs t c = bufs s c" if "c \<in> H" for c
  proof -
    have "c \<noteq> b" using that r(3) by blast
    then show ?thesis using t(7) that r(9) [of c] by simp
  qed
  then show ?thesis using r(1,4,6,7) t(1-5) log_step_trans [OF log_step_bio [OF r(8)] t(6)] by auto
qed

section \<open>The bitmap\<close>

lemma bit_clear_iff: "bit_clear d i \<longleftrightarrow> \<not> bit (d ! (i div 8)) (i mod 8)"
  by (simp add: bit_clear_def push_bit_eq_mult and_exp_eq_0_iff_not_bit)

lemma bitmap_update:
  assumes "length d = BSIZE" "i < BPB" "j < BPB"
  shows "bit_clear (set_bitmap i d) j \<longleftrightarrow> bit_clear d j \<and> j \<noteq> i" "bit_clear (clear_bitmap i d) j \<longleftrightarrow> bit_clear d j \<or> j = i"
    "length (set_bitmap i d) = BSIZE" "length (clear_bitmap i d) = BSIZE"
proof -
  have "i div 8 < BSIZE" using assms(2) by (simp add: BPB_def)
  moreover have "j = i \<longleftrightarrow> j div 8 = i div 8 \<and> j mod 8 = i mod 8" by (metis div_mult_mod_eq)
  moreover have "i mod 8 < LENGTH(8)" "j mod 8 < LENGTH(8)" by simp_all
  ultimately show "bit_clear (set_bitmap i d) j \<longleftrightarrow> bit_clear d j \<and> j \<noteq> i" "bit_clear (clear_bitmap i d) j \<longleftrightarrow> bit_clear d j \<or> j = i"
    using assms(1) unfolding bit_clear_iff set_bitmap_def clear_bitmap_def
    by (auto simp: nth_list_update push_bit_eq_mult bit_or_iff bit_and_iff bit_not_iff bit_exp_iff)
qed (use assms in \<open>simp_all add: set_bitmap_def clear_bitmap_def\<close>)

definition in_use :: "'z kfs_scheme \<Rightarrow> nat \<Rightarrow> bool" where
  "in_use s b \<longleftrightarrow> \<not> bit_clear (view s (BBLOCK b (sb s))) (b mod BPB)"

definition bitmap_blocks :: "superblock \<Rightarrow> nat set" where
  "bitmap_blocks S = (\<lambda>b. BBLOCK b S) ` {..<sb_size S}"

text \<open>The bitmap is outside the log area, and marks itself and the log area as used.\<close>

definition alloc_ok :: "'z kfs_scheme \<Rightarrow> bool" where
  "alloc_ok s \<longleftrightarrow> sb_size (sb s) \<le> 2 ^ 32 \<and>
     (\<forall>a \<in> bitmap_blocks (sb s). length (view s a) = BSIZE \<and> a \<notin> log_area (log_start s) \<and> a < 2 ^ 32) \<and>
     (\<forall>b < sb_size (sb s). \<not> in_use s b \<longrightarrow> b \<notin> bitmap_blocks (sb s) \<and> b \<notin> log_area (log_start s))"

lemma alloc_okD:
  assumes "alloc_ok s"
  shows "sb_size (sb s) \<le> 2 ^ 32" "a \<in> bitmap_blocks (sb s) \<Longrightarrow> length (view s a) = BSIZE"
    "a \<in> bitmap_blocks (sb s) \<Longrightarrow> a \<notin> log_area (log_start s)" "a \<in> bitmap_blocks (sb s) \<Longrightarrow> a < 2 ^ 32"
    "b < sb_size (sb s) \<Longrightarrow> \<not> in_use s b \<Longrightarrow> b \<notin> bitmap_blocks (sb s)" "b < sb_size (sb s) \<Longrightarrow> \<not> in_use s b \<Longrightarrow> b \<notin> log_area (log_start s)"
  using assms unfolding alloc_ok_def by blast+

lemma BBLOCK_in: "b < sb_size S \<Longrightarrow> BBLOCK b S \<in> bitmap_blocks S"
  by (simp add: bitmap_blocks_def)

lemma BBLOCK_eq: "BBLOCK c S = BBLOCK b S \<longleftrightarrow> c div BPB = b div BPB"
  by (simp add: BBLOCK_def)

lemma BPB_mod [simp]: "b mod BPB < BPB"
  by (simp add: BPB_def)

text \<open>The effect of the two operations on the blocks, and on the set of used ones.\<close>

definition marked :: "nat \<Rightarrow> superblock \<Rightarrow> (nat \<Rightarrow> uint8 list) \<Rightarrow> nat \<Rightarrow> uint8 list" where
  "marked b S v = v(BBLOCK b S := set_bitmap (b mod BPB) (v (BBLOCK b S)), b := replicate BSIZE 0)"

definition unmarked :: "nat \<Rightarrow> superblock \<Rightarrow> (nat \<Rightarrow> uint8 list) \<Rightarrow> nat \<Rightarrow> uint8 list" where
  "unmarked b S v = v(BBLOCK b S := clear_bitmap (b mod BPB) (v (BBLOCK b S)))"

lemma used_marked:
  fixes s t :: "'z kfs_scheme"
  assumes ok: "alloc_ok s" and t: "view t = marked b (sb s) (view s)" "sb t = sb s" "log_start t = log_start s"
    and b: "b < sb_size (sb s)" "\<not> in_use s b"
  shows "c < sb_size (sb s) \<Longrightarrow> in_use t c \<longleftrightarrow> in_use s c \<or> c = b" "alloc_ok t"
proof -
  note a = alloc_okD [OF ok]
  have bB: "b \<notin> bitmap_blocks (sb s)" by (rule a(5) [OF b])
  have len: "length (view s (BBLOCK c (sb s))) = BSIZE" if "c < sb_size (sb s)" for c by (rule a(2) [OF BBLOCK_in [OF that]])
  show u: "in_use t c \<longleftrightarrow> in_use s c \<or> c = b" if "c < sb_size (sb s)" for c
  proof -
    have "BBLOCK c (sb s) \<noteq> b" using BBLOCK_in [OF that] bB by auto
    moreover have "c = b \<longleftrightarrow> c div BPB = b div BPB \<and> c mod BPB = b mod BPB" by (metis div_mult_mod_eq)
    ultimately show ?thesis using bitmap_update(1) [OF len [OF b(1)] BPB_mod BPB_mod, of b c] BBLOCK_eq [of c "sb s" b]
      by (cases "c div BPB = b div BPB") (auto simp: in_use_def t marked_def)
  qed
  have "length (view t a) = BSIZE" if "a \<in> bitmap_blocks (sb s)" for a
    using a(2) [OF that] bitmap_update(3) [OF len [OF b(1)] BPB_mod BPB_mod, of b] by (simp add: t marked_def)
  then show "alloc_ok t" using a u unfolding alloc_ok_def t(2,3) by blast
qed

lemma used_unmarked:
  fixes s t :: "'z kfs_scheme"
  assumes ok: "alloc_ok s" and t: "view t = unmarked b (sb s) (view s)" "sb t = sb s" "log_start t = log_start s"
    and b: "b < sb_size (sb s)" "b \<notin> bitmap_blocks (sb s)" "b \<notin> log_area (log_start s)"
  shows "c < sb_size (sb s) \<Longrightarrow> in_use t c \<longleftrightarrow> in_use s c \<and> c \<noteq> b" "alloc_ok t"
proof -
  note a = alloc_okD [OF ok]
  have len: "length (view s (BBLOCK c (sb s))) = BSIZE" if "c < sb_size (sb s)" for c by (rule a(2) [OF BBLOCK_in [OF that]])
  show u: "in_use t c \<longleftrightarrow> in_use s c \<and> c \<noteq> b" if "c < sb_size (sb s)" for c
  proof -
    have "c = b \<longleftrightarrow> c div BPB = b div BPB \<and> c mod BPB = b mod BPB" by (metis div_mult_mod_eq)
    then show ?thesis using bitmap_update(2) [OF len [OF b(1)] BPB_mod BPB_mod, of b c] BBLOCK_eq [of c "sb s" b]
      by (cases "c div BPB = b div BPB") (auto simp: in_use_def t unmarked_def)
  qed
  have "length (view t a) = BSIZE" if "a \<in> bitmap_blocks (sb s)" for a
    using a(2) [OF that] bitmap_update(4) [OF len [OF b(1)] BPB_mod BPB_mod, of b] by (simp add: t unmarked_def)
  then show "alloc_ok t" using a u b unfolding alloc_ok_def t(2,3) by blast
qed

section \<open>The block allocator\<close>

lemma bzero_ok:
  fixes s :: "'z kfs_scheme"
  assumes l: "logging H P n s" and a: "\<And>b. b \<in> H \<Longrightarrow> blockno (bufs s b) \<noteq> a" and room: "card H + Suc n < NBUF"
    and home: "a \<notin> log_area (log_start s)" "a < 2 ^ 32"
  shows "\<exists>t P' n'. bzero ROOTDEV a s = Ok t \<and> logging H P' n' t \<and> n' \<le> Suc n \<and> view t = (view s)(a := replicate BSIZE 0) \<and>
    disk t = disk s \<and> log_step s t \<and> (\<forall>c \<in> H. bufs t c = bufs s c)"
  unfolding bzero_def by (rule block_update [OF l a room home])

text \<open>Buffers held across an allocation are of used blocks outside the bitmap.\<close>

definition held_used :: "nat set \<Rightarrow> 'z kfs_scheme \<Rightarrow> bool" where
  "held_used H s \<longleftrightarrow> (\<forall>b \<in> H. blockno (bufs s b) \<notin> bitmap_blocks (sb s) \<and>
     (blockno (bufs s b) < sb_size (sb s) \<longrightarrow> in_use s (blockno (bufs s b))))"

lemma held_used_empty [simp]: "held_used {} s"
  by (simp add: held_used_def)

lemma held_usedD: "held_used H s \<Longrightarrow> b \<in> H \<Longrightarrow> blockno (bufs s b) \<notin> bitmap_blocks (sb s)"
  by (simp add: held_used_def)

lemma bfree_ok:
  fixes s :: "'z kfs_scheme"
  assumes l: "logging H P n s" and ok: "alloc_ok s" and H: "held_used H s" and room: "card H + Suc n < NBUF"
    and b: "b < sb_size (sb s)" "in_use s b"
  shows "\<exists>t P' n'. bfree ROOTDEV b s = Ok t \<and> logging H P' n' t \<and> n' \<le> Suc n \<and> view t = unmarked b (sb s) (view s) \<and>
    disk t = disk s \<and> log_step s t \<and> (\<forall>c \<in> H. bufs t c = bufs s c)"
proof -
  let ?a = "BBLOCK b (sb s)" and ?f = "clear_bitmap (b mod BPB)"
  note a = alloc_okD(2-4) [OF ok BBLOCK_in [OF b(1)]]
  have nH: "blockno (bufs s c) \<noteq> ?a" if "c \<in> H" for c using held_usedD [OF H that] BBLOCK_in [OF b(1)] by metis
  obtain bp u where r: "bread ROOTDEV ?a s = Ok (bp, u)" "bdata (bufs u bp) = view s ?a"
    by (rule block_read [OF l nH]) (use room in simp_all)
  have "bfree ROOTDEV b s = bindr (bread ROOTDEV ?a s) (\<lambda>(b, s). bindr (log_write b (set_data b (?f (bdata (bufs s b))) s)) (brelse b))"
    using b(2) by (simp add: bfree_def r in_use_def)
  then show ?thesis using block_update [OF l nH room a(2,3), where f = ?f] by (simp add: unmarked_def)
qed

lemma bfree_free:
  fixes s :: "'z kfs_scheme"
  assumes l: "logging {} P n s" and b: "\<not> in_use s b"
  shows "bfree ROOTDEV b s = Panic ''freeing free block''"
proof -
  obtain bp u where "bread ROOTDEV (BBLOCK b (sb s)) s = Ok (bp, u)" "bdata (bufs u bp) = view s (BBLOCK b (sb s))"
    by (rule block_read [OF l]) (use loggingD(4) [OF l] in simp_all)
  then show ?thesis using b by (simp add: bfree_def in_use_def)
qed

definition nbitmap :: "superblock \<Rightarrow> nat" where
  "nbitmap S = (sb_size S + BPB - 1) div BPB"

lemma nbitmap_less: "k < nbitmap S \<longleftrightarrow> k * BPB < sb_size S"
  unfolding nbitmap_def less_eq_Suc_le [of k] by (subst less_eq_div_iff_mult_less_eq) (auto simp: BPB_def)

text \<open>What an allocation does: nothing when every block is used, otherwise it takes the first free block.\<close>

definition allocated :: "'z kfs_scheme \<Rightarrow> nat \<Rightarrow> 'z kfs_scheme \<Rightarrow> bool" where
  "allocated s r t \<longleftrightarrow>
     (r = 0 \<and> view t = view s \<and> (\<forall>b < sb_size (sb s). in_use s b)) \<or>
     (r < sb_size (sb s) \<and> \<not> in_use s r \<and> (\<forall>b < r. in_use s b) \<and> view t = marked r (sb s) (view s))"

lemma balloc_found:
  fixes s :: "'z kfs_scheme"
  assumes l: "logging H P n s" and ok: "alloc_ok s" and H: "held_used H s" and room: "card H + n + 2 < NBUF"
    and b: "b < sb_size (sb s)" "\<not> in_use s b" and a: "a = BBLOCK b (sb s)" and i: "i = b mod BPB"
  shows "\<exists>t P' n'. bindr (bread ROOTDEV a s) (\<lambda>(bp, s). bindr (log_write bp (set_data bp (set_bitmap i (bdata (bufs s bp))) s))
      (\<lambda>s. bindr (brelse bp s) (bzero ROOTDEV b))) = Ok t \<and>
    logging H P' n' t \<and> n' \<le> n + 2 \<and> view t = marked b (sb s) (view s) \<and> disk t = disk s \<and> log_step s t \<and> (\<forall>c \<in> H. bufs t c = bufs s c)"
proof -
  let ?f = "set_bitmap (b mod BPB)"
  note al = alloc_okD [OF ok] and bB = BBLOCK_in [OF b(1)]
  have nH: "blockno (bufs s c) \<noteq> a" if "c \<in> H" for c using held_usedD [OF H that] bB a by metis
  obtain t1 P1 n1 where t1: "bindr (bread ROOTDEV a s) (\<lambda>(bp, s). bindr (log_write bp (set_data bp (?f (bdata (bufs s bp))) s)) (brelse bp)) = Ok t1"
    "logging H P1 n1 t1" "n1 \<le> Suc n" "view t1 = (view s)(a := ?f (view s a))" "disk t1 = disk s" "log_step s t1" "\<forall>c \<in> H. bufs t1 c = bufs s c"
    using block_update [OF l nH _ al(3,4) [OF bB, folded a], where f = ?f] room by (auto simp: a)
  have bH: "blockno (bufs t1 c) \<noteq> b" if "c \<in> H" for c using H that t1(7) b by (auto simp: held_used_def)
  obtain t P' n' where t: "bzero ROOTDEV b t1 = Ok t" "logging H P' n' t" "n' \<le> Suc n1" "view t = (view t1)(b := replicate BSIZE 0)"
    "disk t = disk t1" "log_step t1 t" "\<forall>c \<in> H. bufs t c = bufs t1 c"
    using bzero_ok [OF t1(2) bH] room t1(3) al(1) al(6) [OF b] b(1) log_step_sel(1) [OF t1(6)] by auto
  have "view t = marked b (sb s) (view s)" unfolding t(4) t1(4) marked_def a i ..
  moreover have "bindr (bread ROOTDEV a s) (\<lambda>(bp, s). bindr (log_write bp (set_data bp (set_bitmap i (bdata (bufs s bp))) s))
      (\<lambda>s. bindr (brelse bp s) (bzero ROOTDEV b))) = Ok t" using t1(1) t(1) i by auto
  moreover have "log_step s t" by (rule log_step_trans [OF t1(6) t(6)])
  moreover have "n' \<le> n + 2" using t(3) t1(3) by simp
  ultimately show ?thesis using t(2,5,7) t1(5,7) by (intro exI [of _ t] exI [of _ P'] exI [of _ n']) simp
qed

lemma BBLOCK_at: "i < BPB \<Longrightarrow> BBLOCK (k * BPB + i) S = BBLOCK (k * BPB) S" "i < BPB \<Longrightarrow> (k * BPB + i) mod BPB = i"
  by (simp_all add: BBLOCK_def BPB_def)

text \<open>The inner loop, on the bitmap block of the blocks from \<open>k * BPB\<close> on.\<close>

lemma inner_none:
  assumes "search (bit_clear (view s (BBLOCK (k * BPB) (sb s)))) 0 (min_nat BPB (sb_size (sb s) - k * BPB)) = None"
    and b: "k * BPB \<le> b" "b < Suc k * BPB" "b < sb_size (sb s)"
  shows "in_use s b"
proof -
  define i where "i = b - k * BPB"
  have i: "b = k * BPB + i" "i < BPB" using b(1,2) by (auto simp: i_def)
  then have "i < min_nat BPB (sb_size (sb s) - k * BPB)" using b(3) unfolding min_nat_def by (auto simp: less_diff_conv add.commute)
  then have "\<not> bit_clear (view s (BBLOCK (k * BPB) (sb s))) i" using search_NoneD [OF assms(1), of i] by simp
  then show ?thesis using BBLOCK_at [OF i(2)] by (simp add: in_use_def i(1))
qed

lemma inner_some:
  assumes "search (bit_clear (view s (BBLOCK (k * BPB) (sb s)))) 0 (min_nat BPB (sb_size (sb s) - k * BPB)) = Some i"
  shows "i < BPB" "k * BPB + i < sb_size (sb s)" "\<not> in_use s (k * BPB + i)" "k * BPB \<le> b \<Longrightarrow> b < k * BPB + i \<Longrightarrow> in_use s b"
proof -
  have i: "i < BPB" "k * BPB + i < sb_size (sb s)" "bit_clear (view s (BBLOCK (k * BPB) (sb s))) i"
    "\<And>j. j < i \<Longrightarrow> \<not> bit_clear (view s (BBLOCK (k * BPB) (sb s))) j"
    using search_SomeD [OF assms] by (auto simp: min_nat_def split: if_splits)
  then show "i < BPB" "k * BPB + i < sb_size (sb s)" "\<not> in_use s (k * BPB + i)" using BBLOCK_at by (simp_all add: in_use_def)
  assume b: "k * BPB \<le> b" "b < k * BPB + i"
  define j where "j = b - k * BPB"
  have j: "b = k * BPB + j" "j < i" using b by (auto simp: j_def)
  then show "in_use s b" using i(1) i(4) [OF j(2)] BBLOCK_at [of j] by (simp add: in_use_def)
qed

text \<open>A block is read and released.\<close>

lemma block_peek:
  fixes s :: "'z kfs_scheme"
  assumes l: "logging H P n s" and a: "\<And>b. b \<in> H \<Longrightarrow> blockno (bufs s b) \<noteq> a" and room: "card H + n < NBUF"
  obtains b u t where "bread ROOTDEV a s = Ok (b, u)" "bdata (bufs u b) = view s a" "log_step s u" "brelse b u = Ok t" "logging H P n t"
    "view t = view s" "disk t = disk s" "log_step s t" "\<And>c. c \<in> H \<Longrightarrow> bufs t c = bufs s c"
proof -
  obtain b u where r: "bread ROOTDEV a s = Ok (b, u)" "logging (insert b H) P n u" "b \<notin> H" "bdata (bufs u b) = view s a"
    "blockno (bufs u b) = a" "view u = view s" "disk u = disk s" "bio_frame s u" "\<And>c. c \<noteq> b \<Longrightarrow> bufs u c = bufs s c"
    "b \<in> P \<or> view s a = disk s a"
    by (rule block_read [OF l a room]) blast+
  obtain t where t: "brelse b u = Ok t" "logging H P n t" "view t = view u" "disk t = disk u" "bio_frame u t"
    "\<And>c. c \<in> H \<Longrightarrow> bufs t c = bufs u c"
    by (rule block_release [OF r(2,3)]) (use r(4,5,7,10) in simp_all)
  have "bufs t c = bufs s c" if "c \<in> H" for c using t(6) [OF that] r(9) [of c] r(3) that by auto
  then show thesis
    using that [OF r(1,4) log_step_bio [OF r(8)] t(1,2) _ _ log_step_bio [OF bio_frame_trans [OF r(8) t(5)]]] t(3,4) r(6,7) by simp
qed

lemma used_keep:
  assumes "view t = view s" "log_step s t"
  shows "in_use t = in_use s" "alloc_ok t = alloc_ok s"
proof -
  note f = log_step_fs(1) [OF assms(2)] log_step_sel(1) [OF assms(2)]
  show u: "in_use t = in_use s" by (intro ext) (simp add: in_use_def assms(1) f)
  show "alloc_ok t = alloc_ok s" unfolding alloc_ok_def u f assms(1) ..
qed

lemma held_used_keep:
  assumes "held_used H s" "view t = view s" "log_step s t" "\<And>c. c \<in> H \<Longrightarrow> bufs t c = bufs s c"
  shows "held_used H t"
  using assms(1,4) unfolding held_used_def used_keep(1) [OF assms(2,3)] log_step_fs(1) [OF assms(3)] by simp

lemma allocated_keep:
  assumes "view t = view s" "log_step s t"
  shows "allocated t r u = allocated s r u"
  unfolding allocated_def used_keep(1) [OF assms] log_step_fs(1) [OF assms(2)] assms(1) ..

lemma balloc_scan_ok:
  fixes s :: "'z kfs_scheme"
  assumes "logging H P n s" "alloc_ok s" "held_used H s" "card H + n + 2 < NBUF"
    and "\<And>b. b < k * BPB \<Longrightarrow> b < sb_size (sb s) \<Longrightarrow> in_use s b" "N = nbitmap (sb s)"
  shows "\<exists>r t P' n'. balloc_scan [k..<N] ROOTDEV s = Ok (r, t) \<and> logging H P' n' t \<and> n' \<le> n + 2 \<and> allocated s r t \<and>
    disk t = disk s \<and> log_step s t \<and> (\<forall>c \<in> H. bufs t c = bufs s c)"
  using assms
proof (induction "N - k" arbitrary: k s)
  case 0
  then have "sb_size (sb s) \<le> k * BPB" using nbitmap_less [of k "sb s"] by simp
  then have "allocated s 0 s" using "0.prems"(5) by (simp add: allocated_def)
  then show ?case using "0.hyps" "0.prems"(1) by (intro exI [of _ 0] exI [of _ s] exI [of _ P] exI [of _ n]) simp
next
  case (Suc x)
  note p = Suc.prems
  have kN: "k < N" using Suc.hyps(2) by simp
  then have kb: "k * BPB < sb_size (sb s)" using p(6) nbitmap_less by simp
  let ?a = "BBLOCK (k * BPB) (sb s)"
  have nH: "blockno (bufs s c) \<noteq> ?a" if "c \<in> H" for c using held_usedD [OF p(3) that] BBLOCK_in [OF kb] by metis
  obtain bp u t1 where r: "bread ROOTDEV ?a s = Ok (bp, u)" "bdata (bufs u bp) = view s ?a" "log_step s u" "brelse bp u = Ok t1"
    "logging H P n t1" "view t1 = view s" "disk t1 = disk s" "log_step s t1" "\<And>c. c \<in> H \<Longrightarrow> bufs t1 c = bufs s c"
    by (rule block_peek [OF p(1) nH]) (use p(4) in simp_all)
  note su = log_step_fs(1) [OF r(3)] and s1 = log_step_fs(1) [OF r(8)]
  show ?case
  proof (cases "search (bit_clear (view s ?a)) 0 (min_nat BPB (sb_size (sb s) - k * BPB))")
    case None
    have upto: "in_use t1 b" if "b < Suc k * BPB" "b < sb_size (sb t1)" for b
      using p(5) [of b] inner_none [OF None, of b] that unfolding used_keep(1) [OF r(6,8)] s1 by (cases "b < k * BPB") simp_all
    have "x = N - Suc k" using Suc.hyps(2) by simp
    then obtain r' t P' n' where t: "balloc_scan [Suc k..<N] ROOTDEV t1 = Ok (r', t)" "logging H P' n' t" "n' \<le> n + 2" "allocated t1 r' t"
      "disk t = disk t1" "log_step t1 t" "\<forall>c \<in> H. bufs t c = bufs t1 c"
      using Suc.hyps(1) [of "Suc k" t1, OF _ r(5) _ held_used_keep [OF p(3) r(6,8,9)] p(4) upto] p(2,6)
        used_keep(2) [OF r(6,8)] s1 by auto
    have "balloc_scan [k..<N] ROOTDEV s = Ok (r', t)" using t(1) r(1,2,4) None su kN by (simp add: upt_conv_Cons Let_def)
    then show ?thesis using t(2-5,7) r(7,9) log_step_trans [OF r(8) t(6)] allocated_keep [OF r(6,8)] by auto
  next
    case (Some i)
    note i = inner_some [OF Some]
    obtain t P' n' where t: "bindr (bread ROOTDEV ?a s) (\<lambda>(bp, s). bindr (log_write bp (set_data bp (set_bitmap i (bdata (bufs s bp))) s))
        (\<lambda>s. bindr (brelse bp s) (bzero ROOTDEV (k * BPB + i)))) = Ok t"
      "logging H P' n' t" "n' \<le> n + 2" "view t = marked (k * BPB + i) (sb s) (view s)" "disk t = disk s" "log_step s t" "\<forall>c \<in> H. bufs t c = bufs s c"
      using balloc_found [OF p(1-4) i(2,3) BBLOCK_at(1) [OF i(1), symmetric] BBLOCK_at(2) [OF i(1), symmetric]] by blast
    have "balloc_scan [k..<N] ROOTDEV s = Ok (k * BPB + i, t)"
      using t(1) r(1,2) Some su kN by (auto simp: upt_conv_Cons Let_def)
    moreover have "in_use s b" if "b < k * BPB + i" for b using p(5) [of b] i(2) i(4) [of b] that by (cases "b < k * BPB") simp_all
    ultimately show ?thesis using t(2-7) i(2,3) by (auto simp: allocated_def)
  qed
qed

lemma balloc_ok:
  fixes s :: "'z kfs_scheme"
  assumes "logging H P n s" "alloc_ok s" "held_used H s" "card H + n + 2 < NBUF"
  shows "\<exists>r t P' n'. balloc ROOTDEV s = Ok (r, t) \<and> logging H P' n' t \<and> n' \<le> n + 2 \<and> allocated s r t \<and>
    disk t = disk s \<and> log_step s t \<and> (\<forall>c \<in> H. bufs t c = bufs s c)"
  unfolding balloc_def nbitmap_def [symmetric] by (rule balloc_scan_ok [OF assms, of 0]) simp_all

text \<open>The contract of a block allocator: \<open>room s k\<close> says that the transaction has room for \<open>k\<close> more blocks, and
  \<open>data s b\<close> that block \<open>b\<close> is one that may be allocated.\<close>

locale block_allocator =
  fixes alloc :: "'s \<Rightarrow> (nat \<times> 's) res"
    and free :: "nat \<Rightarrow> 's \<Rightarrow> 's res"
    and inuse :: "'s \<Rightarrow> nat \<Rightarrow> bool"
    and data :: "'s \<Rightarrow> nat \<Rightarrow> bool"
    and room :: "'s \<Rightarrow> nat \<Rightarrow> bool"
    and nblocks :: "'s \<Rightarrow> nat"
  assumes alloc_one: "room s (k + 2) \<Longrightarrow> b < nblocks s \<Longrightarrow> \<not> inuse s b \<Longrightarrow> \<exists>r t. alloc s = Ok (r, t) \<and> r \<noteq> 0 \<and> r < nblocks s \<and>
      \<not> inuse s r \<and> (\<forall>c < r. inuse s c) \<and> data t r \<and> room t k \<and> nblocks t = nblocks s \<and> (\<forall>c < nblocks s. inuse t c \<longleftrightarrow> inuse s c \<or> c = r)"
    and alloc_full: "room s (k + 2) \<Longrightarrow> (\<And>b. b < nblocks s \<Longrightarrow> inuse s b) \<Longrightarrow> \<exists>t. alloc s = Ok (0, t)"
    and free_one: "room s (k + 1) \<Longrightarrow> b < nblocks s \<Longrightarrow> b \<noteq> 0 \<Longrightarrow> inuse s b \<Longrightarrow> data s b \<Longrightarrow> \<exists>t. free b s = Ok t \<and> room t k \<and>
      nblocks t = nblocks s \<and> (\<forall>c < nblocks s. inuse t c \<longleftrightarrow> inuse s c \<and> c \<noteq> b)"
    and free_two: "room s k \<Longrightarrow> b < nblocks s \<Longrightarrow> \<not> inuse s b \<Longrightarrow> \<exists>e. free b s = Panic e"
begin

text \<open>An allocated block can be freed, once, and then is the next one to be allocated again.\<close>

lemma alloc_free_alloc:
  assumes room: "room s (k + 5)" and b: "b < nblocks s" "\<not> inuse s b"
  shows "\<exists>r t u v. alloc s = Ok (r, t) \<and> r < nblocks s \<and> \<not> inuse s r \<and> (\<forall>c < nblocks s. inuse t c \<longleftrightarrow> inuse s c \<or> c = r) \<and>
    free r t = Ok u \<and> (\<forall>c < nblocks s. inuse u c \<longleftrightarrow> inuse s c) \<and> (\<exists>e. free r u = Panic e) \<and> alloc u = Ok (r, v)"
proof -
  have "k + 5 = (k + 2 + 1) + 2" by simp
  then have "room s ((k + 2 + 1) + 2)" using room by metis
  from alloc_one [OF this b] obtain r t where t: "alloc s = Ok (r, t)" "r \<noteq> 0" "r < nblocks s" "\<not> inuse s r" "\<forall>c < r. inuse s c" "data t r"
    "room t (k + 2 + 1)" "nblocks t = nblocks s" "\<forall>c < nblocks s. inuse t c \<longleftrightarrow> inuse s c \<or> c = r" by blast
  obtain u where u: "free r t = Ok u" "room u (k + 2)" "nblocks u = nblocks s" "\<forall>c < nblocks s. inuse u c \<longleftrightarrow> inuse t c \<and> c \<noteq> r"
    using free_one [OF t(7) _ t(2) _ t(6)] t(3,8,9) by auto
  have us: "inuse u c \<longleftrightarrow> inuse s c" if "c < nblocks s" for c using that t(4,9) u(4) by auto
  obtain e where e: "free r u = Panic e" using free_two [OF u(2), of r] us t(3,4) u(3) by auto
  obtain r' v where v: "alloc u = Ok (r', v)" "r' < nblocks s" "\<not> inuse u r'" "\<forall>c < r'. inuse u c"
    using alloc_one [OF u(2), of r] us t(3,4) u(3) by auto
  have "\<not> r' < r" using t(5) us v(2,3) by blast
  moreover have "\<not> r < r'" using v(4) us t(3,4) by blast
  ultimately have "r' = r" by simp
  then show ?thesis using t(1,3,4,9) u(1) us e v(1) by blast
qed

end

definition op_room :: "'z kfs_scheme \<Rightarrow> nat \<Rightarrow> bool" where
  "op_room s k \<longleftrightarrow> (\<exists>P n. logging {} P n s \<and> n + k < NBUF) \<and> alloc_ok s \<and> in_use s 0"

definition data_block :: "'z kfs_scheme \<Rightarrow> nat \<Rightarrow> bool" where
  "data_block s b \<longleftrightarrow> b \<notin> bitmap_blocks (sb s) \<and> b \<notin> log_area (log_start s)"

lemma balloc_contract:
  fixes s :: "'z kfs_scheme"
  assumes "op_room s (k + 2)" "b < sb_size (sb s)" "\<not> in_use s b"
  shows "\<exists>r t. balloc ROOTDEV s = Ok (r, t) \<and> r \<noteq> 0 \<and> r < sb_size (sb s) \<and> \<not> in_use s r \<and> (\<forall>c < r. in_use s c) \<and> data_block t r \<and>
    op_room t k \<and> sb_size (sb t) = sb_size (sb s) \<and> (\<forall>c < sb_size (sb s). in_use t c \<longleftrightarrow> in_use s c \<or> c = r)"
proof -
  obtain P n where l: "logging {} P n s" "n + (k + 2) < NBUF" "alloc_ok s" "in_use s 0" using assms(1) by (auto simp: op_room_def)
  obtain r t P' n' where t: "balloc ROOTDEV s = Ok (r, t)" "logging {} P' n' t" "n' \<le> n + 2" "allocated s r t" "log_step s t"
    using balloc_ok [OF l(1,3)] l(2) by auto
  have r: "r < sb_size (sb s)" "\<not> in_use s r" "\<forall>c < r. in_use s c" "view t = marked r (sb s) (view s)"
    using t(4) assms(2,3) by (auto simp: allocated_def)
  note f = log_step_fs(1) [OF t(5)] log_step_sel(1) [OF t(5)]
  note u = used_marked [OF l(3) r(4) f r(1,2)]
  have "data_block t r" using alloc_okD(5,6) [OF l(3) r(1,2)] by (simp add: data_block_def f)
  moreover have "r \<noteq> 0" using r(2) l(4) by (intro notI) simp
  moreover have "n' + k < NBUF" using t(3) l(2) by simp
  then have "op_room t k" using t(2) l(4) u(1) [of 0] u(2) assms(2) unfolding op_room_def by auto
  ultimately show ?thesis using t(1) r u(1) f by auto
qed

lemma bfree_contract:
  fixes s :: "'z kfs_scheme"
  assumes "op_room s (k + 1)" "b < sb_size (sb s)" "b \<noteq> 0" "in_use s b" "data_block s b"
  shows "\<exists>t. bfree ROOTDEV b s = Ok t \<and> op_room t k \<and> sb_size (sb t) = sb_size (sb s) \<and> (\<forall>c < sb_size (sb s). in_use t c \<longleftrightarrow> in_use s c \<and> c \<noteq> b)"
proof -
  obtain P n where l: "logging {} P n s" "n + (k + 1) < NBUF" "alloc_ok s" "in_use s 0" using assms(1) by (auto simp: op_room_def)
  obtain t P' n' where t: "bfree ROOTDEV b s = Ok t" "logging {} P' n' t" "n' \<le> Suc n" "view t = unmarked b (sb s) (view s)" "log_step s t"
    using bfree_ok [OF l(1,3) held_used_empty _ assms(2,4)] l(2) by auto
  note f = log_step_fs(1) [OF t(5)] log_step_sel(1) [OF t(5)]
  note u = used_unmarked [OF l(3) t(4) f assms(2)]
  have "n' + k < NBUF" using t(3) l(2) by simp
  then have "op_room t k" using t(2) l(4) u(1) [of 0] u(2) assms(2,3,5) unfolding op_room_def data_block_def by auto
  then show ?thesis using t(1) u(1) assms(5) f by (auto simp: data_block_def)
qed

interpretation ba: block_allocator "balloc ROOTDEV" "bfree ROOTDEV" in_use data_block op_room "\<lambda>s. sb_size (sb s)"
proof unfold_locales
  fix s :: "'a kfs_scheme" and k
  assume "op_room s (k + 2)" and full: "\<And>b. b < sb_size (sb s) \<Longrightarrow> in_use s b"
  then obtain P n where l: "logging {} P n s" "n + (k + 2) < NBUF" "alloc_ok s" by (auto simp: op_room_def)
  then obtain r t where t: "balloc ROOTDEV s = Ok (r, t)" "allocated s r t" using balloc_ok [OF l(1,3)] by auto
  have "r = 0" using t(2) full unfolding allocated_def by auto
  then show "\<exists>t. balloc ROOTDEV s = Ok (0, t)" using t(1) by blast
next
  fix s :: "'a kfs_scheme" and k b
  assume "op_room s k" "\<not> in_use s b"
  then show "\<exists>e. bfree ROOTDEV b s = Panic e" unfolding op_room_def by (metis bfree_free)
qed (rule balloc_contract bfree_contract; assumption)+

text \<open>C14: \<open>balloc\<close> and \<open>bfree\<close> implement a set of used blocks: as long as a block is free and the transaction has room, \<open>balloc\<close>
  returns a block that was free and marks exactly it; freeing it restores the set of used blocks; freeing it again
  stops the kernel; and the block is allocated again by the next \<open>balloc\<close>.\<close>

theorem balloc_bfree:
  assumes "op_room s 5" "b < sb_size (sb s)" "\<not> in_use s b"
  shows "\<exists>r t u v. balloc ROOTDEV s = Ok (r, t) \<and> r < sb_size (sb s) \<and> \<not> in_use s r \<and> (\<forall>c < sb_size (sb s). in_use t c \<longleftrightarrow> in_use s c \<or> c = r) \<and>
    bfree ROOTDEV r t = Ok u \<and> (\<forall>c < sb_size (sb s). in_use u c \<longleftrightarrow> in_use s c) \<and> (\<exists>e. bfree ROOTDEV r u = Panic e) \<and>
    balloc ROOTDEV u = Ok (r, v)"
  using ba.alloc_free_alloc [of s 0 b] assms by simp

text \<open>A file system of 64 blocks with the log at block 2 and the bitmap in block 40, in which blocks 56 to 63 are free.\<close>

definition fs0 :: kfs where
  "fs0 = klog.extend (klog.truncate (lg0\<lparr>outstanding := 1, committing := False,
       disk := (\<lambda>n. if n = 40 then replicate 7 255 @ replicate 1017 0 else replicate 1024 0)\<rparr>))
     (kfs.fields \<lparr>sb_magic = FSMAGIC, sb_size = 64, sb_nblocks = 20, sb_ninodes = 16, sb_nlog = 30, sb_logstart = 2, sb_inodestart = 34, sb_bmapstart = 40\<rparr>
       (\<lambda>_. \<lparr>idev = 0, inum = 0, iref = 0, ivalid = False, itype = 0, imajor = 0, iminor = 0, inlink = 0, isize = 0, iaddrs = (\<lambda>_. 0)\<rparr>))"

lemma fs0_sel [simp]:
  "bufs fs0 = bufs lg0" "lru fs0 = lru lg0" "slk fs0 = slk lg0" "log_start fs0 = 2" "log_dev fs0 = ROOTDEV" "lh_n fs0 = 1"
  "lh_block fs0 = (\<lambda>_. 100)" "held fs0 = {}" "mypid fs0 = mypid lg0" "outstanding fs0 = 1"
  "disk fs0 = (\<lambda>n. if n = 40 then replicate 7 255 @ replicate 1017 0 else replicate 1024 0)"
  "sb fs0 = \<lparr>sb_magic = FSMAGIC, sb_size = 64, sb_nblocks = 20, sb_ninodes = 16, sb_nlog = 30, sb_logstart = 2, sb_inodestart = 34, sb_bmapstart = 40\<rparr>"
  by (simp_all add: fs0_def klog.defs kfs.defs mypid_def myproc_def cong: option.case_cong)

lemma fs0_logging: "logging {} {0} 1 fs0"
  using lg0_sel(10) unfolding logging_def cache_ok_def path_ok_def
  by (auto simp: lru_ok_def keys_ok_def counts_ok_def copies_ok_def log_area_def
      LOGBLOCKS_def MAXOPBLOCKS_def NBUF_def ROOTDEV_def inj_on_def)

lemma fs0_bitmap: "view fs0 40 = replicate 7 255 @ replicate 1017 0"
  by (subst view_disk [OF loggingD(1) [OF fs0_logging]]) simp_all

lemma fs0_in_use: "b < 64 \<Longrightarrow> in_use fs0 b \<longleftrightarrow> b < 56"
proof -
  assume b: "b < 64"
  have "BBLOCK b (sb fs0) = 40" "b mod BPB = b" using b by (simp_all add: BBLOCK_def BPB_def)
  moreover have "b div 8 < 7 \<longleftrightarrow> b < 56" by auto
  moreover have "bit (255 :: uint8) (b mod 8)"
  proof -
    have "(255 :: uint8) = - 1" by simp
    then show ?thesis by (simp only: bit_minus_1_iff) simp
  qed
  ultimately show ?thesis using fs0_bitmap b by (auto simp: in_use_def bit_clear_iff nth_append)
qed

lemma fs0_bitmap_blocks: "bitmap_blocks (sb fs0) = {40}"
proof -
  have "(\<lambda>b. BBLOCK b (sb fs0)) ` {..<64} = (\<lambda>_. 40) ` {..<64 :: nat}" by (rule image_cong) (simp_all add: BBLOCK_def BPB_def)
  then show ?thesis using image_constant [of 0 "{..<64 :: nat}" "40 :: nat"] by (simp add: bitmap_blocks_def)
qed

lemma fs0_alloc: "alloc_ok fs0"
  unfolding alloc_ok_def fs0_bitmap_blocks by (auto simp: fs0_bitmap fs0_in_use log_area_def LOGBLOCKS_def MAXOPBLOCKS_def)

theorem balloc_bfree_witness:
  "\<exists>r t u v. balloc ROOTDEV fs0 = Ok (r, t) \<and> 56 \<le> r \<and> r < 64 \<and> bfree ROOTDEV r t = Ok u \<and> balloc ROOTDEV u = Ok (r, v)"
proof -
  have "op_room fs0 5" using fs0_logging fs0_alloc fs0_in_use [of 0]
    by (auto simp: op_room_def NBUF_def MAXOPBLOCKS_def intro!: exI [of _ "{0}"] exI [of _ 1])
  then show ?thesis using balloc_bfree [of fs0 60] fs0_in_use by fastforce
qed

end
