(* ===== verification/Pipe.thy ===== *)
theory Pipe
  imports File Vm_Frame Fs_Blocks
begin

text \<open>Pipes as bounded queues of bytes: what a call of \<open>pipewrite\<close> or \<open>piperead\<close> does to the queue on every path, and
  what it transfers when the user's buffer is in memory.\<close>

section \<open>The pipe as a queue\<close>

definition pipe_queue :: "pipe \<Rightarrow> uint8 list" where
  "pipe_queue x = ring PIPESIZE (pdata x) (nread x) (nwrite x)"

definition pipe_pop :: "pipe \<Rightarrow> pipe" where
  "pipe_pop x = x\<lparr>nread := nread x + 1\<rparr>"

interpretation pq: byte_queue pipe_queue PIPESIZE pipe_put "\<lambda>x. pdata x (slot PIPESIZE (nread x))" pipe_pop
  "\<lambda>x. nread x = nwrite x" "\<lambda>x. nwrite x = nread x + of_nat PIPESIZE"
proof
  fix x :: pipe and c
  show "length (pipe_queue x) < PIPESIZE \<Longrightarrow> pipe_queue (pipe_put c x) = pipe_queue x @ [c]"
    using ring_push [of PIPESIZE "nwrite x" "nread x" "pdata x" c] by (simp add: pipe_queue_def pipe_put_def PIPESIZE_def)
  show "pipe_queue x \<noteq> [] \<Longrightarrow> pipe_queue x = pdata x (slot PIPESIZE (nread x)) # pipe_queue (pipe_pop x)"
    using ring_pop [of "nwrite x" "nread x" PIPESIZE "pdata x"] by (simp add: pipe_queue_def pipe_pop_def)
  show "nread x = nwrite x \<longleftrightarrow> pipe_queue x = []" by (auto simp: pipe_queue_def)
  have "nwrite x = nread x + of_nat PIPESIZE \<longleftrightarrow> nwrite x - nread x = of_nat PIPESIZE" by (simp add: diff_eq_eq add.commute)
  also have "\<dots> \<longleftrightarrow> length (pipe_queue x) = PIPESIZE"
    by (simp add: word_unat_eq_iff pipe_queue_def PIPESIZE_def)
  finally show "nwrite x = nread x + of_nat PIPESIZE \<longleftrightarrow> length (pipe_queue x) = PIPESIZE" .
qed

section \<open>The queue on every path\<close>

lemma undisturbed_pipes:
  fixes s t :: "'z kfile_scheme"
  assumes "kmem.more t = kmem.more s"
  shows "pipes t = pipes s" "ftable t = ftable s"
  using assms by (cases s; cases t; simp)+

lemma upd_pipe_sel [simp]:
  "pipes (upd_pipe p f s) q = (if q = p then f (pipes s p) else pipes s q)" "mem (upd_pipe p f s) = mem s"
  "held (upd_pipe p f s) = held s" "procs (upd_pipe p f s) = procs s" "cpu_proc (upd_pipe p f s) = cpu_proc s"
  "myproc (upd_pipe p f s) = myproc s"
  by (simp_all add: upd_pipe_def myproc_def)

lemma pipe_put_sel [simp]: "readopen (pipe_put c x) = readopen x" "writeopen (pipe_put c x) = writeopen x"
  by (simp_all add: pipe_put_def)

text \<open>\<open>bs\<close> is what has been appended to pipe \<open>p\<close>, and nothing else has happened to the pipes.\<close>

definition appended :: "uint64 \<Rightarrow> uint8 list \<Rightarrow> 'z kfile_scheme \<Rightarrow> 'z kfile_scheme \<Rightarrow> bool" where
  "appended p bs s t \<longleftrightarrow>
     pipe_queue (pipes t p) = pipe_queue (pipes s p) @ bs \<and> length (pipe_queue (pipes t p)) \<le> PIPESIZE \<and>
     (\<forall>q. q \<noteq> p \<longrightarrow> pipes t q = pipes s q) \<and> ftable t = ftable s"

definition removed :: "uint64 \<Rightarrow> nat \<Rightarrow> 'z kfile_scheme \<Rightarrow> 'z kfile_scheme \<Rightarrow> bool" where
  "removed p k s t \<longleftrightarrow>
     k \<le> length (pipe_queue (pipes s p)) \<and> pipe_queue (pipes t p) = drop k (pipe_queue (pipes s p)) \<and>
     (\<forall>q. q \<noteq> p \<longrightarrow> pipes t q = pipes s q) \<and> ftable t = ftable s"

lemma release_pipes:
  fixes s t :: "'z kfile_scheme"
  assumes "release l s = Ok t"
  shows "pipes t = pipes s \<and> ftable t = ftable s"
  using assms by (simp_all add: release_Ok_iff)

lemma wakeup_pipes:
  fixes s t :: "'z kfile_scheme"
  assumes "wakeup ch s = Ok t"
  shows "pipes t = pipes s \<and> ftable t = ftable s"
  using undisturbed_pipes [of t s] wakeup_frame [OF assms] by (simp_all add: undisturbed_def)

lemma sleep_pipes:
  fixes s t :: "'z kfile_scheme"
  assumes "sleep ch lk s = Ok t"
  shows "pipes t = pipes s \<and> ftable t = ftable s"
  using undisturbed_pipes [of t s] sleep_frame(1) [OF assms] by simp_all

lemma copyin_pipes:
  fixes s t :: "'z kfile_scheme"
  assumes "copyin pt va n s = Ok (r, bs, t)"
  shows "pipes t = pipes s \<and> ftable t = ftable s"
  using undisturbed_pipes [of t s] copyin_frame [OF assms] by (simp_all add: undisturbed_def)

lemma copyout_pipes:
  fixes s t :: "'z kfile_scheme"
  assumes "copyout pt va bs s = Ok (r, t)"
  shows "pipes t = pipes s \<and> ftable t = ftable s"
  using undisturbed_pipes [of t s] copyout_frame [OF assms] by (simp_all add: undisturbed_def)

lemmas call_pipes = release_pipes wakeup_pipes sleep_pipes copyin_pipes copyout_pipes

lemma pipewrite_end_queue:
  assumes "pipewrite_end p i s = Ok (r, t)"
  shows "r = Inl (int i) \<and> pipes t = pipes s \<and> ftable t = ftable s"
  using assms by (auto simp: pipewrite_end_def dest!: call_pipes)

text \<open>The number of bytes a result stands for; a call that fails with \<open>-1\<close> does not tell.\<close>

definition reports :: "(int + nat) \<Rightarrow> nat \<Rightarrow> bool" where
  "reports r k \<longleftrightarrow> (case r of Inl v \<Rightarrow> v = -1 \<or> v = int k | Inr i \<Rightarrow> i = k)"

lemma pipewrite_loop_queue:
  assumes "pipewrite_loop p addr n i s = Ok (r, t)" "length (pipe_queue (pipes s p)) \<le> PIPESIZE"
  shows "\<exists>bs. appended p bs s t \<and> reports r (i + length bs)"
  using assms
proof (induction "n - i" arbitrary: i s rule: less_induct)
  case less
  from less.prems(1) [unfolded pipewrite_loop.simps [of p addr n i s]] consider (stop) "pipes t = pipes s" "ftable t = ftable s" "reports r i"
    | (byte) c u where "i < n" "nwrite (pipes s p) \<noteq> nread (pipes s p) + of_nat PIPESIZE" "pipes u = pipes s" "ftable u = ftable s"
      "pipewrite_loop p addr n (i + 1) (upd_pipe p (pipe_put c) u) = Ok (r, t)"
    by (auto simp: reports_def split: if_split_asm option.split_asm dest!: is_killed_frame pipewrite_end_queue call_pipes)
  then show ?case
  proof cases
    case stop
    then show ?thesis using less.prems(2) by (intro exI [of _ "[]"]) (simp add: appended_def)
  next
    case byte
    let ?u = "upd_pipe p (pipe_put c) u"
    have room: "length (pipe_queue (pipes s p)) < PIPESIZE" using byte(2) less.prems(2) pq.full_iff [of "pipes s p"] by simp
    then have q: "pipe_queue (pipes ?u p) = pipe_queue (pipes s p) @ [c]" using byte(3) by (simp add: pq.put)
    have lt: "n - (i + 1) < n - i" using byte(1) by simp
    obtain bs where bs: "appended p bs ?u t" "reports r (i + 1 + length bs)"
      using less.hyps [OF lt byte(5)] q room by auto
    then have "appended p (c # bs) s t" using q byte(3,4) by (auto simp: appended_def upd_pipe_def)
    with bs(2) show ?thesis by (intro exI [of _ "c # bs"]) simp
  qed
qed

lemma piperead_end_queue:
  assumes "piperead_end p i s = Ok (r, t)"
  shows "r = Inl i \<and> pipes t = pipes s \<and> ftable t = ftable s"
  using assms by (auto simp: piperead_end_def dest!: call_pipes)

lemma piperead_copy_queue:
  assumes "piperead_copy p addr n i s = Ok (r, t)"
  shows "\<exists>k. removed p k s t \<and> (r = Inl (int (i + k)) \<or> r = Inl (-1) \<and> k = 0 \<and> i = 0)"
  using assms
proof (induction "n - i" arbitrary: i s rule: less_induct)
  case less
  from less.prems [unfolded piperead_copy.simps [of p addr n i s]] consider (stop) "pipes t = pipes s" "ftable t = ftable s" "r = Inl (int i) \<or> r = Inl (-1) \<and> i = 0"
    | (byte) u where "i < n" "nread (pipes s p) \<noteq> nwrite (pipes s p)" "pipes u = pipes s" "ftable u = ftable s"
      "piperead_copy p addr n (i + 1) (upd_pipe p pipe_pop u) = Ok (r, t)"
    by (auto simp: Let_def pipe_pop_def [abs_def] split: if_split_asm option.split_asm dest!: piperead_end_queue call_pipes)
  then show ?case
  proof cases
    case stop
    then show ?thesis by (intro exI [of _ 0]) (auto simp: removed_def)
  next
    case byte
    let ?u = "upd_pipe p pipe_pop u"
    have ne: "pipe_queue (pipes s p) \<noteq> []" using byte(2) pq.empty_iff by simp
    then have q: "pipe_queue (pipes ?u p) = tl (pipe_queue (pipes s p))" using byte(3) by (simp add: pq.pop_tl)
    have lt: "n - (i + 1) < n - i" using byte(1) by simp
    obtain k where k: "removed p k ?u t" "r = Inl (int (i + 1 + k))"
      using less.hyps [OF lt byte(5)] by auto
    then have "removed p (k + 1) s t" using q byte(3,4) ne by (cases "pipe_queue (pipes s p)") (auto simp: removed_def upd_pipe_def)
    with k(2) show ?thesis by (intro exI [of _ "k + 1"]) auto
  qed
qed

lemma acquire_pipes:
  fixes s t :: "'z kfile_scheme"
  assumes "acquire l s = Ok t"
  shows "pipes t = pipes s \<and> ftable t = ftable s"
  using assms by (simp add: acquire_Ok_iff)

lemma sleep_back_pipes:
  fixes s t :: "'z kfile_scheme"
  assumes "sleep_back lk s = Ok t"
  shows "pipes t = pipes s \<and> ftable t = ftable s"
  using undisturbed_pipes [of t s] sleep_back_frame(1) [OF assms] by simp

lemma piperead_turn_queue:
  assumes "piperead_turn p addr n s = Ok (r, t)"
  shows "\<exists>k. removed p k s t \<and> (r = Inl (int k) \<or> (r = Inl (-1) \<or> r = Inr ()) \<and> k = 0)"
proof -
  from assms consider "pipes t = pipes s" "ftable t = ftable s" "r = Inl (-1) \<or> r = Inr ()"
    | "piperead_copy p addr (nat n) 0 s = Ok (r, t)"
    by (auto simp: piperead_turn_def split: if_split_asm option.split_asm dest!: is_killed_frame call_pipes)
  then show ?thesis
  proof cases
    case 1
    then show ?thesis by (intro exI [of _ 0]) (simp add: removed_def)
  next
    case 2
    then show ?thesis using piperead_copy_queue [OF 2] by auto
  qed
qed

section \<open>What a call transfers\<close>

lemma upd_pipe_comp: "upd_pipe p g (upd_pipe p f s) = upd_pipe p (g \<circ> f) s"
  by (simp add: upd_pipe_def)

text \<open>The loop puts the bytes into the queue as long as there is room, and then ends or goes to sleep.\<close>

definition pipe_room :: "pipe \<Rightarrow> nat" where
  "pipe_room x = PIPESIZE - length (pipe_queue x)"

lemma pipewrite_loop_present:
  assumes "myproc s = Some pr" "plocks_free s" "killed (procs s pr) = 0" "readopen (pipes s p)"
    "user_present (mem s) (pagetable (procs s pr)) a n" "length (pipe_queue (pipes s p)) \<le> PIPESIZE" "i \<le> n"
  shows "pipewrite_loop p a n i s =
    (let bs = drop i (user_bytes (mem s) (pagetable (procs s pr)) a n); k = pipe_room (pipes s p)
     in if n - i \<le> k then pipewrite_end p n (upd_pipe p (fold pipe_put bs) s)
        else bindr (wakeup (read_chan p) (upd_pipe p (fold pipe_put (take k bs)) s)) (\<lambda>s.
             bindr (sleep (write_chan p) (pipe_lock p) s) (\<lambda>s. Ok (Inr (i + k), s))))"
  using assms
proof (induction "n - i" arbitrary: i s)
  case 0
  then show ?case by (subst pipewrite_loop.simps) (simp add: upd_pipe_def user_bytes_def)
next
  case (Suc d)
  let ?pt = "pagetable (procs s pr)" and ?k = "pipe_room (pipes s p)"
  let ?c = "user_byte (mem s) ?pt (a + of_nat i)"
  let ?u = "upd_pipe p (pipe_put ?c) s"
  have i: "i < n" using Suc.hyps(2) by simp
  have bs: "drop i (user_bytes (mem s) ?pt a n) = ?c # drop (i + 1) (user_bytes (mem s) ?pt a n)"
    using i by (simp add: user_bytes_def Cons_nth_drop_Suc [symmetric])
  have step: "pipewrite_loop p a n i s =
      (if nwrite (pipes s p) = nread (pipes s p) + of_nat PIPESIZE
       then bindr (wakeup (read_chan p) s) (\<lambda>s. bindr (sleep (write_chan p) (pipe_lock p) s) (\<lambda>s. Ok (Inr i, s)))
       else pipewrite_loop p a n (i + 1) ?u)"
    using Suc.prems i by (subst pipewrite_loop.simps) (simp add: is_killed_ok copyin_byte [unfolded One_nat_def])
  show ?case
  proof (cases "nwrite (pipes s p) = nread (pipes s p) + of_nat PIPESIZE")
    case True
    then have "?k = 0" using pq.full_iff Suc.prems(6) by (simp add: pipe_room_def)
    moreover have "upd_pipe p id s = s" by (simp add: upd_pipe_def)
    ultimately show ?thesis using True step i by (simp add: id_def)
  next
    case False
    then have lt: "length (pipe_queue (pipes s p)) < PIPESIZE" using pq.full_iff Suc.prems(6) by force
    then have k: "?k = Suc (pipe_room (pipes ?u p))" "length (pipe_queue (pipes ?u p)) \<le> PIPESIZE"
      by (simp_all add: pipe_room_def pq.put)
    have "d = n - (i + 1)" "i + 1 \<le> n" using Suc.hyps(2) by simp_all
    note IH = Suc.hyps(1) [of "i + 1" ?u, OF this(1) _ _ _ _ _ k(2) this(2)]
    have "pipewrite_loop p a n i s = pipewrite_loop p a n (i + 1) ?u" using step False by simp
    also have "\<dots> = (let bs = drop (i + 1) (user_bytes (mem ?u) (pagetable (procs ?u pr)) a n); k = pipe_room (pipes ?u p)
     in if n - (i + 1) \<le> k then pipewrite_end p n (upd_pipe p (fold pipe_put bs) ?u)
        else bindr (wakeup (read_chan p) (upd_pipe p (fold pipe_put (take k bs)) ?u)) (\<lambda>s.
             bindr (sleep (write_chan p) (pipe_lock p) s) (\<lambda>s. Ok (Inr (i + 1 + k), s))))"
      by (rule IH) (use Suc.prems in \<open>simp_all add: plocks_free_def\<close>)
    finally show ?thesis using Suc.hyps(2) \<open>d = n - (i + 1)\<close> unfolding bs k(1)
      by (simp add: Let_def upd_pipe_comp Suc.hyps(2) [symmetric])
  qed
qed

text \<open>The copying loop moves bytes from the front of the queue to the buffer until the buffer is full or the queue empty.\<close>

lemma piperead_copy_step:
  assumes "myproc s = Some pr" "user_ok (mem s) (pagetable (procs s pr))" "pipe_queue (pipes s p) = c # cs"
    "user_writable (mem s) (pagetable (procs s pr)) (a + of_nat i) (Suc d)" "i < n"
  shows "\<exists>m. piperead_copy p a n i s = piperead_copy p a n (i + 1) (upd_pipe p pipe_pop (s\<lparr>mem := m\<rparr>)) \<and>
    walkaddr m (pagetable (procs s pr)) = walkaddr (mem s) (pagetable (procs s pr)) \<and> user_ok m (pagetable (procs s pr)) \<and>
    user_writable m (pagetable (procs s pr)) (a + of_nat i + 1) d \<and> unat (a + of_nat i + 1) = unat (a + of_nat i) + 1 \<and>
    user_put (mem s) (pagetable (procs s pr)) (a + of_nat i) [c] m"
proof -
  have ne: "nread (pipes s p) \<noteq> nwrite (pipes s p)" "pdata (pipes s p) (slot PIPESIZE (nread (pipes s p))) = c"
    using assms(3) pq.empty_iff pq.front_hd [of "pipes s p"] by auto
  obtain m where m: "copyout (pagetable (procs s pr)) (a + of_nat i) [c] s = Ok (0, s\<lparr>mem := m\<rparr>)"
    "walkaddr m (pagetable (procs s pr)) = walkaddr (mem s) (pagetable (procs s pr))" "user_ok m (pagetable (procs s pr))"
    "user_writable m (pagetable (procs s pr)) (a + of_nat i + 1) d" "unat (a + of_nat i + 1) = unat (a + of_nat i) + 1"
    "user_put (mem s) (pagetable (procs s pr)) (a + of_nat i) [c] m"
    using copyout_byte [OF assms(2,4), of c] by blast
  have "piperead_copy p a n i s = piperead_copy p a n (i + 1) (upd_pipe p pipe_pop (s\<lparr>mem := m\<rparr>))"
    using assms(1,5) ne m(1) by (subst piperead_copy.simps) (simp add: pipe_pop_def [abs_def])
  with m show ?thesis by blast
qed

lemma piperead_copy_present:
  assumes "myproc s = Some pr" "user_ok (mem s) (pagetable (procs s pr))"
    "user_writable (mem s) (pagetable (procs s pr)) (a + of_nat i) (n - i)" "i \<le> n"
  shows "\<exists>m'. let bs = take (n - i) (pipe_queue (pipes s p)) in
    piperead_copy p a n i s = piperead_end p (int (i + length bs)) (upd_pipe p (pipe_pop ^^ length bs) (s\<lparr>mem := m'\<rparr>)) \<and>
    user_put (mem s) (pagetable (procs s pr)) (a + of_nat i) bs m'"
  using assms
proof (induction "n - i" arbitrary: i s)
  case 0
  then show ?case
    by (subst piperead_copy.simps) (auto intro!: exI [of _ "mem s"] user_put_Nil simp: upd_pipe_def id_def)
next
  case (Suc d)
  let ?pt = "pagetable (procs s pr)" and ?q = "pipe_queue (pipes s p)"
  have i: "i < n" using Suc.hyps(2) by simp
  show ?case
  proof (cases ?q)
    case Nil
    then have "nread (pipes s p) = nwrite (pipes s p)" using pq.empty_iff by simp
    then show ?thesis using Nil i
      by (subst piperead_copy.simps) (auto intro!: exI [of _ "mem s"] user_put_Nil simp: upd_pipe_def id_def)
  next
    case (Cons c cs)
    have "user_writable (mem s) ?pt (a + of_nat i) (Suc d)" using Suc.prems(3) Suc.hyps(2) by simp
    then obtain m where m: "piperead_copy p a n i s = piperead_copy p a n (i + 1) (upd_pipe p pipe_pop (s\<lparr>mem := m\<rparr>))"
      "walkaddr m ?pt = walkaddr (mem s) ?pt" "user_ok m ?pt" "user_writable m ?pt (a + of_nat i + 1) d"
      "unat (a + of_nat i + 1) = unat (a + of_nat i) + 1" "user_put (mem s) ?pt (a + of_nat i) [c] m"
      using piperead_copy_step [OF Suc.prems(1,2) Cons _ i] by blast
    let ?u = "upd_pipe p pipe_pop (s\<lparr>mem := m\<rparr>)" and ?k = "min (length cs) d"
    have d: "d = n - (i + 1)" and e: "a + of_nat (i + 1) = a + of_nat i + 1" using Suc.hyps(2) by simp_all
    have "pipe_queue (pipes ?u p) = cs" using pq.pop_tl [of "pipes s p"] Cons by simp
    then obtain m' where m': "piperead_copy p a n (i + 1) ?u =
        piperead_end p (int (i + 1 + ?k)) (upd_pipe p (pipe_pop ^^ ?k) (?u\<lparr>mem := m'\<rparr>))"
      "user_put m ?pt (a + of_nat i + 1) (take d cs) m'"
      using Suc.hyps(1) [OF d, of ?u] Suc.prems(1) i m(3,4) unfolding e d [symmetric] by (auto simp: myproc_def Let_def)
    have "upd_pipe p (pipe_pop ^^ ?k) (?u\<lparr>mem := m'\<rparr>) = upd_pipe p (pipe_pop ^^ Suc ?k) (s\<lparr>mem := m'\<rparr>)"
      by (simp only: upd_pipe_def funpow_Suc_right) simp
    then show ?thesis
      using m(1) m'(1) user_put_Cons [OF m(6,2,5) m'(2)] Cons Suc.hyps(2) [symmetric]
      by (intro exI [of _ m']) (simp add: Let_def ac_simps del: funpow.simps)
  qed
qed

section \<open>Properties\<close>

text \<open>C24: Whatever happens during a call (page faults, eviction, an unmapped buffer, a killed process, a closed pipe, sleeping
  and waking), \<open>pipewrite\<close> only appends to the queue of its pipe, \<open>piperead\<close> only removes from its front, in both
  cases as many bytes as the call reports, the queue never exceeds \<open>PIPESIZE\<close> bytes, and no other pipe and no
  open file changes.\<close>

theorem pipe_queue_discipline:
  assumes "length (pipe_queue (pipes s p)) \<le> PIPESIZE"
  shows "(pipewrite p addr n s = Ok (r, t) \<longrightarrow> (\<exists>bs. appended p bs s t \<and> reports r (length bs))) \<and>
    (pipewrite_resume p addr n i s = Ok (r, t) \<longrightarrow> (\<exists>bs. appended p bs s t \<and> reports r (i + length bs))) \<and>
    (piperead p addr n s = Ok (v, t) \<or> piperead_resume p addr n s = Ok (v, t) \<longrightarrow>
      (\<exists>k. removed p k s t \<and> (v = Inl (int k) \<or> (v = Inl (-1) \<or> v = Inr ()) \<and> k = 0)))"
proof (intro conjI impI)
  note lk = acquire_pipes sleep_back_pipes
  show "\<exists>bs. appended p bs s t \<and> reports r (length bs)" if "pipewrite p addr n s = Ok (r, t)"
    using that assms by (auto simp: pipewrite_def appended_def dest!: pipewrite_loop_queue lk)
  show "\<exists>bs. appended p bs s t \<and> reports r (i + length bs)" if "pipewrite_resume p addr n i s = Ok (r, t)"
    using that assms by (auto simp: pipewrite_resume_def appended_def dest!: pipewrite_loop_queue lk)
  show "\<exists>k. removed p k s t \<and> (v = Inl (int k) \<or> (v = Inl (-1) \<or> v = Inr ()) \<and> k = 0)"
    if "piperead p addr n s = Ok (v, t) \<or> piperead_resume p addr n s = Ok (v, t)"
    using that by (auto simp: piperead_def piperead_resume_def removed_def dest!: piperead_turn_queue lk)
qed

lemma pipewrite_present:
  assumes "held s = {}" "myproc s = Some pr" "killed (procs s pr) = 0" "readopen (pipes s p)"
    "length (pipe_queue (pipes s p)) + n \<le> PIPESIZE" "user_present (mem s) (pagetable (procs s pr)) a n"
  shows "\<exists>t. pipewrite p a (int n) s = Ok (Inl (int n), t) \<and> held t = {} \<and> mem t = mem s \<and>
    appended p (user_bytes (mem s) (pagetable (procs s pr)) a n) s t \<and>
    (\<forall>q<NPROC. q \<noteq> pr \<longrightarrow> pstate (procs s q) = SLEEPING \<and> chan (procs s q) = read_chan p \<longrightarrow> pstate (procs t q) = RUNNABLE)"
proof -
  let ?s = "s\<lparr>held := {pipe_lock p}\<rparr>" and ?bs = "user_bytes (mem s) (pagetable (procs s pr)) a n"
  let ?u = "upd_pipe p (fold pipe_put ?bs) ?s"
  have pf: "plocks_free ?s" "plocks_free ?u" by (simp_all add: plocks_free_def pipe_lock_def)
  have "pipewrite p a (int n) s = pipewrite_loop p a n 0 ?s" using assms(1) by (simp add: pipewrite_def)
  also have "n \<le> pipe_room (pipes s p)" "length (pipe_queue (pipes s p)) \<le> PIPESIZE" using assms(5) by (simp_all add: pipe_room_def)
  then have "pipewrite_loop p a n 0 ?s = pipewrite_end p n ?u"
    using pipewrite_loop_present [of ?s pr p a n 0] pf(1) assms by (simp add: Let_def)
  finally have w: "pipewrite p a (int n) s = pipewrite_end p n ?u" .
  obtain t where t: "pipewrite p a (int n) s = Ok (Inl (int n), t)" "held t = {}" "mem t = mem s" "pipes t = pipes ?u" "ftable t = ftable s"
    "procs t = (\<lambda>q. if q < NPROC \<and> myproc ?u \<noteq> Some q then woken (read_chan p) (procs s q) else procs s q)"
    unfolding w pipewrite_end_def wakeup_ok [OF pf(2)] by (simp add: upd_pipe_def cong: if_cong)
  have "length ?bs = n" by (simp add: user_bytes_def)
  then have "appended p ?bs s t" using t(4,5) assms(5) pq.puts [of "pipes s p" ?bs] by (simp add: appended_def)
  then show ?thesis using t assms(2) by (intro exI [of _ t]) (auto simp: woken_def)
qed

lemma piperead_present:
  assumes "held s = {}" "myproc s = Some pr" "pipe_queue (pipes s p) \<noteq> [] \<or> \<not> writeopen (pipes s p)"
    "user_ok (mem s) (pagetable (procs s pr))" "user_writable (mem s) (pagetable (procs s pr)) a n"
  shows "\<exists>t. let bs = take n (pipe_queue (pipes s p)) in
    piperead p a (int n) s = Ok (Inl (int (length bs)), t) \<and> held t = {} \<and> removed p (length bs) s t \<and>
    user_put (mem s) (pagetable (procs s pr)) a bs (mem t)"
proof -
  let ?s = "s\<lparr>held := {pipe_lock p}\<rparr>" and ?bs = "take n (pipe_queue (pipes s p))"
  have "piperead p a (int n) s = piperead_copy p a n 0 ?s"
    using assms(1,3) pq.empty_iff [of "pipes s p"] by (auto simp: piperead_def piperead_turn_def)
  then obtain m' where m': "piperead p a (int n) s =
      piperead_end p (int (length ?bs)) (upd_pipe p (pipe_pop ^^ length ?bs) (?s\<lparr>mem := m'\<rparr>))"
    "user_put (mem s) (pagetable (procs s pr)) a ?bs m'"
    using piperead_copy_present [of ?s pr a 0 n p] assms by (auto simp: Let_def)
  let ?u = "upd_pipe p (pipe_pop ^^ length ?bs) (?s\<lparr>mem := m'\<rparr>)"
  have pf: "plocks_free ?u" by (simp add: plocks_free_def pipe_lock_def)
  obtain t where t: "piperead p a (int n) s = Ok (Inl (int (length ?bs)), t)" "held t = {}" "mem t = m'" "pipes t = pipes ?u" "ftable t = ftable s"
    unfolding m'(1) piperead_end_def wakeup_ok [OF pf] by (simp add: upd_pipe_def)
  have "removed p (length ?bs) s t" using t(4,5) pq.pops [of "length ?bs" "pipes s p"] by (simp add: removed_def)
  then show ?thesis using t m'(2) by (intro exI [of _ t]) (simp add: Let_def)
qed

text \<open>C12: Bytes written to an empty pipe come out at the other end. If the writer's buffer is in memory and the reader has not
  closed the pipe, \<open>pipewrite\<close> of at most \<open>PIPESIZE\<close> bytes returns their number without sleeping and wakes the
  processes that sleep for data; then a \<open>piperead\<close> by any process with a writable buffer of that size in memory
  returns their number too, leaves the pipe empty, and its buffer holds exactly the writer's bytes while the rest of
  its memory is unchanged.\<close>

theorem pipe_roundtrip:
  fixes s :: "'z kfile_scheme"
  assumes "held s = {}" "myproc s = Some w" "killed (procs s w) = 0" "readopen (pipes s p)" "pipe_queue (pipes s p) = []"
    "0 < n" "n \<le> PIPESIZE" "user_present (mem s) (pagetable (procs s w)) a n"
  shows "\<exists>t. pipewrite p a (int n) s = Ok (Inl (int n), t) \<and> held t = {} \<and>
    (\<forall>q<NPROC. q \<noteq> w \<longrightarrow> pstate (procs s q) = SLEEPING \<and> chan (procs s q) = read_chan p \<longrightarrow> pstate (procs t q) = RUNNABLE) \<and>
    (\<forall>(u :: 'z kfile_scheme) r b. pipes u p = pipes t p \<and> held u = {} \<and> myproc u = Some r \<and> user_ok (mem u) (pagetable (procs u r)) \<and>
        user_writable (mem u) (pagetable (procs u r)) b n \<longrightarrow>
      (\<exists>v. piperead p b (int n) u = Ok (Inl (int n), v) \<and> pipe_queue (pipes v p) = [] \<and>
         user_put (mem u) (pagetable (procs u r)) b (user_bytes (mem s) (pagetable (procs s w)) a n) (mem v)))"
proof -
  let ?bs = "user_bytes (mem s) (pagetable (procs s w)) a n"
  obtain t where t: "pipewrite p a (int n) s = Ok (Inl (int n), t)" "held t = {}" "appended p ?bs s t"
    "\<forall>q<NPROC. q \<noteq> w \<longrightarrow> pstate (procs s q) = SLEEPING \<and> chan (procs s q) = read_chan p \<longrightarrow> pstate (procs t q) = RUNNABLE"
    using pipewrite_present [OF assms(1-4) _ assms(8)] assms(5,7) by auto
  have q: "pipe_queue (pipes t p) = ?bs" "length ?bs = n" "?bs \<noteq> []"
    using t(3) assms(5,6) by (simp_all add: appended_def user_bytes_def)
  have "\<exists>v. piperead p b (int n) u = Ok (Inl (int n), v) \<and> pipe_queue (pipes v p) = [] \<and> user_put (mem u) (pagetable (procs u r)) b ?bs (mem v)"
    if "pipes u p = pipes t p" "held u = {}" "myproc u = Some r" "user_ok (mem u) (pagetable (procs u r))"
      "user_writable (mem u) (pagetable (procs u r)) b n" for u :: "'z kfile_scheme" and r b
    using piperead_present [OF that(2,3) _ that(4,5), of p] q that(1) by (auto simp: Let_def removed_def)
  with t(1,2,4) show ?thesis by (intro exI [of _ t]) blast
qed

section \<open>Witnesses\<close>

text \<open>A system with one process, whose page 0 is in memory, and an open, empty pipe.\<close>

definition pf0 :: kfile where
  "pf0 = (kcons.extend (kfs.extend fs0 (kcons.fields (\<lambda>_. 0) 0 0 0 [] False))
     (kfile.fields (\<lambda>_. \<lparr>ftype = FD_NONE, fref = 0, freadable = False, fwritable = False, fpipe = 0, fip = 0, foff = 0, fmajor = 0\<rparr>)
        (\<lambda>_. \<lparr>pdata = (\<lambda>_. 0), nread = 0, nwrite = 0, readopen = True, writeopen = True\<rparr>)))
     \<lparr>mem := km_mem, procs := procs km0, cpu_proc := Some 0, held := {}\<rparr>"

lemma pf0_sel [simp]:
  "mem pf0 = km_mem" "procs pf0 = procs km0" "cpu_proc pf0 = Some 0" "held pf0 = {}" "myproc pf0 = Some 0"
  "pipes pf0 p = \<lparr>pdata = (\<lambda>_. 0), nread = 0, nwrite = 0, readopen = True, writeopen = True\<rparr>"
  by (simp_all add: pf0_def myproc_def kfs.defs kcons.defs kfile.defs)

lemma pf0_queue [simp]: "pipe_queue (pipes pf0 p) = []"
  by (simp add: pipe_queue_def)

lemma km_user_range:
  assumes "i < 4096"
  shows "walkaddr km_mem 0x80001000 (PGROUNDDOWN (of_nat i)) = 0x80004000" "pte_of km_mem 0x80001000 (of_nat i) = 0x20001057"
proof -
  have z: "PGROUNDDOWN (of_nat i) = 0" using assms by (simp add: word_unat_eq_iff unat_of_nat unat_PGROUNDDOWN)
  then show "walkaddr km_mem 0x80001000 (PGROUNDDOWN (of_nat i)) = 0x80004000" using km_user(2) by simp
  have "pte_of km_mem 0x80001000 0 = 0x20001057" by (simp add: km_pte leaf_path_def px_def PX_def)
  then show "pte_of km_mem 0x80001000 (of_nat i) = 0x20001057" using z pte_of_PGROUNDDOWN [of km_mem "0x80001000" "of_nat i"] by simp
qed

lemma pf0_user:
  "user_present km_mem 0x80001000 0 2" "user_ok km_mem 0x80001000" "user_writable km_mem 0x80001000 0 2"
  using km_user(1) km_user_range by (auto simp: user_present_def user_writable_def)

theorem pipe_roundtrip_witness:
  "\<exists>t v. pipewrite 0x80008000 0 2 pf0 = Ok (Inl 2, t) \<and> piperead 0x80008000 0 2 (pf0\<lparr>pipes := pipes t\<rparr>) = Ok (Inl 2, v) \<and>
    user_put km_mem 0x80001000 0 (user_bytes km_mem 0x80001000 0 2) (mem v)"
proof -
  have pt: "pagetable (procs pf0 0) = 0x80001000" "killed (procs pf0 0) = 0" by (simp_all add: proc0_def)
  obtain t where t: "pipewrite 0x80008000 0 (int 2) pf0 = Ok (Inl (int 2), t)"
    "\<forall>(u :: kfile) r b. pipes u 0x80008000 = pipes t 0x80008000 \<and> held u = {} \<and> myproc u = Some r \<and> user_ok (mem u) (pagetable (procs u r)) \<and>
        user_writable (mem u) (pagetable (procs u r)) b 2 \<longrightarrow>
      (\<exists>v. piperead 0x80008000 b (int 2) u = Ok (Inl (int 2), v) \<and> pipe_queue (pipes v 0x80008000) = [] \<and>
         user_put (mem u) (pagetable (procs u r)) b (user_bytes (mem pf0) (pagetable (procs pf0 0)) 0 2) (mem v))"
    using pipe_roundtrip [of pf0 0 "0x80008000" 2 0] pf0_user(1) pt by (auto simp: PIPESIZE_def pipe_queue_def)
  let ?u = "pf0\<lparr>pipes := pipes t\<rparr>"
  have u: "mem ?u = km_mem" "procs ?u = procs pf0" "held ?u = {}" "myproc ?u = Some 0" by (simp_all add: myproc_def)
  show ?thesis
    using t(1) spec [OF spec [OF spec [OF t(2), of ?u], of 0], of 0] pf0_user(2,3) pt unfolding u by auto
qed

theorem pipe_queue_discipline_witness:
  "\<exists>t bs. pipewrite 0x80008000 0 2 pf0 = Ok (Inl 2, t) \<and> appended 0x80008000 bs pf0 t \<and> reports (Inl 2) (length bs)"
proof -
  obtain t where t: "pipewrite 0x80008000 0 (int 2) pf0 = Ok (Inl (int 2), t)"
    using pipewrite_present [of pf0 0 "0x80008000" 2 0] pf0_user(1) km0_sel by (auto simp: proc0_def PIPESIZE_def pipe_queue_def)
  then show ?thesis using pipe_queue_discipline [of pf0 "0x80008000" 0 2 "Inl 2" t] by (auto simp: pipe_queue_def)
qed

end
