(* ===== verification/Console_Lines.thy ===== *)
theory Console_Lines
  imports Console Pipe
begin

text \<open>The line discipline of the console: the input interrupt as an editor of lines, on the bytes that are ready for a reader
  and the line that is being typed.\<close>

section \<open>The input buffer\<close>

definition cons_ready :: "'z kcons_scheme \<Rightarrow> uint8 list" where
  "cons_ready s = ring INPUT_BUF_SIZE (cons_buf s) (cons_r s) (cons_w s)"

definition cons_line :: "'z kcons_scheme \<Rightarrow> uint8 list" where
  "cons_line s = ring INPUT_BUF_SIZE (cons_buf s) (cons_w s) (cons_e s)"

text \<open>The three indices are in order, and a newline ends the line that is being typed.\<close>

definition cons_ok :: "'z kcons_scheme \<Rightarrow> bool" where
  "cons_ok s \<longleftrightarrow> length (cons_ready s) + length (cons_line s) \<le> INPUT_BUF_SIZE \<and> NEWLINE \<notin> set (cons_line s)"

text \<open>What the bytes of the buffer are, read as one queue: those ready and the line.\<close>

lemma ring_append:
  assumes "unat (w - r) + unat (e - w) \<le> N" "N < 2 ^ 32"
  shows "ring N d r e = ring N d r w @ ring N d w e" "unat (e - r) = unat (w - r) + unat (e - w)"
proof -
  have "unat ((w - r) + (e - w)) = unat (w - r) + unat (e - w)"
    using assms by (subst unat_add_lem [symmetric]) simp
  then show u: "unat (e - r) = unat (w - r) + unat (e - w)" by simp
  have w: "w = r + of_nat (unat (w - r))" by simp
  have "map (\<lambda>i. d (slot N (r + of_nat i))) [k..<k + n] = map (\<lambda>i. d (slot N (r + of_nat k + of_nat i))) [0..<n]" for k n
    by (induction n) (simp_all add: add.assoc)
  from this [of "unat (w - r)" "unat (e - w)"] show "ring N d r e = ring N d r w @ ring N d w e"
    unfolding ring_def u upt_add_eq_append [OF zero_le] map_append w [symmetric] by simp
qed

lemma ring_upd:
  assumes "N dvd 2 ^ 32" "N < 2 ^ 32" "unat (w - r) + unat (e - w) < N"
  shows "ring N (d(slot N e := c)) r w = ring N d r w"
proof -
  have le: "unat (w - r) + unat (e - w) \<le> N" using assms(3) by simp
  note ap = ring_append [OF le assms(2)]
  have "ring N (d(slot N e := c)) w (e + 1) = ring N d w e @ [c]" by (rule ring_push) (use assms in simp_all)
  then have e1: "unat (e + 1 - w) = unat (e - w) + 1" by (metis length_append_singleton length_ring Suc_eq_plus1)
  have "ring N (d(slot N e := c)) r (e + 1) = ring N d r e @ [c]"
    by (rule ring_push) (use assms ap(2) in simp_all)
  moreover have "ring N (d(slot N e := c)) r (e + 1) = ring N (d(slot N e := c)) r w @ ring N (d(slot N e := c)) w (e + 1)"
    by (rule ring_append) (use assms e1 in simp_all)
  ultimately have "ring N (d(slot N e := c)) r w @ ring N (d(slot N e := c)) w (e + 1) = ring N d r w @ (ring N d w e @ [c])"
    using ap(1) by simp
  then show ?thesis by (subst (asm) append_eq_append_conv) simp_all
qed

section \<open>The editor\<close>

text \<open>Ctrl-P lists the processes, Ctrl-U and backspace edit the line, a carriage return counts as a newline, and a newline,
  Ctrl-D or a full buffer hands the line to the readers.\<close>

definition edit :: "nat \<Rightarrow> uint8 list \<times> uint8 list \<Rightarrow> uint8 list \<times> uint8 list" where
  "edit c x =
     (case x of (ready, line) \<Rightarrow>
      let b = (if c = 13 then 10 else c)
      in if c = 16 then (ready, line)
         else if c = 21 then (ready, [])
         else if c = 8 \<or> c = 127 then (ready, butlast line)
         else if c = 0 \<or> length ready + length line = INPUT_BUF_SIZE then (ready, line)
         else if b = 10 \<or> b = 4 \<or> length ready + length line + 1 = INPUT_BUF_SIZE then (ready @ line @ [of_nat b], [])
         else (ready, line @ [of_nat b]))"

text \<open>Output to the console.\<close>

lemma consputc_out: "\<exists>out. consputc c s = s\<lparr>uart_out := out\<rparr>"
  by (simp add: consputc_def uartputc_sync_def) blast

lemma kprintf_out: "PrLock \<notin> held s \<Longrightarrow> \<exists>out. kprintf fmt args s = Ok (s\<lparr>uart_out := out\<rparr>)"
  by (cases "kernel_printf fmt args") (auto simp: kprintf_def intro: exI [of _ "uart_out s"])

lemma kprintf_twice: "PrLock \<notin> held s \<Longrightarrow> \<exists>out. bindr (kprintf f1 a1 s) (kprintf f2 a2) = Ok (s\<lparr>uart_out := out\<rparr>)"
  using kprintf_out [of s f1 a1] kprintf_out [of "s\<lparr>uart_out := _\<rparr>" f2 a2] by force

lemma procdump_out:
  assumes "PrLock \<notin> held s"
  shows "\<exists>out. procdump s = Ok (s\<lparr>uart_out := out\<rparr>)"
proof -
  have loop: "\<exists>out. loop_res (\<lambda>i s. let p = procs s i in if pstate p = UNUSED then Ok s
      else bindr (kprintf ''%d %s %s'' [Num (of_int (pid p)), Str (Some (state_text (pstate p))),
          Str (Some (map (\<lambda>c. char_of (unat c)) (pname p)))] s) (kprintf [CHR 0x0A] [])) ps u = Ok (u\<lparr>uart_out := out\<rparr>)"
    if "PrLock \<notin> held u" for ps and u :: "'a kcons_scheme"
    using that
  proof (induction ps arbitrary: u)
    case Nil
    then show ?case by (auto intro: exI [of _ "uart_out u"])
  next
    case (Cons i ps)
    obtain out where "(let p = procs u i in if pstate p = UNUSED then Ok u
      else bindr (kprintf ''%d %s %s'' [Num (of_int (pid p)), Str (Some (state_text (pstate p))),
          Str (Some (map (\<lambda>c. char_of (unat c)) (pname p)))] u) (kprintf [CHR 0x0A] [])) = Ok (u\<lparr>uart_out := out\<rparr>)"
      using kprintf_twice [OF Cons.prems] unfolding Let_def by (cases "pstate (procs u i) = UNUSED") (force intro: exI [of _ "uart_out u"])+
    then show ?case using Cons.IH [of "u\<lparr>uart_out := out\<rparr>"] Cons.prems by simp
  qed
  obtain out where "kprintf [CHR 0x0A] [] s = Ok (s\<lparr>uart_out := out\<rparr>)" using kprintf_out [OF assms] by blast
  then show ?thesis using loop [of "s\<lparr>uart_out := out\<rparr>"] assms unfolding procdump_def by simp
qed

lemma line_last:
  assumes "cons_e s \<noteq> cons_w s"
  shows "cons_line s \<noteq> []" "last (cons_line s) = cons_buf s (slot INPUT_BUF_SIZE (cons_e s - 1))"
    "cons_line (s\<lparr>cons_e := cons_e s - 1\<rparr>) = butlast (cons_line s)"
proof -
  let ?n = "unat (cons_e s - cons_w s)"
  have nz: "cons_e s - cons_w s \<noteq> 0" using assms by simp
  then show "cons_line s \<noteq> []" by (simp add: cons_line_def)
  have "cons_w s + of_nat (?n - 1) = cons_e s - 1"
    unfolding unat_minus_one [OF nz, symmetric] by simp
  moreover have "0 < ?n" using nz by (simp add: unat_gt_0)
  ultimately show "last (cons_line s) = cons_buf s (slot INPUT_BUF_SIZE (cons_e s - 1))"
    by (simp add: cons_line_def ring_def last_map)
  show "cons_line (s\<lparr>cons_e := cons_e s - 1\<rparr>) = butlast (cons_line s)" using ring_unpush [OF assms] by (simp add: cons_line_def)
qed

lemma kill_line_out: "NEWLINE \<notin> set (cons_line s) \<Longrightarrow> \<exists>out. kill_line s = s\<lparr>cons_e := cons_w s, uart_out := out\<rparr>"
proof (induction s rule: kill_line.induct)
  case (1 s)
  show ?case
  proof (cases "cons_e s = cons_w s")
    case True
    then have "kill_line s = s" by (simp add: kill_line.simps [of s])
    then show ?thesis using True by (intro exI [of _ "uart_out s"]) simp
  next
    case False
    note l = line_last [OF False]
    obtain out where out: "consputc BACKSPACE (s\<lparr>cons_e := cons_e s - 1\<rparr>) = s\<lparr>cons_e := cons_e s - 1, uart_out := out\<rparr>"
      using consputc_out [of BACKSPACE "s\<lparr>cons_e := cons_e s - 1\<rparr>"] by auto
    have nl: "cons_buf s (slot INPUT_BUF_SIZE (cons_e s - 1)) \<noteq> NEWLINE" using l(1,2) 1(2) by (metis last_in_set)
    have "NEWLINE \<notin> set (cons_line (s\<lparr>cons_e := cons_e s - 1, uart_out := out\<rparr>))"
      using 1(2) l(3) in_set_butlastD [of NEWLINE "cons_line s"] by (auto simp: cons_line_def)
    then show ?thesis using 1(1) False nl kill_line.simps [of s] unfolding out by auto
  qed
qed

text \<open>A character that is stored: it goes to the end of the line and leaves the bytes that are ready alone.\<close>

lemma store_char:
  fixes s :: "'z kcons_scheme" and b :: uint8
  assumes "length (cons_ready s) + length (cons_line s) < INPUT_BUF_SIZE"
  defines "t \<equiv> s\<lparr>cons_buf := (cons_buf s)(slot INPUT_BUF_SIZE (cons_e s) := b), cons_e := cons_e s + 1\<rparr>"
  shows "cons_ready t = cons_ready s" "cons_line t = cons_line s @ [b]" "unat (cons_e t - cons_r t) = length (cons_ready s) + length (cons_line s) + 1"
    "ring INPUT_BUF_SIZE (cons_buf t) (cons_r t) (cons_e t) = cons_ready s @ cons_line s @ [b]"
proof -
  let ?N = INPUT_BUF_SIZE
  have N: "?N dvd 2 ^ 32" "?N < 2 ^ 32" by (simp_all add: INPUT_BUF_SIZE_def)
  have lt: "unat (cons_w s - cons_r s) + unat (cons_e s - cons_w s) < ?N" using assms(1) by (simp add: cons_ready_def cons_line_def)
  show 1: "cons_ready t = cons_ready s" using ring_upd [OF N lt] by (simp add: t_def cons_ready_def)
  show 2: "cons_line t = cons_line s @ [b]" using ring_push [OF N, of "cons_e s" "cons_w s"] lt by (simp add: t_def cons_line_def)
  then have "unat (cons_e t - cons_w t) = unat (cons_e s - cons_w s) + 1"
    by (metis cons_line_def length_append_singleton length_ring Suc_eq_plus1)
  then have le: "unat (cons_w t - cons_r t) + unat (cons_e t - cons_w t) \<le> ?N" using lt by (simp add: t_def)
  note ap = ring_append [OF le N(2)]
  show "unat (cons_e t - cons_r t) = length (cons_ready s) + length (cons_line s) + 1"
    unfolding ap(2) using 1 2 by (metis cons_line_def cons_ready_def length_ring length_append_singleton Suc_eq_plus1 add.assoc)
  show "ring ?N (cons_buf t) (cons_r t) (cons_e t) = cons_ready s @ cons_line s @ [b]"
    unfolding ap(1) using 1 2 by (simp add: cons_ready_def cons_line_def)
qed

lemma room_iff:
  assumes "length (cons_ready s) + length (cons_line s) \<le> INPUT_BUF_SIZE"
  shows "unat (cons_e s - cons_r s) = length (cons_ready s) + length (cons_line s)"
  using ring_append(2) [of "cons_w s" "cons_r s" "cons_e s" INPUT_BUF_SIZE] assms
  by (simp add: cons_ready_def cons_line_def INPUT_BUF_SIZE_def)

lemma input_upd [simp]:
  "cons_ready (s\<lparr>held := H\<rparr>) = cons_ready s" "cons_line (s\<lparr>held := H\<rparr>) = cons_line s" "cons_ok (s\<lparr>held := H\<rparr>) = cons_ok s"
  "cons_ready (s\<lparr>uart_out := x\<rparr>) = cons_ready s" "cons_line (s\<lparr>uart_out := x\<rparr>) = cons_line s" "cons_ok (s\<lparr>uart_out := x\<rparr>) = cons_ok s"
  "cons_ready (s\<lparr>procs := P\<rparr>) = cons_ready s" "cons_line (s\<lparr>procs := P\<rparr>) = cons_line s"
  by (simp_all add: cons_ready_def cons_line_def cons_ok_def)

definition edited :: "nat \<Rightarrow> 'z kcons_scheme \<Rightarrow> 'z kcons_scheme \<Rightarrow> bool" where
  "edited c s t \<longleftrightarrow>
     (cons_ready t, cons_line t) = edit c (cons_ready s, cons_line s) \<and> cons_ok t \<and> held t = held s \<and> cpu_proc t = cpu_proc s"

lemma edited_release:
  assumes "edited c (s\<lparr>held := insert ConsLock (held s)\<rparr>) t" "ConsLock \<notin> held s"
  shows "\<exists>u. release ConsLock t = Ok u \<and> edited c s u"
  using assms by (auto simp: edited_def)

lemma kill_edited:
  assumes "cons_ok s"
  shows "edited 21 s (kill_line s)"
proof -
  obtain out where "kill_line s = s\<lparr>cons_e := cons_w s, uart_out := out\<rparr>" using kill_line_out assms by (auto simp: cons_ok_def)
  then show ?thesis using assms by (simp add: edited_def edit_def cons_ok_def cons_ready_def cons_line_def)
qed

lemma erase_edited:
  assumes "cons_ok s" "c = 8 \<or> c = 127"
  shows "edited c s (if cons_e s \<noteq> cons_w s then consputc BACKSPACE (s\<lparr>cons_e := cons_e s - 1\<rparr>) else s)"
proof (cases "cons_e s = cons_w s")
  case True
  then show ?thesis using assms by (auto simp: edited_def edit_def cons_line_def)
next
  case False
  obtain out where out: "consputc BACKSPACE (s\<lparr>cons_e := cons_e s - 1\<rparr>) = s\<lparr>cons_e := cons_e s - 1, uart_out := out\<rparr>"
    using consputc_out [of BACKSPACE "s\<lparr>cons_e := cons_e s - 1\<rparr>"] by auto
  have l: "cons_line (s\<lparr>cons_e := cons_e s - 1\<rparr>) = butlast (cons_line s)" "cons_ready (s\<lparr>cons_e := cons_e s - 1\<rparr>) = cons_ready s"
    using line_last(3) [OF False] by (simp_all add: cons_ready_def)
  show ?thesis using False assms by (auto simp: edited_def edit_def out l cons_ok_def Let_def dest: in_set_butlastD)
qed

lemma store_edited:
  fixes s :: "'z kcons_scheme"
  assumes "cons_ok s" "plocks_free s" "c \<notin> {16, 21, 8, 127, 0}" "unat (cons_e s - cons_r s) < INPUT_BUF_SIZE" "c < 256"
  shows "\<exists>t. (let c = (if c = 13 then 10 else c); s = consputc c s;
             s = s\<lparr>cons_buf := (cons_buf s)(slot INPUT_BUF_SIZE (cons_e s) := of_nat c), cons_e := cons_e s + 1\<rparr>
         in if c = 10 \<or> c = 4 \<or> unat (cons_e s - cons_r s) = INPUT_BUF_SIZE
            then wakeup ChanCons (s\<lparr>cons_w := cons_e s\<rparr>) else Ok s) = Ok t \<and> edited c s t"
proof -
  define b :: nat where "b = (if c = 13 then 10 else c)"
  obtain out where out: "consputc b s = s\<lparr>uart_out := out\<rparr>" using consputc_out by blast
  let ?s = "s\<lparr>uart_out := out\<rparr>"
  let ?t = "?s\<lparr>cons_buf := (cons_buf ?s)(slot INPUT_BUF_SIZE (cons_e ?s) := of_nat b), cons_e := cons_e ?s + 1\<rparr>"
  have len: "length (cons_ready s) + length (cons_line s) < INPUT_BUF_SIZE"
    using assms(1,4) room_iff [of s] by (simp add: cons_ok_def)
  then have "length (cons_ready ?s) + length (cons_line ?s) < INPUT_BUF_SIZE" by simp
  note st = store_char [OF this, of "of_nat b"]
  have nl: "of_nat b = NEWLINE \<longleftrightarrow> b = 10" using assms(5) by (simp add: NEWLINE_def b_def word_unat_eq_iff unat_of_nat)
  show ?thesis
  proof (cases "b = 10 \<or> b = 4 \<or> unat (cons_e ?t - cons_r ?t) = INPUT_BUF_SIZE")
    case True
    let ?w = "?t\<lparr>cons_w := cons_e ?t\<rparr>"
    have pf: "plocks_free ?w" using assms(2) by (simp add: plocks_free_def)
    obtain P where w: "wakeup ChanCons ?w = Ok (?w\<lparr>procs := P\<rparr>)" using wakeup_ok [OF pf] by blast
    have "cons_ready ?w = cons_ready s @ cons_line s @ [of_nat b]" "cons_line ?w = []"
      using st(4) by (simp_all add: cons_ready_def cons_line_def)
    then have "edited c s (?w\<lparr>procs := P\<rparr>)" using True st(3) assms(3) len
      by (simp add: edited_def edit_def cons_ok_def b_def [symmetric] Let_def)
    then show ?thesis using True w unfolding Let_def b_def [symmetric] out by (intro exI [of _ "?w\<lparr>procs := P\<rparr>"]) simp
  next
    case False
    then have "edited c s ?t" using st nl assms(1,3) len
      by (auto simp: edited_def edit_def cons_ok_def b_def [symmetric] Let_def)
    then show ?thesis using False unfolding Let_def b_def [symmetric] out by (intro exI [of _ ?t]) simp
  qed
qed

lemma consoleintr_edit:
  assumes "plocks_free s" "ConsLock \<notin> held s" "PrLock \<notin> held s" "cons_ok s" "c < 256"
  shows "\<exists>t. consoleintr c s = Ok t \<and> edited c s t"
proof -
  let ?s = "s\<lparr>held := insert ConsLock (held s)\<rparr>"
  have ok: "cons_ok ?s" "plocks_free ?s" using assms by (simp_all add: plocks_free_def)
  have "\<exists>t. (if c = 16 then procdump ?s
       else if c = 21 then Ok (kill_line ?s)
       else if c = 8 \<or> c = 127 then
         Ok (if cons_e ?s \<noteq> cons_w ?s then consputc BACKSPACE (?s\<lparr>cons_e := cons_e ?s - 1\<rparr>) else ?s)
       else if c \<noteq> 0 \<and> unat (cons_e ?s - cons_r ?s) < INPUT_BUF_SIZE then
         let c = (if c = 13 then 10 else c); s = consputc c ?s;
             s = s\<lparr>cons_buf := (cons_buf s)(slot INPUT_BUF_SIZE (cons_e s) := of_nat c), cons_e := cons_e s + 1\<rparr>
         in if c = 10 \<or> c = 4 \<or> unat (cons_e s - cons_r s) = INPUT_BUF_SIZE
            then wakeup ChanCons (s\<lparr>cons_w := cons_e s\<rparr>) else Ok s
       else Ok ?s) = Ok t \<and> edited c ?s t"
  proof -
    consider "c = 16" | "c = 21" | "c = 8 \<or> c = 127" | "c \<notin> {16, 21, 8, 127}" "c = 0 \<or> \<not> unat (cons_e ?s - cons_r ?s) < INPUT_BUF_SIZE"
      | "c \<notin> {16, 21, 8, 127, 0}" "unat (cons_e ?s - cons_r ?s) < INPUT_BUF_SIZE" by blast
    then show ?thesis
    proof cases
      case 1
      then show ?thesis using procdump_out [of ?s] assms(3) ok(1) by (auto simp: edited_def edit_def)
    next
      case 2
      then show ?thesis using kill_edited [OF ok(1)] by simp
    next
      case 3
      then show ?thesis using erase_edited [OF ok(1) 3] by auto
    next
      case 4
      then show ?thesis using ok(1) room_iff [of ?s] by (auto simp: edited_def edit_def cons_ok_def Let_def)
    next
      case 5
      then show ?thesis using store_edited [OF ok 5 assms(5)] by simp
    qed
  qed
  then obtain t where "consoleintr c s = release ConsLock t" "edited c ?s t"
    using assms(2) by (auto simp: consoleintr_def simp del: input_upd)
  then show ?thesis using edited_release assms(2) by metis
qed

lemma uartintr_edits:
  assumes "plocks_free s" "ConsLock \<notin> held s" "PrLock \<notin> held s" "UartLock \<notin> held s" "cons_ok s"
  shows "\<exists>t. uartintr idle cs s = Ok t \<and>
    (cons_ready t, cons_line t) = fold (\<lambda>b. edit (unat b)) cs (cons_ready s, cons_line s) \<and> cons_ok t \<and> held t = held s"
proof -
  have loop: "\<exists>t. loop_res (\<lambda>b. consoleintr (unat b)) cs u = Ok t \<and>
      (cons_ready t, cons_line t) = fold (\<lambda>b. edit (unat b)) cs (cons_ready u, cons_line u) \<and> cons_ok t \<and> held t = held u"
    if "held u = held s" "cons_ok u" for u :: "'a kcons_scheme"
    using that
  proof (induction cs arbitrary: u)
    case (Cons b cs)
    have "unat b < 256" using unsigned_less [of b, where ?'a = nat] by simp
    then obtain t where "consoleintr (unat b) u = Ok t" "edited (unat b) u t"
      using consoleintr_edit [of u "unat b"] assms Cons.prems by (auto simp: plocks_free_def)
    then show ?case using Cons.IH [of t] Cons.prems by (auto simp: edited_def)
  qed simp
  let ?s = "s\<lparr>held := insert UartLock (held s)\<rparr>"
  have pf: "plocks_free (?s\<lparr>tx_busy := False\<rparr>)" using assms(1) by (simp add: plocks_free_def)
  obtain u where "uartintr idle cs s = loop_res (\<lambda>b. consoleintr (unat b)) cs u" "held u = held s"
    "cons_ready u = cons_ready s" "cons_line u = cons_line s" "cons_ok u"
    using assms(4,5) wakeup_ok [OF pf] by (cases idle) (auto simp: uartintr_def cons_ready_def cons_line_def cons_ok_def)
  then show ?thesis using loop [of u] by simp
qed

section \<open>Reading a line\<close>

text \<open>What a reader that still wants \<open>n\<close> of \<open>target\<close> bytes gets, and what is left; \<open>None\<close> if it has to wait. It stops after a
  newline. Ctrl-D ends the input; it is left for the next call if something has been read.\<close>

fun read_line :: "nat \<Rightarrow> nat \<Rightarrow> uint8 list \<Rightarrow> (uint8 list \<times> uint8 list) option" where
  "read_line 0 target q = Some ([], q)"
| "read_line (Suc n) target [] = None"
| "read_line (Suc n) target (c # q) =
     (if c = CTRL_D then Some ([], if Suc n < target then c # q else q)
      else if c = NEWLINE then Some ([c], q)
      else map_option (\<lambda>(bs, q). (c # bs, q)) (read_line n target q))"

lemma ready_pop:
  assumes "cons_ready s = c # q"
  shows "cons_r s \<noteq> cons_w s" "cons_buf s (slot INPUT_BUF_SIZE (cons_r s)) = c" "cons_ready (s\<lparr>cons_r := cons_r s + 1\<rparr>) = q"
proof -
  show ne: "cons_r s \<noteq> cons_w s" using assms by (auto simp: cons_ready_def)
  show "cons_buf s (slot INPUT_BUF_SIZE (cons_r s)) = c" "cons_ready (s\<lparr>cons_r := cons_r s + 1\<rparr>) = q"
    using assms ring_pop [OF ne [symmetric], of INPUT_BUF_SIZE "cons_buf s"] by (simp_all add: cons_ready_def)
qed

lemma consoleread_loop_line:
  assumes "read_line n target (cons_ready s) = Some (bs, q)" "myproc s = Some p" "ConsLock \<in> held s" "n \<le> target"
    "user_ok (mem s) (pagetable (procs s p))" "user_writable (mem s) (pagetable (procs s p)) dst n"
  shows "\<exists>t. consoleread_loop True dst n target s = Ok (Inl (int (target - n + length bs)), t) \<and> cons_ready t = q \<and>
    held t = held s - {ConsLock} \<and> user_put (mem s) (pagetable (procs s p)) dst bs (mem t)"
  using assms
proof (induction n arbitrary: dst s bs)
  case 0
  then show ?case by (auto intro: user_put_Nil)
next
  case (Suc n)
  let ?pt = "pagetable (procs s p)"
  obtain c q' where cq: "cons_ready s = c # q'" using Suc.prems(1) by (cases "cons_ready s") auto
  note rp = ready_pop [OF cq]
  show ?case
  proof (cases "c = CTRL_D")
    case True
    have "consoleread_loop True dst (Suc n) target s = Ok (Inl (int (target - Suc n)),
        (if Suc n < target then s else s\<lparr>cons_r := cons_r s + 1\<rparr>)\<lparr>held := held s - {ConsLock}\<rparr>)"
      using rp True Suc.prems(3,4) by (auto simp: Let_def of_nat_diff)
    then show ?thesis using True cq Suc.prems(1) rp(3) by (auto intro: user_put_Nil)
  next
    case False
    let ?s = "s\<lparr>cons_r := cons_r s + 1\<rparr>"
    obtain m where m: "copyout ?pt dst [c] ?s = Ok (0, ?s\<lparr>mem := m\<rparr>)" "walkaddr m ?pt = walkaddr (mem s) ?pt" "user_ok m ?pt"
      "user_writable m ?pt (dst + 1) n" "unat (dst + 1) = unat dst + 1" "user_put (mem s) ?pt dst [c] m"
      using copyout_byte [of ?s ?pt dst n c] Suc.prems(5,6) by auto
    let ?u = "?s\<lparr>mem := m\<rparr>"
    have co: "either_copyout True dst [c] ?s = Ok (0, ?u)"
      using m(1) Suc.prems(2) by (simp add: either_copyout_def myproc_def)
    have ready: "cons_ready ?u = q'" using rp(3) by (simp add: cons_ready_def)
    show ?thesis
    proof (cases "c = NEWLINE")
      case True
      then show ?thesis using False cq Suc.prems rp co m(6) ready by (auto simp: Let_def of_nat_diff cons_ready_def)
    next
      case nl: False
      then obtain cs where cs: "bs = c # cs" "read_line n target (cons_ready ?u) = Some (cs, q)"
        using False Suc.prems(1) cq ready by auto
      have step: "consoleread_loop True dst (Suc n) target s = consoleread_loop True (dst + 1) n target ?u"
        using False nl rp co by (simp add: Let_def)
      obtain t where "consoleread_loop True (dst + 1) n target ?u = Ok (Inl (int (target - n + length cs)), t)" "cons_ready t = q"
        "held t = held s - {ConsLock}" "user_put m ?pt (dst + 1) cs (mem t)"
        using Suc.IH [OF cs(2), of "dst + 1"] Suc.prems(2-4) m(3,4) by (auto simp: myproc_def)
      then show ?thesis using user_put_Cons [OF m(6,2,5)] step cs(1) Suc.prems(4) by (intro exI [of _ t]) (auto simp: Suc_diff_Suc)
    qed
  qed
qed

text \<open>C13: The console's input is a line editor. Whatever bytes the UART has received, its interrupt handler treats the input
  buffer as the bytes that are ready and the line being typed, exactly as \<open>edit\<close> says, never loses a byte that is
  ready, and keeps the buffer's indices in order. A process that reads afterwards, with its buffer in memory, gets
  what \<open>read_line\<close> says: the bytes up to the end of the line, or as many as it asked for, or up to Ctrl-D.\<close>

theorem console_input_lines:
  fixes s :: "'z kcons_scheme"
  assumes "held s = {}" "cons_ok s"
  shows "\<exists>t. uartintr idle cs s = Ok t \<and> held t = {} \<and> cons_ok t \<and>
    (cons_ready t, cons_line t) = fold (\<lambda>b. edit (unat b)) cs (cons_ready s, cons_line s) \<and>
    (\<forall>(u :: 'z kcons_scheme) p dst n bs q. cons_ready u = cons_ready t \<and> held u = {} \<and> myproc u = Some p \<and>
        user_ok (mem u) (pagetable (procs u p)) \<and> user_writable (mem u) (pagetable (procs u p)) dst n \<and>
        read_line n n (cons_ready t) = Some (bs, q) \<longrightarrow>
      (\<exists>v. consoleread True dst (int n) u = Ok (Inl (int (length bs)), v) \<and> cons_ready v = q \<and>
         user_put (mem u) (pagetable (procs u p)) dst bs (mem v)))"
proof -
  obtain t where t: "uartintr idle cs s = Ok t" "cons_ok t" "held t = {}"
    "(cons_ready t, cons_line t) = fold (\<lambda>b. edit (unat b)) cs (cons_ready s, cons_line s)"
    using uartintr_edits [of s idle cs] assms by (auto simp: plocks_free_def)
  have "\<exists>v. consoleread True dst (int n) u = Ok (Inl (int (length bs)), v) \<and> cons_ready v = q \<and>
      user_put (mem u) (pagetable (procs u p)) dst bs (mem v)"
    if "cons_ready u = cons_ready t" "held u = {}" "myproc u = Some p" "user_ok (mem u) (pagetable (procs u p))"
      "user_writable (mem u) (pagetable (procs u p)) dst n" "read_line n n (cons_ready t) = Some (bs, q)"
    for u :: "'z kcons_scheme" and p dst n bs q
    using consoleread_loop_line [of n n "u\<lparr>held := {ConsLock}\<rparr>" bs q p dst] that by (auto simp: consoleread_def)
  with t show ?thesis by (intro exI [of _ t]) blast
qed

text \<open>A line typed with a correction, and read back.\<close>

theorem console_input_lines_witness:
  "\<exists>t v. uartintr False [104, 106, 127, 105, 13] pf0 = Ok t \<and> cons_ready t = [104, 105, 10] \<and>
    consoleread True 0 10 (pf0\<lparr>cons_buf := cons_buf t, cons_r := cons_r t, cons_w := cons_w t\<rparr>) = Ok (Inl 3, v) \<and> cons_ready v = []"
proof -
  have input: "cons_ready pf0 = []" "cons_line pf0 = []" "cons_ok pf0"
    by (simp_all add: cons_ok_def cons_ready_def cons_line_def pf0_def kfs.defs kcons.defs kfile.defs)
  obtain t where t: "uartintr False [104, 106, 127, 105, 13] pf0 = Ok t"
    "(cons_ready t, cons_line t) = fold (\<lambda>b. edit (unat b)) [104 :: uint8, 106, 127, 105, 13] ([], [])"
    "\<forall>(u :: kfile) p dst n bs q. cons_ready u = cons_ready t \<and> held u = {} \<and> myproc u = Some p \<and>
        user_ok (mem u) (pagetable (procs u p)) \<and> user_writable (mem u) (pagetable (procs u p)) dst n \<and>
        read_line n n (cons_ready t) = Some (bs, q) \<longrightarrow>
      (\<exists>v. consoleread True dst (int n) u = Ok (Inl (int (length bs)), v) \<and> cons_ready v = q \<and>
         user_put (mem u) (pagetable (procs u p)) dst bs (mem v))"
    using console_input_lines [OF pf0_sel(4) input(3), of False "[104, 106, 127, 105, 13]"] unfolding input by blast
  have r: "cons_ready t = [104, 105, 10]" using t(2) by (simp add: edit_def INPUT_BUF_SIZE_def)
  let ?u = "pf0\<lparr>cons_buf := cons_buf t, cons_r := cons_r t, cons_w := cons_w t\<rparr>"
  have u: "cons_ready ?u = cons_ready t" "mem ?u = km_mem" "procs ?u = procs pf0" "held ?u = {}" "myproc ?u = Some 0"
    by (simp_all add: cons_ready_def myproc_def)
  have "user_writable km_mem 0x80001000 0 10" using km_user_range by (auto simp: user_writable_def)
  moreover have "pagetable (procs pf0 0) = 0x80001000" by (simp add: proc0_def)
  moreover have "read_line 10 10 [104, 105, 10] = Some ([104, 105, 10], [])"
    using read_line.simps(3) [of 9 10 104 "[105, 10]"] read_line.simps(3) [of 8 10 105 "[10]"] read_line.simps(3) [of 7 10 10 "[]"]
    by (simp add: CTRL_D_def NEWLINE_def)
  ultimately show ?thesis
    using t(1) r t(3) [rule_format, of ?u 0 0 10 "[104, 105, 10]" "[]"] pf0_user(2) unfolding u by auto
qed

end
