(* ===== verification/Fs_Inode.thy ===== *)
theory Fs_Inode
  imports Fs_Blocks Vm_Frame
begin

text \<open>Files as sequences of bytes: \<open>bmap\<close>, \<open>readi\<close> and \<open>writei\<close> of \<open>kernel/fs.c\<close> inside a transaction.

  The blocks of an inode are numbered by slots: its direct blocks, the entries of its indirect block and, as slot
  \<open>MAXFILE\<close>, the indirect block itself. The invariant \<open>file_ok\<close> says that the slots in use name different allocated
  data blocks. On it \<open>bmap\<close> is shown to find or allocate the block of a slot without a change to the content, and
  \<open>writei\<close> and \<open>readi\<close> to write and read the content.\<close>

section \<open>The blocks of a file\<close>

definition fslot :: "'z kfs_scheme \<Rightarrow> nat \<Rightarrow> nat \<Rightarrow> nat" where
  "fslot s ip k = (let x = inodes s ip; a = iaddrs x NDIRECT
     in if k < NDIRECT then iaddrs x k else if k = MAXFILE then a
        else if a = 0 then 0 else get_u32 (view s a) (4 * (k - NDIRECT)))"

definition good_block :: "'z kfs_scheme \<Rightarrow> nat \<Rightarrow> bool" where
  "good_block s b \<longleftrightarrow> b < sb_size (sb s) \<and> in_use s b \<and> data_block s b \<and> length (view s b) = BSIZE"

definition inode_block :: "'z kfs_scheme \<Rightarrow> nat \<Rightarrow> nat" where
  "inode_block s ip = IBLOCK (inum (inodes s ip)) (sb s)"

definition file_ok :: "'z kfs_scheme \<Rightarrow> nat \<Rightarrow> bool" where
  "file_ok s ip \<longleftrightarrow> idev (inodes s ip) = ROOTDEV \<and> good_block s (inode_block s ip) \<and>
     (\<forall>k \<le> MAXFILE. fslot s ip k \<noteq> 0 \<longrightarrow> good_block s (fslot s ip k) \<and> fslot s ip k \<noteq> inode_block s ip) \<and>
     (\<forall>j \<le> MAXFILE. \<forall>k \<le> MAXFILE. fslot s ip j = fslot s ip k \<longrightarrow> fslot s ip k \<noteq> 0 \<longrightarrow> j = k)"

definition fbyte :: "'z kfs_scheme \<Rightarrow> nat \<Rightarrow> nat \<Rightarrow> uint8" where
  "fbyte s ip i = (let b = fslot s ip (i div BSIZE) in if b = 0 then 0 else view s b ! (i mod BSIZE))"

definition ino_frame :: "nat \<Rightarrow> 'z kfs_scheme \<Rightarrow> 'z kfs_scheme \<Rightarrow> bool" where
  "ino_frame ip s t \<longleftrightarrow> sb t = sb s \<and> log_start t = log_start s \<and> held t = held s \<and> myproc t = myproc s \<and> mem t = mem s \<and>
     kfs.more t = kfs.more s \<and> (\<forall>p. pagetable (procs t p) = pagetable (procs s p)) \<and> (\<forall>j. j \<noteq> ip \<longrightarrow> inodes t j = inodes s j) \<and>
     inodes t ip = (inodes s ip)\<lparr>iaddrs := iaddrs (inodes t ip), isize := isize (inodes t ip)\<rparr>"

text \<open>Blocks that the file does not use keep their content, and nothing in use becomes free.\<close>

definition others_kept :: "nat \<Rightarrow> 'z kfs_scheme \<Rightarrow> 'z kfs_scheme \<Rightarrow> bool" where
  "others_kept ip s t \<longleftrightarrow> (\<forall>b < sb_size (sb s). in_use s b \<longrightarrow> in_use t b \<and>
     ((\<forall>k \<le> MAXFILE. fslot s ip k \<noteq> b) \<longrightarrow> (\<forall>k \<le> MAXFILE. fslot t ip k \<noteq> b) \<and>
        (b \<notin> bitmap_blocks (sb s) \<longrightarrow> b \<noteq> inode_block s ip \<longrightarrow> view t b = view s b)))"

definition fs_ok :: "'z kfs_scheme \<Rightarrow> nat \<Rightarrow> bool" where
  "fs_ok s ip \<longleftrightarrow> alloc_ok s \<and> in_use s 0 \<and> file_ok s ip"

text \<open>The file has changed at most by new blocks, full of zeros, for slots that had none.\<close>

definition extended :: "nat \<Rightarrow> 'z kfs_scheme \<Rightarrow> 'z kfs_scheme \<Rightarrow> bool" where
  "extended ip s t \<longleftrightarrow> ino_frame ip s t \<and> others_kept ip s t \<and> fs_ok t ip \<and> isize (inodes t ip) = isize (inodes s ip) \<and>
     (\<forall>k \<le> MAXFILE. fslot s ip k \<noteq> 0 \<longrightarrow> fslot t ip k = fslot s ip k) \<and>
     (\<forall>i < MAXFILE * BSIZE. fbyte t ip i = fbyte s ip i)"

lemma fs_sizes [simp]: "0 < BSIZE" "NDIRECT < MAXFILE" "MAXFILE - NDIRECT = NINDIRECT" "\<not> MAXFILE < NDIRECT"
  by (simp_all add: MAXFILE_def NINDIRECT_def)

lemma entry_bound: "k < MAXFILE \<Longrightarrow> 4 * (k - NDIRECT) + 3 < BSIZE"
  unfolding MAXFILE_def NINDIRECT_def NDIRECT_def by arith

lemma file_okD:
  assumes "file_ok s ip"
  shows "idev (inodes s ip) = ROOTDEV" "good_block s (inode_block s ip)"
    "k \<le> MAXFILE \<Longrightarrow> fslot s ip k \<noteq> 0 \<Longrightarrow> good_block s (fslot s ip k)"
    "k \<le> MAXFILE \<Longrightarrow> fslot s ip k \<noteq> 0 \<Longrightarrow> fslot s ip k \<noteq> inode_block s ip"
    "j \<le> MAXFILE \<Longrightarrow> k \<le> MAXFILE \<Longrightarrow> fslot s ip j = fslot s ip k \<Longrightarrow> fslot s ip k \<noteq> 0 \<Longrightarrow> j = k"
  using assms unfolding file_ok_def by blast+

lemma good_blockD:
  assumes "good_block s b"
  shows "b < sb_size (sb s)" "in_use s b" "b \<notin> bitmap_blocks (sb s)" "b \<notin> log_area (log_start s)" "length (view s b) = BSIZE"
  using assms unfolding good_block_def data_block_def by blast+

lemma ino_frame_refl [simp]: "ino_frame ip s s"
  by (simp add: ino_frame_def)

lemma ino_frame_trans: "ino_frame ip s t \<Longrightarrow> ino_frame ip t u \<Longrightarrow> ino_frame ip s u"
  unfolding ino_frame_def by (cases "inodes s ip"; cases "inodes t ip"; cases "inodes u ip") simp

lemma ino_frameD:
  assumes "ino_frame ip s t"
  shows "sb t = sb s" "log_start t = log_start s" "idev (inodes t ip) = idev (inodes s ip)" "inum (inodes t ip) = inum (inodes s ip)"
    "inode_block t ip = inode_block s ip"
proof -
  have *: "inodes t ip = (inodes s ip)\<lparr>iaddrs := iaddrs (inodes t ip), isize := isize (inodes t ip)\<rparr>" "sb t = sb s" "log_start t = log_start s"
    using assms unfolding ino_frame_def by auto
  show "sb t = sb s" "log_start t = log_start s" by (rule *)+
  show "idev (inodes t ip) = idev (inodes s ip)" "inum (inodes t ip) = inum (inodes s ip)" by (subst *(1), simp)+
  then show "inode_block t ip = inode_block s ip" by (simp add: inode_block_def *(2))
qed

lemma log_step_ino:
  fixes s t :: "'z kfs_scheme"
  assumes "log_step s t"
  shows "ino_frame ip s t"
proof -
  note f = log_step_sel [OF assms] log_step_fs [OF assms]
  have "kfs.more t = kfs.more s" using f(8) by (cases s; cases t) simp
  moreover have "pagetable (procs t p) = pagetable (procs s p)" for p
    using arg_cong [OF bio_frame_sel(6) [OF assms [unfolded log_step_def], of p, unfolded woken_up_def], of pagetable] by simp
  ultimately show ?thesis using f unfolding ino_frame_def by simp
qed

lemma fs_okD: "fs_ok s ip \<Longrightarrow> alloc_ok s" "fs_ok s ip \<Longrightarrow> in_use s 0" "fs_ok s ip \<Longrightarrow> file_ok s ip"
  by (simp_all add: fs_ok_def)

lemma others_keptD:
  assumes "others_kept ip s t" "b < sb_size (sb s)" "in_use s b"
  shows "in_use t b" "(\<And>k. k \<le> MAXFILE \<Longrightarrow> fslot s ip k \<noteq> b) \<Longrightarrow> k \<le> MAXFILE \<Longrightarrow> fslot t ip k \<noteq> b"
    "(\<And>k. k \<le> MAXFILE \<Longrightarrow> fslot s ip k \<noteq> b) \<Longrightarrow> b \<notin> bitmap_blocks (sb s) \<Longrightarrow> b \<noteq> inode_block s ip \<Longrightarrow> view t b = view s b"
  using assms unfolding others_kept_def by blast+

lemma others_kept_trans:
  assumes "others_kept ip s t" "others_kept ip t u" "ino_frame ip s t"
  shows "others_kept ip s u"
proof (unfold others_kept_def, intro allI impI)
  note f = ino_frameD [OF assms(3)]
  fix b assume b: "b < sb_size (sb s)" "in_use s b"
  note st = others_keptD [OF assms(1) b]
  note tu = others_keptD [OF assms(2) b(1) [folded f(1)] st(1)]
  show "in_use u b \<and> ((\<forall>k \<le> MAXFILE. fslot s ip k \<noteq> b) \<longrightarrow> (\<forall>k \<le> MAXFILE. fslot u ip k \<noteq> b) \<and>
      (b \<notin> bitmap_blocks (sb s) \<longrightarrow> b \<noteq> inode_block s ip \<longrightarrow> view u b = view s b))"
    using st(2,3) tu unfolding f by auto
qed

lemma extendedD:
  assumes "extended ip s t"
  shows "ino_frame ip s t" "others_kept ip s t" "fs_ok t ip" "isize (inodes t ip) = isize (inodes s ip)"
    "k \<le> MAXFILE \<Longrightarrow> fslot s ip k \<noteq> 0 \<Longrightarrow> fslot t ip k = fslot s ip k" "i < MAXFILE * BSIZE \<Longrightarrow> fbyte t ip i = fbyte s ip i"
  using assms unfolding extended_def by blast+

lemma extended_trans:
  assumes "extended ip s t" "extended ip t u"
  shows "extended ip s u"
  using extendedD [OF assms(1)] extendedD [OF assms(2)] ino_frame_trans [of ip s t u] others_kept_trans [of ip s t u]
  unfolding extended_def by auto

lemma extended_same:
  fixes s t :: "'z kfs_scheme"
  assumes "fs_ok s ip" "log_step s t" "view t = view s"
  shows "extended ip s t"
proof -
  note f = log_step_fs [OF assms(2)] log_step_sel(1) [OF assms(2)] and u = used_keep [OF assms(3,2)]
  have sl: "fslot t ip = fslot s ip" by (intro ext) (simp add: fslot_def Let_def assms(3) f)
  have "fbyte t ip = fbyte s ip" by (intro ext) (simp add: fbyte_def Let_def sl assms(3))
  moreover have "good_block t = good_block s" by (intro ext) (simp add: good_block_def data_block_def u f assms(3))
  then have "fs_ok t ip = fs_ok s ip" unfolding fs_ok_def file_ok_def inode_block_def u sl f by simp
  moreover have "others_kept ip s t" unfolding others_kept_def u sl assms(3) by simp
  ultimately show ?thesis using log_step_ino [OF assms(2)] assms(1) unfolding extended_def sl f by simp
qed

lemma extended_new:
  assumes ok: "fs_ok s ip" and k: "k \<le> MAXFILE" "fslot s ip k = 0" and r: "r < sb_size (sb s)" "\<not> in_use s r"
    and t: "ino_frame ip s t" "isize (inodes t ip) = isize (inodes s ip)" "alloc_ok t"
    and slots: "\<And>j. j \<le> MAXFILE \<Longrightarrow> fslot t ip j = (if j = k then r else fslot s ip j)"
    and uses: "\<And>c. c < sb_size (sb s) \<Longrightarrow> in_use t c \<longleftrightarrow> in_use s c \<or> c = r"
    and zero: "view t r = replicate BSIZE 0" and ind: "fslot s ip MAXFILE \<noteq> 0 \<Longrightarrow> length (view t (fslot s ip MAXFILE)) = BSIZE"
    and views: "\<And>b. b \<noteq> r \<Longrightarrow> b \<notin> bitmap_blocks (sb s) \<Longrightarrow> fslot s ip MAXFILE = 0 \<or> b \<noteq> fslot s ip MAXFILE \<Longrightarrow> view t b = view s b"
  shows "extended ip s t"
proof -
  note f = ino_frameD [OF t(1)] and sok = fs_okD [OF ok]
  note fok = file_okD [OF sok(3)]
  have r0: "r \<noteq> 0" using r(2) sok(2) by (intro notI) simp
  have new: "b \<noteq> r" if "in_use s b" for b using that r(2) by auto
  have good: "good_block t b" if "good_block s b" for b
    using good_blockD [OF that] views [of b] ind uses [of b] new unfolding good_block_def data_block_def f by metis
  have goodr: "good_block t r" using r uses [OF r(1)] zero alloc_okD(5,6) [OF sok(1) r] unfolding good_block_def data_block_def f by simp
  have slot_r: "fslot s ip j \<noteq> r" if "j \<le> MAXFILE" for j
    using new good_blockD(2) [OF fok(3) [OF that]] r0 by (cases "fslot s ip j = 0") auto
  have "file_ok t ip" unfolding file_ok_def f
  proof (intro conjI allI impI)
    show "good_block t (inode_block s ip)" "idev (inodes s ip) = ROOTDEV" using good fok(1,2) by auto
    fix j assume j: "j \<le> MAXFILE" "fslot t ip j \<noteq> 0"
    then show "good_block t (fslot t ip j)" "fslot t ip j \<noteq> inode_block s ip"
      using slots [OF j(1)] good [OF fok(3) [OF j(1)]] fok(4) [OF j(1)] goodr new [OF good_blockD(2) [OF fok(2)]] by (auto split: if_splits)
  next
    fix j l assume "j \<le> MAXFILE" "l \<le> MAXFILE" "fslot t ip j = fslot t ip l" "fslot t ip l \<noteq> 0"
    then show "j = l" using slots [of j] slots [of l] slot_r [of j] slot_r [of l] fok(5) [of j l] by (auto split: if_splits)
  qed
  moreover have "in_use t 0" using uses [of 0] sok(2) r(1) by simp
  moreover have "others_kept ip s t" unfolding others_kept_def
    using uses new slots views k(1) by (smt (verit) le_refl)
  moreover have "fbyte t ip i = fbyte s ip i" if "i < MAXFILE * BSIZE" for i
  proof -
    have i: "i div BSIZE \<le> MAXFILE" "i div BSIZE \<noteq> MAXFILE" using that by auto
    consider "i div BSIZE = k" | "i div BSIZE \<noteq> k" "fslot s ip (i div BSIZE) = 0" | "i div BSIZE \<noteq> k" "fslot s ip (i div BSIZE) \<noteq> 0" by blast
    then show ?thesis
    proof cases
      case 3
      note g = good_blockD [OF fok(3) [OF i(1) 3(2)]]
      have "view t (fslot s ip (i div BSIZE)) = view s (fslot s ip (i div BSIZE))"
        using views [OF new [OF g(2)] g(3)] fok(5) [OF i(1) le_refl] 3(2) i(2) by metis
      then show ?thesis using slots [OF i(1)] 3 by (simp add: fbyte_def)
    qed (use slots [OF i(1)] k(2) zero r0 in \<open>auto simp: fbyte_def\<close>)
  qed
  ultimately show ?thesis using t slots k(2) unfolding extended_def fs_ok_def by auto
qed

section \<open>Finding the block of an offset\<close>

lemma upd_inode_view [simp]: "view (upd_inode ip f s) = view s"
proof -
  have *: "caches (upd_inode ip f s) = caches s" "disk (upd_inode ip f s) = disk s" "bufs (upd_inode ip f s) = bufs s"
    by (simp_all add: upd_inode_def caches_def fun_eq_iff)
  show ?thesis by (intro ext) (simp add: view_def * cong: option.case_cong)
qed

lemma upd_inode_sel [simp]:
  "in_use (upd_inode ip f s) = in_use s" "alloc_ok (upd_inode ip f s) = alloc_ok s"
  "sb (upd_inode ip f s) = sb s" "log_start (upd_inode ip f s) = log_start s" "inodes (upd_inode ip f s) = (inodes s)(ip := f (inodes s ip))"
proof -
  show sb: "sb (upd_inode ip f s) = sb s" "log_start (upd_inode ip f s) = log_start s" "inodes (upd_inode ip f s) = (inodes s)(ip := f (inodes s ip))"
    by (simp_all add: upd_inode_def)
  show "in_use (upd_inode ip f s) = in_use s" by (intro ext) (simp add: in_use_def sb)
  then show "alloc_ok (upd_inode ip f s) = alloc_ok s" by (simp add: alloc_ok_def sb)
qed

lemma upd_inode_logging [simp]: "logging H P n (upd_inode ip f s) = logging H P n s"
  unfolding upd_inode_def logging_def cache_ok_def path_ok_def lru_ok_def keys_ok_def counts_ok_def copies_ok_def
  by (simp add: mypid_def myproc_def cong: option.case_cong)

lemma upd_inode_frame: "ino_frame ip s t \<Longrightarrow> ino_frame ip s (upd_inode ip (\<lambda>x. x\<lparr>iaddrs := g x\<rparr>) t)"
  "ino_frame ip s t \<Longrightarrow> ino_frame ip s (upd_inode ip (\<lambda>x. x\<lparr>isize := h x\<rparr>) t)"
  unfolding ino_frame_def by (cases "inodes s ip"; cases "inodes t ip"; simp add: upd_inode_def myproc_def)+

lemma get_u32_zeros [simp]: "j + 3 < n \<Longrightarrow> get_u32 (replicate n 0) j = 0"
  by (simp add: get_u32_def get_u16_def)

text \<open>A new block for an address field of the inode: a direct block or the indirect block.\<close>

definition addr_slot :: "nat \<Rightarrow> nat" where
  "addr_slot k = (if k = NDIRECT then MAXFILE else k)"

lemma slot_addr: "k \<le> NDIRECT \<Longrightarrow> fslot s ip (addr_slot k) = iaddrs (inodes s ip) k"
  by (auto simp: fslot_def addr_slot_def Let_def MAXFILE_def)

lemma slot_new_addr:
  fixes s t :: "'z kfs_scheme"
  assumes k: "k \<le> NDIRECT" "iaddrs (inodes s ip) k = 0" and ok: "fs_ok s ip" and r: "r \<noteq> 0" "\<not> in_use s r" "r < sb_size (sb s)" "view t = marked r (sb s) (view s)"
    and i: "inodes t ip = inodes s ip" and j: "j \<le> MAXFILE"
  shows "fslot (upd_inode ip (\<lambda>x. x\<lparr>iaddrs := (iaddrs x)(k := r)\<rparr>) t) ip j = (if j = addr_slot k then r else fslot s ip j)"
proof (cases "NDIRECT \<le> j \<and> j < MAXFILE")
  case False
  then show ?thesis using k(1) j by (auto simp: fslot_def addr_slot_def Let_def i MAXFILE_def)
next
  case True
  let ?a = "iaddrs (inodes s ip) NDIRECT"
  have z: "4 * (j - NDIRECT) + 3 < 1024" using True entry_bound by blast
  show ?thesis
  proof (cases "k = NDIRECT \<or> ?a = 0")
    case T: True
    then show ?thesis using True k r z by (auto simp: fslot_def addr_slot_def Let_def i marked_def)
  next
    case F: False
    have "fslot s ip MAXFILE = ?a" by (simp add: fslot_def)
    then have g: "good_block s ?a" using file_okD(3) [OF fs_okD(3) [OF ok] le_refl] F by simp
    then have "?a \<noteq> BBLOCK r (sb s)" "?a \<noteq> r" using good_blockD(2,3) [OF g] BBLOCK_in [OF r(3)] r(2) by auto
    then have "view t ?a = view s ?a" by (simp add: r(4) marked_def)
    then show ?thesis using True F k by (auto simp: fslot_def addr_slot_def Let_def i)
  qed
qed

definition no_space :: "'z kfs_scheme \<Rightarrow> bool" where
  "no_space s \<longleftrightarrow> (\<forall>b < sb_size (sb s). in_use s b)"

definition nfree :: "'z kfs_scheme \<Rightarrow> nat" where
  "nfree s = card {b. b < sb_size (sb s) \<and> \<not> in_use s b}"

lemma no_space_nfree: "no_space s \<longleftrightarrow> nfree s = 0"
  by (auto simp: no_space_def nfree_def)

lemma nfree_new:
  assumes "sb t = sb s" "\<And>c. c < sb_size (sb s) \<Longrightarrow> in_use t c \<longleftrightarrow> in_use s c \<or> c = r"
  shows "nfree s \<le> Suc (nfree t)"
proof -
  have "{b. b < sb_size (sb s) \<and> \<not> in_use s b} \<subseteq> insert r {b. b < sb_size (sb s) \<and> \<not> in_use t b}" using assms(2) by auto
  then have "nfree s \<le> card (insert r {b. b < sb_size (sb s) \<and> \<not> in_use t b})" unfolding nfree_def by (rule card_mono [rotated]) simp
  also have "\<dots> \<le> Suc (nfree t)" unfolding nfree_def assms(1) by (rule card_insert_le_m1) simp_all
  finally show ?thesis .
qed

lemma nfree_same: "in_use t = in_use s \<Longrightarrow> sb t = sb s \<Longrightarrow> nfree t = nfree s"
  by (simp add: nfree_def)

lemma balloc_addr:
  fixes s :: "'z kfs_scheme"
  assumes l: "logging {} P n s" and ok: "fs_ok s ip" and k: "k \<le> NDIRECT" "iaddrs (inodes s ip) k = 0" and room: "n + 2 < NBUF"
  shows "\<exists>r t P' n'. balloc (idev (inodes s ip)) s = Ok (r, t) \<and> logging {} P' n' t \<and> n' \<le> n + 2 \<and> nfree s \<le> Suc (nfree t) \<and>
    (if r = 0 then no_space t \<and> extended ip s t
     else extended ip s (upd_inode ip (\<lambda>x. x\<lparr>iaddrs := (iaddrs x)(k := r)\<rparr>) t))"
proof -
  note sok = fs_okD [OF ok]
  obtain r t P' n' where t: "balloc ROOTDEV s = Ok (r, t)" "logging {} P' n' t" "n' \<le> n + 2" "allocated s r t" "log_step s t"
    using balloc_ok [OF l sok(1)] room by auto
  note f = log_step_fs [OF t(5)] log_step_sel(1) [OF t(5)]
  let ?u = "upd_inode ip (\<lambda>x. x\<lparr>iaddrs := (iaddrs x)(k := r)\<rparr>) t"
  have "nfree s \<le> Suc (nfree t) \<and> (if r = 0 then no_space t \<and> extended ip s t else extended ip s ?u)"
  proof (cases "r = 0")
    case True
    then have "view t = view s" "no_space s" using t(4) sok(2) by (auto simp: allocated_def no_space_def)
    then show ?thesis using True extended_same [OF ok t(5)] used_keep [OF _ t(5)] by (simp add: no_space_def nfree_def f)
  next
    case False
    then have r: "r < sb_size (sb s)" "\<not> in_use s r" and v: "view t = marked r (sb s) (view s)" using t(4) by (auto simp: allocated_def)
    note u = used_marked [OF sok(1) v f(1,3) r]
    have "extended ip s ?u"
    proof (rule extended_new [OF ok _ _ r])
      show "addr_slot k \<le> MAXFILE" "fslot s ip (addr_slot k) = 0"
        using k slot_addr [OF k(1), of s ip] by (simp_all add: addr_slot_def MAXFILE_def)
      show "ino_frame ip s ?u" by (rule upd_inode_frame(1) [OF log_step_ino [OF t(5)]])
      show "isize (inodes ?u ip) = isize (inodes s ip)" "alloc_ok ?u" using u(2) f by simp_all
      show "in_use ?u c \<longleftrightarrow> in_use s c \<or> c = r" if "c < sb_size (sb s)" for c using u(1) [OF that] by simp
      show "view ?u r = replicate BSIZE 0" by (simp add: v marked_def)
      show vs: "view ?u b = view s b" if "b \<noteq> r" "b \<notin> bitmap_blocks (sb s)" for b
        using that BBLOCK_in [OF r(1)] by (auto simp: v marked_def)
      show "length (view ?u (fslot s ip MAXFILE)) = BSIZE" if "fslot s ip MAXFILE \<noteq> 0"
      proof -
        note g = good_blockD [OF file_okD(3) [OF sok(3) le_refl that]]
        have "fslot s ip MAXFILE \<noteq> r" using g(2) r(2) by (intro notI) simp
        then show ?thesis using vs g(3,5) by simp
      qed
      show "fslot ?u ip j = (if j = addr_slot k then r else fslot s ip j)" if "j \<le> MAXFILE" for j
        using slot_new_addr [OF k ok False r(2,1) v _ that] f by simp
    qed
    then show ?thesis using False nfree_new [OF f(1) u(1)] by simp
  qed
  then show ?thesis using t(1-3) file_okD(1) [OF sok(3)] by auto
qed

text \<open>A held buffer that did not change is pinned as before.\<close>

lemma pinned_same:
  assumes "logging H P n s" "logging H P' n' t" "b \<in> H" "bufs t b = bufs s b"
  shows "b \<in> P' \<longleftrightarrow> b \<in> P"
proof -
  have c: "counts_ok H P (bufs s)" "counts_ok H P' (bufs t)" using loggingD(1) [OF assms(1)] loggingD(1) [OF assms(2)] by (simp_all add: cache_ok_def)
  have "b < NBUF" using c(1) assms(3) by (auto simp: counts_ok_def)
  then have "refcnt (bufs s b) = 1 + (if b \<in> P then 1 else 0)" "refcnt (bufs t b) = 1 + (if b \<in> P' then 1 else 0)"
    using c assms(3) by (simp_all add: counts_ok_def)
  then show ?thesis using assms(4) by (simp split: if_splits)
qed

lemma put_slot:
  assumes "NDIRECT \<le> k" "k < MAXFILE" "length d = BSIZE" "r < 2 ^ 32"
  shows "NDIRECT \<le> j \<Longrightarrow> j < MAXFILE \<Longrightarrow>
    get_u32 (put_u32 (4 * (k - NDIRECT)) r d) (4 * (j - NDIRECT)) = (if j = k then r else get_u32 d (4 * (j - NDIRECT)))"
proof -
  assume j: "NDIRECT \<le> j" "j < MAXFILE"
  have b: "4 * (k - NDIRECT) + 3 < length d" using entry_bound [OF assms(2)] assms(3) by simp
  consider "j = k" | "4 * (j - NDIRECT) + 3 < 4 * (k - NDIRECT) \<or> 4 * (k - NDIRECT) + 3 < 4 * (j - NDIRECT)" "j \<noteq> k"
    using j(1) assms(1) by linarith
  then show ?thesis by cases (use get_put_u32 [OF b assms(4)] get_put_u32_other in auto)
qed

text \<open>The used blocks depend on the bitmap only.\<close>

lemma used_bitmap:
  fixes s t :: "'z kfs_scheme"
  assumes "\<And>b. b \<in> bitmap_blocks (sb s) \<Longrightarrow> view t b = view s b" "sb t = sb s" "log_start t = log_start s"
  shows "b < sb_size (sb s) \<Longrightarrow> in_use t b = in_use s b" "alloc_ok t = alloc_ok s"
proof -
  show u: "in_use t b = in_use s b" if "b < sb_size (sb s)" for b using assms(1) [OF BBLOCK_in [OF that]] by (simp add: in_use_def assms(2))
  show "alloc_ok t = alloc_ok s" using assms(1) u unfolding alloc_ok_def assms(2,3) by auto
qed

text \<open>A new block for an entry of the indirect block \<open>a\<close>, which is in use and held.\<close>

lemma extended_entry:
  fixes s t :: "'z kfs_scheme"
  assumes ok: "fs_ok s ip" and k: "NDIRECT \<le> k" "k < MAXFILE" "fslot s ip k = 0" and a: "fslot s ip MAXFILE = a" "a \<noteq> 0"
    and r: "r < sb_size (sb s)" "\<not> in_use s r"
    and w: "log_step s w" "view w = marked r (sb s) (view s)"
    and t: "log_step s t" and v: "view t = (view w)(a := put_u32 (4 * (k - NDIRECT)) r (view s a))"
  shows "extended ip s t" "fslot t ip k = r" "nfree s \<le> Suc (nfree t)"
proof -
  note sok = fs_okD [OF ok] and f = log_step_fs [OF t] log_step_sel(1) [OF t]
  have g: "good_block s a" using file_okD(3) [OF sok(3) le_refl] a by simp
  have ar: "a \<noteq> r" using good_blockD(2) [OF g] r(2) by (intro notI) simp
  have r32: "r < 2 ^ 32" using alloc_okD(1) [OF sok(1)] r(1) by simp
  have vb: "view t b = marked r (sb s) (view s) b" if "b \<noteq> a" for b using that by (simp add: v w(2))
  have slots: "fslot t ip j = (if j = k then r else fslot s ip j)" if "j \<le> MAXFILE" for j
  proof -
    have ia: "iaddrs (inodes s ip) NDIRECT = a" using a(1) by (simp add: fslot_def)
    show ?thesis using that k put_slot [OF k(1,2) good_blockD(5) [OF g] r32, of j] a(2)
      by (auto simp: fslot_def Let_def f ia v)
  qed
  note u = used_marked [OF sok(1) w(2) log_step_fs(1) [OF w(1)] log_step_sel(1) [OF w(1)] r]
  have "view t b = view w b" if "b \<in> bitmap_blocks (sb w)" for b
    using that good_blockD(3) [OF g] log_step_fs(1) [OF w(1)] by (auto simp: v)
  note u' = used_bitmap [OF this] and fw = log_step_fs [OF w(1)] log_step_sel(1) [OF w(1)]
  have inu: "in_use t c \<longleftrightarrow> in_use s c \<or> c = r" if "c < sb_size (sb s)" for c
    using u(1) [OF that] u'(1) that by (simp add: f fw)
  have al: "alloc_ok t" using u'(2) u(2) by (simp add: f fw)
  show "extended ip s t"
  proof (rule extended_new [OF ok _ k(3) r log_step_ino [OF t] _ al slots inu])
    show "view t r = replicate BSIZE 0" using vb [of r] ar by (simp add: marked_def)
    show "view t b = view s b" if "b \<noteq> r" "b \<notin> bitmap_blocks (sb s)" "fslot s ip MAXFILE = 0 \<or> b \<noteq> fslot s ip MAXFILE" for b
      using that a BBLOCK_in [OF r(1)] vb [of b] by (auto simp: marked_def)
    show "length (view t (fslot s ip MAXFILE)) = BSIZE" using good_blockD(5) [OF g] by (simp add: a(1) v)
  qed (use k(2) f in simp_all)
  show "fslot t ip k = r" using slots [of k] k(2) by simp
  show "nfree s \<le> Suc (nfree t)" by (rule nfree_new [OF f(1) inu])
qed

text \<open>What \<open>bmap\<close> gives for slot \<open>k\<close>: its block, or 0 when no block is left, within a transaction that grows by at most
  \<open>g\<close> blocks, and with at most \<open>g\<close> new blocks in use.\<close>

definition found :: "nat \<Rightarrow> nat \<Rightarrow> nat \<Rightarrow> nat \<Rightarrow> 'z kfs_scheme \<Rightarrow> nat \<times> 'z kfs_scheme \<Rightarrow> bool" where
  "found ip k n g s = (\<lambda>(r, t). (\<exists>P' n'. logging {} P' n' t \<and> n' \<le> n + g) \<and> extended ip s t \<and> nfree s \<le> nfree t + g \<and>
     (if r = 0 then no_space t else fslot t ip k = r))"

lemma foundI: "logging {} P' n' t \<Longrightarrow> n' \<le> n + g \<Longrightarrow> extended ip s t \<Longrightarrow> nfree s \<le> nfree t + g \<Longrightarrow> (r = 0 \<Longrightarrow> no_space t) \<Longrightarrow>
    (r \<noteq> 0 \<Longrightarrow> fslot t ip k = r) \<Longrightarrow> found ip k n g s (r, t)"
  by (auto simp: found_def)

lemma found_trans:
  assumes "extended ip s t" "found ip k n g t x" "n + g \<le> n' + g'" "nfree s + g \<le> nfree t + g'"
  shows "found ip k n' g' s x"
  using assms extended_trans [OF assms(1)] by (cases x) (auto simp: found_def intro: order_trans)

lemma bmap_entry:
  fixes s :: "'z kfs_scheme"
  assumes l: "logging {} P n s" and ok: "fs_ok s ip" and k: "NDIRECT \<le> k" "k < MAXFILE" and a: "fslot s ip MAXFILE = a" "a \<noteq> 0"
    and room: "n + 4 < NBUF"
  shows "\<exists>x. bindr (bread (idev (inodes s ip)) a s) (\<lambda>(bp, s).
      let addr = get_u32 (bdata (bufs s bp)) (4 * (k - NDIRECT))
      in if addr = 0 then
           bindr (balloc (idev (inodes s ip)) s) (\<lambda>(addr, s).
           bindr (if addr \<noteq> 0 then log_write bp (set_data bp (put_u32 (4 * (k - NDIRECT)) addr (bdata (bufs s bp))) s) else Ok s) (\<lambda>s.
           bindr (brelse bp s) (\<lambda>s. Ok (addr, s))))
         else bindr (brelse bp s) (\<lambda>s. Ok (addr, s))) = Ok x \<and> found ip k n 3 s x"
proof -
  note sok = fs_okD [OF ok]
  have dev: "idev (inodes s ip) = ROOTDEV" by (rule file_okD(1) [OF sok(3)])
  have g: "good_block s a" using file_okD(3) [OF sok(3) le_refl] a by simp
  note gb = good_blockD [OF g]
  have sk: "fslot s ip k = get_u32 (view s a) (4 * (k - NDIRECT))" using k a by (auto simp: fslot_def Let_def)
  obtain b u where r: "bread ROOTDEV a s = Ok (b, u)" "logging (insert b {}) P n u" "b \<notin> {}" "bdata (bufs u b) = view s a"
    "blockno (bufs u b) = a" "view u = view s" "disk u = disk s" "bio_frame s u" "b \<in> P \<or> view s a = disk s a"
    by (rule block_read [OF l, of a]) (use room in simp_all)
  note su = log_step_bio [OF r(8)]
  note f = log_step_fs [OF su] log_step_sel(1) [OF su] and u = used_keep [OF r(6) su]
  show ?thesis
  proof (cases "fslot s ip k = 0")
    case False
    obtain t where t: "brelse b u = Ok t" "logging {} P n t" "view t = view u" "bio_frame u t"
      by (rule block_release [OF r(2,3)]) (use r(4,5,7,9) in simp_all)
    have "extended ip s t" by (rule extended_same [OF ok log_step_trans [OF su log_step_bio [OF t(4)]]]) (simp add: t(3) r(6))
    moreover have "nfree t = nfree s" using used_keep(1) [of t u] t(3,4) u(1) by (intro nfree_same) (simp_all add: log_step_bio log_step_fs(1) [OF log_step_bio] f)
    ultimately have "found ip k n 3 s (fslot s ip k, t)" using extendedD(5) [of ip s t k] k(2) False by (intro foundI [OF t(2)]) simp_all
    then show ?thesis using False by (simp add: dev r(1,4) sk t(1))
  next
    case True
    have hu: "held_used (insert b {}) u" using gb by (simp add: held_used_def r(5) u f)
    obtain c v P1 n1 where v: "balloc ROOTDEV u = Ok (c, v)" "logging (insert b {}) P1 n1 v" "n1 \<le> n + 2" "allocated u c v" "disk v = disk u"
      "log_step u v" "bufs v b = bufs u b"
      using balloc_ok [OF r(2) sok(1) [folded u(2)] hu] room by auto
    note sv = log_step_trans [OF su v(6)]
    show ?thesis
    proof (cases "c = 0")
      case c: True
      have full: "view v = view u" "no_space u" using v(4) sok(2) c by (auto simp: allocated_def no_space_def u)
      have "b \<in> P1 \<longleftrightarrow> b \<in> P" by (rule pinned_same [OF r(2) v(2) _ v(7)]) simp
      then obtain t where t: "brelse b v = Ok t" "logging {} P1 n1 t" "view t = view v" "bio_frame v t"
        by - (rule block_release [OF v(2) r(3)], use r(4,5,7,9) v(5,7) in simp_all)
      note st = log_step_trans [OF sv log_step_bio [OF t(4)]]
      have vt: "view t = view s" by (simp add: t(3) full r(6))
      have "no_space t" using full(2) log_step_fs(1) [OF st] used_keep(1) [OF vt st] by (simp add: no_space_def u f)
      then have "found ip k n 3 s (0, t)" using extended_same [OF ok st vt] v(3) nfree_same [OF used_keep(1) [OF vt st] log_step_fs(1) [OF st]] by (intro foundI [OF t(2)]) simp_all
      then show ?thesis using True c by (simp add: dev r(1,4) sk v(1) t(1) f)
    next
      case c: False
      have fresh: "c < sb_size (sb s)" "\<not> in_use s c" "view v = marked c (sb s) (view s)"
        using v(4) c r(6) by (auto simp: allocated_def u f)
      obtain t P' n' where t: "bindr (log_write b (set_data b (put_u32 (4 * (k - NDIRECT)) c (view s a)) v)) (brelse b) = Ok t"
        "logging {} P' n' t" "n' \<le> Suc n1" "view t = (view v)(a := put_u32 (4 * (k - NDIRECT)) c (view s a))" "log_step v t"
        using block_store [OF v(2) r(3), of "put_u32 (4 * (k - NDIRECT)) c (view s a)"] room v(3,7) r(5) gb(1,4) alloc_okD(1) [OF sok(1)]
          log_step_sel(1) [OF sv] by auto
      note e = extended_entry [OF ok k True a fresh(1,2) sv fresh(3) log_step_trans [OF sv t(5)] t(4)]
      have "found ip k n 3 s (c, t)" using e c v(3) t(3) by (intro foundI [OF t(2)]) simp_all
      moreover obtain w where "log_write b (set_data b (put_u32 (4 * (k - NDIRECT)) c (view s a)) v) = Ok w" "brelse b w = Ok t"
        using t(1) by (auto simp: bindr_Ok_iff)
      ultimately show ?thesis using True c by (simp add: dev r(1,4) sk v(1,7) f)
    qed
  qed
qed

lemma bmap_addr:
  fixes s :: "'z kfs_scheme"
  assumes l: "logging {} P n s" and ok: "fs_ok s ip" and k: "k \<le> NDIRECT" and room: "n + 2 < NBUF"
  shows "\<exists>x. (let addr = iaddrs (inodes s ip) k
      in if addr = 0 then
           bindr (balloc (idev (inodes s ip)) s) (\<lambda>(addr, s).
           if addr = 0 then Ok (0, s) else Ok (addr, upd_inode ip (\<lambda>x. x\<lparr>iaddrs := (iaddrs x)(k := addr)\<rparr>) s))
         else Ok (addr, s)) = Ok x \<and> found ip (addr_slot k) n 2 s x"
proof (cases "iaddrs (inodes s ip) k = 0")
  case False
  then have "found ip (addr_slot k) n 2 s (iaddrs (inodes s ip) k, s)"
    using extended_same [OF ok log_step_lh(3) refl] slot_addr [OF k] by (intro foundI [OF l]) simp_all
  then show ?thesis using False by (simp add: Let_def)
next
  case z: True
  obtain r t P' n' where t: "balloc (idev (inodes s ip)) s = Ok (r, t)" "logging {} P' n' t" "n' \<le> n + 2" "nfree s \<le> Suc (nfree t)"
    "if r = 0 then no_space t \<and> extended ip s t else extended ip s (upd_inode ip (\<lambda>x. x\<lparr>iaddrs := (iaddrs x)(k := r)\<rparr>) t)"
    using balloc_addr [OF l ok k z room] by blast
  let ?t = "upd_inode ip (\<lambda>x. x\<lparr>iaddrs := (iaddrs x)(k := r)\<rparr>) t"
  have "found ip (addr_slot k) n 2 s (if r = 0 then (0, t) else (r, ?t))"
    using t(2-5) slot_addr [OF k, of ?t ip] by (auto intro!: foundI [of P' n'] simp: nfree_def split: if_splits)
  then show ?thesis using z t(1) by (auto simp: Let_def)
qed

lemma bmap_ok:
  fixes s :: "'z kfs_scheme"
  assumes l: "logging {} P n s" and ok: "fs_ok s ip" and k: "k < MAXFILE" and room: "n + 6 < NBUF"
  shows "\<exists>x. bmap ip k s = Ok x \<and> found ip k n 5 s x"
proof (cases "k < NDIRECT")
  case True
  have "n + 2 < NBUF" using room by simp
  from bmap_addr [OF l ok less_imp_le [OF True] this] obtain x where x: "(let addr = iaddrs (inodes s ip) k
      in if addr = 0 then
           bindr (balloc (idev (inodes s ip)) s) (\<lambda>(addr, s).
           if addr = 0 then Ok (0, s) else Ok (addr, upd_inode ip (\<lambda>x. x\<lparr>iaddrs := (iaddrs x)(k := addr)\<rparr>) s))
         else Ok (addr, s)) = Ok x" "found ip (addr_slot k) n 2 s x" by blast
  have "found ip k n 5 s x" using found_trans [OF extended_same [OF ok log_step_lh(3) refl] x(2)] True by (simp add: addr_slot_def)
  then show ?thesis unfolding bmap_def using True x(1) by simp
next
  case False
  then have bn: "k - NDIRECT < NINDIRECT" using k by (simp add: MAXFILE_def)
  obtain a s1 where first: "(let addr = iaddrs (inodes s ip) NDIRECT
      in if addr = 0 then
           bindr (balloc (idev (inodes s ip)) s) (\<lambda>(addr, s).
           if addr = 0 then Ok (0, s) else Ok (addr, upd_inode ip (\<lambda>x. x\<lparr>iaddrs := (iaddrs x)(NDIRECT := addr)\<rparr>) s))
         else Ok (addr, s)) = Ok (a, s1)" and fd: "found ip MAXFILE n 2 s (a, s1)"
    using bmap_addr [OF l ok le_refl] room by (auto simp: addr_slot_def)
  then obtain P1 n1 where s1: "logging {} P1 n1 s1" "n1 \<le> n + 2" "extended ip s s1" "nfree s \<le> nfree s1 + 2" by (auto simp: found_def)
  show ?thesis
  proof (cases "a = 0")
    case True
    have "found ip k n 5 s (0, s1)" using fd s1(2-4) True by (intro foundI [OF s1(1)]) (simp_all add: found_def)
    then show ?thesis unfolding bmap_def Let_def [of "k - NDIRECT"] first using False bn True by simp
  next
    case a: False
    have "fslot s1 ip MAXFILE = a" using fd a by (simp add: found_def)
    note entry = bmap_entry [OF s1(1) extendedD(3) [OF s1(3)] leI [OF False] k this a]
    have "n1 + 4 < NBUF" using room s1(2) by simp
    from entry [OF this] obtain x where t: "bindr (bread (idev (inodes s1 ip)) a s1) (\<lambda>(bp, s).
        let addr = get_u32 (bdata (bufs s bp)) (4 * (k - NDIRECT))
        in if addr = 0 then
             bindr (balloc (idev (inodes s ip)) s) (\<lambda>(addr, s).
             bindr (if addr \<noteq> 0 then log_write bp (set_data bp (put_u32 (4 * (k - NDIRECT)) addr (bdata (bufs s bp))) s) else Ok s) (\<lambda>s.
             bindr (brelse bp s) (\<lambda>s. Ok (addr, s))))
           else bindr (brelse bp s) (\<lambda>s. Ok (addr, s))) = Ok x" "found ip k n1 3 s1 x" by blast
    have "found ip k n 5 s x" using found_trans [OF s1(3) t(2)] s1(2,4) by simp
    moreover have "bmap ip k s = Ok x" unfolding bmap_def Let_def [of "k - NDIRECT"] first using False bn a t(1) by simp
    ultimately show ?thesis by blast
  qed
qed

section \<open>Writing\<close>

text \<open>The bytes of a file have changed from \<open>off\<close> on to \<open>xs\<close>.\<close>

definition fwrote :: "nat \<Rightarrow> nat \<Rightarrow> uint8 list \<Rightarrow> 'z kfs_scheme \<Rightarrow> 'z kfs_scheme \<Rightarrow> bool" where
  "fwrote ip off xs s t \<longleftrightarrow> ino_frame ip s t \<and> others_kept ip s t \<and> fs_ok t ip \<and> isize (inodes t ip) = isize (inodes s ip) \<and>
     (\<forall>k \<le> MAXFILE. fslot s ip k \<noteq> 0 \<longrightarrow> fslot t ip k = fslot s ip k) \<and>
     (\<forall>i < length xs. fslot t ip ((off + i) div BSIZE) \<noteq> 0) \<and>
     (\<forall>i < MAXFILE * BSIZE. fbyte t ip i = (if off \<le> i \<and> i < off + length xs then xs ! (i - off) else fbyte s ip i))"

lemma fwroteD:
  assumes "fwrote ip off xs s t"
  shows "ino_frame ip s t" "others_kept ip s t" "fs_ok t ip" "isize (inodes t ip) = isize (inodes s ip)"
    "k \<le> MAXFILE \<Longrightarrow> fslot s ip k \<noteq> 0 \<Longrightarrow> fslot t ip k = fslot s ip k" "i < length xs \<Longrightarrow> fslot t ip ((off + i) div BSIZE) \<noteq> 0"
    "i < MAXFILE * BSIZE \<Longrightarrow> fbyte t ip i = (if off \<le> i \<and> i < off + length xs then xs ! (i - off) else fbyte s ip i)"
  using assms unfolding fwrote_def by blast+

lemma fwrote_none: "fwrote ip off [] s t \<longleftrightarrow> extended ip s t"
  unfolding fwrote_def extended_def by auto

lemma in_file: "i < MAXFILE * BSIZE \<Longrightarrow> i div BSIZE \<le> MAXFILE" "i < MAXFILE * BSIZE \<Longrightarrow> i div BSIZE < MAXFILE"
  by auto

lemma fwrote_append:
  assumes st: "fwrote ip off xs s t" and tu: "fwrote ip (off + length xs) ys t u" and off: "off + length xs + length ys \<le> MAXFILE * BSIZE"
  shows "fwrote ip off (xs @ ys) s u"
  unfolding fwrote_def
proof (intro conjI allI impI)
  note f = fwroteD [OF st] fwroteD [OF tu]
  show "ino_frame ip s u" "others_kept ip s u" using ino_frame_trans [OF f(1) f(8)] others_kept_trans [OF f(2) f(9,1)] .
  show "fs_ok u ip" "isize (inodes u ip) = isize (inodes s ip)" using f(4,10,11) by simp_all
  show "fslot u ip k = fslot s ip k" if "k \<le> MAXFILE" "fslot s ip k \<noteq> 0" for k using f(5) [OF that] f(12) [OF that(1)] that(2) by simp
  show "fslot u ip ((off + i) div BSIZE) \<noteq> 0" if "i < length (xs @ ys)" for i
  proof (cases "i < length xs")
    case True
    have "(off + i) div BSIZE \<le> MAXFILE" by (rule in_file) (use True off in linarith)
    then show ?thesis using f(6) [OF True] f(12) by metis
  next
    case False
    then show ?thesis using f(13) [of "i - length xs"] that by simp
  qed
  show "fbyte u ip i = (if off \<le> i \<and> i < off + length (xs @ ys) then (xs @ ys) ! (i - off) else fbyte s ip i)" if "i < MAXFILE * BSIZE" for i
    using f(7) [OF that] f(14) [OF that] by (auto simp: nth_append)
qed

text \<open>A write to one block of the file.\<close>

lemma nth_splice: "a \<le> length d \<Longrightarrow> i < length d \<Longrightarrow>
    (take a d @ xs @ drop (a + length xs) d) ! i = (if a \<le> i \<and> i < a + length xs then xs ! (i - a) else d ! i)"
  by (auto simp: nth_append)

lemma same_block:
  assumes "off mod BSIZE + n \<le> BSIZE" "i < n"
  shows "(off + i) div BSIZE = off div BSIZE"
proof -
  have "off + i = off div BSIZE * BSIZE + (off mod BSIZE + i)" by simp
  moreover have "off mod BSIZE + i < BSIZE" using assms by simp
  ultimately show ?thesis by (metis div_mult_self3 div_less add_0_right fs_sizes(1) less_numeral_extra(3))
qed

lemma fwrote_piece:
  fixes s t :: "'z kfs_scheme"
  assumes ok: "fs_ok s ip" and a: "fslot s ip (off div BSIZE) = a" "a \<noteq> 0" "off div BSIZE < MAXFILE" and xs: "off mod BSIZE + length xs \<le> BSIZE"
    and t: "log_step s t" and v: "view t = (view s)(a := take (off mod BSIZE) (view s a) @ xs @ drop (off mod BSIZE + length xs) (view s a))"
  shows "fwrote ip off xs s t" "nfree t = nfree s"
proof -
  note sok = fs_okD [OF ok] and f = log_step_fs [OF t] log_step_sel(1) [OF t]
  let ?k = "off div BSIZE"
  have kM: "?k \<le> MAXFILE" "?k \<noteq> MAXFILE" using a(3) by simp_all
  note fok = file_okD [OF sok(3)]
  have g: "good_block s a" using fok(3) [OF kM(1)] a by simp
  note gb = good_blockD [OF g]
  have len: "length (view t b) = length (view s b)" for b using gb(5) xs by (simp add: v)
  have "view t b = view s b" if "b \<in> bitmap_blocks (sb s)" for b using that gb(3) by (auto simp: v)
  note u = used_bitmap [OF this f(1,3)]
  have "{b. b < sb_size (sb s) \<and> \<not> in_use t b} = {b. b < sb_size (sb s) \<and> \<not> in_use s b}" using u(1) by auto
  then show "nfree t = nfree s" by (simp add: nfree_def f)
  have sl: "fslot t ip j = fslot s ip j" if "j \<le> MAXFILE" for j
  proof -
    have "fslot s ip MAXFILE \<noteq> a" using fok(5) [OF kM(1) le_refl] a kM(2) by metis
    then have "view t (iaddrs (inodes s ip) NDIRECT) = view s (iaddrs (inodes s ip) NDIRECT)" by (simp add: v fslot_def)
    then show ?thesis by (simp add: fslot_def Let_def f)
  qed
  have good: "good_block t b = good_block s b" for b unfolding good_block_def data_block_def f len using u(1) by auto
  have "file_ok t ip" using sok(3) sl unfolding file_ok_def good f inode_block_def by auto
  then have "fs_ok t ip" using sok u gb(1) u(1) [of 0] unfolding fs_ok_def by auto
  moreover have "others_kept ip s t" unfolding others_kept_def using u(1) sl a(1) kM(1) by (auto simp: v)
  moreover have "fbyte t ip i = (if off \<le> i \<and> i < off + length xs then xs ! (i - off) else fbyte s ip i)" if i: "i < MAXFILE * BSIZE" for i
  proof (cases "i div BSIZE = ?k")
    case True
    then have "i = ?k * BSIZE + i mod BSIZE" "off = ?k * BSIZE + off mod BSIZE" by (metis div_mult_mod_eq)+
    then have "off \<le> i \<longleftrightarrow> off mod BSIZE \<le> i mod BSIZE" "i - off = i mod BSIZE - off mod BSIZE"
      "i < off + length xs \<longleftrightarrow> i mod BSIZE < off mod BSIZE + length xs" by linarith+
    then show ?thesis using sl [OF kM(1)] True a gb(5) by (simp add: fbyte_def v nth_splice)
  next
    case False
    have "fslot s ip (i div BSIZE) \<noteq> a" using fok(5) [OF in_file(1) [OF i] kM(1)] a False by metis
    moreover have "\<not> (off \<le> i \<and> i < off + length xs)" using False same_block [OF xs, of "i - off"] by (auto simp: less_diff_conv2)
    ultimately show ?thesis using sl [OF in_file(1) [OF i]] by (auto simp: fbyte_def Let_def v)
  qed
  moreover have "fslot t ip ((off + i) div BSIZE) \<noteq> 0" if "i < length xs" for i
    using same_block [OF xs that] sl [OF kM(1)] a by simp
  ultimately show "fwrote ip off xs s t" using log_step_ino [OF t] sl f unfolding fwrote_def by auto
qed

text \<open>A source that gives the bytes \<open>xs\<close>, in pieces, in every state with the same user memory.\<close>

definition user_same :: "'z kfs_scheme \<Rightarrow> 'z kfs_scheme \<Rightarrow> bool" where
  "user_same s t \<longleftrightarrow> mem t = mem s \<and> myproc t = myproc s \<and> (\<forall>p. pagetable (procs t p) = pagetable (procs s p))"

definition gives :: "'z kfs_scheme \<Rightarrow> source \<Rightarrow> uint8 list \<Rightarrow> bool" where
  "gives s src xs \<longleftrightarrow> (\<forall>i m t. i + m \<le> length xs \<longrightarrow> user_same s t \<longrightarrow> copy_from (source_add src i) m t = Ok (0, take m (drop i xs), t))"

lemma ino_frame_user: "ino_frame ip s t \<Longrightarrow> user_same s t"
  by (simp add: ino_frame_def user_same_def)

lemma gives_same: "gives s src xs \<Longrightarrow> user_same s t \<Longrightarrow> gives t src xs"
  unfolding gives_def user_same_def by metis

lemma source_add_add: "source_add (source_add src m) i = source_add src (m + i)"
  by (cases src) (simp_all add: add.assoc add.commute)

lemma source_add_0 [simp]: "source_add src 0 = src"
  by (cases src) simp_all

lemma gives_rest:
  assumes "gives s src xs" "m \<le> length xs"
  shows "gives s (source_add src m) (drop m xs)"
  unfolding gives_def source_add_add
proof (intro allI impI)
  fix i l t assume "i + l \<le> length (drop m xs)" "user_same s t"
  then show "copy_from (source_add src (m + i)) l t = Ok (0, take l (drop i (drop m xs)), t)"
    using assms unfolding gives_def by (auto simp: add.commute)
qed

lemma gives_first: "gives s src xs \<Longrightarrow> m \<le> length xs \<Longrightarrow> user_same s t \<Longrightarrow> copy_from src m t = Ok (0, take m xs, t)"
  unfolding gives_def by (metis add_0 drop0 source_add_0)

lemma gives_local: "gives s (FromLocal xs) xs"
  by (simp add: gives_def)

text \<open>The number of blocks that \<open>n\<close> bytes from \<open>off\<close> on lie in.\<close>

definition nblocks_of :: "nat \<Rightarrow> nat \<Rightarrow> nat" where
  "nblocks_of off n = (if n = 0 then 0 else Suc ((off + n - 1) div BSIZE - off div BSIZE))"

lemma piece_fits: "piece n off \<le> n" "off mod BSIZE + piece n off \<le> BSIZE"
  using mod_less_divisor [of BSIZE off] unfolding piece_def min_nat_def by (auto, arith?)

lemma nblocks_of_piece:
  assumes "0 < n"
  shows "Suc (nblocks_of (off + piece n off) (n - piece n off)) \<le> nblocks_of off n"
proof (cases "piece n off = n")
  case False
  then have p: "piece n off = BSIZE - off mod BSIZE" "piece n off < n" using piece_fits(1) [of n off] by (simp_all add: piece_def min_nat_def split: if_splits)
  have "off + piece n off = BSIZE + BSIZE * (off div BSIZE)" using p(1) mod_less_divisor [of BSIZE off] mult_div_mod_eq [of BSIZE off] by linarith
  then have "(off + piece n off) div BSIZE = Suc (off div BSIZE)" by simp
  moreover have "(off + piece n off) div BSIZE \<le> (off + n - 1) div BSIZE" by (rule div_le_mono) (use p(2) in simp)
  moreover have "off + piece n off + (n - piece n off) - 1 = off + n - 1" using p(2) by simp
  ultimately show ?thesis using p(2) by (simp add: nblocks_of_def) linarith
qed (use assms in \<open>simp add: nblocks_of_def\<close>)

lemma write_one:
  fixes s :: "'z kfs_scheme"
  assumes l: "logging {} P n s" and ok: "fs_ok s ip" and k: "off div BSIZE < MAXFILE" and a: "fslot s ip (off div BSIZE) = a" "a \<noteq> 0"
    and room: "Suc n < NBUF" and src: "gives s src xs" and p: "p \<le> length xs" "off mod BSIZE + p \<le> BSIZE"
  shows "\<exists>t P' n'. bindr (bread (idev (inodes s ip)) a s) (\<lambda>(bp, s).
      bindr (copy_from src p s) (\<lambda>(r, xs, s).
      let d = bdata (bufs s bp); s = set_data bp (take (off mod BSIZE) d @ xs @ drop (off mod BSIZE + length xs) d) s
      in if r = -1 then bindr (brelse bp s) (\<lambda>s. Ok (f s))
         else bindr (log_write bp s) (\<lambda>s. bindr (brelse bp s) g))) = g t \<and>
    logging {} P' n' t \<and> n' \<le> Suc n \<and> fwrote ip off (take p xs) s t \<and> nfree t = nfree s"
proof -
  note sok = fs_okD [OF ok]
  have dev: "idev (inodes s ip) = ROOTDEV" by (rule file_okD(1) [OF sok(3)])
  have g: "good_block s a" using file_okD(3) [OF sok(3) less_imp_le [OF k]] a by simp
  note gb = good_blockD [OF g]
  obtain b u where r: "bread ROOTDEV a s = Ok (b, u)" "logging (insert b {}) P n u" "b \<notin> {}" "bdata (bufs u b) = view s a"
    "blockno (bufs u b) = a" "view u = view s" "bio_frame s u"
    by (rule block_read [OF l, of a]) (use room in simp_all)
  note su = log_step_bio [OF r(7)]
  have cp: "copy_from src p u = Ok (0, take p xs, u)" by (rule gives_first [OF src p(1) ino_frame_user [OF log_step_ino [OF su]]])
  define d where "d = take (off mod BSIZE) (view s a) @ take p xs @ drop (off mod BSIZE + p) (view s a)"
  obtain t P' n' where t: "bindr (log_write b (set_data b d u)) (brelse b) = Ok t" "logging {} P' n' t" "n' \<le> Suc n"
    "view t = (view u)(a := d)" "log_step u t"
    using block_store [OF r(2,3) room, of d] r(5) gb(1,4) alloc_okD(1) [OF sok(1)] log_step_sel(1) [OF su] by auto
  have "fwrote ip off (take p xs) s t" "nfree t = nfree s"
    by (rule fwrote_piece [OF ok a k _ log_step_trans [OF su t(5)], where xs = "take p xs"], use p t(4) r(6) in \<open>simp_all add: d_def\<close>)+
  moreover obtain w where "log_write b (set_data b d u) = Ok w" "brelse b w = Ok t" using t(1) by (auto simp: bindr_Ok_iff)
  ultimately show ?thesis using t(2,3) p(1) by (auto simp: dev r(1,4) cp d_def [symmetric] Let_def min_absorb2)
qed

lemma writei_loop_ok:
  fixes s :: "'z kfs_scheme"
  assumes "logging {} P m s" "fs_ok s ip" "n = tot + length xs" "off + length xs \<le> MAXFILE * BSIZE"
    "m + 6 * nblocks_of off (length xs) < NBUF" "gives s src xs"
  shows "\<exists>r t P' m'. writei_loop ip src off tot n s = Ok (tot + r, off + r, t) \<and> r \<le> length xs \<and> logging {} P' m' t \<and>
    m' \<le> m + 6 * nblocks_of off (length xs) \<and> fwrote ip off (take r xs) s t \<and> (r < length xs \<longrightarrow> no_space t) \<and>
    nfree s \<le> nfree t + 6 * nblocks_of off (length xs)"
  using assms
proof (induction "length xs" arbitrary: s xs off tot src P m rule: less_induct)
  case less
  note l = less.prems(1) and ok = less.prems(2) and n = less.prems(3)
  show ?case
  proof (cases "xs = []")
    case True
    then show ?thesis using l n extended_same [OF ok log_step_lh(3) refl]
      by (auto simp: writei_loop.simps [of _ _ _ tot] fwrote_none intro!: exI [of _ s] exI [of _ P] exI [of _ m])
  next
    case False
    define p where "p = piece (length xs) off"
    have p: "0 < p" "p \<le> length xs" "off mod BSIZE + p \<le> BSIZE" using False piece_fits(1) [of "length xs" off] piece_fits(2) [of off "length xs"] by (simp_all add: p_def)
    have nb: "Suc (nblocks_of (off + p) (length (drop p xs))) \<le> nblocks_of off (length xs)"
      using nblocks_of_piece [of "length xs" off] False by (simp add: p_def)
    have "off < MAXFILE * BSIZE" using p(1,2) less.prems(4) by linarith
    note k = in_file(2) [OF this]
    have room: "m + 6 < NBUF" using nb less.prems(5) by linarith
    obtain a u where u: "bmap ip (off div BSIZE) s = Ok (a, u)" "found ip (off div BSIZE) m 5 s (a, u)" using bmap_ok [OF l ok k room] by auto
    then obtain P1 m1 where lu: "logging {} P1 m1 u" "m1 \<le> m + 5" "extended ip s u" "nfree s \<le> nfree u + 5" by (auto simp: found_def)
    note wu = fwrote_none [THEN iffD2, OF lu(3), of off]
    show ?thesis
    proof (cases "a = 0")
      case True
      then have "no_space u" using u(2) by (simp add: found_def)
      moreover have "m1 \<le> m + 6 * nblocks_of off (length xs)" "nfree s \<le> nfree u + 6 * nblocks_of off (length xs)" using lu(2,4) nb by linarith+
      ultimately show ?thesis using False n u(1) True lu(1) wu
        by (auto simp: writei_loop.simps [of _ _ _ tot] intro!: exI [of _ u] exI [of _ P1] exI [of _ m1])
    next
      case a: False
      have sl: "fslot u ip (off div BSIZE) = a" using u(2) a by (simp add: found_def)
      have nt: "tot < n" "n - tot = length xs" using n False by simp_all
      have "Suc m1 < NBUF" using lu(2) room by linarith
      note one = write_one [OF lu(1) extendedD(3) [OF lu(3)] k sl a this gives_same [OF less.prems(6) ino_frame_user [OF extendedD(1) [OF lu(3)]]] p(2,3),
          of "\<lambda>s. (tot, off, s)" "writei_loop ip (source_add src p) (off + p) (tot + p) n"]
      have eq: "writei_loop ip src off tot n s = bindr (bread (idev (inodes u ip)) a u) (\<lambda>(bp, s).
          bindr (copy_from src p s) (\<lambda>(r, xs, s).
          let d = bdata (bufs s bp); s = set_data bp (take (off mod BSIZE) d @ xs @ drop (off mod BSIZE + length xs) d) s
          in if r = -1 then bindr (brelse bp s) (\<lambda>s. Ok (tot, off, s))
             else bindr (log_write bp s) (\<lambda>s. bindr (brelse bp s) (writei_loop ip (source_add src p) (off + p) (tot + p) n))))"
        unfolding writei_loop.simps [of ip src off tot n s] using nt u(1) a by (simp add: Let_def [of "piece _ _"] p_def [symmetric])
      obtain v P2 m2 where v: "writei_loop ip src off tot n s = writei_loop ip (source_add src p) (off + p) (tot + p) n v"
        "logging {} P2 m2 v" "m2 \<le> Suc m1" "fwrote ip off (take p xs) u v" "nfree v = nfree u" using one unfolding eq by blast
      have lp: "length (take p xs) = p" using p(2) by simp
      have w1: "fwrote ip off (take p xs) s v"
        using fwrote_append [OF wu, of "take p xs" v] v(4) less.prems(4) p(2) by (simp add: lp)
      have rest: "m2 + 6 * nblocks_of (off + p) (length (drop p xs)) \<le> m + 6 * nblocks_of off (length xs)" using v(3) lu(2) nb by linarith
      have "\<exists>r t P' m'. writei_loop ip (source_add src p) (off + p) (tot + p) n v = Ok (tot + p + r, off + p + r, t) \<and> r \<le> length (drop p xs) \<and>
          logging {} P' m' t \<and> m' \<le> m2 + 6 * nblocks_of (off + p) (length (drop p xs)) \<and> fwrote ip (off + p) (take r (drop p xs)) v t \<and>
          (r < length (drop p xs) \<longrightarrow> no_space t) \<and> nfree v \<le> nfree t + 6 * nblocks_of (off + p) (length (drop p xs))"
      proof (rule less.hyps [OF _ v(2) fwroteD(3) [OF w1]])
        show "gives v (source_add src p) (drop p xs)"
          by (rule gives_rest [OF gives_same [OF less.prems(6) ino_frame_user [OF fwroteD(1) [OF w1]]] p(2)])
      qed (use p n less.prems(4,5) rest in simp_all)
      then obtain r t P' m' where t: "writei_loop ip (source_add src p) (off + p) (tot + p) n v = Ok (tot + p + r, off + p + r, t)"
        "r \<le> length (drop p xs)" "logging {} P' m' t" "m' \<le> m2 + 6 * nblocks_of (off + p) (length (drop p xs))"
        "fwrote ip (off + p) (take r (drop p xs)) v t" "r < length (drop p xs) \<longrightarrow> no_space t" "nfree v \<le> nfree t + 6 * nblocks_of (off + p) (length (drop p xs))" by blast
      have "fwrote ip off (take p xs @ take r (drop p xs)) s t"
        by (rule fwrote_append [OF w1]) (use t(2,5) p(2) less.prems(4) in \<open>simp_all add: lp\<close>)
      then have "fwrote ip off (take (p + r) xs) s t" by (simp add: take_add)
      moreover have "nfree s \<le> nfree t + 6 * nblocks_of off (length xs)" using t(7) v(5) lu(4) nb by linarith
      ultimately show ?thesis using t(1-4,6) p(2) rest v(1)
        by (intro exI [of _ "p + r"] exI [of _ t] exI [of _ P'] exI [of _ m']) (auto simp: add.assoc)
    qed
  qed
qed



section \<open>The inode on the disk\<close>

lemma length_put_dinode [simp]: "length (put_dinode off x d) = length d"
proof -
  have "length (fold (\<lambda>i. put_u32 (off + 12 + 4 * i) (iaddrs x i)) ks d) = length d" for ks and d :: "uint8 list"
    by (induction ks arbitrary: d) simp_all
  then show ?thesis by (simp add: put_dinode_def put_s16_def)
qed

lemma length_put_s16 [simp]: "length (put_s16 k v xs) = length xs"
  by (simp add: put_s16_def)

lemma get_put_s16:
  assumes "k + 1 < length xs" "- (2 ^ 15) \<le> v" "v < 2 ^ 15"
  shows "get_s16 (put_s16 k v xs) k = v"
proof (cases "0 \<le> v")
  case True
  then show ?thesis using assms get_put_u16 [of k xs "nat v"] by (simp add: get_s16_def put_s16_def Let_def)
next
  case False
  then have "v mod 2 ^ 16 = v + 2 ^ 16" using assms(2) mod_add_self2 [of v "2 ^ 16"] mod_pos_pos_trivial [of "v + 2 ^ 16" "2 ^ 16"] by simp
  then show ?thesis using assms False get_put_u16 [of k xs "nat (v + 2 ^ 16)"] by (simp add: get_s16_def put_s16_def Let_def)
qed

lemma get_put_s16_other: "k + 1 < j \<or> j + 1 < k \<Longrightarrow> get_s16 (put_s16 j v xs) k = get_s16 xs k"
  "k + 1 < j \<or> j + 3 < k \<Longrightarrow> get_s16 (put_u32 j w xs) k = get_s16 xs k"
  "k + 3 < j \<or> j + 1 < k \<Longrightarrow> get_u32 (put_s16 j v xs) k = get_u32 xs k"
  by (auto simp: get_s16_def put_s16_def get_u32_def put_u32_def get_put_u16_other)

lemma fold_addrs:
  assumes "a + 4 * n \<le> length d" "\<And>i. i < n \<Longrightarrow> g i < 2 ^ 32"
  defines "h \<equiv> \<lambda>n. fold (\<lambda>i. put_u32 (a + 4 * i) (g i)) [0..<n] d"
  shows "length (h n) = length d" "i < n \<Longrightarrow> get_u32 (h n) (a + 4 * i) = g i"
    "j + 3 < a \<Longrightarrow> get_u32 (h n) j = get_u32 d j" "j + 3 < a \<Longrightarrow> get_s16 (h n) j = get_s16 d j"
proof -
  have "length (h n) = length d \<and> (\<forall>i < n. get_u32 (h n) (a + 4 * i) = g i) \<and>
    (\<forall>j. j + 3 < a \<longrightarrow> get_u32 (h n) j = get_u32 d j \<and> get_s16 (h n) j = get_s16 d j)"
    using assms(1,2)
  proof (induction n)
    case (Suc n)
    have "h (Suc n) = put_u32 (a + 4 * n) (g n) (h n)" by (simp add: h_def)
    then show ?case using Suc by (auto simp: get_put_u32_other get_put_u32 get_put_s16_other less_Suc_eq)
  qed (simp add: h_def)
  then show "length (h n) = length d" "i < n \<Longrightarrow> get_u32 (h n) (a + 4 * i) = g i"
    "j + 3 < a \<Longrightarrow> get_u32 (h n) j = get_u32 d j" "j + 3 < a \<Longrightarrow> get_s16 (h n) j = get_s16 d j" by blast+
qed

definition short :: "int \<Rightarrow> bool" where
  "short v \<longleftrightarrow> - (2 ^ 15) \<le> v \<and> v < 2 ^ 15"

definition dinode_ok :: "inode \<Rightarrow> bool" where
  "dinode_ok x \<longleftrightarrow> short (itype x) \<and> short (imajor x) \<and> short (iminor x) \<and> short (inlink x) \<and> isize x < 2 ^ 32 \<and>
     (\<forall>i \<le> NDIRECT. iaddrs x i < 2 ^ 32)"

lemma get_put_dinode:
  assumes "off + DINODE_SIZE \<le> length d" "dinode_ok x"
  shows "get_dinode off (put_dinode off x d) x = x"
proof -
  define e where "e = put_u32 (off + 8) (isize x) (put_s16 (off + 6) (inlink x) (put_s16 (off + 4) (iminor x)
    (put_s16 (off + 2) (imajor x) (put_s16 off (itype x) d))))"
  have l: "length e = length d" by (simp add: e_def put_s16_def)
  have x: "\<And>i. i < NDIRECT + 1 \<Longrightarrow> iaddrs x i < 2 ^ 32" using assms(2) by (simp add: dinode_ok_def less_Suc_eq_le)
  have "off + 12 + 4 * (NDIRECT + 1) \<le> length e" using assms(1) by (simp add: l DINODE_SIZE_def NDIRECT_def)
  note h = fold_addrs [OF this, of "iaddrs x", OF x, folded put_dinode_def [of off x d, folded e_def]]
  have "get_s16 e off = itype x" "get_s16 e (off + 2) = imajor x" "get_s16 e (off + 4) = iminor x" "get_s16 e (off + 6) = inlink x"
    "get_u32 e (off + 8) = isize x"
    using assms by (simp_all add: e_def get_put_s16 get_put_s16_other get_put_u32 dinode_ok_def short_def DINODE_SIZE_def)
  moreover have "(\<lambda>i. if i \<le> NDIRECT then get_u32 (put_dinode off x d) (off + 12 + 4 * i) else iaddrs x i) = iaddrs x"
    using h(2) by (intro ext) (simp add: less_Suc_eq_le)
  ultimately show ?thesis using h(3) [of "off + 8"] h(4) [of off] h(4) [of "off + 2"] h(4) [of "off + 4"] h(4) [of "off + 6"]
    by (simp add: get_dinode_def)
qed

lemma iupdate_ok:
  fixes s :: "'z kfs_scheme"
  assumes l: "logging {} P n s" and ok: "fs_ok s ip" and room: "Suc n < NBUF"
  shows "\<exists>t P' n'. iupdate ip s = Ok t \<and> logging {} P' n' t \<and> n' \<le> Suc n \<and> log_step s t \<and>
    view t = (view s)(inode_block s ip := put_dinode (dip (inum (inodes s ip))) (inodes s ip) (view s (inode_block s ip)))"
proof -
  note sok = fs_okD [OF ok]
  note gb = good_blockD [OF file_okD(2) [OF sok(3)]]
  let ?a = "inode_block s ip" and ?d = "put_dinode (dip (inum (inodes s ip))) (inodes s ip) (view s (inode_block s ip))"
  obtain b u where r: "bread ROOTDEV ?a s = Ok (b, u)" "logging (insert b {}) P n u" "b \<notin> {}" "bdata (bufs u b) = view s ?a"
    "blockno (bufs u b) = ?a" "view u = view s" "bio_frame s u"
    by (rule block_read [OF l, of ?a]) (use room in simp_all)
  note su = log_step_bio [OF r(7)]
  obtain t P' n' where t: "bindr (log_write b (set_data b ?d u)) (brelse b) = Ok t" "logging {} P' n' t" "n' \<le> Suc n"
    "view t = (view u)(?a := ?d)" "log_step u t"
    using block_store [OF r(2,3) room, of ?d] r(5) gb(1,4) alloc_okD(1) [OF sok(1)] log_step_sel(1) [OF su] by auto
  have "iupdate ip s = Ok t" using t(1) r(1,4) file_okD(1) [OF sok(3)] log_step_fs(2) [OF su]
    by (simp add: iupdate_def inode_block_def bindr_Ok_iff)
  then show ?thesis using t(2-4) log_step_trans [OF su t(5)] r(6) by auto
qed

lemma extended_inode:
  fixes s t :: "'z kfs_scheme"
  assumes ok: "fs_ok s ip" and t: "log_step s t" and v: "view t = (view s)(inode_block s ip := d)" and d: "length d = BSIZE"
  shows "extended ip s t"
proof -
  note sok = fs_okD [OF ok] and f = log_step_fs [OF t] log_step_sel(1) [OF t]
  note fok = file_okD [OF sok(3)]
  note gb = good_blockD [OF fok(2)]
  have len: "length (view t b) = length (view s b)" for b using gb(5) d by (simp add: v)
  have "view t b = view s b" if "b \<in> bitmap_blocks (sb s)" for b using that gb(3) by (auto simp: v)
  note u = used_bitmap [OF this f(1,3)]
  have sl: "fslot t ip = fslot s ip"
  proof
    fix k
    have "iaddrs (inodes s ip) NDIRECT = 0 \<or> iaddrs (inodes s ip) NDIRECT \<noteq> inode_block s ip"
      using fok(4) [OF le_refl] by (auto simp: fslot_def)
    then show "fslot t ip k = fslot s ip k" by (auto simp: fslot_def Let_def f v)
  qed
  have good: "good_block t b = good_block s b" for b unfolding good_block_def data_block_def f len using u(1) by auto
  have "file_ok t ip" using sok(3) unfolding file_ok_def good f inode_block_def sl by auto
  then have "fs_ok t ip" using sok u gb(1) u(1) [of 0] unfolding fs_ok_def by auto
  moreover have "others_kept ip s t" unfolding others_kept_def sl using u(1) by (auto simp: v)
  moreover have "fbyte t ip i = fbyte s ip i" if "i < MAXFILE * BSIZE" for i
    using fok(4) [OF in_file(1) [OF that]] by (auto simp: fbyte_def Let_def sl v)
  ultimately show ?thesis using log_step_ino [OF t] f unfolding extended_def sl by auto
qed

lemma upd_isize:
  fixes ip n
  defines "g \<equiv> \<lambda>s. upd_inode ip (\<lambda>x. x\<lparr>isize := n\<rparr>) s"
  shows "fslot (g s) ip = fslot s ip" "fbyte (g s) ip = fbyte s ip" "fs_ok (g s) ip = fs_ok s ip" "others_kept ip s' (g s) = others_kept ip s' s"
    "inode_block (g s) ip = inode_block s ip"
proof -
  show sl: "fslot (g s) ip = fslot s ip" by (intro ext) (simp add: fslot_def Let_def g_def)
  show "fbyte (g s) ip = fbyte s ip" by (intro ext) (simp add: fbyte_def sl Let_def, simp add: g_def)
  show ib: "inode_block (g s) ip = inode_block s ip" by (simp add: inode_block_def g_def)
  have good: "good_block (g s) = good_block s" by (intro ext) (simp add: good_block_def data_block_def g_def)
  show "fs_ok (g s) ip = fs_ok s ip" unfolding fs_ok_def file_ok_def sl good ib by (simp add: g_def)
  show "others_kept ip s' (g s) = others_kept ip s' s" unfolding others_kept_def sl by (simp add: g_def)
qed

section \<open>The content of a file\<close>

definition content :: "'z kfs_scheme \<Rightarrow> nat \<Rightarrow> uint8 list" where
  "content s ip = map (fbyte s ip) [0..<isize (inodes s ip)]"

text \<open>Every byte below the size has a block.\<close>

definition backed :: "'z kfs_scheme \<Rightarrow> nat \<Rightarrow> bool" where
  "backed s ip \<longleftrightarrow> isize (inodes s ip) \<le> MAXFILE * BSIZE \<and> (\<forall>i < isize (inodes s ip). fslot s ip (i div BSIZE) \<noteq> 0)"

text \<open>The inode in memory is the one that would be read from the disk.\<close>

definition saved :: "'z kfs_scheme \<Rightarrow> nat \<Rightarrow> bool" where
  "saved s ip \<longleftrightarrow> get_dinode (dip (inum (inodes s ip))) (view s (inode_block s ip)) (inodes s ip) = inodes s ip"

definition shorts_ok :: "inode \<Rightarrow> bool" where
  "shorts_ok x \<longleftrightarrow> short (itype x) \<and> short (imajor x) \<and> short (iminor x) \<and> short (inlink x)"

lemma dinode_ok_file:
  assumes ok: "fs_ok s ip" and b: "backed s ip" and x: "shorts_ok (inodes s ip)"
  shows "dinode_ok (inodes s ip)"
proof -
  have "iaddrs (inodes s ip) i < 2 ^ 32" if "i \<le> NDIRECT" for i
  proof (cases "iaddrs (inodes s ip) i = 0")
    case False
    then have "good_block s (iaddrs (inodes s ip) i)"
      using file_okD(3) [OF fs_okD(3) [OF ok], of "addr_slot i"] slot_addr [OF that, of s ip] that by (simp add: addr_slot_def MAXFILE_def)
    then show ?thesis using good_blockD(1) alloc_okD(1) [OF fs_okD(1) [OF ok]] by (meson less_le_trans)
  qed simp
  then show ?thesis using b x by (simp add: dinode_ok_def shorts_ok_def backed_def MAXFILE_def NINDIRECT_def NDIRECT_def)
qed

lemma content_written:
  assumes w: "fwrote ip off xs s t" and b: "backed s ip" and off: "off \<le> isize (inodes s ip)" "off + length xs \<le> MAXFILE * BSIZE"
  defines "u \<equiv> upd_inode ip (\<lambda>x. x\<lparr>isize := max (isize x) (off + length xs)\<rparr>) t"
  shows "content u ip = take off (content s ip) @ xs @ drop (off + length xs) (content s ip)" "backed u ip"
proof -
  note f = fwroteD [OF w] and up = upd_isize [where ip = ip and n = "max (isize (inodes t ip)) (off + length xs)" and s = t]
  have u: "u = upd_inode ip (\<lambda>x. x\<lparr>isize := max (isize (inodes t ip)) (off + length xs)\<rparr>) t"
    unfolding u_def upd_inode_def by simp
  have sz: "isize (inodes u ip) = max (isize (inodes s ip)) (off + length xs)" by (simp add: u f(4))
  have le: "isize (inodes u ip) \<le> MAXFILE * BSIZE" using b off(2) by (simp add: sz backed_def)
  show "content u ip = take off (content s ip) @ xs @ drop (off + length xs) (content s ip)"
  proof (rule nth_equalityI)
    show "length (content u ip) = length (take off (content s ip) @ xs @ drop (off + length xs) (content s ip))"
      using off(1) by (simp add: content_def sz)
    fix i assume "i < length (content u ip)"
    then have i: "i < isize (inodes u ip)" by (simp add: content_def)
    then have "i < MAXFILE * BSIZE" using le by linarith
    from f(7) [OF this] have "content u ip ! i = (if off \<le> i \<and> i < off + length xs then xs ! (i - off) else fbyte s ip i)"
      using i up(2) by (simp add: content_def u)
    then show "content u ip ! i = (take off (content s ip) @ xs @ drop (off + length xs) (content s ip)) ! i"
      using i off(1) by (auto simp: nth_append sz content_def)
  qed
  have "fslot u ip (i div BSIZE) \<noteq> 0" if i: "i < isize (inodes u ip)" for i
  proof (cases "i < isize (inodes s ip)")
    case True
    have "i < MAXFILE * BSIZE" using i le by simp
    then show ?thesis using f(5) [OF in_file(1)] b True up(1) unfolding backed_def u by metis
  next
    case False
    then have "off \<le> i" "i - off < length xs" using i off(1) by (auto simp: sz less_diff_conv2)
    then show ?thesis using f(6) [of "i - off"] up(1) by (simp add: u)
  qed
  then show "backed u ip" using le by (simp add: backed_def)
qed

lemma dip_fits: "dip i + DINODE_SIZE \<le> BSIZE"
proof -
  have "i mod IPB < IPB" by (simp add: IPB_def DINODE_SIZE_def)
  then show ?thesis by (simp add: dip_def IPB_def DINODE_SIZE_def)
qed

text \<open>\<open>writei\<close> in a transaction with room for the blocks that the bytes lie in.\<close>

lemma writei_ok:
  fixes s :: "'z kfs_scheme"
  assumes l: "logging {} P m s" and ok: "fs_ok s ip" and b: "backed s ip" and x: "shorts_ok (inodes s ip)"
    and off: "off \<le> isize (inodes s ip)" "off + length xs \<le> MAXFILE * BSIZE" and room: "m + 6 * nblocks_of off (length xs) + 1 < NBUF"
    and src: "gives s src xs"
  shows "\<exists>r t P' m'. writei ip src off (length xs) s = Ok (int r, t) \<and> r \<le> length xs \<and> logging {} P' m' t \<and>
    m' \<le> m + 6 * nblocks_of off (length xs) + 1 \<and> fs_ok t ip \<and> backed t ip \<and> saved t ip \<and> ino_frame ip s t \<and> others_kept ip s t \<and>
    content t ip = take off (content s ip) @ take r xs @ drop (off + r) (content s ip) \<and> (r < length xs \<longrightarrow> no_space t) \<and>
    (6 * nblocks_of off (length xs) < nfree s \<longrightarrow> r = length xs)"
proof -
  have small: "(off + length xs) mod 2 ^ 32 = off + length xs" using off(2) by (simp add: MAXFILE_def NINDIRECT_def NDIRECT_def)
  have "m + 6 * nblocks_of off (length xs) < NBUF" using room by simp
  from writei_loop_ok [OF l ok _ off(2) this src, of "length xs" 0] obtain r t P1 m1 where
    t: "writei_loop ip src off 0 (length xs) s = Ok (r, off + r, t)" "r \<le> length xs" "logging {} P1 m1 t"
      "m1 \<le> m + 6 * nblocks_of off (length xs)" "fwrote ip off (take r xs) s t" "r < length xs \<longrightarrow> no_space t" "nfree s \<le> nfree t + 6 * nblocks_of off (length xs)" by auto
  define u where "u = upd_inode ip (\<lambda>x. x\<lparr>isize := max (isize x) (off + length (take r xs))\<rparr>) t"
  have u_eq: "(if off + r > isize (inodes t ip) then upd_inode ip (\<lambda>x. x\<lparr>isize := off + r\<rparr>) t else t) = u"
    using t(2) by (auto simp: u_def upd_inode_def max_def)
  have uc: "u = upd_inode ip (\<lambda>x. x\<lparr>isize := max (isize (inodes t ip)) (off + length (take r xs))\<rparr>) t" unfolding u_def upd_inode_def by simp
  note up = upd_isize [where ip = ip and n = "max (isize (inodes t ip)) (off + length (take r xs))" and s = t, folded uc]
  have "off + length (take r xs) \<le> MAXFILE * BSIZE" using off(2) by simp
  note c = content_written [OF t(5) b off(1) this, folded u_def]
  note w = fwroteD [OF t(5)]
  have lu: "logging {} P1 m1 u" "fs_ok u ip" using t(3) w(3) up(3) by (simp_all add: u_def)
  have fu: "ino_frame ip s u" unfolding u_def by (rule upd_inode_frame(2) [OF w(1)])
  have su: "shorts_ok (inodes u ip)" using x fu by (cases "inodes s ip"; cases "inodes u ip") (simp add: ino_frame_def shorts_ok_def)
  obtain v P2 m2 where v: "iupdate ip u = Ok v" "logging {} P2 m2 v" "m2 \<le> Suc m1" "log_step u v"
    "view v = (view u)(inode_block u ip := put_dinode (dip (inum (inodes u ip))) (inodes u ip) (view u (inode_block u ip)))"
    using iupdate_ok [OF lu] t(4) room by auto
  note gb = good_blockD(5) [OF file_okD(2) [OF fs_okD(3) [OF lu(2)]]]
  have ext: "extended ip u v" by (rule extended_inode [OF lu(2) v(4,5)]) (simp add: gb)
  note e = extendedD [OF ext] and fv = log_step_fs [OF v(4)]
  have "content v ip = content u ip" "backed v ip"
    using e(4,6) c(2) extendedD(5) [OF ext in_file(1)] by (auto simp: content_def backed_def)
  moreover have "saved v ip"
    using get_put_dinode [OF _ dinode_ok_file [OF lu(2) c(2) su]] gb dip_fits ino_frameD(5) [OF e(1)]
    by (simp add: saved_def fv v(5))
  moreover have "writei ip src off (length xs) s = Ok (int r, v)" using off small t(1) v(1) by (simp add: writei_def u_eq)
  moreover have "others_kept ip s v" using others_kept_trans [of ip s u v] w(2) up(4) e(2) fu by simp
  moreover have "r = length xs" if "6 * nblocks_of off (length xs) < nfree s"
    using t(2,6,7) that by (auto simp: no_space_nfree)
  moreover have "no_space v" if "r < length xs"
    using t(6) that others_keptD(1) [OF e(2)] unfolding no_space_def fv by (simp add: u_def)
  ultimately show ?thesis using t(2,4) v(2,3) e(3) ino_frame_trans [OF fu e(1)] c(1)
    by (intro exI [of _ r] exI [of _ v] exI [of _ P2] exI [of _ m2]) (auto simp: min_absorb2)
qed

section \<open>Reading\<close>

text \<open>Reading needs no transaction, only a buffer that is not pinned.\<close>

definition peeked :: "nat set \<Rightarrow> 'z kfs_scheme \<Rightarrow> 'z kfs_scheme \<Rightarrow> bool" where
  "peeked P s t \<longleftrightarrow> cache_ok {} P t \<and> view t = view s \<and> bio_frame s t \<and> (\<forall>b \<in> P. blockno (bufs t b) = blockno (bufs s b))"

lemma peeked_trans: "peeked P s t \<Longrightarrow> peeked P t u \<Longrightarrow> peeked P s u"
  by (auto simp: peeked_def intro: bio_frame_trans)

lemma peeked_refl: "cache_ok {} P s \<Longrightarrow> peeked P s s"
  by (simp add: peeked_def)

lemma peekedD: "peeked P s t \<Longrightarrow> cache_ok {} P t" "peeked P s t \<Longrightarrow> view t = view s" "peeked P s t \<Longrightarrow> bio_frame s t"
  by (simp_all add: peeked_def)

lemma cache_peek:
  fixes s :: "'z kfs_scheme"
  assumes c: "cache_ok {} P s" and room: "card P < NBUF"
  obtains b u t where "bread ROOTDEV a s = Ok (b, u)" "bdata (bufs u b) = view s a" "bio_frame s u" "brelse b u = Ok t" "peeked P s t"
proof -
  obtain b u where r: "bread ROOTDEV a s = Ok (b, u)" "cache_ok (insert b {}) P u" "bufs u b = read_buf P a b s"
    "\<And>b'. keyed s a b' \<Longrightarrow> b' = b" "view u = view s" "disk u = disk s" "bio_frame s u"
    "\<And>c. c \<noteq> b \<Longrightarrow> bufs u c = bufs s c" "b \<in> P \<longrightarrow> blockno (bufs s b) = a"
    by (rule bread_ok [OF c, of a]) (use room in simp_all)
  have d: "bdata (bufs u b) = view s a" "blockno (bufs u b) = a" by (simp_all add: r(3) read_buf_def)
  have "view s a = disk s a" if "b \<notin> P"
  proof (rule view_disk [OF c])
    fix c' assume "c' \<in> {} \<union> P"
    then show "blockno (bufs s c') \<noteq> a" using pin_facts [OF c, of c'] r(4) [of c'] that by (auto simp: keyed_def)
  qed
  then obtain t where t: "brelse b u = Ok t" "cache_ok (insert b {} - {b}) P t" "view t = view u" "bio_frame u t"
    "bufs t = (bufs u)(b := (bufs u b)\<lparr>refcnt := if b \<in> P then 1 else 0\<rparr>)"
    by - (rule brelse_ok [OF r(2), of b], use d r(6) in auto)
  have "blockno (bufs t c) = blockno (bufs s c)" if "c \<in> P" for c
    using that t(5) d(2) r(8) [of c] r(9) by (cases "c = b") auto
  then have "peeked P s t" using t(2,3) r(5) bio_frame_trans [OF r(7) t(4)] by (simp add: peeked_def)
  then show thesis by (rule that [OF r(1) d(1) r(7) t(1)])
qed

lemma bmap_present:
  fixes s :: "'z kfs_scheme"
  assumes c: "cache_ok {} P s" and room: "card P < NBUF" and dev: "idev (inodes s ip) = ROOTDEV" and k: "k < MAXFILE" "fslot s ip k \<noteq> 0"
  shows "\<exists>t. bmap ip k s = Ok (fslot s ip k, t) \<and> peeked P s t"
proof (cases "k < NDIRECT")
  case True
  then show ?thesis using peeked_refl [OF c] k(2) by (auto simp: bmap_def fslot_def Let_def)
next
  case False
  then have bn: "k - NDIRECT < NINDIRECT" using k(1) by (simp add: MAXFILE_def)
  have a: "iaddrs (inodes s ip) NDIRECT \<noteq> 0" "fslot s ip k = get_u32 (view s (iaddrs (inodes s ip) NDIRECT)) (4 * (k - NDIRECT))"
    using False k by (auto simp: fslot_def Let_def split: if_splits)
  obtain b u t where r: "bread ROOTDEV (iaddrs (inodes s ip) NDIRECT) s = Ok (b, u)" "bdata (bufs u b) = view s (iaddrs (inodes s ip) NDIRECT)"
    "brelse b u = Ok t" "peeked P s t"
    by (rule cache_peek [OF c room]) blast
  then show ?thesis using False bn a k(2) dev by (simp add: bmap_def Let_def)
qed

lemma take_bytes:
  assumes "fslot s ip (off div BSIZE) = a" "a \<noteq> 0" "length (view s a) = BSIZE" "off mod BSIZE + p \<le> BSIZE"
  shows "take p (drop (off mod BSIZE) (view s a)) = map (\<lambda>i. fbyte s ip (off + i)) [0..<p]"
proof (rule nth_equalityI)
  fix i assume "i < length (take p (drop (off mod BSIZE) (view s a)))"
  then have i: "i < p" by simp
  have "(off + i) mod BSIZE = off mod BSIZE + i" using assms(4) i by (simp add: mod_add_left_eq [of off, symmetric])
  then show "take p (drop (off mod BSIZE) (view s a)) ! i = map (\<lambda>i. fbyte s ip (off + i)) [0..<p] ! i"
    using i assms same_block [OF assms(4) i] by (simp add: fbyte_def)
qed (use assms in simp)

lemma readi_loop_ok:
  fixes s :: "'z kfs_scheme"
  assumes "cache_ok {} P s" "card P < NBUF" "fs_ok s ip" "tot \<le> n" "off + (n - tot) \<le> MAXFILE * BSIZE"
    "\<And>i. i < n - tot \<Longrightarrow> fslot s ip ((off + i) div BSIZE) \<noteq> 0"
  shows "\<exists>t. readi_loop ip ToLocal off tot n got s = Ok (int n, got @ map (\<lambda>i. fbyte s ip (off + i)) [0..<n - tot], t) \<and> peeked P s t"
  using assms
proof (induction "n - tot" arbitrary: s tot off got rule: less_induct)
  case less
  note c = less.prems(1) and ok = less.prems(3)
  show ?case
  proof (cases "tot < n")
    case False
    then show ?thesis using less.prems(4) peeked_refl [OF c] by (auto simp: readi_loop.simps [of ip ToLocal off n n])
  next
    case True
    define p where "p = piece (n - tot) off"
    have p: "0 < p" "p \<le> n - tot" "off mod BSIZE + p \<le> BSIZE"
      using True piece_fits(1) [of "n - tot" off] piece_fits(2) [of off "n - tot"] by (simp_all add: p_def)
    define a where "a = fslot s ip (off div BSIZE)"
    have a: "a \<noteq> 0" using less.prems(6) [of 0] True by (simp add: a_def)
    have "off < MAXFILE * BSIZE" using less.prems(5) True by linarith
    note k = in_file(2) [OF this]
    note fok = file_okD [OF fs_okD(3) [OF ok]]
    have len: "length (view s a) = BSIZE" using good_blockD(5) [OF fok(3) [OF less_imp_le [OF k]]] a by (simp add: a_def)
    obtain u where u: "bmap ip (off div BSIZE) s = Ok (a, u)" "peeked P s u"
      using bmap_present [OF c less.prems(2) fok(1) k] a by (auto simp: a_def)
    obtain b v w where w: "bread ROOTDEV a u = Ok (b, v)" "bdata (bufs v b) = view u a" "brelse b v = Ok w" "peeked P u w"
      by (rule cache_peek [OF peekedD(1) [OF u(2)] less.prems(2)]) blast
    note sw = peeked_trans [OF u(2) w(4)]
    note vw = peekedD(2) [OF sw]
    note e = extendedD [OF extended_same [OF ok log_step_bio [OF peekedD(3) [OF sw]] vw]]
      and f = log_step_fs [OF log_step_bio [OF peekedD(3) [OF sw]]] log_step_fs(2) [OF log_step_bio [OF peekedD(3) [OF u(2)]]]
    have sl: "fslot w ip = fslot s ip" by (intro ext) (simp add: fslot_def Let_def vw f)
    have fb: "fbyte w ip = fbyte s ip" by (intro ext) (simp add: fbyte_def Let_def vw sl)
    have one: "readi_loop ip ToLocal off tot n got s =
        readi_loop ip ToLocal (off + p) (tot + p) n (got @ map (\<lambda>i. fbyte s ip (off + i)) [0..<p]) w"
      unfolding readi_loop.simps [of ip ToLocal off tot n got s]
      using True u(1) peekedD(2) [OF u(2)] a w(1-3) fok(1) take_bytes [OF a_def [symmetric] a len p(3)] by (simp add: f p_def Let_def)
    have "\<exists>t. readi_loop ip ToLocal (off + p) (tot + p) n (got @ map (\<lambda>i. fbyte s ip (off + i)) [0..<p]) w =
        Ok (int n, (got @ map (\<lambda>i. fbyte s ip (off + i)) [0..<p]) @ map (\<lambda>i. fbyte w ip (off + p + i)) [0..<n - (tot + p)], t) \<and> peeked P w t"
      by (rule less.hyps [OF _ peekedD(1) [OF sw] less.prems(2) e(3)])
        (use p True less.prems(5) less.prems(6) [of "p + _"] in \<open>auto simp: sl add.assoc\<close>)
    moreover have "map (\<lambda>i. fbyte s ip (off + i)) [0..<n - tot] =
        map (\<lambda>i. fbyte s ip (off + i)) [0..<p] @ map (\<lambda>i. fbyte w ip (off + p + i)) [0..<n - (tot + p)]"
      using p(2) by (intro nth_equalityI) (auto simp: nth_append fb add.assoc)
    ultimately show ?thesis using one peeked_trans [OF sw] by auto
  qed
qed

lemma readi_ok:
  fixes s :: "'z kfs_scheme"
  assumes c: "cache_ok {} P s" and room: "card P < NBUF" and ok: "fs_ok s ip" and b: "backed s ip" and n: "off + n < 2 ^ 32"
  shows "\<exists>t. readi ip ToLocal off n s = Ok (int (length (take n (drop off (content s ip)))), take n (drop off (content s ip)), t) \<and> peeked P s t"
proof (cases "off > isize (inodes s ip)")
  case True
  then show ?thesis using peeked_refl [OF c] by (simp add: readi_def content_def)
next
  case False
  define m where "m = min n (isize (inodes s ip) - off)"
  have m: "(if (off + n) mod 2 ^ 32 > isize (inodes s ip) then isize (inodes s ip) - off else n) = m" using n False by (auto simp: m_def)
  have bytes: "take n (drop off (content s ip)) = map (\<lambda>i. fbyte s ip (off + i)) [0..<m]"
    by (intro nth_equalityI) (auto simp: content_def m_def)
  have "off + m \<le> isize (inodes s ip)" using False by (simp add: m_def)
  then obtain t where "readi_loop ip ToLocal off 0 m [] s = Ok (int m, map (\<lambda>i. fbyte s ip (off + i)) [0..<m], t)" "peeked P s t"
    using readi_loop_ok [OF c room ok, of 0 m off "[]"] b by (auto simp: backed_def)
  then show ?thesis using False n unfolding bytes readi_def Let_def m by simp
qed

lemma logging_peek: "logging {} P n s \<Longrightarrow> cache_ok {} P s \<and> card P < NBUF"
  using loggingD(1,4) logging_card by metis

lemma gives_user:
  assumes "myproc s = Some p" "user_present (mem s) (pagetable (procs s p)) a n"
  shows "gives s (FromUser a) (user_bytes (mem s) (pagetable (procs s p)) a n)"
  unfolding gives_def
proof (intro allI impI)
  fix i m t assume im: "i + m \<le> length (user_bytes (mem s) (pagetable (procs s p)) a n)" and t: "user_same s t"
  have n: "i + m \<le> n" using im by (simp add: user_bytes_def)
  have a: "unat (a + of_nat i) = unat a + i"
    using assms(2) n by (subst unat_add_lem [THEN iffD1]) (simp_all add: unat_of_nat user_present_def)
  have "copyin (pagetable (procs t p)) (a + of_nat i) m t =
      Ok (0, map (\<lambda>j. user_byte (mem t) (pagetable (procs t p)) (a + of_nat i + of_nat j)) [0..<m], t)"
    by (rule copyin_reads) (use assms(2) n a t in \<open>auto simp: user_present_def user_same_def add.assoc simp flip: of_nat_add\<close>)
  moreover have "take m (drop i (user_bytes (mem s) (pagetable (procs s p)) a n)) =
      map (\<lambda>j. user_byte (mem t) (pagetable (procs t p)) (a + of_nat i + of_nat j)) [0..<m]"
    using n t by (intro nth_equalityI) (auto simp: user_bytes_def user_same_def add.assoc)
  ultimately show "copy_from (source_add (FromUser a) i) m t = Ok (0, take m (drop i (user_bytes (mem s) (pagetable (procs s p)) a n)), t)"
    using assms(1) t by (simp add: either_copyin_def user_same_def)
qed


text \<open>An empty file of type \<open>ty\<close> in the file system of 64 blocks above.\<close>

definition fs1 :: "int \<Rightarrow> kfs" where
  "fs1 ty = upd_inode 0 (\<lambda>_. \<lparr>idev = ROOTDEV, inum = 1, iref = 1, ivalid = True, itype = ty, imajor = 0, iminor = 0, inlink = 1,
     isize = 0, iaddrs = (\<lambda>_. 0)\<rparr>) fs0"

lemma fs1_inode: "inodes (fs1 ty) 0 = \<lparr>idev = ROOTDEV, inum = 1, iref = 1, ivalid = True, itype = ty, imajor = 0, iminor = 0, inlink = 1,
    isize = 0, iaddrs = (\<lambda>_. 0)\<rparr>"
  by (simp add: fs1_def)

lemma fs1_sel: "sb (fs1 ty) = sb fs0" "log_start (fs1 ty) = 2" "in_use (fs1 ty) = in_use fs0" "alloc_ok (fs1 ty)" "view (fs1 ty) = view fs0" "logging {} {0} 1 (fs1 ty)"
  using fs0_alloc fs0_logging by (simp_all add: fs1_def)

lemma fs1_ok: "fs_ok (fs1 ty) 0"
proof -
  have b: "inode_block (fs1 ty) 0 = 34" by (simp add: inode_block_def fs1_inode fs1_sel IBLOCK_def IPB_def DINODE_SIZE_def)
  have sl: "fslot (fs1 ty) 0 k = 0" for k by (simp add: fslot_def fs1_inode)
  have "length (view fs0 34) = 1024" by (subst view_disk [OF loggingD(1) [OF fs0_logging]]) simp_all
  then have "good_block (fs1 ty) 34" using fs0_in_use [of 34] fs0_bitmap_blocks
    by (simp add: good_block_def data_block_def fs1_sel log_area_def LOGBLOCKS_def MAXOPBLOCKS_def)
  then show ?thesis using fs0_in_use [of 0] by (simp add: fs_ok_def file_ok_def b sl fs1_sel fs1_inode)
qed

lemma fs1_free: "nfree (fs1 ty) = 8"
proof -
  have "{b. b < sb_size (sb (fs1 ty)) \<and> \<not> in_use (fs1 ty) b} = {56..<64}" using fs0_in_use by (auto simp: fs1_sel)
  then show ?thesis by (simp add: nfree_def)
qed


end
