(* ===== verification/Fs_Dir.thy ===== *)
theory Fs_Dir
  imports Fs_Inode
begin

text \<open>Directories (\<open>dirlookup\<close> and \<open>dirlink\<close> of \<open>kernel/fs.c\<close>) as finite maps from names to inode numbers. A directory is a
  file of 16-byte entries, of which those with inode number 0 are free. The scan of both functions is shown to be a
  search in the content of the file, and a new link to change the map at its name only.\<close>

section \<open>Names\<close>

lemma strncmp_pad: "n \<le> length p + m \<Longrightarrow> strncmp_list n q (take n (p @ replicate m 0)) = strncmp_list n q p"
proof (induction n arbitrary: p q m)
  case (Suc n)
  show ?case
  proof (cases p)
    case Nil
    then show ?thesis using Suc by (cases m) (auto simp: Let_def)
  next
    case (Cons x ps)
    then show ?thesis using Suc.IH [of ps m "tl q"] Suc.prems by (simp add: Let_def)
  qed
qed simp

lemma strncmp_same: "strncmp_list n p p = 0"
  by (induction n arbitrary: p) (simp_all add: Let_def)

section \<open>Entries\<close>

definition dir_entry :: "uint8 list \<Rightarrow> nat \<Rightarrow> uint8 list" where
  "dir_entry c k = take DIRENT_SIZE (drop (DIRENT_SIZE * k) c)"

definition dir_find :: "(uint8 list \<Rightarrow> bool) \<Rightarrow> uint8 list \<Rightarrow> nat \<Rightarrow> nat option" where
  "dir_find Q c k = search (\<lambda>k. Q (dir_entry c k)) k (length c div DIRENT_SIZE)"

definition named :: "uint8 list \<Rightarrow> uint8 list \<Rightarrow> bool" where
  "named name de \<longleftrightarrow> de_inum de \<noteq> 0 \<and> namecmp name (de_name de) = 0"

text \<open>The map that a directory stands for.\<close>

definition dir_map :: "uint8 list \<Rightarrow> uint8 list \<Rightarrow> nat option" where
  "dir_map c name = map_option (\<lambda>k. de_inum (dir_entry c k)) (dir_find (named name) c 0)"

lemma dirent_fields:
  assumes "i < 2 ^ 16"
  shows "length (dirent i name) = DIRENT_SIZE" "de_inum (dirent i name) = i" "namecmp q (de_name (dirent i name)) = namecmp q name"
proof -
  let ?z = "replicate 2 0 @ take DIRSIZ (name @ replicate DIRSIZ 0)"
  have l: "length ?z = DIRENT_SIZE" by (simp add: DIRSIZ_def DIRENT_SIZE_def)
  then show "length (dirent i name) = DIRENT_SIZE" by (simp add: dirent_def)
  show "de_inum (dirent i name) = i" using get_put_u16 [of 0 ?z i] l assms by (simp add: de_inum_def dirent_def DIRENT_SIZE_def)
  have "drop 2 (put_u16 0 i ?z) = drop 2 ?z" by (simp add: put_u16_def)
  then have "de_name (dirent i name) = take DIRSIZ (name @ replicate DIRSIZ 0)" using assms by (simp add: de_name_def dirent_def)
  then show "namecmp q (de_name (dirent i name)) = namecmp q name" using strncmp_pad [of DIRSIZ name DIRSIZ q] by (simp add: namecmp_def)
qed

lemma dir_entry_written:
  assumes "DIRENT_SIZE dvd length c" "k \<le> length c div DIRENT_SIZE" "length de = DIRENT_SIZE"
  defines "c' \<equiv> take (DIRENT_SIZE * k) c @ de @ drop (DIRENT_SIZE * k + DIRENT_SIZE) c"
  shows "length c' = max (length c) (DIRENT_SIZE * Suc k)" "dir_entry c' j = (if j = k then de else dir_entry c j)"
proof -
  obtain n where n: "length c = DIRENT_SIZE * n" using assms(1) by blast
  have k: "k \<le> n" using assms(2) n by (simp add: DIRENT_SIZE_def)
  show "length c' = max (length c) (DIRENT_SIZE * Suc k)" using k assms(3) by (simp add: c'_def n DIRENT_SIZE_def)
  consider "j < k" | "j = k" | "k < j" by linarith
  then show "dir_entry c' j = (if j = k then de else dir_entry c j)"
  proof cases
    case 1
    then show ?thesis using k n by (auto simp: dir_entry_def c'_def drop_take DIRENT_SIZE_def)
  next
    case 2
    then show ?thesis using k n assms(3) by (simp add: dir_entry_def c'_def)
  next
    case 3
    then have "DIRENT_SIZE * j = DIRENT_SIZE * k + DIRENT_SIZE + DIRENT_SIZE * (j - Suc k)" by (simp add: DIRENT_SIZE_def)
    then show ?thesis using 3 k n assms(3) by (simp add: dir_entry_def c'_def add.commute)
  qed
qed

section \<open>The scan\<close>

text \<open>A directory that can be read: its size is a multiple of the size of an entry.\<close>

definition dir_ok :: "'z kfs_scheme \<Rightarrow> nat \<Rightarrow> bool" where
  "dir_ok s dp \<longleftrightarrow> fs_ok s dp \<and> backed s dp \<and> itype (inodes s dp) = T_DIR \<and> DIRENT_SIZE dvd isize (inodes s dp)"

lemma peeked_file:
  fixes s t :: "'z kfs_scheme"
  assumes "peeked P s t"
  shows "sb t = sb s" "inodes t = inodes s" "fslot t = fslot s" "content t = content s" "dir_ok t = dir_ok s" "in_use t = in_use s"
    "nfree t = nfree s"
proof -
  note st = log_step_bio [OF peekedD(3) [OF assms]] and v = peekedD(2) [OF assms]
  show f: "sb t = sb s" "inodes t = inodes s" by (rule log_step_fs [OF st])+
  show sl: "fslot t = fslot s" by (intro ext) (simp add: fslot_def Let_def f v)
  show "content t = content s" by (intro ext) (simp add: content_def fbyte_def [abs_def] Let_def f v sl)
  show u: "in_use t = in_use s" by (rule used_keep(1) [OF v st])
  then show "nfree t = nfree s" by (rule nfree_same [OF _ f(1)])
  have "good_block t = good_block s" by (intro ext) (simp add: good_block_def data_block_def u f v log_step_sel(1) [OF st])
  then show "dir_ok t = dir_ok s"
    by (intro ext) (simp add: dir_ok_def fs_ok_def file_ok_def backed_def inode_block_def sl u f used_keep(2) [OF v st])
qed

lemma dir_scan_ok:
  fixes s :: "'z kfs_scheme"
  assumes "cache_ok {} P s" "card P < NBUF" "dir_ok s dp" "off = DIRENT_SIZE * k" "n = isize (inodes s dp)" "off \<le> n"
  shows "\<exists>t. dir_scan Q msg dp off n s = Ok (case dir_find Q (content s dp) k of
      None \<Rightarrow> (None, n, t) | Some j \<Rightarrow> (Some (DIRENT_SIZE * j, dir_entry (content s dp) j), DIRENT_SIZE * j, t)) \<and> peeked P s t"
  using assms
proof (induction "n - off" arbitrary: s off k rule: less_induct)
  case less
  note d = less.prems(3) [unfolded dir_ok_def]
  let ?c = "content s dp"
  have n: "n = length ?c" "n \<le> MAXFILE * BSIZE" using less.prems(5) d by (simp_all add: content_def backed_def)
  obtain q where q: "n = DIRENT_SIZE * q" using d less.prems(5) by blast
  show ?case
  proof (cases "off < n")
    case False
    then have "k = q" using less.prems(4,6) q by (simp add: DIRENT_SIZE_def)
    then have "dir_find Q ?c k = None" using n(1) q by (simp add: dir_find_def DIRENT_SIZE_def)
    then show ?thesis using False less.prems(6) peeked_refl [OF less.prems(1)] by (auto simp: dir_scan.simps [of Q msg dp n n])
  next
    case True
    then have kq: "k < q" using less.prems(4) q by (simp add: DIRENT_SIZE_def)
    have next_off: "off + DIRENT_SIZE \<le> n" using kq less.prems(4) q by (simp add: DIRENT_SIZE_def)
    have "off + DIRENT_SIZE < 2 ^ 32" using True n(2) by (simp add: DIRENT_SIZE_def MAXFILE_def NINDIRECT_def NDIRECT_def)
    moreover have "length (dir_entry ?c k) = DIRENT_SIZE" using n(1) q kq by (simp add: dir_entry_def DIRENT_SIZE_def)
    moreover have "take DIRENT_SIZE (drop off ?c) = dir_entry ?c k" by (simp add: dir_entry_def less.prems(4))
    ultimately obtain u where u: "readi dp ToLocal off DIRENT_SIZE s = Ok (int DIRENT_SIZE, dir_entry ?c k, u)" "peeked P s u"
      using readi_ok [OF less.prems(1,2), of dp off DIRENT_SIZE] d by auto
    note pu = peeked_file [OF u(2)]
    have len: "length ?c div DIRENT_SIZE = q" using n(1) q by (simp add: DIRENT_SIZE_def)
    show ?thesis
    proof (cases "Q (dir_entry ?c k)")
      case hit: True
      then have "dir_find Q ?c k = Some k" using kq by (simp add: dir_find_def len)
      then show ?thesis unfolding dir_scan.simps [of Q msg dp off n s] using True hit u less.prems(4) by simp
    next
      case miss: False
      then have fd: "dir_find Q ?c k = dir_find Q ?c (Suc k)" using kq by (simp add: dir_find_def len search_miss)
      have "\<exists>t. dir_scan Q msg dp (off + DIRENT_SIZE) n u = Ok (case dir_find Q (content u dp) (Suc k) of
          None \<Rightarrow> (None, n, t) | Some j \<Rightarrow> (Some (DIRENT_SIZE * j, dir_entry (content u dp) j), DIRENT_SIZE * j, t)) \<and> peeked P u t"
        by (rule less.hyps [OF _ peekedD(1) [OF u(2)] less.prems(2)])
          (use True less.prems(3-5) next_off in \<open>auto simp: pu DIRENT_SIZE_def\<close>)
      then show ?thesis using True miss u(1) peeked_trans [OF u(2)] unfolding fd pu dir_scan.simps [of Q msg dp off n s] by auto
    qed
  qed
qed

lemma dirlookup_ok:
  fixes s :: "'z kfs_scheme"
  assumes "cache_ok {} P s" "card P < NBUF" "dir_ok s dp"
  shows "\<exists>t. dirlookup dp name s = (case dir_find (named name) (content s dp) 0 of None \<Rightarrow> Ok (None, t)
      | Some k \<Rightarrow> bindr (iget ROOTDEV (de_inum (dir_entry (content s dp) k)) t) (\<lambda>(ip, s). Ok (Some (ip, DIRENT_SIZE * k), s))) \<and> peeked P s t"
proof -
  have nm: "(\<lambda>de. de_inum de \<noteq> 0 \<and> namecmp name (de_name de) = 0) = named name" by (simp add: named_def fun_eq_iff)
  obtain t where t: "dir_scan (named name) ''dirlookup read'' dp 0 (isize (inodes s dp)) s = Ok (case dir_find (named name) (content s dp) 0 of
      None \<Rightarrow> (None, isize (inodes s dp), t) | Some j \<Rightarrow> (Some (DIRENT_SIZE * j, dir_entry (content s dp) j), DIRENT_SIZE * j, t))" "peeked P s t"
    using dir_scan_ok [OF assms, of 0 0 "isize (inodes s dp)"] by auto
  have "itype (inodes s dp) = T_DIR" "idev (inodes t dp) = ROOTDEV"
    using assms(3) file_okD(1) [OF fs_okD(3), of s dp] peeked_file(2) [OF t(2)] by (simp_all add: dir_ok_def)
  then show ?thesis unfolding dirlookup_def nm using t by (auto split: option.splits)
qed

section \<open>A new link\<close>

lemma dir_map_link:
  fixes name :: "uint8 list"
  assumes c: "DIRENT_SIZE dvd length c" "k \<le> length c div DIRENT_SIZE" "k < length c div DIRENT_SIZE \<longrightarrow> de_inum (dir_entry c k) = 0"
    and i: "0 < i" "i < 2 ^ 16"
  defines "c' \<equiv> take (DIRENT_SIZE * k) c @ dirent i name @ drop (DIRENT_SIZE * k + DIRENT_SIZE) c"
  shows "namecmp nm name \<noteq> 0 \<Longrightarrow> dir_map c' nm = dir_map c nm"
    "dir_map c name = None \<Longrightarrow> dir_map c' name = Some i \<and> dir_find (named name) c' 0 = Some k"
proof -
  note w = dir_entry_written [OF c(1,2) dirent_fields(1) [OF i(2)], of name, folded c'_def] and f = dirent_fields [OF i(2)]
  define q where "q = length c div DIRENT_SIZE"
  have q: "length c' div DIRENT_SIZE = (if k < q then q else Suc k)" "k \<le> q" using w(1) c(1,2) by (auto simp: q_def DIRENT_SIZE_def max_def)
  have old: "j < q \<and> named nm (dir_entry c j) \<longrightarrow> j \<noteq> k" for j nm using c(3) by (auto simp: named_def q_def)
  show "dir_map c' nm = dir_map c nm" if nm: "namecmp nm name \<noteq> 0"
  proof -
    have new: "\<not> named nm (dir_entry c' k)" using nm f(3) by (simp add: named_def w(2))
    have "dir_find (named nm) c' 0 = dir_find (named nm) c 0"
    proof (cases "dir_find (named nm) c 0")
      case None
      then have "\<not> named nm (dir_entry c j)" if "j < q" for j using that by (simp add: dir_find_def search_None_iff q_def)
      then have "dir_find (named nm) c' 0 = None" using new q unfolding dir_find_def search_None_iff by (auto simp: w(2) less_Suc_eq split: if_splits)
      then show ?thesis using None by simp
    next
      case (Some j)
      then have j: "j < q" "named nm (dir_entry c j)" "\<And>l. l < j \<Longrightarrow> \<not> named nm (dir_entry c l)"
        by (auto simp: dir_find_def search_Some_iff q_def)
      then have "search (\<lambda>k. named nm (dir_entry c' k)) 0 (length c' div DIRENT_SIZE) = Some j"
        using new old [of j nm] q unfolding search_Some_iff by (auto simp: w(2))
      then show ?thesis using Some by (simp add: dir_find_def)
    qed
    moreover have "dir_entry c' j = dir_entry c j" if "dir_find (named nm) c 0 = Some j" for j
      using that old [of j nm] w(2) by (auto simp: dir_find_def search_Some_iff q_def)
    ultimately show ?thesis by (auto simp: dir_map_def intro: option.map_cong)
  qed
  assume none: "dir_map c name = None"
  then have "\<not> named name (dir_entry c j)" if "j < k" for j
    using that q(2) by (simp add: dir_map_def dir_find_def search_None_iff q_def)
  moreover have "named name (dir_entry c' k)" using f(2,3) i(1) strncmp_same by (simp add: named_def w(2) namecmp_def)
  ultimately have fd: "dir_find (named name) c' 0 = Some k"
    using q unfolding dir_find_def search_Some_iff by (auto simp: w(2))
  then show "dir_map c' name = Some i \<and> dir_find (named name) c' 0 = Some k" using f(2) by (simp add: dir_map_def w(2))
qed

lemma entry_one_block: "nblocks_of (DIRENT_SIZE * k) DIRENT_SIZE = 1"
proof -
  have "(16 * k + 15) div 1024 = ((16 * k + 15) div 16) div 64" "(16 * k) div 1024 = ((16 * k) div 16) div 64"
    by (simp_all add: div_mult2_eq [symmetric])
  moreover have "(16 * k + 15) div 16 = k" by simp
  ultimately show ?thesis by (simp add: nblocks_of_def DIRENT_SIZE_def)
qed

lemma logging_peeked: "logging {} P n s \<Longrightarrow> peeked P s t \<Longrightarrow> logging {} P n t"
  by (rule logging_keep) (auto simp: peeked_def)

text \<open>The second scan of \<open>dirlink\<close> stops at a free entry or at the end.\<close>

lemma free_entry:
  fixes s :: "'z kfs_scheme"
  assumes "cache_ok {} P s" "card P < NBUF" "dir_ok s dp"
  shows "\<exists>x k t. dir_scan (\<lambda>de. de_inum de = 0) msg dp 0 (isize (inodes s dp)) s = Ok (x, DIRENT_SIZE * k, t) \<and> peeked P s t \<and>
    k \<le> length (content s dp) div DIRENT_SIZE \<and>
    (k < length (content s dp) div DIRENT_SIZE \<longrightarrow> de_inum (dir_entry (content s dp) k) = 0)"
proof -
  let ?c = "content s dp" and ?n = "isize (inodes s dp)" and ?free = "\<lambda>de. de_inum de = 0"
  obtain t where t: "dir_scan ?free msg dp 0 ?n s = Ok (case dir_find ?free ?c 0 of
      None \<Rightarrow> (None, ?n, t) | Some j \<Rightarrow> (Some (DIRENT_SIZE * j, dir_entry ?c j), DIRENT_SIZE * j, t))" "peeked P s t"
    using dir_scan_ok [OF assms, of 0 0 ?n ?free msg] by auto
  show ?thesis
  proof (cases "dir_find ?free ?c 0")
    case None
    have "DIRENT_SIZE * (length ?c div DIRENT_SIZE) = ?n" using assms(3) by (simp add: dir_ok_def content_def)
    then show ?thesis using t None by (intro exI [of _ None] exI [of _ "length ?c div DIRENT_SIZE"] exI [of _ t]) simp
  next
    case (Some j)
    then have "j < length ?c div DIRENT_SIZE" "de_inum (dir_entry ?c j) = 0" by (simp_all add: dir_find_def search_Some_iff)
    then show ?thesis using t Some by (intro exI [of _ "Some (DIRENT_SIZE * j, dir_entry ?c j)"] exI [of _ j] exI [of _ t]) simp
  qed
qed

lemma others_kept_peeked:
  fixes s t u :: "'z kfs_scheme"
  assumes "peeked P s t" "others_kept ip t u"
  shows "others_kept ip s u"
  using assms(2) unfolding others_kept_def inode_block_def peeked_file(1-3,6) [OF assms(1)] peekedD(2) [OF assms(1)] .

text \<open>C11: A directory is a finite map from names to inode numbers. When a name is not in it, \<open>dirlink\<close> in a transaction with room
  and with free blocks returns 0, adds the name with its number and changes no other name of the directory and no
  block of another file. Afterwards \<open>dirlookup\<close> of the name returns the inode of this number, and of a name that is not in
  the directory it returns 0.\<close>

theorem dirlink_updates_map:
  fixes s :: "'z kfs_scheme"
  assumes "logging {} P m s" "dir_ok s dp" "shorts_ok (inodes s dp)" "isize (inodes s dp) + DIRENT_SIZE \<le> MAXFILE * BSIZE"
    "m + 7 < NBUF" "6 < nfree s" "0 < i" "i < 2 ^ 16" "dir_map (content s dp) name = None"
  shows "\<exists>t. dirlink dp name i s = Ok (0, t) \<and> dir_map (content t dp) name = Some i \<and>
    (\<forall>nm. namecmp nm name \<noteq> 0 \<longrightarrow> dir_map (content t dp) nm = dir_map (content s dp) nm) \<and> others_kept dp s t \<and>
    (\<exists>off u. dirlookup dp name t = bindr (iget ROOTDEV i u) (\<lambda>(ip, s). Ok (Some (ip, off), s))) \<and>
    (\<forall>nm. dir_map (content t dp) nm = None \<longrightarrow> (\<exists>u. dirlookup dp nm t = Ok (None, u)))"
proof -
  let ?c = "content s dp" and ?n = "isize (inodes s dp)"
  have d: "fs_ok s dp" "backed s dp" "DIRENT_SIZE dvd length ?c" using assms(2) by (simp_all add: dir_ok_def content_def)
  note l = logging_peek [OF assms(1)]
  have none: "dir_find (named name) ?c 0 = None" using assms(9) by (simp add: dir_map_def)
  obtain s1 where s1: "dirlookup dp name s = Ok (None, s1)" "peeked P s s1"
    using dirlookup_ok [of P s dp name] l assms(2) none by auto
  note p1 = peeked_file [OF s1(2)]
  obtain x k s2 where s2: "dir_scan (\<lambda>de. de_inum de = 0) ''dirlink read'' dp 0 ?n s1 = Ok (x, DIRENT_SIZE * k, s2)" "peeked P s1 s2"
    and k: "k \<le> length ?c div DIRENT_SIZE" "k < length ?c div DIRENT_SIZE \<longrightarrow> de_inum (dir_entry ?c k) = 0"
    using free_entry [OF peekedD(1) [OF s1(2)] conjunct2 [OF l], of dp, unfolded p1] assms(2) by blast
  have off: "DIRENT_SIZE * k \<le> ?n" using k(1) d(3) by (auto simp: content_def DIRENT_SIZE_def)
  note ps = peeked_trans [OF s1(2) s2(2)]
  note p2 = peeked_file [OF ps] and l2 = logging_peeked [OF assms(1) ps]
  have ok2: "fs_ok s2 dp" "backed s2 dp" using assms(2) p2(5) by (auto simp: dir_ok_def fun_eq_iff)
  note w = writei_ok [OF l2 ok2 _ _ _ _ gives_local, of "DIRENT_SIZE * k" "dirent i name"]
  obtain t P' m' where t: "writei dp (FromLocal (dirent i name)) (DIRENT_SIZE * k) DIRENT_SIZE s2 = Ok (int DIRENT_SIZE, t)" "logging {} P' m' t"
    "fs_ok t dp" "backed t dp" "ino_frame dp s2 t" "others_kept dp s2 t"
    "content t dp = take (DIRENT_SIZE * k) ?c @ dirent i name @ drop (DIRENT_SIZE * k + DIRENT_SIZE) ?c"
    using w assms(3-6) off by (auto simp: p2 dirent_fields(1) [OF assms(8)] entry_one_block)
  note link = dir_map_link [OF d(3) k assms(7,8), where name = name, folded t(7)]
  have "isize (inodes t dp) = max (length ?c) (DIRENT_SIZE * Suc k)"
    using dir_entry_written(1) [OF d(3) k(1) dirent_fields(1) [OF assms(8)], of name] t(7) by (metis content_def length_map length_upt diff_zero)
  moreover have "itype (inodes t dp) = T_DIR"
    using t(5) assms(2) p2(2) by (cases "inodes s2 dp"; cases "inodes t dp") (simp add: ino_frame_def dir_ok_def)
  ultimately have "dir_ok t dp" using t(3,4) d(3) unfolding dir_ok_def by (simp add: max_def del: mult_Suc_right)
  then have look: "\<exists>u. dirlookup dp nm t = (case dir_find (named nm) (content t dp) 0 of None \<Rightarrow> Ok (None, u)
      | Some k \<Rightarrow> bindr (iget ROOTDEV (de_inum (dir_entry (content t dp) k)) u) (\<lambda>(ip, s). Ok (Some (ip, DIRENT_SIZE * k), s)))" for nm
    using dirlookup_ok [of P' t dp nm] logging_peek [OF t(2)] by blast
  have "dirlink dp name i s = Ok (0, t)" using s1(1) s2(1) t(1) by (simp add: dirlink_def p1)
  moreover obtain u where "dirlookup dp name t = bindr (iget ROOTDEV i u) (\<lambda>(ip, s). Ok (Some (ip, DIRENT_SIZE * k), s))"
    using look [of name] link(2) [OF assms(9)] by (auto simp: dir_map_def)
  moreover have "\<exists>u. dirlookup dp nm t = Ok (None, u)" if "dir_map (content t dp) nm = None" for nm
    using look [of nm] that by (simp add: dir_map_def)
  moreover have "dir_map (content t dp) name = Some i" using link(2) [OF assms(9)] ..
  moreover have "\<forall>nm. namecmp nm name \<noteq> 0 \<longrightarrow> dir_map (content t dp) nm = dir_map ?c nm" using link(1) by blast
  ultimately show ?thesis using others_kept_peeked [OF ps t(6)] by blast
qed

theorem dirlink_updates_map_witness:
  "\<exists>t u. dirlink 0 [104, 105] 7 (fs1 T_DIR) = Ok (0, t) \<and> dir_map (content t 0) [104, 105] = Some 7 \<and> dirlookup 0 [106] t = Ok (None, u)"
proof -
  have c: "content (fs1 T_DIR) 0 = []" by (simp add: content_def fs1_inode)
  have m: "dir_map [] nm = None" for nm by (simp add: dir_map_def dir_find_def)
  have "dir_ok (fs1 T_DIR) 0" using fs1_ok by (simp add: dir_ok_def backed_def fs1_inode)
  moreover have "shorts_ok (inodes (fs1 T_DIR) 0)" by (simp add: fs1_inode shorts_ok_def short_def T_DIR_def)
  ultimately have t: "\<exists>t. dirlink 0 [104, 105] 7 (fs1 T_DIR) = Ok (0, t) \<and> dir_map (content t 0) [104, 105] = Some 7 \<and>
      (\<forall>nm. namecmp nm [104, 105] \<noteq> 0 \<longrightarrow> dir_map (content t 0) nm = None) \<and>
      (\<forall>nm. dir_map (content t 0) nm = None \<longrightarrow> (\<exists>u. dirlookup 0 nm t = Ok (None, u)))"
    using dirlink_updates_map [of "{0}" 1 "fs1 T_DIR" 0 7 "[104, 105]", OF fs1_sel(6)]
    by (auto simp: c m fs1_inode fs1_free NBUF_def MAXOPBLOCKS_def MAXFILE_def NINDIRECT_def NDIRECT_def DIRENT_SIZE_def)
  have len: "DIRSIZ = Suc 13" by (simp add: DIRSIZ_def)
  have "namecmp [106] [104, 105] \<noteq> 0" unfolding namecmp_def len strncmp_list.simps by simp
  then show ?thesis using t by blast
qed

end
