(* ===== verification/Cstring.thy ===== *)
theory Cstring
  imports Xv6_Prelude
begin

text \<open>
  kernel/string.c on byte-addressed memory, loop by loop. The bulk operations \<open>st_bytes\<close> and
  \<open>ld_bytes\<close> with which the other theories write \<open>memset\<close> and \<open>memmove\<close> of pages and blocks are shown
  to be what the loops compute.
\<close>

section \<open>Model\<close>

definition memset :: "bytemem \<Rightarrow> uint64 \<Rightarrow> uint8 \<Rightarrow> nat \<Rightarrow> bytemem" where
  "memset m dst c n = fold (\<lambda>i m. m(dst + of_nat i := c)) [0..<n] m"

fun memcmp :: "bytemem \<Rightarrow> uint64 \<Rightarrow> uint64 \<Rightarrow> nat \<Rightarrow> int" where
  "memcmp m s1 s2 0 = 0"
| "memcmp m s1 s2 (Suc n) =
     (if m s1 \<noteq> m s2 then uint (m s1) - uint (m s2) else memcmp m (s1 + 1) (s2 + 1) n)"

text \<open>The two loops of \<open>memmove\<close>.\<close>

fun move_back :: "bytemem \<Rightarrow> uint64 \<Rightarrow> uint64 \<Rightarrow> nat \<Rightarrow> bytemem" where
  "move_back m d s 0 = m"
| "move_back m d s (Suc n) = move_back (m(d - 1 := m (s - 1))) (d - 1) (s - 1) n"

fun move_forward :: "bytemem \<Rightarrow> uint64 \<Rightarrow> uint64 \<Rightarrow> nat \<Rightarrow> bytemem" where
  "move_forward m d s 0 = m"
| "move_forward m d s (Suc n) = move_forward (m(d := m s)) (d + 1) (s + 1) n"

definition memmove :: "bytemem \<Rightarrow> uint64 \<Rightarrow> uint64 \<Rightarrow> nat \<Rightarrow> bytemem" where
  "memmove m dst src n =
     (if n = 0 then m
      else if src < dst \<and> src + of_nat n > dst then move_back m (dst + of_nat n) (src + of_nat n) n
      else move_forward m dst src n)"

definition memcpy :: "bytemem \<Rightarrow> uint64 \<Rightarrow> uint64 \<Rightarrow> nat \<Rightarrow> bytemem" where
  "memcpy m dst src n = memmove m dst src n"

fun strncmp :: "bytemem \<Rightarrow> uint64 \<Rightarrow> uint64 \<Rightarrow> nat \<Rightarrow> int" where
  "strncmp m p q 0 = 0"
| "strncmp m p q (Suc n) =
     (if m p \<noteq> 0 \<and> m p = m q then strncmp m (p + 1) (q + 1) n else uint (m p) - uint (m q))"

text \<open>A count of \<open>strncpy\<close> and \<open>safestrcpy\<close> that is not positive is 0 here.\<close>

fun strncpy :: "bytemem \<Rightarrow> uint64 \<Rightarrow> uint64 \<Rightarrow> nat \<Rightarrow> bytemem" where
  "strncpy m s t 0 = m"
| "strncpy m s t (Suc n) =
     (let m' = m(s := m t)
      in if m t \<noteq> 0 then strncpy m' (s + 1) (t + 1) n else memset m' (s + 1) 0 n)"

fun safestrcpy :: "bytemem \<Rightarrow> uint64 \<Rightarrow> uint64 \<Rightarrow> nat \<Rightarrow> bytemem" where
  "safestrcpy m s t 0 = m"
| "safestrcpy m s t (Suc 0) = m(s := 0)"
| "safestrcpy m s t (Suc (Suc n)) =
     (let m' = m(s := m t)
      in if m t \<noteq> 0 then safestrcpy m' (s + 1) (t + 1) (Suc n) else m'(s + 1 := 0))"

text \<open>The scan of \<open>strlen\<close> has no bound.\<close>

partial_function (option) strlen_from :: "bytemem \<Rightarrow> uint64 \<Rightarrow> nat \<Rightarrow> nat option" where
  "strlen_from m s n = (if m (s + of_nat n) \<noteq> 0 then strlen_from m s (Suc n) else Some n)"

definition strlen :: "bytemem \<Rightarrow> uint64 \<Rightarrow> nat option" where
  "strlen m s = strlen_from m s 0"

section \<open>Copies\<close>

lemma memset_eq: "n \<le> 2 ^ 64 \<Longrightarrow> memset m dst c n = st_bytes m dst (replicate n c)"
proof (induction n)
  case 0
  then show ?case by (simp add: memset_def st_bytes_def)
next
  case (Suc n)
  have eq: "x = dst + of_nat n \<longleftrightarrow> unat (x - dst) = n" for x :: uint64
  proof -
    have "x = dst + of_nat n \<longleftrightarrow> x - dst = of_nat n" by (metis add.commute diff_eq_eq)
    also have "\<dots> \<longleftrightarrow> unat (x - dst) = unat (of_nat n :: uint64)" by (rule word_unat_eq_iff)
    finally show ?thesis using Suc.prems by (simp add: unat_of_nat)
  qed
  have "memset m dst c (Suc n) = (memset m dst c n)(dst + of_nat n := c)" by (simp add: memset_def)
  also have "\<dots> = st_bytes m dst (replicate (Suc n) c)"
    using Suc by (auto simp: fun_eq_iff st_bytes_def eq less_Suc_eq nth_Cons' simp del: replicate.simps)
  finally show ?case .
qed

text \<open>A run of \<open>n\<close> bytes that does not wrap around.\<close>

definition run_ok :: "uint64 \<Rightarrow> nat \<Rightarrow> bool" where
  "run_ok a n \<longleftrightarrow> unat a + n < 2 ^ 64"

lemma unat_plus: "run_ok a n \<Longrightarrow> i \<le> n \<Longrightarrow> unat (a + of_nat i) = unat a + i"
  by (subst unat_add_lem [THEN iffD1]) (simp_all add: run_ok_def unat_of_nat)

lemma in_run_bytes:
  assumes "run_ok a n"
  shows "unat (x - a) < n \<longleftrightarrow> unat a \<le> unat x \<and> unat x < unat a + n"
  using assms unsigned_less [of x, where ?'a = nat] by (auto simp: unat_sub_if' run_ok_def)

lemma copied_at:
  "run_ok d n \<Longrightarrow> st_bytes m d (ld_bytes m s n) x =
     (if unat d \<le> unat x \<and> unat x < unat d + n then m (s + of_nat (unat x - unat d)) else m x)"
  using in_run_bytes [of d n x] by (auto simp: st_bytes_def unat_sub word_le_nat_alt)

lemma move_forward_eq:
  assumes "run_ok d n" "run_ok s n" "unat d \<le> unat s \<or> unat s + n \<le> unat d"
  shows "move_forward m d s n = st_bytes m d (ld_bytes m s n)"
  using assms
proof (induction n arbitrary: m d s)
  case 0
  then show ?case by (simp add: st_bytes_def)
next
  case (Suc n)
  have u: "unat (d + 1) = unat d + 1" "unat (s + 1) = unat s + 1"
    using unat_plus [OF Suc.prems(1), of 1] unat_plus [OF Suc.prems(2), of 1] by simp_all
  have r: "run_ok (d + 1) n" "run_ok (s + 1) n" using Suc.prems by (simp_all add: run_ok_def u)
  let ?m = "m(d := m s)"
  have IH: "move_forward ?m (d + 1) (s + 1) n = st_bytes ?m (d + 1) (ld_bytes ?m (s + 1) n)"
    by (rule Suc.IH [OF r]) (use Suc.prems(3) u in auto)
  show ?case
  proof
    fix x
    have d: "x = d \<longleftrightarrow> unat x = unat d" by (rule word_unat_eq_iff)
    have "?m (s + 1 + of_nat (unat x - unat (d + 1))) = m (s + of_nat (unat x - unat d))"
      if "unat d < unat x" "unat x < unat d + Suc n"
    proof -
      have k: "s + 1 + of_nat (unat x - unat (d + 1)) = s + of_nat (unat x - unat d)"
      proof -
        have "unat x - unat d = Suc (unat x - unat (d + 1))" using that u by simp
        then show ?thesis by (simp only: of_nat_Suc add.assoc)
      qed
      have "unat (s + of_nat (unat x - unat d)) = unat s + (unat x - unat d)"
        by (rule unat_plus [OF Suc.prems(2)]) (use that in simp)
      then have "s + of_nat (unat x - unat d) \<noteq> d"
        using Suc.prems(3) that by (auto simp: word_unat_eq_iff)
      then show ?thesis unfolding k by simp
    qed
    then show "move_forward m d s (Suc n) x = st_bytes m d (ld_bytes m s (Suc n)) x"
      unfolding copied_at [OF Suc.prems(1)] move_forward.simps IH copied_at [OF r(1)]
      using d u by (cases "unat x = unat d") (auto simp: not_le)
  qed
qed

lemma move_back_eq:
  assumes "run_ok d n" "run_ok s n" "unat s \<le> unat d"
  shows "move_back m (d + of_nat n) (s + of_nat n) n = st_bytes m d (ld_bytes m s n)"
  using assms
proof (induction n arbitrary: m)
  case 0
  then show ?case by (simp add: st_bytes_def)
next
  case (Suc n)
  have r: "run_ok d n" "run_ok s n" using Suc.prems by (simp_all add: run_ok_def)
  have u: "unat (d + of_nat n) = unat d + n" "unat (s + of_nat n) = unat s + n"
    using unat_plus [OF Suc.prems(1), of n] unat_plus [OF Suc.prems(2), of n] by simp_all
  let ?m = "m(d + of_nat n := m (s + of_nat n))"
  have st: "move_back m (d + of_nat (Suc n)) (s + of_nat (Suc n)) (Suc n) = move_back ?m (d + of_nat n) (s + of_nat n) n"
    by simp
  show ?case
  proof
    fix x
    have d: "x = d + of_nat n \<longleftrightarrow> unat x = unat d + n" using u(1) word_unat_eq_iff [of x "d + of_nat n"] by simp
    have "?m (s + of_nat (unat x - unat d)) = m (s + of_nat (unat x - unat d))" if "unat d \<le> unat x" "unat x < unat d + n"
    proof -
      have "unat (s + of_nat (unat x - unat d)) = unat s + (unat x - unat d)"
        by (rule unat_plus [OF Suc.prems(2)]) (use that in simp)
      then have "s + of_nat (unat x - unat d) \<noteq> d + of_nat n"
        using Suc.prems(3) that u by (auto simp: word_unat_eq_iff)
      then show ?thesis by simp
    qed
    then show "move_back m (d + of_nat (Suc n)) (s + of_nat (Suc n)) (Suc n) x = st_bytes m d (ld_bytes m s (Suc n)) x"
      unfolding st Suc.IH [OF r Suc.prems(3)] copied_at [OF r(1)] copied_at [OF Suc.prems(1)]
      using d by auto
  qed
qed

text \<open>C19: \<open>memmove\<close> copies as if through a temporary buffer: for any two ranges that do not wrap around, overlapping
  or not, the destination ends up with the bytes the source had, and nothing else changes. This is the bulk
  copy the kernel model uses for page contents.\<close>

theorem memmove_bulk_copy:
  assumes "run_ok dst n" "run_ok src n"
  shows "memmove m dst src n = st_bytes m dst (ld_bytes m src n)"
proof -
  have u: "unat (src + of_nat n) = unat src + n" using unat_plus [OF assms(2), of n] by simp
  show ?thesis
  proof (cases "src < dst \<and> src + of_nat n > dst")
    case True
    then show ?thesis
      using move_back_eq [OF assms] by (cases n) (auto simp: memmove_def word_less_nat_alt st_bytes_def)
  next
    case False
    then have "unat dst \<le> unat src \<or> unat src + n \<le> unat dst" using u by (auto simp: word_less_nat_alt)
    then show ?thesis
      using move_forward_eq [OF assms] False by (cases n) (auto simp: memmove_def st_bytes_def)
  qed
qed

theorem memmove_bulk_copy_witness:
  "memmove (\<lambda>a. ucast a) 12 10 4 = st_bytes (\<lambda>a. ucast a) 12 [10, 11, 12, 13]"
proof -
  have "ld_bytes (\<lambda>a. ucast a) 10 4 = [10, 11, 12, 13]" by (simp add: ld_bytes_def upt_rec)
  then show ?thesis using memmove_bulk_copy [of 12 4 10 "\<lambda>a. ucast a"] by (simp add: run_ok_def)
qed

text \<open>\<open>safestrcpy\<close> stays in its buffer and terminates the string: it writes none but the \<open>n\<close> bytes from \<open>s\<close> on,
  and one of them is a null byte.\<close>

theorem safestrcpy_bounded:
  assumes "run_ok s n" "0 < n"
  shows "(\<forall>x. \<not> (unat s \<le> unat x \<and> unat x < unat s + n) \<longrightarrow> safestrcpy m s t n x = m x) \<and>
    (\<exists>i<n. safestrcpy m s t n (s + of_nat i) = 0)"
  using assms
proof (induction m s t n rule: safestrcpy.induct)
  case (3 m s t n)
  have u: "unat (s + 1) = unat s + 1" using unat_plus [OF "3.prems"(1), of 1] by simp
  have r: "run_ok (s + 1) (Suc n)" using "3.prems"(1) by (simp add: run_ok_def u)
  show ?case
  proof (cases "m t \<noteq> 0")
    case True
    note IH = "3.IH" [OF refl True r]
    obtain i where "i < Suc n" "safestrcpy (m(s := m t)) (s + 1) (t + 1) (Suc n) (s + 1 + of_nat i) = 0"
      using IH by blast
    then have "\<exists>i<Suc (Suc n). safestrcpy (m(s := m t)) (s + 1) (t + 1) (Suc n) (s + of_nat i) = 0"
      by (intro exI [of _ "Suc i"]) (simp add: add.assoc)
    moreover have "safestrcpy (m(s := m t)) (s + 1) (t + 1) (Suc n) x = m x"
      if "\<not> (unat s \<le> unat x \<and> unat x < unat s + Suc (Suc n))" for x
    proof -
      have "x \<noteq> s" using that by auto
      moreover have "safestrcpy (m(s := m t)) (s + 1) (t + 1) (Suc n) x = (m(s := m t)) x"
        using IH [THEN conjunct1, rule_format, of x] that u by auto
      ultimately show ?thesis by simp
    qed
    ultimately show ?thesis using True by (simp add: Let_def)
  next
    case False
    then show ?thesis using u by (auto simp: Let_def word_unat_eq_iff intro!: exI [of _ 0])
  qed
qed (auto simp: word_unat_eq_iff)

lemma strlen_from_first:
  assumes "m (s + of_nat k) = 0" "\<And>i. n \<le> i \<Longrightarrow> i < k \<Longrightarrow> m (s + of_nat i) \<noteq> 0" "n \<le> k"
  shows "strlen_from m s n = Some k"
  using assms(3,2)
proof (induction "k - n" arbitrary: n)
  case 0
  then have "n = k" by simp
  then show ?case using assms(1) by (subst strlen_from.simps) simp
next
  case (Suc d)
  then have "n < k" "m (s + of_nat n) \<noteq> 0" by simp_all
  then show ?case using Suc.hyps(1) [of "Suc n"] Suc.hyps(2) Suc.prems by (subst strlen_from.simps) simp
qed

lemma strlen_first:
  "m (s + of_nat k) = 0 \<Longrightarrow> (\<And>i. i < k \<Longrightarrow> m (s + of_nat i) \<noteq> 0) \<Longrightarrow> strlen m s = Some k"
  unfolding strlen_def by (rule strlen_from_first) simp_all

end
