(* ===== verification/Exec.thy ===== *)
theory Exec
  imports File Cstring
begin

text \<open>\<open>exec\<close> (\<open>kernel/exec.c\<close>): loading an ELF file into a new address space, building the argument vector on the new stack,
  and the switch of the process to it.

  \<open>argv\<close> is the list of the kernel addresses of the argument strings, without the final null pointer.\<close>

unbundle bit_operations_syntax

section \<open>Model\<close>

definition MAXARG :: nat where "MAXARG = 32"
definition USERSTACK :: uint64 where "USERSTACK = 1"
definition ELF_MAGIC :: nat where "ELF_MAGIC = 0x464C457F"
definition ELF_PROG_LOAD :: nat where "ELF_PROG_LOAD = 1"
definition ELFHDR_SIZE :: nat where "ELFHDR_SIZE = 64"
definition PROGHDR_SIZE :: nat where "PROGHDR_SIZE = 56"

definition get_u64 :: "uint8 list \<Rightarrow> nat \<Rightarrow> uint64" where
  "get_u64 xs k = of_nat (get_u32 xs k + 2 ^ 32 * get_u32 xs (k + 4))"

record elfhdr =
  e_magic :: nat
  e_entry :: uint64
  e_phoff :: uint64
  e_phnum :: nat

record proghdr =
  ph_type :: nat
  ph_flags :: nat
  ph_off :: uint64
  ph_vaddr :: uint64
  ph_filesz :: uint64
  ph_memsz :: uint64

definition elfhdr_of :: "uint8 list \<Rightarrow> elfhdr" where
  "elfhdr_of xs = \<lparr>e_magic = get_u32 xs 0, e_entry = get_u64 xs 24, e_phoff = get_u64 xs 32, e_phnum = get_u16 xs 56\<rparr>"

definition proghdr_of :: "uint8 list \<Rightarrow> proghdr" where
  "proghdr_of xs = \<lparr>ph_type = get_u32 xs 0, ph_flags = get_u32 xs 4, ph_off = get_u64 xs 8, ph_vaddr = get_u64 xs 16,
     ph_filesz = get_u64 xs 32, ph_memsz = get_u64 xs 40\<rparr>"

definition flags2perm :: "nat \<Rightarrow> uint64" where
  "flags2perm flags =
     (let perm = (if odd flags then PTE_X else 0)
      in if odd (flags div 2) then perm OR PTE_W else perm)"

function loadseg :: "uint64 \<Rightarrow> uint64 \<Rightarrow> nat \<Rightarrow> nat \<Rightarrow> nat \<Rightarrow> nat \<Rightarrow> 'z kfile_scheme \<Rightarrow> (int \<times> 'z kfile_scheme) res" where
  "loadseg pt va ip offset len i s =
     (if i < len then
        let pa = walkaddr (mem s) pt (va + of_nat i)
        in if pa = 0 then Panic ''loadseg: address should exist''
           else
             let n = (if len - i < 4096 then len - i else 4096)
             in bindr (readi ip (ToKernel pa) ((offset + i) mod 2 ^ 32) n s) (\<lambda>(r, _, s).
                if r \<noteq> int n then Ok (-1, s) else loadseg pt va ip offset len (i + 4096) s)
      else Ok (0, s))"
  by auto

termination loadseg
  by (relation "measure (\<lambda>(_, _, _, _, len, i, _). len - i)") auto

declare loadseg.simps [simp del]

text \<open>The loop over the program headers: whether it got to the end, and the size of the new image.\<close>

fun load_segments :: "nat list \<Rightarrow> uint64 \<Rightarrow> nat \<Rightarrow> uint64 \<Rightarrow> uint64 \<Rightarrow> 'z kfile_scheme \<Rightarrow> (bool \<times> uint64 \<times> 'z kfile_scheme) res" where
  "load_segments [] pt ip phoff usz s = Ok (True, usz, s)"
| "load_segments (i # is) pt ip phoff usz s =
     bindr (readi ip ToLocal ((unat phoff + PROGHDR_SIZE * i) mod 2 ^ 32) PROGHDR_SIZE s) (\<lambda>(r, xs, s).
     if r \<noteq> int PROGHDR_SIZE then Ok (False, usz, s)
     else
       let ph = proghdr_of xs
       in if ph_type ph \<noteq> ELF_PROG_LOAD then load_segments is pt ip phoff usz s
          else if ph_memsz ph < ph_filesz ph then Ok (False, usz, s)
          else if ph_vaddr ph + ph_memsz ph < ph_vaddr ph then Ok (False, usz, s)
          else if ph_vaddr ph mod PGSIZE \<noteq> 0 then Ok (False, usz, s)
          else
            bindr (uvmalloc pt usz (ph_vaddr ph + ph_memsz ph) (flags2perm (ph_flags ph)) s) (\<lambda>(sz1, s).
            if sz1 = 0 then Ok (False, usz, s)
            else
              bindr (loadseg pt (ph_vaddr ph) ip (unat (ph_off ph) mod 2 ^ 32) (unat (ph_filesz ph) mod 2 ^ 32) 0 s) (\<lambda>(r, s).
              if r < 0 then Ok (False, sz1, s) else load_segments is pt ip phoff sz1 s)))"

text \<open>The strings of the argument vector, pushed on the new stack: their addresses and the stack pointer.\<close>

fun push_args :: "uint64 \<Rightarrow> uint64 \<Rightarrow> uint64 list \<Rightarrow> uint64 list \<Rightarrow> uint64 \<Rightarrow> 'z kfile_scheme \<Rightarrow>
    ((uint64 list \<times> uint64) option \<times> 'z kfile_scheme) res" where
  "push_args pt stackbase [] ustack usp s = Ok (Some (ustack, usp), s)"
| "push_args pt stackbase (a # argv) ustack usp s =
     (if length ustack \<ge> MAXARG then Ok (None, s)
      else case strlen (mem s) a of
        None \<Rightarrow> Panic ''kerneltrap''
      | Some n \<Rightarrow>
        let usp = usp - of_nat (n + 1);
            usp = usp - usp mod 16
        in if usp < stackbase then Ok (None, s)
           else
             bindr (copyout pt usp (ld_bytes (mem s) a (n + 1)) s) (\<lambda>(r, s).
             if r < 0 then Ok (None, s) else push_args pt stackbase argv (ustack @ [usp]) usp s))"

definition u64_bytes :: "uint64 \<Rightarrow> uint8 list" where
  "u64_bytes v = map (\<lambda>i. ucast (drop_bit (8 * i) v)) [0..<8]"

text \<open>The base name of the path.\<close>

definition last_elem :: "uint8 list \<Rightarrow> uint8 list" where
  "last_elem path = rev (takeWhile (\<lambda>c. c \<noteq> SLASH) (rev path))"

definition exec_bad :: "uint64 \<Rightarrow> uint64 \<Rightarrow> nat option \<Rightarrow> 'z kfile_scheme \<Rightarrow> (int \<times> 'z kfile_scheme) res" where
  "exec_bad pt usz ip s =
     bindr (if pt \<noteq> 0 then proc_freepagetable pt usz s else Ok s) (\<lambda>s.
     bindr (case ip of Some ip \<Rightarrow> bindr (iunlockput ip s) end_op | None \<Rightarrow> Ok s) (\<lambda>s. Ok (-1, s)))"

text \<open>The second half of \<open>kexec\<close>, once the file is closed.\<close>

definition exec_stack :: "nat \<Rightarrow> uint8 list \<Rightarrow> uint64 list \<Rightarrow> uint64 \<Rightarrow> uint64 \<Rightarrow> uint64 \<Rightarrow> 'z kfile_scheme \<Rightarrow> (int \<times> 'z kfile_scheme) res" where
  "exec_stack p path argv pc pt usz s =
     (let oldsz = sz (procs s p);
          usz = PGROUNDUP usz
      in bindr (uvmalloc pt usz (usz + (USERSTACK + 1) * PGSIZE) PTE_W s) (\<lambda>(sz1, s).
         if sz1 = 0 then exec_bad pt usz None s
         else
           let usz = sz1
           in bindr (uvmclear pt (usz - (USERSTACK + 1) * PGSIZE) s) (\<lambda>s.
              let stackbase = usz - USERSTACK * PGSIZE
              in bindr (push_args pt stackbase argv [] usz s) (\<lambda>(r, s).
                 case r of
                   None \<Rightarrow> exec_bad pt usz None s
                 | Some (ustack, usp) \<Rightarrow>
                   let argc = length ustack;
                       usp = usp - of_nat ((argc + 1) * 8);
                       usp = usp - usp mod 16
                   in if usp < stackbase then exec_bad pt usz None s
                      else
                        bindr (copyout pt usp (concat (map u64_bytes (ustack @ [0]))) s) (\<lambda>(r, s).
                        if r < 0 then exec_bad pt usz None s
                        else
                          let tf = trapframe (procs s p);
                              oldpagetable = pagetable (procs s p);
                              s = s\<lparr>mem := st64 (st64 (st64 (mem s) (tf + 120) usp) (tf + 24) pc) (tf + 48) usp\<rparr>;
                              s = upd_proc p (\<lambda>q. q\<lparr>pname := take 15 (last_elem path), pagetable := pt, sz := usz\<rparr>) s
                          in bindr (proc_freepagetable oldpagetable oldsz s) (\<lambda>s.
                             Ok (int argc, upd_proc p (\<lambda>q. q\<lparr>pages_evicted := 0, pages_swapped_in := 0, pages_swapped_out := 0\<rparr>) s)))))))"

definition kexec :: "uint8 list \<Rightarrow> uint64 list \<Rightarrow> 'z kfile_scheme \<Rightarrow> (int \<times> 'z kfile_scheme) res" where
  "kexec path argv s =
     (case myproc s of
        None \<Rightarrow> Panic ''kerneltrap''
      | Some p \<Rightarrow>
        bindr (begin_op s) (\<lambda>s.
        bindr (namei path s) (\<lambda>(ip, s).
        case ip of
          None \<Rightarrow> bindr (end_op s) (\<lambda>s. Ok (-1, s))
        | Some ip \<Rightarrow>
          bindr (ilock ip s) (\<lambda>s.
          bindr (readi ip ToLocal 0 ELFHDR_SIZE s) (\<lambda>(r, xs, s).
          if r \<noteq> int ELFHDR_SIZE then exec_bad 0 0 (Some ip) s
          else
            let elf = elfhdr_of xs
            in if e_magic elf \<noteq> ELF_MAGIC then exec_bad 0 0 (Some ip) s
               else
                 bindr (proc_pagetable p s) (\<lambda>(pt, s).
                 if pt = 0 then exec_bad 0 0 (Some ip) s
                 else
                   bindr (load_segments [0..<e_phnum elf] pt ip (e_phoff elf) 0 s) (\<lambda>(ok, usz, s).
                   if \<not> ok then exec_bad pt usz (Some ip) s
                   else
                     bindr (iunlockput ip s) (\<lambda>s.
                     bindr (end_op s) (exec_stack p path argv (e_entry elf) pt usz)))))))))"

end
