(* ===== verification/Sysproc.thy ===== *)
theory Sysproc
  imports Proc
begin

text \<open>
  kernel/syscall.c and kernel/sysproc.c: fetching arguments from the trap frame and from user memory,
  the process-related system calls, and the dispatch. \<open>sys_exit\<close> and \<open>sys_fork\<close> need the file system and
  are not here.
\<close>

unbundle bit_operations_syntax

section \<open>Model\<close>

subsection \<open>Arguments\<close>

text \<open>The trap frame is a page of memory; \<open>a0\<close> to \<open>a5\<close> are at offsets 112 to 152 and \<open>a7\<close> at 168.\<close>

definition argraw :: "nat \<Rightarrow> 'z kglob_scheme \<Rightarrow> uint64 res" where
  "argraw n s =
     (case myproc s of
        None \<Rightarrow> Panic ''kerneltrap''
      | Some p \<Rightarrow> if n \<le> 5 then Ok (ld64 (mem s) (trapframe (procs s p) + 112 + 8 * of_nat n)) else Panic ''argraw'')"

definition argint :: "nat \<Rightarrow> 'z kglob_scheme \<Rightarrow> int res" where
  "argint n s = bindr (argraw n s) (\<lambda>v. Ok (sint (ucast v :: uint32)))"

definition argaddr :: "nat \<Rightarrow> 'z kglob_scheme \<Rightarrow> uint64 res" where
  "argaddr n s = argraw n s"

text \<open>The 64-bit word with the given bytes.\<close>

definition bytes_u64 :: "uint8 list \<Rightarrow> uint64" where
  "bytes_u64 bs = foldr (\<lambda>b acc. ucast b OR push_bit 8 acc) bs 0"

definition fetchaddr :: "uint64 \<Rightarrow> 'z kglob_scheme \<Rightarrow> (int \<times> uint64 \<times> 'z kglob_scheme) res" where
  "fetchaddr addr s =
     (case myproc s of
        None \<Rightarrow> Panic ''kerneltrap''
      | Some p \<Rightarrow>
        if addr \<ge> sz (procs s p) \<or> addr + 8 > sz (procs s p) then Ok (-1, 0, s)
        else
          bindr (copyin (pagetable (procs s p)) addr 8 s) (\<lambda>(r, bs, s).
          if r \<noteq> 0 then Ok (-1, bytes_u64 bs, s) else Ok (0, bytes_u64 bs, s)))"

definition fetchstr :: "uint64 \<Rightarrow> nat \<Rightarrow> 'z kglob_scheme \<Rightarrow> (int \<times> uint8 list) res" where
  "fetchstr addr maxlen s =
     (case myproc s of
        None \<Rightarrow> Panic ''kerneltrap''
      | Some p \<Rightarrow>
        let (r, buf) = copyinstr (mem s) (pagetable (procs s p)) addr maxlen
        in if r < 0 then Ok (-1, buf) else Ok (int (length (takeWhile (\<lambda>c. c \<noteq> 0) buf)), buf))"

definition argstr :: "nat \<Rightarrow> nat \<Rightarrow> 'z kglob_scheme \<Rightarrow> (int \<times> uint8 list) res" where
  "argstr n maxlen s = bindr (argaddr n s) (\<lambda>addr. fetchstr addr maxlen s)"

subsection \<open>Process system calls\<close>

text \<open>A handler gives the value for \<open>a0\<close>, or nothing when the process sleeps in it.\<close>

definition with_proc :: "'z kglob_scheme \<Rightarrow> (nat \<Rightarrow> 'b res) \<Rightarrow> 'b res" where
  "with_proc s f = (case myproc s of None \<Rightarrow> Panic ''kerneltrap'' | Some p \<Rightarrow> f p)"

definition sys_getppid :: "'z kglob_scheme \<Rightarrow> (int \<times> 'z kglob_scheme) res" where
  "sys_getppid s =
     with_proc s (\<lambda>p.
     case parent (procs s p) of
       None \<Rightarrow> Ok (-1, s)
     | Some pp \<Rightarrow>
       bindr (acquire WaitLock s) (\<lambda>s.
       let ans = pid (procs s pp) in bindr (release WaitLock s) (\<lambda>s. Ok (ans, s))))"

definition sys_getnumchild :: "'z kglob_scheme \<Rightarrow> (int \<times> 'z kglob_scheme) res" where
  "sys_getnumchild s =
     loop_res (\<lambda>i (ans, s).
       bindr (acquire (ProcLock i) s) (\<lambda>s.
       let ans = (if parent (procs s i) = myproc s \<and> pstate (procs s i) \<noteq> ZOMBIE then ans + 1 else ans)
       in bindr (release (ProcLock i) s) (\<lambda>s. Ok (ans, s)))) [0..<NPROC] (0, s)"

definition sys_getsyscount :: "'z kglob_scheme \<Rightarrow> (int \<times> 'z kglob_scheme) res" where
  "sys_getsyscount s =
     bindr (acquire WaitLock s) (\<lambda>s.
     with_proc s (\<lambda>p. bindr (release WaitLock s) (\<lambda>s'. Ok (syscount (procs s p), s'))))"

fun child_scan :: "nat list \<Rightarrow> 'z kglob_scheme \<Rightarrow> (int \<times> 'z kglob_scheme) res" where
  "child_scan [] s = Ok (-1, s)"
| "child_scan (i # is) s =
     bindr (acquire (ProcLock i) s) (\<lambda>s.
     if parent (procs s i) = myproc s
     then (let ans = syscount (procs s i) in bindr (release (ProcLock i) s) (\<lambda>s. Ok (ans, s)))
     else bindr (release (ProcLock i) s) (child_scan is))"

definition sys_getchildsyscount :: "'z kglob_scheme \<Rightarrow> (int \<times> 'z kglob_scheme) res" where
  "sys_getchildsyscount s = bindr (argint 0 s) (\<lambda>arg. child_scan [0..<NPROC] s)"

definition sys_getlevel :: "'z kglob_scheme \<Rightarrow> (int \<times> 'z kglob_scheme) res" where
  "sys_getlevel s =
     bindr (acquire WaitLock s) (\<lambda>s.
     with_proc s (\<lambda>p. bindr (release WaitLock s) (\<lambda>s'. Ok (cur_queue_lvl (procs s p), s'))))"

text \<open>The structs the kernel fills for a user, as bytes.\<close>

definition mlfqinfo_bytes :: "proc \<Rightarrow> uint8 list" where
  "mlfqinfo_bytes q = concat (map int_bytes
     [cur_queue_lvl q, pticks q 0, pticks q 1, pticks q 2, pticks q 3, no_of_schedules q, syscount q])"

definition vmstats_bytes :: "proc \<Rightarrow> uint8 list" where
  "vmstats_bytes q = concat (map int_bytes
     [page_faults q, pages_evicted q, pages_swapped_in q, pages_swapped_out q, resident_pages q,
      disk_reads q, disk_writes q, avg_disk_latency q])"

text \<open>The scan for a pid shared by \<open>getmlfqinfo\<close> and \<open>getvmstats\<close>; the result of \<open>copyout\<close> is ignored.\<close>

fun info_scan :: "(proc \<Rightarrow> uint8 list) \<Rightarrow> nat list \<Rightarrow> int \<Rightarrow> uint64 \<Rightarrow> 'z kglob_scheme \<Rightarrow> (int \<times> 'z kglob_scheme) res" where
  "info_scan enc [] i uaddr s = Ok (-1, s)"
| "info_scan enc (q # qs) i uaddr s =
     bindr (acquire (ProcLock q) s) (\<lambda>s.
     if pid (procs s q) = i
     then
       let info = enc (procs s q)
       in bindr (release (ProcLock q) s) (\<lambda>s.
          with_proc s (\<lambda>p. bindr (copyout (pagetable (procs s p)) uaddr info s) (\<lambda>(_, s). Ok (0, s))))
     else bindr (release (ProcLock q) s) (info_scan enc qs i uaddr))"

definition sys_getmlfqinfo :: "'z kglob_scheme \<Rightarrow> (int \<times> 'z kglob_scheme) res" where
  "sys_getmlfqinfo s =
     bindr (argint 0 s) (\<lambda>i. bindr (argaddr 1 s) (\<lambda>uaddr. info_scan mlfqinfo_bytes [0..<NPROC] i uaddr s))"

definition sys_getvmstats :: "'z kglob_scheme \<Rightarrow> (int \<times> 'z kglob_scheme) res" where
  "sys_getvmstats s =
     bindr (argint 0 s) (\<lambda>i. bindr (argaddr 1 s) (\<lambda>uaddr. info_scan vmstats_bytes [0..<NPROC] i uaddr s))"

definition sys_setdisksched :: "'z kglob_scheme \<Rightarrow> (int \<times> 'z kglob_scheme) res" where
  "sys_setdisksched s =
     bindr (argint 0 s) (\<lambda>p.
     if p \<noteq> DISK_SCHED_FCFS \<and> p \<noteq> DISK_SCHED_SSTF then Ok (-1, s) else setdisksched p s)"

definition sys_setraidmode :: "'z kglob_scheme \<Rightarrow> (int \<times> 'z kglob_scheme) res" where
  "sys_setraidmode s = bindr (argint 0 s) (\<lambda>mode. setraidmode mode s)"

definition sys_getpid :: "'z kglob_scheme \<Rightarrow> (int \<times> 'z kglob_scheme) res" where
  "sys_getpid s = with_proc s (\<lambda>p. Ok (pid (procs s p), s))"

definition sys_getpid2 :: "'z kglob_scheme \<Rightarrow> (int \<times> 'z kglob_scheme) res" where
  "sys_getpid2 s = with_proc s (\<lambda>p. Ok (pid (procs s p), s))"

definition sys_wait :: "'z kglob_scheme \<Rightarrow> (int option \<times> 'z kglob_scheme) res" where
  "sys_wait s = bindr (argaddr 0 s) (\<lambda>p. kwait p s)"

definition sys_sbrk :: "'z kglob_scheme \<Rightarrow> (uint64 \<times> 'z kglob_scheme) res" where
  "sys_sbrk s =
     bindr (argint 0 s) (\<lambda>n.
     bindr (argint 1 s) (\<lambda>t.
     with_proc s (\<lambda>p.
     let addr = sz (procs s p)
     in if t = 1 \<or> n < 0
        then bindr (growproc n s) (\<lambda>(r, s). if r < 0 then Ok (-1, s) else Ok (addr, s))
        else if addr + of_int n < addr then Ok (-1, s)
        else if addr + of_int n > TRAPFRAME then Ok (-1, s)
        else Ok (addr, upd_proc p (\<lambda>q. q\<lparr>sz := sz q + of_int n\<rparr>) s))))"

text \<open>\<open>sys_pause\<close> up to its first sleep, and one turn of its loop; \<open>ticks - ticks0\<close> and its comparison with the
  converted \<open>n\<close> are unsigned.\<close>

definition pause_turn :: "uint32 \<Rightarrow> int \<Rightarrow> 'z kglob_scheme \<Rightarrow> (int option \<times> 'z kglob_scheme) res" where
  "pause_turn ticks0 n s =
     (if kticks s - ticks0 < of_int n
      then
        with_proc s (\<lambda>p.
        bindr (is_killed p s) (\<lambda>(k, s).
        if k \<noteq> 0 then bindr (release TicksLock s) (\<lambda>s. Ok (Some (-1), s))
        else bindr (sleep ChanTicks TicksLock s) (\<lambda>s. Ok (None, s))))
      else bindr (release TicksLock s) (\<lambda>s. Ok (Some 0, s)))"

definition sys_pause :: "'z kglob_scheme \<Rightarrow> (int option \<times> 'z kglob_scheme) res" where
  "sys_pause s =
     bindr (argint 0 s) (\<lambda>n.
     let n = (if n < 0 then 0 else n)
     in bindr (acquire TicksLock s) (\<lambda>s. pause_turn (kticks s) n s))"

definition sys_kill :: "'z kglob_scheme \<Rightarrow> (int \<times> 'z kglob_scheme) res" where
  "sys_kill s = bindr (argint 0 s) (\<lambda>i. kkill i s)"

definition sys_uptime :: "'z kglob_scheme \<Rightarrow> (uint32 \<times> 'z kglob_scheme) res" where
  "sys_uptime s =
     bindr (acquire TicksLock s) (\<lambda>s. let x = kticks s in bindr (release TicksLock s) (\<lambda>s. Ok (x, s)))"

definition sys_hello :: "'z kglob_scheme \<Rightarrow> (int \<times> 'z kglob_scheme) res" where
  "sys_hello s = Ok (0, s)"

subsection \<open>Dispatch\<close>

text \<open>\<open>table\<close> is the array \<open>syscalls\<close>; an entry gives the value for \<open>a0\<close>, or \<open>None\<close> while the process sleeps.\<close>

definition syscall ::
    "(int \<Rightarrow> ('z kglob_scheme \<Rightarrow> (uint64 option \<times> 'z kglob_scheme) res) option) \<Rightarrow>
     'z kglob_scheme \<Rightarrow> (bool \<times> 'z kglob_scheme) res" where
  "syscall table s =
     with_proc s (\<lambda>p.
     let s = upd_proc p (\<lambda>q. q\<lparr>syscount := syscount q + 1\<rparr>) s;
         num = sint (ucast (ld64 (mem s) (trapframe (procs s p) + 168)) :: uint32);
         set_a0 = (\<lambda>v s. s\<lparr>mem := st64 (mem s) (trapframe (procs s p) + 112) v\<rparr>)
     in case (if 0 < num \<and> num < 33 then table num else None) of
          None \<Rightarrow> Ok (True, set_a0 (-1) s)
        | Some f \<Rightarrow>
          bindr (f s) (\<lambda>(r, s).
          case r of None \<Rightarrow> Ok (False, s) | Some v \<Rightarrow> Ok (True, set_a0 v s)))"

section \<open>Properties\<close>

lemma child_scan_ok:
  assumes "plocks_free s"
  shows "child_scan [i..<n] s =
    (case search (\<lambda>i. parent (procs s i) = myproc s) i n of None \<Rightarrow> Ok (-1, s) | Some i \<Rightarrow> Ok (syscount (procs s i), s))"
proof (induction "n - i" arbitrary: i)
  case 0
  then show ?case by simp
next
  case (Suc d)
  have fr: "ProcLock i \<notin> held s" using assms by (simp add: plocks_free_def)
  have i: "i < n" "d = n - Suc i" using Suc.hyps(2) by simp_all
  then show ?case
    using fr Suc.hyps(1) [OF i(2)] by (simp add: upt_conv_Cons search.simps [of _ i n] Let_def held_update_id)
qed

text \<open>C40: \<open>getchildsyscount\<close> does not look at its argument: whatever pid the user passes, it returns the count of the
  first entry of the process table whose parent is the caller, or -1 when there is none. The documentation
  declares it as the count of the child with that pid.\<close>

theorem getchildsyscount_ignores_pid:
  assumes "plocks_free s" "argint 0 s = Ok arg"
  shows "sys_getchildsyscount s =
    (case search (\<lambda>i. parent (procs s i) = myproc s) 0 NPROC of None \<Rightarrow> Ok (-1, s) | Some i \<Rightarrow> Ok (syscount (procs s i), s))"
  using child_scan_ok [OF assms(1), of 0 NPROC] assms(2) by (simp add: sys_getchildsyscount_def)

text \<open>A process with one page of memory whose system call arguments are 4096 and \<open>SBRK_LAZY\<close>.\<close>

definition kg2 :: kglob where
  "kg2 = upd_proc 0 (\<lambda>q. q\<lparr>trapframe := 0x8000C000\<rparr>)
     (kg0\<lparr>mem := st64 (st64 km_mem 0x8000C070 4096) 0x8000C078 2\<rparr>)"

lemma kg2_sel [simp]:
  "procs kg2 = (\<lambda>_. proc0)(0 := proc0\<lparr>pstate := RUNNING, pagetable := 0x80001000, sz := 8192, resident_pages := 1,
     trapframe := 0x8000C000\<rparr>)"
  "myproc kg2 = Some 0" "held kg2 = {}" "kend kg2 = 0x80001000"
  "mem kg2 = st64 (st64 km_mem 0x8000C070 4096) 0x8000C078 2"
  by (simp_all add: kg2_def myproc_def proc0_def)

lemma kg2_args: "argint 0 kg2 = Ok 4096" "argint 1 kg2 = Ok 2"
  by (simp_all add: argint_def argraw_def ld64_st64_other)

theorem getchildsyscount_ignores_pid_witness: "sys_getchildsyscount kg2 = Ok (-1, kg2)"
proof -
  have "search (\<lambda>i. parent (procs kg2 i) = myproc kg2) 0 NPROC = None"
    by (simp add: search_None_iff proc0_def)
  then show ?thesis
    using getchildsyscount_ignores_pid [OF _ kg2_args(1)] by (simp add: plocks_free_def)
qed



end
