(* ===== verification/Sysfile.thy ===== *)
theory Sysfile
  imports Exec Sysproc Fcntl
begin

text \<open>The file system calls (\<open>kernel/sysfile.c\<close>). A handler gives its result, or \<open>None\<close> where the process sleeps in a pipe
  or in the console. Paths are the bytes before the end of the string that \<open>argstr\<close> has fetched.\<close>

unbundle bit_operations_syntax

section \<open>Model\<close>

definition MAXPATH :: nat where "MAXPATH = 128"

text \<open>Conversion to \<open>short\<close>.\<close>

definition wrap16 :: "int \<Rightarrow> int" where
  "wrap16 n = (n + 2 ^ 15) mod 2 ^ 16 - 2 ^ 15"

definition c_path :: "uint8 list \<Rightarrow> uint8 list" where
  "c_path buf = takeWhile (\<lambda>c. c \<noteq> 0) buf"

subsection \<open>Descriptors\<close>

definition argfd :: "nat \<Rightarrow> 'z kfile_scheme \<Rightarrow> (nat \<times> nat) option res" where
  "argfd n s =
     bindr (argint n s) (\<lambda>fd.
     with_proc s (\<lambda>p.
     if fd < 0 \<or> fd \<ge> int NOFILE then Ok None
     else Ok (map_option (\<lambda>f. (nat fd, f)) (ofile (procs s p) (nat fd)))))"

definition set_ofile :: "nat \<Rightarrow> nat \<Rightarrow> nat option \<Rightarrow> 'z kfile_scheme \<Rightarrow> 'z kfile_scheme" where
  "set_ofile p fd f = upd_proc p (\<lambda>q. q\<lparr>ofile := (ofile q)(fd := f)\<rparr>)"

definition fdalloc :: "nat \<Rightarrow> 'z kfile_scheme \<Rightarrow> (nat option \<times> 'z kfile_scheme) res" where
  "fdalloc f s =
     with_proc s (\<lambda>p.
     case search (\<lambda>fd. ofile (procs s p) fd = None) 0 NOFILE of
       Some fd \<Rightarrow> Ok (Some fd, set_ofile p fd (Some f) s)
     | None \<Rightarrow> Ok (None, s))"

definition sys_dup :: "'z kfile_scheme \<Rightarrow> (int \<times> 'z kfile_scheme) res" where
  "sys_dup s =
     bindr (argfd 0 s) (\<lambda>r.
     case r of
       None \<Rightarrow> Ok (-1, s)
     | Some (_, f) \<Rightarrow>
       bindr (fdalloc f s) (\<lambda>(fd, s).
       case fd of
         None \<Rightarrow> Ok (-1, s)
       | Some fd \<Rightarrow> bindr (filedup f s) (\<lambda>s. Ok (int fd, s))))"

definition sys_read :: "'z kfile_scheme \<Rightarrow> (int option \<times> 'z kfile_scheme) res" where
  "sys_read s =
     bindr (argaddr 1 s) (\<lambda>p. bindr (argint 2 s) (\<lambda>n. bindr (argfd 0 s) (\<lambda>r.
     case r of None \<Rightarrow> Ok (Some (-1), s) | Some (_, f) \<Rightarrow> fileread f p n s)))"

definition sys_write :: "'z kfile_scheme \<Rightarrow> (int option \<times> 'z kfile_scheme) res" where
  "sys_write s =
     bindr (argaddr 1 s) (\<lambda>p. bindr (argint 2 s) (\<lambda>n. bindr (argfd 0 s) (\<lambda>r.
     case r of None \<Rightarrow> Ok (Some (-1), s) | Some (_, f) \<Rightarrow> filewrite f p n s)))"

definition sys_close :: "'z kfile_scheme \<Rightarrow> (int \<times> 'z kfile_scheme) res" where
  "sys_close s =
     bindr (argfd 0 s) (\<lambda>r.
     case r of
       None \<Rightarrow> Ok (-1, s)
     | Some (fd, f) \<Rightarrow> with_proc s (\<lambda>p. bindr (fileclose f (set_ofile p fd None s)) (\<lambda>s. Ok (0, s))))"

definition sys_fstat :: "uint8 list \<Rightarrow> 'z kfile_scheme \<Rightarrow> (int \<times> 'z kfile_scheme) res" where
  "sys_fstat pad s =
     bindr (argaddr 1 s) (\<lambda>st. bindr (argfd 0 s) (\<lambda>r.
     case r of None \<Rightarrow> Ok (-1, s) | Some (_, f) \<Rightarrow> filestat pad f st s))"

subsection \<open>Links\<close>

definition add_nlink :: "nat \<Rightarrow> int \<Rightarrow> 'z kfs_scheme \<Rightarrow> 'z kfs_scheme res" where
  "add_nlink ip d s = iupdate ip (upd_inode ip (\<lambda>x. x\<lparr>inlink := wrap16 (inlink x + d)\<rparr>) s)"

definition link_bad :: "nat \<Rightarrow> 'z kfile_scheme \<Rightarrow> (int \<times> 'z kfile_scheme) res" where
  "link_bad ip s =
     bindr (ilock ip s) (\<lambda>s. bindr (add_nlink ip (-1) s) (\<lambda>s.
     bindr (iunlockput ip s) (\<lambda>s. bindr (end_op s) (\<lambda>s. Ok (-1, s)))))"

definition sys_link :: "'z kfile_scheme \<Rightarrow> (int \<times> 'z kfile_scheme) res" where
  "sys_link s =
     bindr (argstr 0 MAXPATH s) (\<lambda>(r0, old).
     if r0 < 0 then Ok (-1, s)
     else bindr (argstr 1 MAXPATH s) (\<lambda>(r1, new).
     if r1 < 0 then Ok (-1, s)
     else
       bindr (begin_op s) (\<lambda>s.
       bindr (namei (c_path old) s) (\<lambda>(ip, s).
       case ip of
         None \<Rightarrow> bindr (end_op s) (\<lambda>s. Ok (-1, s))
       | Some ip \<Rightarrow>
         bindr (ilock ip s) (\<lambda>s.
         if itype (inodes s ip) = T_DIR then
           bindr (iunlockput ip s) (\<lambda>s. bindr (end_op s) (\<lambda>s. Ok (-1, s)))
         else
           bindr (add_nlink ip 1 s) (\<lambda>s.
           bindr (iunlock ip s) (\<lambda>s.
           bindr (nameiparent (c_path new) s) (\<lambda>(r, s).
           case r of
             None \<Rightarrow> link_bad ip s
           | Some (dp, name) \<Rightarrow>
             bindr (ilock dp s) (\<lambda>s.
             bindr (if idev (inodes s dp) \<noteq> idev (inodes s ip) then Ok (-1, s)
                    else dirlink dp name (inum (inodes s ip)) s) (\<lambda>(l, s).
             if l < 0 then bindr (iunlockput dp s) (link_bad ip)
             else
               bindr (iunlockput dp s) (\<lambda>s.
               bindr (iput ip s) (\<lambda>s.
               bindr (end_op s) (\<lambda>s. Ok (0, s))))))))))))))"

definition isdirempty :: "nat \<Rightarrow> 'z kfs_scheme \<Rightarrow> (bool \<times> 'z kfs_scheme) res" where
  "isdirempty dp s =
     bindr (dir_scan (\<lambda>de. de_inum de \<noteq> 0) ''isdirempty: readi'' dp (2 * DIRENT_SIZE) (isize (inodes s dp)) s) (\<lambda>(r, _, s).
     Ok (r = None, s))"

definition DOT :: "uint8 list" where "DOT = [46]"
definition DOTDOT :: "uint8 list" where "DOTDOT = [46, 46]"

definition unlink_bad :: "nat \<Rightarrow> 'z kfile_scheme \<Rightarrow> (int \<times> 'z kfile_scheme) res" where
  "unlink_bad dp s = bindr (iunlockput dp s) (\<lambda>s. bindr (end_op s) (\<lambda>s. Ok (-1, s)))"

definition sys_unlink :: "'z kfile_scheme \<Rightarrow> (int \<times> 'z kfile_scheme) res" where
  "sys_unlink s =
     bindr (argstr 0 MAXPATH s) (\<lambda>(r, path).
     if r < 0 then Ok (-1, s)
     else
       bindr (begin_op s) (\<lambda>s.
       bindr (nameiparent (c_path path) s) (\<lambda>(r, s).
       case r of
         None \<Rightarrow> bindr (end_op s) (\<lambda>s. Ok (-1, s))
       | Some (dp, name) \<Rightarrow>
         bindr (ilock dp s) (\<lambda>s.
         if namecmp name DOT = 0 \<or> namecmp name DOTDOT = 0 then unlink_bad dp s
         else
           bindr (dirlookup dp name s) (\<lambda>(r, s).
           case r of
             None \<Rightarrow> unlink_bad dp s
           | Some (ip, off) \<Rightarrow>
             bindr (ilock ip s) (\<lambda>s.
             if inlink (inodes s ip) < 1 then Panic ''unlink: nlink < 1''
             else
               bindr (if itype (inodes s ip) = T_DIR then isdirempty ip s else Ok (True, s)) (\<lambda>(empty, s).
               if \<not> empty then bindr (iunlockput ip s) (unlink_bad dp)
               else
                 bindr (writei dp (FromLocal (replicate DIRENT_SIZE 0)) off DIRENT_SIZE s) (\<lambda>(w, s).
                 if w \<noteq> int DIRENT_SIZE then Panic ''unlink: writei''
                 else
                   bindr (if itype (inodes s ip) = T_DIR then add_nlink dp (-1) s else Ok s) (\<lambda>s.
                   bindr (iunlockput dp s) (\<lambda>s.
                   bindr (add_nlink ip (-1) s) (\<lambda>s.
                   bindr (iunlockput ip s) (\<lambda>s.
                   bindr (end_op s) (\<lambda>s. Ok (0, s))))))))))))))"

subsection \<open>Creation and opening\<close>

definition create_fail :: "nat \<Rightarrow> nat \<Rightarrow> 'z kfile_scheme \<Rightarrow> (nat option \<times> 'z kfile_scheme) res" where
  "create_fail ip dp s =
     bindr (iupdate ip (upd_inode ip (\<lambda>x. x\<lparr>inlink := 0\<rparr>) s)) (\<lambda>s.
     bindr (iunlockput ip s) (\<lambda>s. bindr (iunlockput dp s) (\<lambda>s. Ok (None, s))))"

text \<open>The new inode is returned locked.\<close>

definition create :: "uint8 list \<Rightarrow> int \<Rightarrow> int \<Rightarrow> int \<Rightarrow> 'z kfile_scheme \<Rightarrow> (nat option \<times> 'z kfile_scheme) res" where
  "create path type major minor s =
     bindr (nameiparent path s) (\<lambda>(r, s).
     case r of
       None \<Rightarrow> Ok (None, s)
     | Some (dp, name) \<Rightarrow>
       bindr (ilock dp s) (\<lambda>s.
       bindr (dirlookup dp name s) (\<lambda>(r, s).
       case r of
         Some (ip, _) \<Rightarrow>
           bindr (iunlockput dp s) (\<lambda>s.
           bindr (ilock ip s) (\<lambda>s.
           if type = T_FILE \<and> (itype (inodes s ip) = T_FILE \<or> itype (inodes s ip) = T_DEVICE) then Ok (Some ip, s)
           else bindr (iunlockput ip s) (\<lambda>s. Ok (None, s))))
       | None \<Rightarrow>
         bindr (ialloc (idev (inodes s dp)) type s) (\<lambda>(ip, s).
         case ip of
           None \<Rightarrow> bindr (iunlockput dp s) (\<lambda>s. Ok (None, s))
         | Some ip \<Rightarrow>
           bindr (ilock ip s) (\<lambda>s.
           bindr (iupdate ip (upd_inode ip (\<lambda>x. x\<lparr>imajor := wrap16 major, iminor := wrap16 minor, inlink := 1\<rparr>) s)) (\<lambda>s.
           bindr (if type = T_DIR then
               bindr (dirlink ip DOT (inum (inodes s ip)) s) (\<lambda>(r, s).
               if r < 0 then Ok (r, s) else dirlink ip DOTDOT (inum (inodes s dp)) s)
             else Ok (0, s)) (\<lambda>(r, s).
           if r < 0 then create_fail ip dp s
           else
             bindr (dirlink dp name (inum (inodes s ip)) s) (\<lambda>(r, s).
             if r < 0 then create_fail ip dp s
             else
               bindr (if type = T_DIR then add_nlink dp 1 s else Ok s) (\<lambda>s.
               bindr (iunlockput dp s) (\<lambda>s. Ok (Some ip, s)))))))))))"

text \<open>The first part of \<open>sys_open\<close>: the inode, locked, or \<open>None\<close> once the operation has ended.\<close>

definition open_inode :: "uint8 list \<Rightarrow> int \<Rightarrow> 'z kfile_scheme \<Rightarrow> (nat option \<times> 'z kfile_scheme) res" where
  "open_inode path omode s =
     (if omode AND O_CREATE \<noteq> 0 then
        bindr (create path T_FILE 0 0 s) (\<lambda>(ip, s).
        case ip of None \<Rightarrow> bindr (end_op s) (\<lambda>s. Ok (None, s)) | Some ip \<Rightarrow> Ok (Some ip, s))
      else
        bindr (namei path s) (\<lambda>(ip, s).
        case ip of
          None \<Rightarrow> bindr (end_op s) (\<lambda>s. Ok (None, s))
        | Some ip \<Rightarrow>
          bindr (ilock ip s) (\<lambda>s.
          if itype (inodes s ip) = T_DIR \<and> omode \<noteq> O_RDONLY
          then bindr (iunlockput ip s) (\<lambda>s. bindr (end_op s) (\<lambda>s. Ok (None, s))) else Ok (Some ip, s))))"

definition open_fail :: "nat \<Rightarrow> 'z kfile_scheme \<Rightarrow> (int \<times> 'z kfile_scheme) res" where
  "open_fail ip s = bindr (iunlockput ip s) (\<lambda>s. bindr (end_op s) (\<lambda>s. Ok (-1, s)))"

definition open_file :: "int \<Rightarrow> inode \<Rightarrow> nat \<Rightarrow> file \<Rightarrow> file" where
  "open_file omode x ip f =
     (if itype x = T_DEVICE then f\<lparr>ftype := FD_DEVICE, fmajor := imajor x\<rparr> else f\<lparr>ftype := FD_INODE, foff := 0\<rparr>)
     \<lparr>fip := ip, freadable := (omode AND O_WRONLY = 0), fwritable := (omode AND O_WRONLY \<noteq> 0 \<or> omode AND O_RDWR \<noteq> 0)\<rparr>"

definition sys_open :: "'z kfile_scheme \<Rightarrow> (int \<times> 'z kfile_scheme) res" where
  "sys_open s =
     bindr (argint 1 s) (\<lambda>omode.
     bindr (argstr 0 MAXPATH s) (\<lambda>(n, path).
     if n < 0 then Ok (-1, s)
     else
       bindr (begin_op s) (\<lambda>s.
       bindr (open_inode (c_path path) omode s) (\<lambda>(ip, s).
       case ip of
         None \<Rightarrow> Ok (-1, s)
       | Some ip \<Rightarrow>
         let x = inodes s ip
         in if itype x = T_DEVICE \<and> (imajor x < 0 \<or> imajor x \<ge> NDEV) then open_fail ip s
            else
              bindr (filealloc s) (\<lambda>(f, s).
              case f of
                None \<Rightarrow> open_fail ip s
              | Some f \<Rightarrow>
                bindr (fdalloc f s) (\<lambda>(fd, s).
                case fd of
                  None \<Rightarrow> bindr (fileclose f s) (open_fail ip)
                | Some fd \<Rightarrow>
                  let s = upd_file f (open_file omode (inodes s ip) ip) s
                  in bindr (if omode AND O_TRUNC \<noteq> 0 \<and> itype (inodes s ip) = T_FILE then itrunc ip s else Ok s) (\<lambda>s.
                     bindr (iunlock ip s) (\<lambda>s.
                     bindr (end_op s) (\<lambda>s. Ok (int fd, s))))))))))"

definition sys_mkdir :: "'z kfile_scheme \<Rightarrow> (int \<times> 'z kfile_scheme) res" where
  "sys_mkdir s =
     bindr (begin_op s) (\<lambda>s.
     bindr (argstr 0 MAXPATH s) (\<lambda>(r, path).
     bindr (if r < 0 then Ok (None, s) else create (c_path path) T_DIR 0 0 s) (\<lambda>(ip, s).
     case ip of
       None \<Rightarrow> bindr (end_op s) (\<lambda>s. Ok (-1, s))
     | Some ip \<Rightarrow> bindr (iunlockput ip s) (\<lambda>s. bindr (end_op s) (\<lambda>s. Ok (0, s))))))"

definition sys_mknod :: "'z kfile_scheme \<Rightarrow> (int \<times> 'z kfile_scheme) res" where
  "sys_mknod s =
     bindr (begin_op s) (\<lambda>s.
     bindr (argint 1 s) (\<lambda>major. bindr (argint 2 s) (\<lambda>minor.
     bindr (argstr 0 MAXPATH s) (\<lambda>(r, path).
     bindr (if r < 0 then Ok (None, s) else create (c_path path) T_DEVICE (wrap16 major) (wrap16 minor) s) (\<lambda>(ip, s).
     case ip of
       None \<Rightarrow> bindr (end_op s) (\<lambda>s. Ok (-1, s))
     | Some ip \<Rightarrow> bindr (iunlockput ip s) (\<lambda>s. bindr (end_op s) (\<lambda>s. Ok (0, s))))))))"

definition sys_chdir :: "'z kfile_scheme \<Rightarrow> (int \<times> 'z kfile_scheme) res" where
  "sys_chdir s =
     with_proc s (\<lambda>p.
     bindr (begin_op s) (\<lambda>s.
     bindr (argstr 0 MAXPATH s) (\<lambda>(r, path).
     bindr (if r < 0 then Ok (None, s) else namei (c_path path) s) (\<lambda>(ip, s).
     case ip of
       None \<Rightarrow> bindr (end_op s) (\<lambda>s. Ok (-1, s))
     | Some ip \<Rightarrow>
       bindr (ilock ip s) (\<lambda>s.
       if itype (inodes s ip) \<noteq> T_DIR then bindr (iunlockput ip s) (\<lambda>s. bindr (end_op s) (\<lambda>s. Ok (-1, s)))
       else
         bindr (iunlock ip s) (\<lambda>s.
         bindr (case cwd (procs s p) of None \<Rightarrow> Panic ''kerneltrap'' | Some d \<Rightarrow> iput d s) (\<lambda>s.
         bindr (end_op s) (\<lambda>s. Ok (0, upd_proc p (\<lambda>q. q\<lparr>cwd := Some ip\<rparr>) s)))))))))"

subsection \<open>exec and pipe\<close>

text \<open>Fetching the argument vector: whether it is complete, and the pages that hold the strings.\<close>

fun exec_args :: "nat list \<Rightarrow> uint64 \<Rightarrow> uint64 list \<Rightarrow> 'z kfile_scheme \<Rightarrow> (bool \<times> uint64 list \<times> 'z kfile_scheme) res" where
  "exec_args [] uargv argv s = Ok (False, argv, s)"
| "exec_args (i # is) uargv argv s =
     bindr (fetchaddr (uargv + 8 * of_nat i) s) (\<lambda>(r, uarg, s).
     if r < 0 then Ok (False, argv, s)
     else if uarg = 0 then Ok (True, argv, s)
     else
       bindr (kalloc s) (\<lambda>(a, s).
       if a = 0 then Ok (False, argv, s)
       else
         bindr (fetchstr uarg (unat PGSIZE) s) (\<lambda>(r, buf).
         let s = s\<lparr>mem := st_bytes (mem s) a buf\<rparr>
         in if r < 0 then Ok (False, argv @ [a], s) else exec_args is uargv (argv @ [a]) s)))"

definition sys_exec :: "'z kfile_scheme \<Rightarrow> (int \<times> 'z kfile_scheme) res" where
  "sys_exec s =
     bindr (argaddr 1 s) (\<lambda>uargv.
     bindr (argstr 0 MAXPATH s) (\<lambda>(r, path).
     if r < 0 then Ok (-1, s)
     else
       bindr (exec_args [0..<MAXARG] uargv [] s) (\<lambda>(ok, argv, s).
       bindr (if ok then kexec (c_path path) argv s else Ok (-1, s)) (\<lambda>(ret, s).
       bindr (loop_res kfree argv s) (\<lambda>s. Ok (ret, s))))))"

definition sys_pipe :: "'z kfile_scheme \<Rightarrow> (int \<times> 'z kfile_scheme) res" where
  "sys_pipe s =
     with_proc s (\<lambda>p.
     bindr (argaddr 0 s) (\<lambda>fdarray.
     bindr (pipealloc s) (\<lambda>(r, s).
     case r of
       None \<Rightarrow> Ok (-1, s)
     | Some (rdf, wrf) \<Rightarrow>
       let bad = (\<lambda>s. bindr (fileclose rdf s) (\<lambda>s. bindr (fileclose wrf s) (\<lambda>s. Ok (-1, s))))
       in bindr (fdalloc rdf s) (\<lambda>(fd0, s).
          case fd0 of
            None \<Rightarrow> bad s
          | Some fd0 \<Rightarrow>
            bindr (fdalloc wrf s) (\<lambda>(fd1, s).
            case fd1 of
              None \<Rightarrow> bad (set_ofile p fd0 None s)
            | Some fd1 \<Rightarrow>
              bindr (copyout (pagetable (procs s p)) fdarray (int_bytes (int fd0)) s) (\<lambda>(r, s).
              bindr (if r < 0 then Ok (r, s)
                     else copyout (pagetable (procs s p)) (fdarray + 4) (int_bytes (int fd1)) s) (\<lambda>(r, s).
              if r < 0 then bad (set_ofile p fd1 None (set_ofile p fd0 None s)) else Ok (0, s))))))))"

end
