(* ===== verification/Virtio.thy ===== *)
theory Virtio
  imports File
begin

text \<open>The driver of the disk (\<open>kernel/virtio_disk.c\<close>, \<open>kernel/virtio.h\<close>): initialization, the descriptor allocator, the
  format of a request, and the completion interrupt.

  Registers of the device are numbered by their offset; \<open>virtio_disk_init\<close> reads them through its argument and returns the
  list of its register writes. What the device writes to memory, the used ring and the status bytes, is an argument of the
  interrupt handler. \<open>Bio\<close> uses a request and its completion as one step, \<open>disk_rw\<close>.\<close>

unbundle bit_operations_syntax

section \<open>Model\<close>

definition NUM :: nat where "NUM = 8"
definition VRING_DESC_F_NEXT :: nat where "VRING_DESC_F_NEXT = 1"
definition VRING_DESC_F_WRITE :: nat where "VRING_DESC_F_WRITE = 2"
definition VIRTIO_BLK_T_IN :: nat where "VIRTIO_BLK_T_IN = 0"
definition VIRTIO_BLK_T_OUT :: nat where "VIRTIO_BLK_T_OUT = 1"

text \<open>Where a descriptor points: to the header of a request, to the data of a buffer or to a status byte.\<close>

datatype vaddr = NoAddr | OpsOf nat | DataOf nat | StatusOf nat

record virtq_desc =
  vaddr_of :: vaddr
  vlen :: nat
  vflags :: nat
  vnext :: nat

record virtio_blk_req =
  req_type :: nat
  req_reserved :: nat
  req_sector :: nat

record kvirtio = kfile +
  vdesc :: "nat \<Rightarrow> virtq_desc"
  vfree :: "nat \<Rightarrow> bool"
  avail_ring :: "nat \<Rightarrow> nat"
  avail_idx :: nat
  used_idx :: nat
  info_buf :: "nat \<Rightarrow> nat option"
  info_status :: "nat \<Rightarrow> nat"
  vops :: "nat \<Rightarrow> virtio_blk_req"
  buf_disk :: "nat \<Rightarrow> bool"

definition null_desc :: virtq_desc where
  "null_desc = \<lparr>vaddr_of = NoAddr, vlen = 0, vflags = 0, vnext = 0\<rparr>"

definition upd_desc :: "nat \<Rightarrow> virtq_desc \<Rightarrow> 'z kvirtio_scheme \<Rightarrow> 'z kvirtio_scheme" where
  "upd_desc i d s = s\<lparr>vdesc := (vdesc s)(i := d)\<rparr>"

subsection \<open>Initialization\<close>

definition MMIO_MAGIC_VALUE :: nat where "MMIO_MAGIC_VALUE = 0x000"
definition MMIO_VERSION :: nat where "MMIO_VERSION = 0x004"
definition MMIO_DEVICE_ID :: nat where "MMIO_DEVICE_ID = 0x008"
definition MMIO_VENDOR_ID :: nat where "MMIO_VENDOR_ID = 0x00c"
definition MMIO_DEVICE_FEATURES :: nat where "MMIO_DEVICE_FEATURES = 0x010"
definition MMIO_DRIVER_FEATURES :: nat where "MMIO_DRIVER_FEATURES = 0x020"
definition MMIO_QUEUE_SEL :: nat where "MMIO_QUEUE_SEL = 0x030"
definition MMIO_QUEUE_NUM_MAX :: nat where "MMIO_QUEUE_NUM_MAX = 0x034"
definition MMIO_QUEUE_NUM :: nat where "MMIO_QUEUE_NUM = 0x038"
definition MMIO_QUEUE_READY :: nat where "MMIO_QUEUE_READY = 0x044"
definition MMIO_STATUS :: nat where "MMIO_STATUS = 0x070"
definition MMIO_QUEUE_DESC_LOW :: nat where "MMIO_QUEUE_DESC_LOW = 0x080"
definition MMIO_QUEUE_DESC_HIGH :: nat where "MMIO_QUEUE_DESC_HIGH = 0x084"
definition MMIO_DRIVER_DESC_LOW :: nat where "MMIO_DRIVER_DESC_LOW = 0x090"
definition MMIO_DRIVER_DESC_HIGH :: nat where "MMIO_DRIVER_DESC_HIGH = 0x094"
definition MMIO_DEVICE_DESC_LOW :: nat where "MMIO_DEVICE_DESC_LOW = 0x0a0"
definition MMIO_DEVICE_DESC_HIGH :: nat where "MMIO_DEVICE_DESC_HIGH = 0x0a4"

definition clear_features :: "uint64 \<Rightarrow> uint64" where
  "clear_features f = fold (\<lambda>b f. f AND NOT (push_bit b 1)) [5, 7, 11, 12, 27, 29, 28] f"

text \<open>\<open>R r\<close> is what a read of register \<open>r\<close> gives; \<open>status\<close> is what the read after the negotiation gives.\<close>

definition virtio_disk_init ::
  "(nat \<Rightarrow> uint32) \<Rightarrow> uint32 \<Rightarrow> 'z kvirtio_scheme \<Rightarrow> ((nat \<times> uint32) list \<times> 'z kvirtio_scheme) res" where
  "virtio_disk_init R status s =
     (if R MMIO_MAGIC_VALUE \<noteq> 0x74726976 \<or> R MMIO_VERSION \<noteq> 2 \<or> R MMIO_DEVICE_ID \<noteq> 2 \<or> R MMIO_VENDOR_ID \<noteq> 0x554d4551
      then Panic ''could not find virtio disk''
      else if status AND 8 = 0 then Panic ''virtio disk FEATURES_OK unset''
      else if R MMIO_QUEUE_READY \<noteq> 0 then Panic ''virtio disk should not be ready''
      else if R MMIO_QUEUE_NUM_MAX = 0 then Panic ''virtio disk has no queue 0''
      else if unat (R MMIO_QUEUE_NUM_MAX) < NUM then Panic ''virtio disk max queue too short''
      else
        bindr (kalloc s) (\<lambda>(desc, s).
        bindr (kalloc s) (\<lambda>(avail, s).
        bindr (kalloc s) (\<lambda>(usedq, s).
        if desc = 0 \<or> avail = 0 \<or> usedq = 0 then Panic ''virtio disk kalloc''
        else
          let s = memset_page usedq 0 (memset_page avail 0 (memset_page desc 0 s));
              s = s\<lparr>vdesc := (\<lambda>_. null_desc), avail_ring := (\<lambda>_. 0), avail_idx := 0, vfree := (\<lambda>i. i < NUM \<or> vfree s i)\<rparr>
          in Ok ([(MMIO_STATUS, 0), (MMIO_STATUS, 1), (MMIO_STATUS, 3),
                  (MMIO_DRIVER_FEATURES, ucast (clear_features (ucast (R MMIO_DEVICE_FEATURES)))),
                  (MMIO_STATUS, 11), (MMIO_QUEUE_SEL, 0), (MMIO_QUEUE_NUM, of_nat NUM),
                  (MMIO_QUEUE_DESC_LOW, ucast desc), (MMIO_QUEUE_DESC_HIGH, ucast (drop_bit 32 desc)),
                  (MMIO_DRIVER_DESC_LOW, ucast avail), (MMIO_DRIVER_DESC_HIGH, ucast (drop_bit 32 avail)),
                  (MMIO_DEVICE_DESC_LOW, ucast usedq), (MMIO_DEVICE_DESC_HIGH, ucast (drop_bit 32 usedq)),
                  (MMIO_QUEUE_READY, 1), (MMIO_STATUS, status OR 4)], s)))))"

subsection \<open>Descriptors\<close>

definition alloc_desc :: "'z kvirtio_scheme \<Rightarrow> nat option \<times> 'z kvirtio_scheme" where
  "alloc_desc s =
     (case search (vfree s) 0 NUM of
        Some i \<Rightarrow> (Some i, s\<lparr>vfree := (vfree s)(i := False)\<rparr>)
      | None \<Rightarrow> (None, s))"

definition free_desc :: "nat \<Rightarrow> 'z kvirtio_scheme \<Rightarrow> 'z kvirtio_scheme res" where
  "free_desc i s =
     (if i \<ge> NUM then Panic ''free_desc 1''
      else if vfree s i then Panic ''free_desc 2''
      else wakeup ChanVirtio (upd_desc i null_desc s\<lparr>vfree := (vfree s)(i := True)\<rparr>))"

text \<open>A chain that has come back to a descriptor it has freed panics, so that \<open>NUM + 1\<close> turns are enough.\<close>

fun free_chain_loop :: "nat \<Rightarrow> nat \<Rightarrow> 'z kvirtio_scheme \<Rightarrow> 'z kvirtio_scheme res" where
  "free_chain_loop 0 i s = Panic ''free_desc 2''"
| "free_chain_loop (Suc k) i s =
     (let flag = vflags (vdesc s i); nxt = vnext (vdesc s i)
      in bindr (free_desc i s) (\<lambda>s. if odd flag then free_chain_loop k nxt s else Ok s))"

definition free_chain :: "nat \<Rightarrow> 'z kvirtio_scheme \<Rightarrow> 'z kvirtio_scheme res" where
  "free_chain i s = free_chain_loop (NUM + 1) i s"

definition alloc3_desc :: "'z kvirtio_scheme \<Rightarrow> ((nat \<times> nat \<times> nat) option \<times> 'z kvirtio_scheme) res" where
  "alloc3_desc s =
     (case alloc_desc s of
        (None, s) \<Rightarrow> Ok (None, s)
      | (Some i0, s) \<Rightarrow>
        (case alloc_desc s of
           (None, s) \<Rightarrow> bindr (free_desc i0 s) (\<lambda>s. Ok (None, s))
         | (Some i1, s) \<Rightarrow>
           (case alloc_desc s of
              (None, s) \<Rightarrow> bindr (free_desc i0 s) (\<lambda>s. bindr (free_desc i1 s) (\<lambda>s. Ok (None, s)))
            | (Some i2, s) \<Rightarrow> Ok (Some (i0, i1, i2), s))))"

subsection \<open>Requests\<close>

definition blk_request :: "nat \<Rightarrow> bool \<Rightarrow> nat \<Rightarrow> nat \<Rightarrow> nat \<Rightarrow> 'z kvirtio_scheme \<Rightarrow> 'z kvirtio_scheme" where
  "blk_request b write i0 i1 i2 s =
     (let sector = (blockno (bufs s b) * (BSIZE div 512)) mod 2 ^ 32;
          s = s\<lparr>vops := (vops s)(i0 := \<lparr>req_type = (if write then VIRTIO_BLK_T_OUT else VIRTIO_BLK_T_IN),
                req_reserved = 0, req_sector = sector\<rparr>)\<rparr>;
          s = upd_desc i0 \<lparr>vaddr_of = OpsOf i0, vlen = 16, vflags = VRING_DESC_F_NEXT, vnext = i1\<rparr> s;
          s = upd_desc i1 \<lparr>vaddr_of = DataOf b, vlen = BSIZE,
                vflags = (if write then 0 else VRING_DESC_F_WRITE) + VRING_DESC_F_NEXT, vnext = i2\<rparr> s;
          s = s\<lparr>info_status := (info_status s)(i0 := 0xff)\<rparr>;
          s = upd_desc i2 \<lparr>vaddr_of = StatusOf i0, vlen = 1, vflags = VRING_DESC_F_WRITE, vnext = 0\<rparr> s;
          s = s\<lparr>buf_disk := (buf_disk s)(b := True), info_buf := (info_buf s)(i0 := Some b)\<rparr>
      in s\<lparr>avail_ring := (avail_ring s)(avail_idx s mod NUM := i0), avail_idx := (avail_idx s + 1) mod 2 ^ 16\<rparr>)"

text \<open>\<open>virtio_disk_rw\<close> in its three stretches between sleeps: waiting for descriptors (\<open>None\<close>) or submitting the request,
  waiting for its completion (\<open>False\<close>), and cleaning up.\<close>

definition rw_start :: "nat \<Rightarrow> bool \<Rightarrow> 'z kvirtio_scheme \<Rightarrow> (nat option \<times> 'z kvirtio_scheme) res" where
  "rw_start b write s =
     bindr (alloc3_desc s) (\<lambda>(r, s).
     case r of
       None \<Rightarrow> bindr (sleep ChanVirtio VdiskLock s) (\<lambda>s. Ok (None, s))
     | Some (i0, i1, i2) \<Rightarrow> Ok (Some i0, blk_request b write i0 i1 i2 s))"

definition rw_finish :: "nat \<Rightarrow> nat \<Rightarrow> 'z kvirtio_scheme \<Rightarrow> (bool \<times> 'z kvirtio_scheme) res" where
  "rw_finish b i0 s =
     (if buf_disk s b then bindr (sleep (ChanBuf b) VdiskLock s) (\<lambda>s. Ok (False, s))
      else
        bindr (free_chain i0 (s\<lparr>info_buf := (info_buf s)(i0 := None)\<rparr>)) (\<lambda>s.
        bindr (release VdiskLock s) (\<lambda>s. Ok (True, s))))"

definition virtio_disk_rw :: "nat \<Rightarrow> bool \<Rightarrow> 'z kvirtio_scheme \<Rightarrow> (nat option \<times> 'z kvirtio_scheme) res" where
  "virtio_disk_rw b write s =
     bindr (acquire VdiskLock s) (\<lambda>s.
     bindr (rw_start b write s) (\<lambda>(i0, s).
     case i0 of
       None \<Rightarrow> Ok (None, s)
     | Some i0 \<Rightarrow> bindr (rw_finish b i0 s) (\<lambda>(_, s). Ok (Some i0, s))))"

text \<open>The interrupt handler; \<open>usedq\<close> and \<open>dev_idx\<close> are the ring and the index in the device's memory, and \<open>status\<close> the status
  bytes. The loop ends when the 16-bit indices meet.\<close>

function intr_loop :: "(nat \<Rightarrow> nat) \<Rightarrow> nat \<Rightarrow> (nat \<Rightarrow> nat) \<Rightarrow> 'z kvirtio_scheme \<Rightarrow> 'z kvirtio_scheme res" where
  "intr_loop usedq dev_idx status s =
     (if used_idx s mod 2 ^ 16 \<noteq> dev_idx mod 2 ^ 16 then
        let i = usedq (used_idx s mod NUM)
        in if status i \<noteq> 0 then Panic ''virtio_disk_intr status''
           else
             case info_buf s i of
               None \<Rightarrow> Panic ''kerneltrap''
             | Some b \<Rightarrow>
               bindr (wakeup (ChanBuf b) (s\<lparr>buf_disk := (buf_disk s)(b := False)\<rparr>)) (\<lambda>s'.
               intr_loop usedq dev_idx status (s'\<lparr>used_idx := (used_idx s + 1) mod 2 ^ 16\<rparr>))
      else Ok s)"
  by auto

termination intr_loop
proof (relation "measure (\<lambda>(_, dev_idx, _, s). nat ((int dev_idx - int (used_idx s)) mod 2 ^ 16))")
  fix usedq status :: "nat \<Rightarrow> nat" and dev_idx :: nat and s s2 :: "'z kvirtio_scheme"
  assume ne: "used_idx s mod 2 ^ 16 \<noteq> dev_idx mod 2 ^ 16"
  let ?d = "int dev_idx - int (used_idx s)"
  have "?d mod 2 ^ 16 \<noteq> 0"
  proof
    assume "?d mod 2 ^ 16 = 0"
    then have "int dev_idx mod 2 ^ 16 = int (used_idx s) mod 2 ^ 16" by (simp add: mod_eq_dvd_iff mod_eq_0_iff_dvd)
    then have "int (dev_idx mod 2 ^ 16) = int (used_idx s mod 2 ^ 16)" by (simp add: zmod_int)
    then show False using ne by linarith
  qed
  then have pos: "0 < ?d mod 2 ^ 16" by (simp add: order.not_eq_order_implies_strict)
  have "(?d - 1) mod 2 ^ 16 = (?d mod 2 ^ 16 - 1) mod 2 ^ 16" by (simp only: mod_diff_left_eq)
  also have "\<dots> = ?d mod 2 ^ 16 - 1" using pos pos_mod_bound [of "2 ^ 16" ?d] by (intro mod_pos_pos_trivial) auto
  finally have e: "(?d - 1) mod 2 ^ 16 = ?d mod 2 ^ 16 - 1" .
  have "(int dev_idx - int ((used_idx s + 1) mod 2 ^ 16)) mod 2 ^ 16 = (?d - 1) mod 2 ^ 16"
    by (simp add: zmod_int mod_diff_right_eq algebra_simps)
  with e pos show "((usedq, dev_idx, status, s2\<lparr>used_idx := (used_idx s + 1) mod 2 ^ 16\<rparr>), usedq, dev_idx, status, s)
      \<in> measure (\<lambda>(_, dev_idx, _, s). nat ((int dev_idx - int (used_idx s)) mod 2 ^ 16))"
    by simp
qed simp

declare intr_loop.simps [simp del]

definition virtio_disk_intr :: "(nat \<Rightarrow> nat) \<Rightarrow> nat \<Rightarrow> (nat \<Rightarrow> nat) \<Rightarrow> 'z kvirtio_scheme \<Rightarrow> 'z kvirtio_scheme res" where
  "virtio_disk_intr usedq dev_idx status s =
     bindr (acquire VdiskLock s) (\<lambda>s. bindr (intr_loop usedq dev_idx status s) (release VdiskLock))"

end
