(* ===== verification/Process.thy ===== *)
theory Process
  imports Sysfile Virtio
begin

text \<open>The life of a process: \<open>fork\<close> and \<open>exit\<close> (\<open>kernel/proc.c\<close>), the table of system calls (\<open>kernel/syscall.c\<close>), and traps
  (\<open>kernel/trap.c\<close>).

  Control and status registers of the CPU are fields of the state. The functions that end in a switch to the scheduler,
  or in the trampoline, end there in the model.\<close>

unbundle bit_operations_syntax

section \<open>Model\<close>

record krun = kvirtio +
  first_fork :: bool
  r_sstatus :: uint64
  r_sepc :: uint64
  r_stvec :: uint64
  r_satp :: uint64
  r_tp :: uint64

subsection \<open>Processes\<close>

definition ROOT_PATH :: "uint8 list" where "ROOT_PATH = [SLASH]"
definition INIT_PATH :: "uint8 list" where "INIT_PATH = [SLASH, 105, 110, 105, 116]"
definition TRAPFRAME_SIZE :: nat where "TRAPFRAME_SIZE = 288"

definition userinit :: "'z krun_scheme \<Rightarrow> 'z krun_scheme res" where
  "userinit s =
     bindr (allocproc s) (\<lambda>(p, s).
     case p of
       None \<Rightarrow> Panic ''kerneltrap''
     | Some p \<Rightarrow>
       bindr (namei ROOT_PATH (s\<lparr>initproc := Some p\<rparr>)) (\<lambda>(d, s).
       release (ProcLock p) (upd_proc p (\<lambda>q. q\<lparr>cwd := d, pstate := RUNNABLE\<rparr>) s)))"

definition kfork :: "'z krun_scheme \<Rightarrow> (int \<times> 'z krun_scheme) res" where
  "kfork s =
     with_proc s (\<lambda>p.
     bindr (allocproc s) (\<lambda>(np, s).
     case np of
       None \<Rightarrow> Ok (-1, s)
     | Some np \<Rightarrow>
       bindr (uvmcopy (pagetable (procs s p)) (pagetable (procs s np)) (sz (procs s p)) (Some np) s) (\<lambda>(r, s).
       if r < 0 then bindr (freeproc np s) (\<lambda>s. bindr (release (ProcLock np) s) (\<lambda>s. Ok (-1, s)))
       else
         let s = upd_proc np (\<lambda>q. q\<lparr>sz := sz (procs s p)\<rparr>) s;
             tf = trapframe (procs s np);
             m = st_bytes (mem s) tf (ld_bytes (mem s) (trapframe (procs s p)) TRAPFRAME_SIZE);
             s = s\<lparr>mem := st64 m (tf + 112) 0\<rparr>
         in bindr (loop_res (\<lambda>i s.
              case ofile (procs s p) i of
                None \<Rightarrow> Ok s
              | Some f \<Rightarrow> bindr (filedup f s) (\<lambda>s. Ok (set_ofile np i (Some f) s))) [0..<NOFILE] s) (\<lambda>s.
            bindr (case cwd (procs s p) of None \<Rightarrow> Panic ''kerneltrap'' | Some d \<Rightarrow> idup d s) (\<lambda>(d, s).
            let s = upd_proc np (\<lambda>q. q\<lparr>cwd := Some d, pname := take 15 (pname (procs s p))\<rparr>) s;
                i = pid (procs s np)
            in bindr (release (ProcLock np) s) (\<lambda>s.
               bindr (acquire WaitLock s) (\<lambda>s.
               bindr (release WaitLock (upd_proc np (\<lambda>q. q\<lparr>parent := Some p\<rparr>) s)) (\<lambda>s.
               bindr (acquire (ProcLock np) s) (\<lambda>s.
               bindr (release (ProcLock np) (upd_proc np (\<lambda>q. q\<lparr>pstate := RUNNABLE\<rparr>) s)) (\<lambda>s. Ok (i, s)))))))))))"

text \<open>\<open>kexit\<close> up to its switch to the scheduler, from which it does not return.\<close>

definition kexit :: "int \<Rightarrow> 'z krun_scheme \<Rightarrow> 'z krun_scheme res" where
  "kexit status s =
     with_proc s (\<lambda>p.
     if initproc s = Some p then Panic ''init exiting''
     else
       bindr (loop_res (\<lambda>fd s.
         case ofile (procs s p) fd of
           None \<Rightarrow> Ok s
         | Some f \<Rightarrow> bindr (fileclose f s) (\<lambda>s. Ok (set_ofile p fd None s))) [0..<NOFILE] s) (\<lambda>s.
       bindr (begin_op s) (\<lambda>s.
       bindr (case cwd (procs s p) of None \<Rightarrow> Panic ''kerneltrap'' | Some d \<Rightarrow> iput d s) (\<lambda>s.
       bindr (end_op s) (\<lambda>s.
       bindr (acquire WaitLock (upd_proc p (\<lambda>q. q\<lparr>cwd := None\<rparr>) s)) (\<lambda>s.
       bindr (reparent p s) (\<lambda>s.
       bindr (wakeup (case parent (procs s p) of None \<Rightarrow> ChanNone | Some i \<Rightarrow> ChanProc i) s) (\<lambda>s.
       bindr (acquire (ProcLock p) s) (\<lambda>s.
       bindr (release WaitLock (upd_proc p (\<lambda>q. q\<lparr>xstate := status, pstate := ZOMBIE\<rparr>) s)) sched)))))))))"

subsection \<open>Return to user space\<close>

definition SSTATUS_SPP :: uint64 where "SSTATUS_SPP = push_bit 8 1"
definition SSTATUS_SPIE :: uint64 where "SSTATUS_SPIE = push_bit 5 1"
definition SSTATUS_SIE :: uint64 where "SSTATUS_SIE = push_bit 1 1"

definition MAKE_SATP :: "uint64 \<Rightarrow> uint64" where
  "MAKE_SATP pt = push_bit 60 8 OR drop_bit 12 pt"

text \<open>\<open>uservec\<close> is the offset of the symbol in the trampoline page and \<open>usertrap_pa\<close> the address of \<open>usertrap\<close>.\<close>

definition prepare_return :: "uint64 \<Rightarrow> uint64 \<Rightarrow> 'z krun_scheme \<Rightarrow> 'z krun_scheme res" where
  "prepare_return uservec usertrap_pa s =
     with_proc s (\<lambda>p.
     let tf = trapframe (procs s p);
         s = s\<lparr>r_sstatus := r_sstatus s AND NOT SSTATUS_SIE, r_stvec := TRAMPOLINE + uservec\<rparr>;
         m = st64 (mem s) tf (r_satp s);
         m = st64 m (tf + 8) (kstack (procs s p) + PGSIZE);
         m = st64 m (tf + 16) usertrap_pa;
         m = st64 m (tf + 32) (r_tp s)
     in Ok (s\<lparr>mem := m, r_sstatus := (r_sstatus s AND NOT SSTATUS_SPP) OR SSTATUS_SPIE, r_sepc := ld64 m (tf + 24)\<rparr>))"

text \<open>\<open>init_str\<close> is the address of the string \<open>"/init"\<close> in the kernel's data.\<close>

definition forkret :: "uint64 \<Rightarrow> uint64 \<Rightarrow> uint64 \<Rightarrow> 'z krun_scheme \<Rightarrow> (uint64 \<times> 'z krun_scheme) res" where
  "forkret init_str uservec usertrap_pa s =
     with_proc s (\<lambda>p.
     bindr (release (ProcLock p) s) (\<lambda>s.
     bindr (if first_fork s then
         bindr (fsinit ROOTDEV s) (\<lambda>s.
         bindr (kexec INIT_PATH [init_str] (s\<lparr>first_fork := False\<rparr>)) (\<lambda>(r, s).
         if r = -1 then Panic ''exec''
         else Ok (s\<lparr>mem := st64 (mem s) (trapframe (procs s p) + 112) (of_int r)\<rparr>)))
       else Ok s) (\<lambda>s.
     bindr (prepare_return uservec usertrap_pa s) (\<lambda>s. Ok (MAKE_SATP (pagetable (procs s p)), s)))))"

subsection \<open>System calls\<close>

definition sys_fork :: "'z krun_scheme \<Rightarrow> (int \<times> 'z krun_scheme) res" where
  "sys_fork s = kfork s"

definition sys_exit :: "'z krun_scheme \<Rightarrow> 'z krun_scheme res" where
  "sys_exit s = bindr (argint 0 s) (\<lambda>n. kexit n s)"

definition rets :: "('s \<Rightarrow> (int \<times> 's) res) \<Rightarrow> 's \<Rightarrow> (uint64 option \<times> 's) res" where
  "rets f s = bindr (f s) (\<lambda>(r, s). Ok (Some (of_int r), s))"

definition sleeps :: "('s \<Rightarrow> (int option \<times> 's) res) \<Rightarrow> 's \<Rightarrow> (uint64 option \<times> 's) res" where
  "sleeps f s = bindr (f s) (\<lambda>(r, s). Ok (map_option of_int r, s))"

text \<open>The table \<open>syscalls\<close>; \<open>pad\<close> is the padding that \<open>fstat\<close> copies out.\<close>

definition syscalls :: "uint8 list \<Rightarrow> int \<Rightarrow> ('z krun_scheme \<Rightarrow> (uint64 option \<times> 'z krun_scheme) res) option" where
  "syscalls pad num =
     (if num = 1 then Some (rets sys_fork)
      else if num = 2 then Some (\<lambda>s. bindr (sys_exit s) (\<lambda>s. Ok (None, s)))
      else if num = 3 then Some (sleeps sys_wait)
      else if num = 4 then Some (rets sys_pipe)
      else if num = 5 then Some (sleeps sys_read)
      else if num = 6 then Some (rets sys_kill)
      else if num = 7 then Some (rets sys_exec)
      else if num = 8 then Some (rets (sys_fstat pad))
      else if num = 9 then Some (rets sys_chdir)
      else if num = 10 then Some (rets sys_dup)
      else if num = 11 then Some (rets sys_getpid)
      else if num = 12 then Some (\<lambda>s. bindr (sys_sbrk s) (\<lambda>(r, s). Ok (Some r, s)))
      else if num = 13 then Some (sleeps sys_pause)
      else if num = 14 then Some (\<lambda>s. bindr (sys_uptime s) (\<lambda>(r, s). Ok (Some (ucast r), s)))
      else if num = 15 then Some (rets sys_open)
      else if num = 16 then Some (sleeps sys_write)
      else if num = 17 then Some (rets sys_mknod)
      else if num = 18 then Some (rets sys_unlink)
      else if num = 19 then Some (rets sys_link)
      else if num = 20 then Some (rets sys_mkdir)
      else if num = 21 then Some (rets sys_close)
      else if num = 22 then Some (rets sys_hello)
      else if num = 23 then Some (rets sys_getpid2)
      else if num = 24 then Some (rets sys_getppid)
      else if num = 25 then Some (rets sys_getnumchild)
      else if num = 26 then Some (rets sys_getsyscount)
      else if num = 27 then Some (rets sys_getchildsyscount)
      else if num = 28 then Some (rets sys_getlevel)
      else if num = 29 then Some (rets sys_getmlfqinfo)
      else if num = 30 then Some (rets sys_getvmstats)
      else if num = 31 then Some (rets sys_setdisksched)
      else if num = 32 then Some (rets sys_setraidmode)
      else None)"

subsection \<open>Traps\<close>

text \<open>What the hardware presents to a trap handler: the cause, the faulting address, the interrupt that the interrupt
  controller reports, and what the UART and the disk have to say.\<close>

record hw =
  scause :: uint64
  stval :: uint64
  hartid :: nat
  plic_irq :: nat
  uart_idle :: bool
  uart_received :: "uint8 list"
  disk_used :: "nat \<Rightarrow> nat"
  disk_used_idx :: nat
  disk_status :: "nat \<Rightarrow> nat"

definition UART0_IRQ :: nat where "UART0_IRQ = 10"
definition VIRTIO0_IRQ :: nat where "VIRTIO0_IRQ = 1"

definition devintr :: "hw \<Rightarrow> 'z krun_scheme \<Rightarrow> (nat \<times> 'z krun_scheme) res" where
  "devintr h s =
     (if scause h = 0x8000000000000009 then
        bindr (if plic_irq h = UART0_IRQ then uartintr (uart_idle h) (uart_received h) s
               else if plic_irq h = VIRTIO0_IRQ then virtio_disk_intr (disk_used h) (disk_used_idx h) (disk_status h) s
               else if plic_irq h \<noteq> 0 then kprintf (''unexpected interrupt irq=%d'' @ [CHR 0x0A]) [Num (of_nat (plic_irq h))] s
               else Ok s) (\<lambda>s. Ok (1, s))
      else if scause h = 0x8000000000000005 then bindr (clockintr (hartid h) s) (\<lambda>s. Ok (2, s))
      else Ok (0, s))"

text \<open>How a trap from user space ends: the process is killed, it sleeps or exits in its system call, it is switched away, or it
  goes back with the given page table.\<close>

datatype trap_end = Exited | Sleeps | Switched | Returns uint64

definition usertrap_exit :: "uint64 \<Rightarrow> uint64 \<Rightarrow> nat \<Rightarrow> nat \<Rightarrow> 'z krun_scheme \<Rightarrow> (trap_end \<times> 'z krun_scheme) res" where
  "usertrap_exit uservec usertrap_pa p which_dev s =
     bindr (is_killed p s) (\<lambda>(k, s).
     if k \<noteq> 0 then bindr (kexit (-1) s) (\<lambda>s. Ok (Exited, s))
     else if which_dev = 2 then bindr (timer_tick s) (\<lambda>s. Ok (Switched, s))
     else bindr (prepare_return uservec usertrap_pa s) (\<lambda>s. Ok (Returns (MAKE_SATP (pagetable (procs s p))), s)))"

definition usertrap ::
  "uint64 \<Rightarrow> uint64 \<Rightarrow> uint64 \<Rightarrow> uint8 list \<Rightarrow> hw \<Rightarrow> 'z krun_scheme \<Rightarrow> (trap_end \<times> 'z krun_scheme) res" where
  "usertrap kernelvec uservec usertrap_pa pad h s =
     (if r_sstatus s AND SSTATUS_SPP \<noteq> 0 then Panic ''usertrap: not from user mode''
      else
        let s = s\<lparr>r_stvec := kernelvec\<rparr>
        in with_proc s (\<lambda>p.
           let tf = trapframe (procs s p);
               s = s\<lparr>mem := st64 (mem s) (tf + 24) (r_sepc s)\<rparr>;
               fin = usertrap_exit uservec usertrap_pa p
           in if scause h = 8 then
                bindr (is_killed p s) (\<lambda>(k, s).
                if k \<noteq> 0 then bindr (kexit (-1) s) (\<lambda>s. Ok (Exited, s))
                else
                  let s = s\<lparr>mem := st64 (mem s) (tf + 24) (ld64 (mem s) (tf + 24) + 4), r_sstatus := r_sstatus s OR SSTATUS_SIE\<rparr>
                  in bindr (syscall (syscalls pad) s) (\<lambda>(awake, s). if awake then fin 0 s else Ok (Sleeps, s)))
              else
                bindr (devintr h s) (\<lambda>(which_dev, s).
                if which_dev \<noteq> 0 then fin which_dev s
                else if scause h = 0x8000000000000001 then fin 0 s
                else
                  bindr (if scause h = 15 \<or> scause h = 13 \<or> scause h = 12
                         then vmfault (pagetable (procs s p)) (stval h) s else Ok (0, s)) (\<lambda>(pa, s).
                  if pa \<noteq> 0 then fin 0 s
                  else
                    bindr (kprintf (''usertrap(): unexpected scause 0x%lx pid=%d'' @ [CHR 0x0A])
                        [Num (scause h), Num (of_int (pid (procs s p)))] s) (\<lambda>s.
                    bindr (kprintf (''            sepc=0x%lx stval=0x%lx'' @ [CHR 0x0A]) [Num (r_sepc s), Num (stval h)] s) (\<lambda>s.
                    bindr (setkilled p s) (fin 0)))))))"

text \<open>A process that was switched away in \<open>yield\<close> goes on here.\<close>

definition usertrap_resume :: "uint64 \<Rightarrow> uint64 \<Rightarrow> 'z krun_scheme \<Rightarrow> (trap_end \<times> 'z krun_scheme) res" where
  "usertrap_resume uservec usertrap_pa s =
     bindr (yield_back s) (\<lambda>s.
     with_proc s (\<lambda>p.
     bindr (prepare_return uservec usertrap_pa s) (\<lambda>s. Ok (Returns (MAKE_SATP (pagetable (procs s p))), s))))"

text \<open>A trap in the kernel: whether the interrupted code goes on (\<open>True\<close>) or its process is switched away.\<close>

definition kerneltrap :: "hw \<Rightarrow> 'z krun_scheme \<Rightarrow> (bool \<times> 'z krun_scheme) res" where
  "kerneltrap h s =
     (if r_sstatus s AND SSTATUS_SPP = 0 then Panic ''kerneltrap: not from supervisor mode''
      else if r_sstatus s AND SSTATUS_SIE \<noteq> 0 then Panic ''kerneltrap: interrupts enabled''
      else if scause h = 0x8000000000000001 then Ok (True, s)
      else
        bindr (devintr h s) (\<lambda>(which_dev, s).
        if which_dev = 0 then Panic ''kerneltrap''
        else if which_dev = 2 \<and> myproc s \<noteq> None then bindr (yield s) (\<lambda>s. Ok (False, s))
        else Ok (True, s)))"

end
