(* ===== verification/Boot.thy ===== *)
theory Boot
  imports Process
begin

text \<open>Booting: the machine mode start of a hart (\<open>kernel/start.c\<close>), the set up of the UART and of the interrupt controller
  (\<open>kernel/uart.c\<close>, \<open>kernel/plic.c\<close>), and \<open>main\<close> (\<open>kernel/main.c\<close>), up to the call of the scheduler. Writes to device
  registers are lists of pairs of an address and a value.\<close>

unbundle bit_operations_syntax

section \<open>Model\<close>

definition UART0 :: uint64 where "UART0 = 0x10000000"
definition PLIC :: uint64 where "PLIC = 0x0c000000"
definition PLIC_SENABLE :: "nat \<Rightarrow> uint64" where "PLIC_SENABLE hart = PLIC + 0x2080 + of_nat hart * 0x100"
definition PLIC_SPRIORITY :: "nat \<Rightarrow> uint64" where "PLIC_SPRIORITY hart = PLIC + 0x201000 + of_nat hart * 0x2000"
definition PLIC_SCLAIM :: "nat \<Rightarrow> uint64" where "PLIC_SCLAIM hart = PLIC + 0x201004 + of_nat hart * 0x2000"

definition uartinit :: "(uint64 \<times> uint64) list" where
  "uartinit = [(UART0 + 1, 0), (UART0 + 3, 0x80), (UART0, 3), (UART0 + 1, 0), (UART0 + 3, 3), (UART0 + 2, 1 OR push_bit 1 3),
     (UART0 + 1, 2 OR 1)]"

definition plicinit :: "(uint64 \<times> uint64) list" where
  "plicinit = [(PLIC + of_nat UART0_IRQ * 4, 1), (PLIC + of_nat VIRTIO0_IRQ * 4, 1)]"

definition plicinithart :: "nat \<Rightarrow> (uint64 \<times> uint64) list" where
  "plicinithart hart = [(PLIC_SENABLE hart, push_bit UART0_IRQ 1 OR push_bit VIRTIO0_IRQ 1), (PLIC_SPRIORITY hart, 0)]"

definition plic_complete :: "nat \<Rightarrow> nat \<Rightarrow> (uint64 \<times> uint64) list" where
  "plic_complete hart irq = [(PLIC_SCLAIM hart, of_nat irq)]"

text \<open>The machine mode registers that \<open>start\<close> sets.\<close>

record mregs =
  mstatus :: uint64
  mepc :: uint64
  msatp :: uint64
  medeleg :: uint64
  mideleg :: uint64
  msie :: uint64
  pmpaddr0 :: uint64
  pmpcfg0 :: uint64
  mie :: uint64
  menvcfg :: uint64
  mcounteren :: uint64
  stimecmp :: uint64
  mtp :: uint64

definition timerinit :: "uint64 \<Rightarrow> mregs \<Rightarrow> mregs" where
  "timerinit time r =
     r\<lparr>mie := mie r OR push_bit 5 1, menvcfg := menvcfg r OR push_bit 63 1, mcounteren := mcounteren r OR 2,
       stimecmp := time + 1000000\<rparr>"

definition start :: "uint64 \<Rightarrow> uint64 \<Rightarrow> uint64 \<Rightarrow> mregs \<Rightarrow> mregs" where
  "start main_pa time mhartid r =
     (timerinit time (r\<lparr>mstatus := (mstatus r AND NOT (push_bit 11 3)) OR push_bit 11 1, mepc := main_pa, msatp := 0,
        medeleg := 0xffff, mideleg := 0xffff, msie := msie r OR push_bit 9 1 OR push_bit 5 1,
        pmpaddr0 := 0x3fffffffffffff, pmpcfg0 := 0xf\<rparr>))\<lparr>mtp := mhartid\<rparr>"

definition kvminithart :: "uint64 \<Rightarrow> 'z krun_scheme \<Rightarrow> 'z krun_scheme" where
  "kvminithart kernel_pagetable s = s\<lparr>r_satp := MAKE_SATP kernel_pagetable\<rparr>"

definition trapinithart :: "uint64 \<Rightarrow> 'z krun_scheme \<Rightarrow> 'z krun_scheme" where
  "trapinithart kernelvec s = s\<lparr>r_stvec := kernelvec\<rparr>"

text \<open>\<open>main\<close> on hart 0: the register writes, the kernel page table and the state in which the scheduler starts.\<close>

definition main_boot :: "uint64 \<Rightarrow> uint64 \<Rightarrow> uint64 \<Rightarrow> (nat \<Rightarrow> uint32) \<Rightarrow> uint32 \<Rightarrow> 'z krun_scheme \<Rightarrow>
    (((uint64 \<times> uint64) list \<times> (nat \<times> uint32) list \<times> uint64) \<times> 'z krun_scheme) res" where
  "main_boot etext trampoline kernelvec R status s =
     bindr (kprintf [CHR 0x0A] [] s) (\<lambda>s.
     bindr (kprintf (''xv6 kernel is booting'' @ [CHR 0x0A]) [] s) (\<lambda>s.
     bindr (kprintf [CHR 0x0A] [] s) (\<lambda>s.
     bindr (kinit s) (\<lambda>s.
     bindr (kvmmake etext trampoline s) (\<lambda>(kernel_pagetable, s).
     let s = trapinithart kernelvec (procinit (kvminithart kernel_pagetable s));
         s = iinit (binit s)
     in bindr (virtio_disk_init R status s) (\<lambda>(vw, s).
        bindr (userinit (swap_disk_init s)) (\<lambda>s.
        Ok ((uartinit @ plicinit @ plicinithart 0, vw, kernel_pagetable), s))))))))"

text \<open>\<open>main\<close> on another hart, once hart 0 has started it.\<close>

definition main_other :: "nat \<Rightarrow> uint64 \<Rightarrow> uint64 \<Rightarrow> 'z krun_scheme \<Rightarrow> ((uint64 \<times> uint64) list \<times> 'z krun_scheme) res" where
  "main_other hart kernelvec kernel_pagetable s =
     bindr (kprintf (''hart %d starting'' @ [CHR 0x0A]) [Num (of_nat hart)] s) (\<lambda>s.
     Ok (plicinithart hart, trapinithart kernelvec (kvminithart kernel_pagetable s)))"

end
