(* ===== verification/Ulib.thy ===== *)
theory Ulib
  imports Cstring Fcntl
begin

text \<open>The string and memory routines of the user library (\<open>user/ulib.c\<close>), on byte-addressed memory; \<open>strlen\<close>, \<open>strchr\<close>, \<open>gets\<close>
  and \<open>atoi\<close> are with their clients. Loops that only a null byte ends are partial.\<close>

section \<open>Model\<close>

partial_function (option) u_strcpy :: "bytemem \<Rightarrow> uint64 \<Rightarrow> uint64 \<Rightarrow> bytemem option" where
  "u_strcpy m s t = (let m' = m(s := m t) in if m' s \<noteq> 0 then u_strcpy m' (s + 1) (t + 1) else Some m')"

partial_function (option) u_strcmp :: "bytemem \<Rightarrow> uint64 \<Rightarrow> uint64 \<Rightarrow> int option" where
  "u_strcmp m p q =
     (if m p \<noteq> 0 \<and> m p = m q then u_strcmp m (p + 1) (q + 1) else Some (uint (m p) - uint (m q)))"

fun u_memset_loop :: "bytemem \<Rightarrow> uint64 \<Rightarrow> uint8 \<Rightarrow> nat \<Rightarrow> nat \<Rightarrow> bytemem" where
  "u_memset_loop m dst c i 0 = m"
| "u_memset_loop m dst c i (Suc n) = u_memset_loop (m(dst + of_nat i := c)) dst c (Suc i) n"

definition u_memset :: "bytemem \<Rightarrow> uint64 \<Rightarrow> uint8 \<Rightarrow> nat \<Rightarrow> bytemem" where
  "u_memset m dst c n = u_memset_loop m dst c 0 n"

definition u_memmove :: "bytemem \<Rightarrow> uint64 \<Rightarrow> uint64 \<Rightarrow> nat \<Rightarrow> bytemem" where
  "u_memmove m dst src n =
     (if src > dst then move_forward m dst src n else move_back m (dst + of_nat n) (src + of_nat n) n)"

fun u_memcmp :: "bytemem \<Rightarrow> uint64 \<Rightarrow> uint64 \<Rightarrow> nat \<Rightarrow> int" where
  "u_memcmp m p1 p2 0 = 0"
| "u_memcmp m p1 p2 (Suc n) =
     (if m p1 \<noteq> m p2 then uint (m p1) - uint (m p2) else u_memcmp m (p1 + 1) (p2 + 1) n)"

definition u_memcpy :: "bytemem \<Rightarrow> uint64 \<Rightarrow> uint64 \<Rightarrow> nat \<Rightarrow> bytemem" where
  "u_memcpy m dst src n = u_memmove m dst src n"

text \<open>\<open>stat\<close> through the system calls \<open>open\<close>, \<open>fstat\<close> and \<open>close\<close> on the state of the system.\<close>

definition u_stat ::
  "('n \<Rightarrow> int \<Rightarrow> 's \<Rightarrow> int \<times> 's) \<Rightarrow> (int \<Rightarrow> 'a \<Rightarrow> 's \<Rightarrow> int \<times> 's) \<Rightarrow> (int \<Rightarrow> 's \<Rightarrow> 's) \<Rightarrow> 'n \<Rightarrow> 'a \<Rightarrow> 's \<Rightarrow> int \<times> 's" where
  "u_stat open_call fstat close n st s =
     (case open_call n O_RDONLY s of (fd, s) \<Rightarrow>
        if fd < 0 then (-1, s)
        else case fstat fd st s of (r, s) \<Rightarrow> (r, close fd s))"

text \<open>\<open>sbrk\<close> and \<open>sbrklazy\<close> differ in the second argument of the system call.\<close>

definition SBRK_EAGER :: int where "SBRK_EAGER = 1"
definition SBRK_LAZY :: int where "SBRK_LAZY = 2"

definition u_sbrk :: "(int \<Rightarrow> int \<Rightarrow> 's \<Rightarrow> uint64 \<times> 's) \<Rightarrow> int \<Rightarrow> 's \<Rightarrow> uint64 \<times> 's" where
  "u_sbrk sys_sbrk n = sys_sbrk n SBRK_EAGER"

definition u_sbrklazy :: "(int \<Rightarrow> int \<Rightarrow> 's \<Rightarrow> uint64 \<times> 's) \<Rightarrow> int \<Rightarrow> 's \<Rightarrow> uint64 \<times> 's" where
  "u_sbrklazy sys_sbrk n = sys_sbrk n SBRK_LAZY"

section \<open>The library against the kernel's routines\<close>

lemma u_memset_eq: "u_memset_loop m dst c i n = fold (\<lambda>k m. m(dst + of_nat k := c)) [i..<i + n] m"
  by (induction n arbitrary: m i) (simp_all add: upt_conv_Cons del: upt_Suc)

lemma u_memset_kernel: "u_memset m dst c n = memset m dst c n"
  by (simp add: u_memset_def memset_def u_memset_eq)

lemma u_memcmp_kernel: "u_memcmp m p q n = memcmp m p q n"
  by (induction n arbitrary: p q) simp_all

text \<open>Both versions of \<open>memmove\<close> copy as if through a temporary buffer, although they choose the direction differently.\<close>

lemma u_memmove_copies:
  assumes "run_ok dst n" "run_ok src n"
  shows "u_memmove m dst src n = st_bytes m dst (ld_bytes m src n)"
proof (cases "src > dst")
  case True
  then show ?thesis using move_forward_eq [OF assms] by (simp add: u_memmove_def word_less_nat_alt)
next
  case False
  then show ?thesis using move_back_eq [OF assms] by (simp add: u_memmove_def word_less_nat_alt)
qed

text \<open>\<open>strcpy\<close> of a string of \<open>k\<close> bytes that does not overlap its destination writes these and the null byte.\<close>

lemma u_strcpy_forward:
  assumes "m (t + of_nat k) = 0" "\<And>i. i < k \<Longrightarrow> m (t + of_nat i) \<noteq> 0" "\<And>i. i \<le> k \<Longrightarrow> t + of_nat i \<noteq> s" "\<And>i j. i \<le> k \<Longrightarrow> j \<le> k \<Longrightarrow> t + of_nat i \<noteq> s + of_nat j"
  shows "u_strcpy m s t = Some (move_forward m s t (Suc k))"
  using assms
proof (induction k arbitrary: m s t)
  case 0
  then show ?case by (subst u_strcpy.simps) (simp add: Let_def)
next
  case (Suc k)
  let ?m = "m(s := m t)"
  have sh: "t + 1 + of_nat i = t + of_nat (Suc i)" "s + 1 + of_nat i = s + of_nat (Suc i)" for i by simp_all
  have ne: "t + of_nat (Suc i) \<noteq> s" if "i \<le> k" for i using Suc.prems(3) [of "Suc i"] that by simp
  have "u_strcpy ?m (s + 1) (t + 1) = Some (move_forward ?m (s + 1) (t + 1) (Suc k))"
  proof (rule Suc.IH; unfold sh)
    show "?m (t + of_nat (Suc k)) = 0" using Suc.prems(1) ne [of k] by simp
    show "?m (t + of_nat (Suc i)) \<noteq> 0" if "i < k" for i using Suc.prems(2) [of "Suc i"] ne [of i] that by simp
    show "t + of_nat (Suc i) \<noteq> s + 1" if "i \<le> k" for i using Suc.prems(4) [of "Suc i" 1] that by simp
    show "t + of_nat (Suc i) \<noteq> s + of_nat (Suc j)" if "i \<le> k" "j \<le> k" for i j using Suc.prems(4) [of "Suc i" "Suc j"] that by simp
  qed
  moreover have "m t \<noteq> 0" using Suc.prems(2) [of 0] by simp
  ultimately show ?case by (subst u_strcpy.simps) (simp add: Let_def)
qed

lemma u_strcpy_copies:
  assumes "m (t + of_nat k) = 0" "\<And>i. i < k \<Longrightarrow> m (t + of_nat i) \<noteq> 0" "run_ok s (Suc k)" "run_ok t (Suc k)"
    "unat t + k < unat s \<or> unat s + k < unat t"
  shows "u_strcpy m s t = Some (st_bytes m s (ld_bytes m t (Suc k)))"
proof -
  have ne: "t + of_nat i \<noteq> s + of_nat j" if "i \<le> k" "j \<le> k" for i j
    using unat_plus [OF assms(4), of i] unat_plus [OF assms(3), of j] that assms(5) by auto
  have "u_strcpy m s t = Some (move_forward m s t (Suc k))"
    by (rule u_strcpy_forward) (use assms ne ne [of _ 0] in simp_all)
  also have "move_forward m s t (Suc k) = st_bytes m s (ld_bytes m t (Suc k))"
    by (rule move_forward_eq) (use assms in auto)
  finally show ?thesis .
qed

end
