(* ===== verification/Grep.thy ===== *)
theory Grep
  imports Xv6_Prelude
begin

text \<open>The pattern matcher and the line loop of \<open>user/grep.c\<close>.

  Patterns and lines are C strings, given by their characters before the null byte. The matcher is compared with the
  language of the pattern, and the loop, which reads its input in pieces through a buffer of 1024 bytes, with the list
  of the input's lines.\<close>

section \<open>Model\<close>

definition EOS :: char where "EOS = CHR 0x00"
definition NL :: char where "NL = CHR 0x0A"

text \<open>\<open>matchstar\<close> is the loop; its recursion into \<open>matchhere\<close> is on the rest of the pattern.\<close>

function matchhere :: "string \<Rightarrow> string \<Rightarrow> bool" and matchstar :: "char \<Rightarrow> string \<Rightarrow> string \<Rightarrow> bool" where
  "matchhere re text =
     (case re of
        [] \<Rightarrow> True
      | c # re' \<Rightarrow>
        if re' \<noteq> [] \<and> hd re' = CHR ''*'' then matchstar c (tl re') text
        else if c = CHR ''$'' \<and> re' = [] then text = []
        else if text \<noteq> [] \<and> (c = CHR ''.'' \<or> c = hd text) then matchhere re' (tl text)
        else False)"
| "matchstar c re text =
     (if matchhere re text then True
      else case text of
             [] \<Rightarrow> False
           | t # text' \<Rightarrow> if t = c \<or> c = CHR ''.'' then matchstar c re text' else False)"
  by pat_completeness auto

termination
  by (relation "measures [case_sum (\<lambda>(re, text). length re) (\<lambda>(c, re, text). length re),
      case_sum (\<lambda>_. 0) (\<lambda>(c, re, text). Suc (length text))]") (auto simp: neq_Nil_conv)

declare matchhere.simps [simp del] matchstar.simps [simp del]

fun match_from :: "string \<Rightarrow> string \<Rightarrow> bool" where
  "match_from re [] = matchhere re []"
| "match_from re (t # text) = (if matchhere re (t # text) then True else match_from re text)"

definition match :: "string \<Rightarrow> string \<Rightarrow> bool" where
  "match re text = (if re \<noteq> [] \<and> hd re = CHR ''^'' then matchhere (tl re) text else match_from re text)"

definition BUFSIZE :: nat where "BUFSIZE = 1024"

text \<open>The inner loop on the buffer: \<open>strchr\<close> looks for a newline before the first null byte. The results are what is written
  and what is left in the buffer from \<open>p\<close> on.\<close>

function grep_lines :: "string \<Rightarrow> string \<Rightarrow> string \<times> string" where
  "grep_lines re p =
     (let line = takeWhile (\<lambda>c. c \<noteq> NL \<and> c \<noteq> EOS) p; rest = drop (length line) p
      in if rest \<noteq> [] \<and> hd rest = NL then
           (case grep_lines re (tl rest) of (out, left) \<Rightarrow>
              ((if match re line then line @ [NL] else []) @ out, left))
         else ([], p))"
  by auto

termination
proof (relation "measure (\<lambda>(re, p). length p)")
  fix re p line rest
  assume "line = takeWhile (\<lambda>c. c \<noteq> NL \<and> c \<noteq> EOS) p" "rest = drop (length line) p" "rest \<noteq> [] \<and> hd rest = NL"
  then have "length rest \<le> length p" "rest \<noteq> []" by simp_all
  then show "((re, tl rest), re, p) \<in> measure (\<lambda>(re, p). length p)" by (cases rest) auto
qed simp

declare grep_lines.simps [simp del]

text \<open>The outer loop. \<open>inp\<close> is the input that is still to come and \<open>avail i\<close> one less than what the \<open>i\<close>-th call of \<open>read\<close> could
  give at most; \<open>m\<close> is the content of the buffer.\<close>

function grep :: "string \<Rightarrow> (nat \<Rightarrow> nat) \<Rightarrow> nat \<Rightarrow> string \<Rightarrow> string \<Rightarrow> string" where
  "grep re avail i m inp =
     (let chunk = take (min (Suc (avail i)) (BUFSIZE - length m - 1)) inp
      in if chunk = [] then []
         else case grep_lines re (m @ chunk) of (out, left) \<Rightarrow>
                out @ grep re avail (Suc i) left (drop (length chunk) inp))"
  by auto

termination
  by (relation "measure (\<lambda>(re, avail, i, m, inp). length inp)") auto

declare grep.simps [simp del]

text \<open>\<open>main\<close>: what is written to the standard output and the standard error, and the exit status. A file is its content and
  how it is read, \<open>None\<close> if it cannot be opened.\<close>

fun grep_files :: "string \<Rightarrow> (string \<Rightarrow> (string \<times> (nat \<Rightarrow> nat)) option) \<Rightarrow> string list \<Rightarrow> string \<times> int" where
  "grep_files re open_file [] = ([], 0)"
| "grep_files re open_file (f # fs) =
     (case open_file f of
        None \<Rightarrow> (''grep: cannot open '' @ f @ [NL], 1)
      | Some (inp, avail) \<Rightarrow>
        (case grep_files re open_file fs of (out, st) \<Rightarrow> (grep re avail 0 [] inp @ out, st)))"

definition grep_main ::
  "string list \<Rightarrow> string \<times> (nat \<Rightarrow> nat) \<Rightarrow> (string \<Rightarrow> (string \<times> (nat \<Rightarrow> nat)) option) \<Rightarrow> string \<times> string \<times> int" where
  "grep_main argv stdin open_file =
     (if length argv \<le> 1 then ([], ''usage: grep pattern [file ...]'' @ [NL], 1)
      else if length argv \<le> 2 then (grep (argv ! 1) (snd stdin) 0 [] (fst stdin), [], 0)
      else case grep_files (argv ! 1) open_file (drop 2 argv) of (out, st) \<Rightarrow> (out, [], st))"

section \<open>The language of a pattern\<close>

datatype re_piece = One char | Many char

definition fits :: "char \<Rightarrow> char \<Rightarrow> bool" where
  "fits c t \<longleftrightarrow> c = CHR ''.'' \<or> t = c"

fun piece_lang :: "re_piece \<Rightarrow> string set" where
  "piece_lang (One c) = {[t] | t. fits c t}"
| "piece_lang (Many c) = {ts. \<forall>t\<in>set ts. fits c t}"

primrec lang :: "re_piece list \<Rightarrow> string set" where
  "lang [] = {[]}"
| "lang (p # ps) = {xs @ ys | xs ys. xs \<in> piece_lang p \<and> ys \<in> lang ps}"

text \<open>The pieces of a pattern without its leading \<open>^\<close>, and whether it ends in an anchor.\<close>

fun pieces :: "string \<Rightarrow> re_piece list \<times> bool" where
  "pieces [] = ([], False)"
| "pieces [c] = (if c = CHR ''$'' then ([], True) else ([One c], False))"
| "pieces (c # d # re) =
     (if d = CHR ''*'' then map_prod (Cons (Many c)) id (pieces re) else map_prod (Cons (One c)) id (pieces (d # re)))"

text \<open>The text begins with a word of the pieces, and is such a word if the end is anchored.\<close>

definition begins :: "re_piece list \<Rightarrow> bool \<Rightarrow> string \<Rightarrow> bool" where
  "begins ps e text \<longleftrightarrow> (\<exists>x y. text = x @ y \<and> x \<in> lang ps \<and> (e \<longrightarrow> y = []))"

definition here :: "string \<Rightarrow> string \<Rightarrow> bool" where
  "here re = begins (fst (pieces re)) (snd (pieces re))"

lemma begins_Cons: "begins (p # ps) e text \<longleftrightarrow> (\<exists>x y. text = x @ y \<and> x \<in> piece_lang p \<and> begins ps e y)"
proof
  assume "begins (p # ps) e text"
  then obtain z y where z: "text = z @ y" "z \<in> lang (p # ps)" "e \<longrightarrow> y = []" unfolding begins_def by blast
  then obtain xs ys where "z = xs @ ys" "xs \<in> piece_lang p" "ys \<in> lang ps" by auto
  moreover have "begins ps e (ys @ y)" using z(3) calculation(3) unfolding begins_def by blast
  ultimately show "\<exists>x y. text = x @ y \<and> x \<in> piece_lang p \<and> begins ps e y" using z(1) by (metis append_assoc)
next
  assume "\<exists>x y. text = x @ y \<and> x \<in> piece_lang p \<and> begins ps e y"
  then obtain xs ys y where x: "text = xs @ (ys @ y)" "xs \<in> piece_lang p" "ys \<in> lang ps" "e \<longrightarrow> y = []"
    unfolding begins_def by blast
  then have "xs @ ys \<in> lang (p # ps)" by auto
  then show "begins (p # ps) e text" using x(1,4) unfolding begins_def by (metis append_assoc)
qed

lemma here_Nil: "here [] text"
  by (simp add: here_def begins_def)

lemma here_dollar: "here ''$'' text \<longleftrightarrow> text = []"
  by (simp add: here_def begins_def)

lemma here_One:
  assumes "pieces re = map_prod (Cons (One c)) id (pieces re')"
  shows "here re text \<longleftrightarrow> text \<noteq> [] \<and> fits c (hd text) \<and> here re' (tl text)"
proof (cases "text")
  case (Cons t ts)
  have "(\<exists>x y. t # ts = x @ y \<and> (\<exists>a. x = [a] \<and> fits c a) \<and> B y) \<longleftrightarrow> fits c t \<and> B ts" for B
    by (auto intro: exI [of _ "[t]"])
  then show ?thesis using assms Cons by (simp add: here_def begins_Cons)
qed (use assms in \<open>simp add: here_def begins_Cons\<close>)

lemma here_Many:
  assumes "pieces re = map_prod (Cons (Many c)) id (pieces re')"
  shows "here re text \<longleftrightarrow> (\<exists>x y. text = x @ y \<and> (\<forall>t\<in>set x. fits c t) \<and> here re' y)"
  using assms by (simp add: here_def begins_Cons)

lemma matchstar_iff:
  assumes "\<And>text. matchhere re text \<longleftrightarrow> here re text"
  shows "matchstar c re text \<longleftrightarrow> (\<exists>x y. text = x @ y \<and> (\<forall>t\<in>set x. fits c t) \<and> here re y)"
proof (induction "text")
  case Nil
  then show ?case by (simp add: matchstar.simps assms)
next
  case (Cons t ts)
  have eq: "(\<exists>x y. t # ts = x @ y \<and> (\<forall>t\<in>set x. fits c t) \<and> here re y) \<longleftrightarrow>
      here re (t # ts) \<or> fits c t \<and> (\<exists>x y. ts = x @ y \<and> (\<forall>t\<in>set x. fits c t) \<and> here re y)"
    (is "?l \<longleftrightarrow> ?r")
  proof
    assume ?l
    then obtain x y where xy: "t # ts = x @ y" "\<forall>t\<in>set x. fits c t" "here re y" by blast
    show ?r
    proof (cases x)
      case Nil
      then show ?thesis using xy by simp
    next
      case (Cons a x')
      then have "ts = x' @ y" "fits c t" "\<forall>t\<in>set x'. fits c t" using xy by auto
      with xy(3) show ?thesis by blast
    qed
  next
    assume ?r
    then consider "here re (t # ts)" | x y where "fits c t" "ts = x @ y" "\<forall>t\<in>set x. fits c t" "here re y" by blast
    then show ?l
    proof cases
      case 1
      then have "t # ts = [] @ (t # ts) \<and> (\<forall>t\<in>set []. fits c t) \<and> here re (t # ts)" by simp
      then show ?thesis by blast
    next
      case 2
      then show ?thesis by (intro exI [of _ "t # x"] exI [of _ y]) simp
    qed
  qed
  have "matchstar c re (t # ts) \<longleftrightarrow> here re (t # ts) \<or> fits c t \<and> matchstar c re ts"
    by (auto simp: matchstar.simps [of c re "t # ts"] assms fits_def)
  then show ?case unfolding eq Cons.IH .
qed

lemma matchhere_iff: "matchhere re text \<longleftrightarrow> here re text"
proof (induction "length re" arbitrary: re "text" rule: less_induct)
  case less
  consider "re = []" | "re = ''$''" | c where "re = [c]" "c \<noteq> CHR ''$''" | c re' where "re = c # CHR ''*'' # re'"
    | c d re' where "re = c # d # re'" "d \<noteq> CHR ''*''"
    by (cases re; cases "tl re") auto
  then show ?case
  proof cases
    case 3
    then show ?thesis
      using here_One [of "[c]" c "[]" "text"] by (auto simp: matchhere.simps [of "[c]"] matchhere.simps [of "[]"] here_Nil fits_def)
  next
    case 4
    then show ?thesis
      using here_Many [of re c re' "text"] matchstar_iff [of re' c "text"] less.hyps [of re'] by (simp add: matchhere.simps [of "c # CHR ''*'' # re'"])
  next
    case 5
    then show ?thesis
      using here_One [of re c "d # re'" "text"] less.hyps [of "d # re'"] by (auto simp: matchhere.simps [of "c # d # re'"] fits_def)
  qed (simp_all add: matchhere.simps here_Nil here_dollar)
qed

lemma match_from_iff: "match_from re text \<longleftrightarrow> (\<exists>x y. text = x @ y \<and> here re y)"
proof (induction "text")
  case (Cons t ts)
  have "(\<exists>x y. t # ts = x @ y \<and> here re y) \<longleftrightarrow> here re (t # ts) \<or> (\<exists>x y. ts = x @ y \<and> here re y)"
    by (metis append_Cons append_Nil list.exhaust list.inject)
  then show ?case using Cons.IH by (simp add: matchhere_iff)
qed (simp add: matchhere_iff)

section \<open>The lines of the input\<close>

text \<open>The complete lines of a text, without their newlines, and what follows the last newline.\<close>

fun split_lines :: "string \<Rightarrow> string list \<times> string" where
  "split_lines [] = ([], [])"
| "split_lines (c # cs) =
     (case split_lines cs of (ls, r) \<Rightarrow>
        if c = NL then ([] # ls, r)
        else case ls of [] \<Rightarrow> ([], c # r) | l # ls' \<Rightarrow> ((c # l) # ls', r))"

definition matching :: "string \<Rightarrow> string list \<Rightarrow> string" where
  "matching re ls = concat (map (\<lambda>l. l @ [NL]) (filter (match re) ls))"

lemma split_lines_line: "NL \<notin> set l \<Longrightarrow> split_lines (l @ NL # cs) = (case split_lines cs of (ls, r) \<Rightarrow> (l # ls, r))"
  by (induction l) (auto split: prod.splits)

lemma split_lines_none: "NL \<notin> set cs \<Longrightarrow> split_lines cs = ([], cs)"
  by (induction cs) auto

lemma split_lines_append:
  "split_lines (xs @ ys) = (let (ls, r) = split_lines xs; (ls', r') = split_lines (r @ ys) in (ls @ ls', r'))"
proof (induction "length xs" arbitrary: xs rule: less_induct)
  case less
  show ?case
  proof (cases "NL \<in> set xs")
    case True
    then obtain l cs where xs: "xs = l @ NL # cs" "NL \<notin> set l" by (meson split_list_first)
    then show ?thesis using less.hyps [of cs] by (simp add: split_lines_line split: prod.splits)
  qed (simp add: split_lines_none)
qed

lemma grep_lines_split:
  assumes "EOS \<notin> set p"
  shows "grep_lines re p = (matching re (fst (split_lines p)), snd (split_lines p))"
  using assms
proof (induction "length p" arbitrary: p rule: less_induct)
  case less
  let ?line = "takeWhile (\<lambda>c. c \<noteq> NL \<and> c \<noteq> EOS) p"
  have tw: "?line = takeWhile (\<lambda>c. c \<noteq> NL) p" using less.prems by (intro takeWhile_cong) auto
  show ?case
  proof (cases "NL \<in> set p")
    case True
    then obtain l cs where p: "p = l @ NL # cs" "NL \<notin> set l" by (meson split_list_first)
    then have "?line = l" unfolding tw by (subst p(1), subst takeWhile_append2) auto
    then show ?thesis using p less.hyps [of cs] less.prems
      by (subst grep_lines.simps) (auto simp: split_lines_line matching_def split: prod.splits)
  next
    case False
    then have "?line = p" unfolding tw by (auto simp: takeWhile_eq_all_conv)
    then show ?thesis using False
      by (subst grep_lines.simps) (simp add: split_lines_none matching_def Let_def del: takeWhile_eq_all_conv)
  qed
qed

lemma split_lines_rest: "NL \<notin> set (snd (split_lines cs)) \<and> set (snd (split_lines cs)) \<subseteq> set cs"
  by (induction cs) (auto split: prod.splits list.splits)

lemma split_lines_short:
  assumes "\<forall>l\<in>set (fst (split_lines (m @ inp))). length l < k" "NL \<notin> set m" "k \<le> length m"
  shows "fst (split_lines (m @ inp)) = []"
proof (cases "NL \<in> set inp")
  case True
  then obtain l cs where inp: "inp = l @ NL # cs" "NL \<notin> set l" by (meson split_list_first)
  then have "m @ l \<in> set (fst (split_lines (m @ inp)))"
    using split_lines_line [of "m @ l" cs] assms(2) by (simp split: prod.splits)
  then show ?thesis using assms(1,3) by fastforce
next
  case False
  then show ?thesis using split_lines_none [of "m @ inp"] assms(2) by simp
qed

lemma grep_reads_lines:
  assumes "EOS \<notin> set (m @ inp)" "NL \<notin> set m" "\<forall>l\<in>set (fst (split_lines (m @ inp))). length l < BUFSIZE - 1"
  shows "grep re avail i m inp = matching re (fst (split_lines (m @ inp)))"
  using assms
proof (induction "length inp" arbitrary: i m inp rule: less_induct)
  case less
  define chunk where "chunk = take (min (Suc (avail i)) (BUFSIZE - length m - 1)) inp"
  define rest where "rest = drop (length chunk) inp"
  have unf: "grep re avail i m inp = (if chunk = [] then [] else case grep_lines re (m @ chunk) of (out, left) \<Rightarrow>
      out @ grep re avail (Suc i) left rest)"
    by (subst grep.simps) (simp only: Let_def chunk_def rest_def)
  have inp: "inp = chunk @ rest" by (simp add: chunk_def rest_def min_def not_le take_all [symmetric])
  show ?case
  proof (cases "chunk = []")
    case True
    then consider "inp = []" | "BUFSIZE - 1 \<le> length m" by (auto simp: chunk_def)
    then have "fst (split_lines (m @ inp)) = []"
      using less.prems(2,3) split_lines_none [of m] split_lines_short [of m inp "BUFSIZE - 1"] by cases auto
    then show ?thesis using True unf by (simp add: matching_def)
  next
    case False
    obtain ls left where sp: "split_lines (m @ chunk) = (ls, left)" by fastforce
    have all: "split_lines (m @ inp) = (ls @ fst (split_lines (left @ rest)), snd (split_lines (left @ rest)))"
      using split_lines_append [of "m @ chunk" rest] sp by (subst inp) (simp split: prod.splits)
    have nul: "EOS \<notin> set (m @ chunk)" "EOS \<notin> set rest" using less.prems(1) by (simp_all add: inp)
    have left: "NL \<notin> set left" "set left \<subseteq> set (m @ chunk)" using split_lines_rest [of "m @ chunk"] sp by simp_all
    have "grep re avail (Suc i) left rest = matching re (fst (split_lines (left @ rest)))"
      using False nul left less.prems(3) all by (intro less.hyps) (auto simp: inp)
    then show ?thesis using False unf grep_lines_split [OF nul(1), of re] sp all by (simp add: matching_def)
  qed
qed

section \<open>Properties\<close>

text \<open>The strings a pattern asks for: a word of its pieces, at the start of the line after \<open>^\<close>, at its end before \<open>$\<close>.\<close>

definition asks_for :: "string \<Rightarrow> string \<Rightarrow> bool" where
  "asks_for re l \<longleftrightarrow>
     (let start = (re \<noteq> [] \<and> hd re = CHR ''^''); (ps, end) = pieces (if start then tl re else re)
      in \<exists>x w y. l = x @ w @ y \<and> w \<in> lang ps \<and> (start \<longrightarrow> x = []) \<and> (end \<longrightarrow> y = []))"

lemma match_asks_for: "match re l \<longleftrightarrow> asks_for re l"
proof (cases "re \<noteq> [] \<and> hd re = CHR ''^''")
  case True
  then show ?thesis by (auto simp: match_def asks_for_def matchhere_iff here_def begins_def split: prod.splits)
next
  case False
  then show ?thesis by (auto simp: match_def asks_for_def match_from_iff here_def begins_def split: prod.splits)
qed

text \<open>C22: \<open>grep\<close> writes exactly the lines that contain a string the pattern asks for, in their order, each with its newline,
  however the input is cut into pieces by the calls of \<open>read\<close>. The matcher with its backtracking for \<open>*\<close> is thus
  equivalent to the language of the pattern, and no line is lost or joined at the end of the buffer, as long as every
  line fits into the buffer and the input has no null byte.\<close>

theorem grep_prints_matching_lines:
  assumes "EOS \<notin> set inp" "\<forall>l\<in>set (fst (split_lines inp)). length l < BUFSIZE - 1"
  shows "grep re avail 0 [] inp = concat (map (\<lambda>l. l @ [NL]) (filter (asks_for re) (fst (split_lines inp))))"
  using grep_reads_lines [of "[]" inp re avail 0] assms by (simp add: matching_def match_asks_for [abs_def])

theorem grep_prints_matching_lines_witness:
  "grep ''^b.*k$'' (\<lambda>i. 2) 0 [] (''ab'' @ [NL] @ ''back'' @ [NL] @ ''bk'' @ [NL] @ ''bake'') = ''back'' @ [NL] @ ''bk'' @ [NL]"
proof -
  let ?inp = "''ab'' @ [NL] @ ''back'' @ [NL] @ ''bk'' @ [NL] @ ''bake''"
  have "split_lines ?inp = ([''ab'', ''back'', ''bk''], ''bake'')" "EOS \<notin> set ?inp" by (simp_all add: NL_def EOS_def)
  moreover have "asks_for ''^b.*k$'' = match ''^b.*k$''" by (simp add: match_asks_for fun_eq_iff)
  moreover have "filter (match ''^b.*k$'') [''ab'', ''back'', ''bk''] = [''back'', ''bk'']" by code_simp
  ultimately show ?thesis
    using grep_prints_matching_lines [of ?inp "''^b.*k$''" "\<lambda>i. 2"] by (simp add: BUFSIZE_def)
qed

text \<open>A line that does not fit ends the program's reading: nothing after its first 1023 characters is looked at.\<close>

theorem grep_long_line_stops:
  assumes "NL \<notin> set (m @ l)" "EOS \<notin> set (m @ l)" "BUFSIZE - 1 \<le> length (m @ l)" "length m \<le> BUFSIZE - 1"
  shows "grep re avail i m (l @ inp) = []"
  using assms
proof (induction "length l" arbitrary: i m l rule: less_induct)
  case less
  define k where "k = min (Suc (avail i)) (BUFSIZE - length m - 1)"
  have k: "k \<le> length l" "length m + k \<le> BUFSIZE - 1" using less.prems(3,4) by (auto simp: k_def)
  then have tk: "take k (l @ inp) = take k l" "drop (length (take k l)) (l @ inp) = drop k l @ inp" by (simp_all add: min_def)
  have unf: "grep re avail i m (l @ inp) = (if take k l = [] then [] else case grep_lines re (m @ take k l) of (out, left) \<Rightarrow>
      out @ grep re avail (Suc i) left (drop k l @ inp))"
    by (subst grep.simps) (simp only: Let_def k_def [symmetric] tk)
  have ml: "EOS \<notin> set (m @ take k l)" "NL \<notin> set (m @ take k l)" using less.prems(1,2) by (auto dest: in_set_takeD)
  show ?case
  proof (cases "take k l = []")
    case False
    then have "grep re avail (Suc i) (m @ take k l) (drop k l @ inp) = []"
      using less.prems k by (intro less.hyps) (auto dest: in_set_takeD in_set_dropD simp: min_def)
    then show ?thesis using unf grep_lines_split [OF ml(1), of re] split_lines_none [OF ml(2)] by (simp add: matching_def)
  qed (simp add: unf)
qed

end
