(* ===== verification/User_Tools.thy ===== *)
theory User_Tools
  imports Grep Printf
begin

text \<open>The small user programs: \<open>cat\<close>, \<open>echo\<close>, \<open>kill\<close>, \<open>ln\<close>, \<open>mkdir\<close>, \<open>rm\<close>, \<open>wc\<close>, \<open>ls\<close> and \<open>init\<close>.

  A program is a function of its arguments and of what the system calls return. A file or device that is read is the list of
  the pieces its calls of \<open>read\<close> give, and whether the last one fails. The result holds the text written to the standard
  output and to the standard error, and the exit status.\<close>

section \<open>Model\<close>

type_synonym read_results = "string list \<times> bool"

record run_result =
  stdout :: string
  stderr :: string
  status :: int

definition say :: "string \<Rightarrow> arg list \<Rightarrow> string" where
  "say fmt args = (case vprintf fmt args of Some t \<Rightarrow> t | None \<Rightarrow> [])"

definition line :: "string \<Rightarrow> string" where
  "line t = t @ [NL]"

subsection \<open>cat\<close>

text \<open>\<open>wr i\<close> is the number of bytes that the \<open>i\<close>-th call of \<open>write\<close> can write. The result is what is written, the message for the
  standard error and whether the program ends.\<close>

fun cat_loop :: "(nat \<Rightarrow> nat) \<Rightarrow> nat \<Rightarrow> string list \<Rightarrow> bool \<Rightarrow> string \<times> string \<times> bool" where
  "cat_loop wr i [] err = (if err then ([], line ''cat: read error'', True) else ([], [], False))"
| "cat_loop wr i (c # cs) err =
     (if wr i < length c then (take (wr i) c, line ''cat: write error'', True)
      else case cat_loop wr (Suc i) cs err of (out, e, stop) \<Rightarrow> (c @ out, e, stop))"

definition cat :: "(nat \<Rightarrow> nat) \<Rightarrow> read_results \<Rightarrow> string \<times> string \<times> bool" where
  "cat wr src = cat_loop wr 0 (fst src) (snd src)"

fun cat_files :: "(string \<Rightarrow> read_results option) \<Rightarrow> (nat \<Rightarrow> nat) \<Rightarrow> string list \<Rightarrow> run_result" where
  "cat_files open_file wr [] = \<lparr>stdout = [], stderr = [], status = 0\<rparr>"
| "cat_files open_file wr (f # fs) =
     (case open_file f of
        None \<Rightarrow> \<lparr>stdout = [], stderr = say (line ''cat: cannot open %s'') [Str (Some f)], status = 1\<rparr>
      | Some src \<Rightarrow>
        (case cat wr src of (out, e, stop) \<Rightarrow>
           if stop then \<lparr>stdout = out, stderr = e, status = 1\<rparr>
           else let r = cat_files open_file (\<lambda>i. wr (length (fst src) + i)) fs in r\<lparr>stdout := out @ stdout r\<rparr>))"

definition cat_main :: "string list \<Rightarrow> read_results \<Rightarrow> (string \<Rightarrow> read_results option) \<Rightarrow> (nat \<Rightarrow> nat) \<Rightarrow> run_result" where
  "cat_main argv stdin open_file wr =
     (if length argv \<le> 1
      then (case cat wr stdin of (out, e, stop) \<Rightarrow> \<lparr>stdout = out, stderr = e, status = of_bool stop\<rparr>)
      else cat_files open_file wr (tl argv))"

subsection \<open>echo, kill, ln, mkdir, rm\<close>

fun echo_args :: "string list \<Rightarrow> string" where
  "echo_args [] = []"
| "echo_args [a] = a @ [NL]"
| "echo_args (a # b # args) = a @ '' '' @ echo_args (b # args)"

definition echo_main :: "string list \<Rightarrow> run_result" where
  "echo_main argv = \<lparr>stdout = echo_args (tl argv), stderr = [], status = 0\<rparr>"

text \<open>The process numbers \<open>kill\<close> is called with, and the result.\<close>

definition kill_main :: "string list \<Rightarrow> int list \<times> run_result" where
  "kill_main argv =
     (if length argv < 2 then ([], \<lparr>stdout = [], stderr = line ''usage: kill pid...'', status = 1\<rparr>)
      else (map atoi (tl argv), \<lparr>stdout = [], stderr = [], status = 0\<rparr>))"

definition ln_main :: "string list \<Rightarrow> (string \<Rightarrow> string \<Rightarrow> int) \<Rightarrow> run_result" where
  "ln_main argv link =
     (if length argv \<noteq> 3 then \<lparr>stdout = [], stderr = line ''Usage: ln old new'', status = 1\<rparr>
      else \<lparr>stdout = [],
             stderr = (if link (argv ! 1) (argv ! 2) < 0
                       then say (line ''link %s %s: failed'') [Str (Some (argv ! 1)), Str (Some (argv ! 2))] else []),
             status = 0\<rparr>)"

text \<open>The loops of \<open>mkdir\<close> and \<open>rm\<close> end at the first call that fails; the paths they call with are the first result.\<close>

fun until_failure :: "(string \<Rightarrow> int) \<Rightarrow> string \<Rightarrow> string list \<Rightarrow> string list \<times> string" where
  "until_failure call msg [] = ([], [])"
| "until_failure call msg (f # fs) =
     (if call f < 0 then ([f], say (line msg) [Str (Some f)])
      else case until_failure call msg fs of (done, e) \<Rightarrow> (f # done, e))"

definition mkdir_main :: "string list \<Rightarrow> (string \<Rightarrow> int) \<Rightarrow> string list \<times> run_result" where
  "mkdir_main argv mkdir =
     (if length argv < 2 then ([], \<lparr>stdout = [], stderr = line ''Usage: mkdir files...'', status = 1\<rparr>)
      else case until_failure mkdir ''mkdir: %s failed to create'' (tl argv) of
             (called, e) \<Rightarrow> (called, \<lparr>stdout = [], stderr = e, status = 0\<rparr>))"

definition rm_main :: "string list \<Rightarrow> (string \<Rightarrow> int) \<Rightarrow> string list \<times> run_result" where
  "rm_main argv unlink =
     (if length argv < 2 then ([], \<lparr>stdout = [], stderr = line ''Usage: rm files...'', status = 1\<rparr>)
      else case until_failure unlink ''rm: %s failed to delete'' (tl argv) of
             (called, e) \<Rightarrow> (called, \<lparr>stdout = [], stderr = e, status = 0\<rparr>))"

subsection \<open>wc\<close>

record wc_state =
  wc_l :: nat
  wc_w :: nat
  wc_c :: nat
  inword :: bool

definition wc_blank :: "char \<Rightarrow> bool" where
  "wc_blank c \<longleftrightarrow> c \<in> set [CHR '' '', CHR 0x0D, CHR 0x09, NL, CHR 0x0B]"

definition wc_char :: "char \<Rightarrow> wc_state \<Rightarrow> wc_state" where
  "wc_char c x =
     (let x = x\<lparr>wc_c := wc_c x + 1\<rparr>;
          x = (if c = NL then x\<lparr>wc_l := wc_l x + 1\<rparr> else x)
      in if wc_blank c then x\<lparr>inword := False\<rparr>
         else if \<not> inword x then x\<lparr>wc_w := wc_w x + 1, inword := True\<rparr>
         else x)"

definition wc_count :: "string list \<Rightarrow> wc_state" where
  "wc_count cs = fold (fold wc_char) cs \<lparr>wc_l = 0, wc_w = 0, wc_c = 0, inword = False\<rparr>"

definition wc :: "read_results \<Rightarrow> string \<Rightarrow> string \<times> bool" where
  "wc src name =
     (let x = wc_count (fst src)
      in if snd src then (line ''wc: read error'', True)
         else (say (line ''%d %d %d %s'') [Num (of_nat (wc_l x)), Num (of_nat (wc_w x)), Num (of_nat (wc_c x)), Str (Some name)], False))"

fun wc_files :: "(string \<Rightarrow> read_results option) \<Rightarrow> string list \<Rightarrow> run_result" where
  "wc_files open_file [] = \<lparr>stdout = [], stderr = [], status = 0\<rparr>"
| "wc_files open_file (f # fs) =
     (case open_file f of
        None \<Rightarrow> \<lparr>stdout = say (line ''wc: cannot open %s'') [Str (Some f)], stderr = [], status = 1\<rparr>
      | Some src \<Rightarrow>
        (case wc src f of (out, stop) \<Rightarrow>
           if stop then \<lparr>stdout = out, stderr = [], status = 1\<rparr>
           else let r = wc_files open_file fs in r\<lparr>stdout := out @ stdout r\<rparr>))"

definition wc_main :: "string list \<Rightarrow> read_results \<Rightarrow> (string \<Rightarrow> read_results option) \<Rightarrow> run_result" where
  "wc_main argv stdin open_file =
     (if length argv \<le> 1 then (case wc stdin [] of (out, stop) \<Rightarrow> \<lparr>stdout = out, stderr = [], status = of_bool stop\<rparr>)
      else wc_files open_file (tl argv))"

subsection \<open>ls\<close>

abbreviation (input) LS_DIRSIZ :: nat where "LS_DIRSIZ \<equiv> 14"

definition fmtname :: "string \<Rightarrow> string" where
  "fmtname path =
     (let p = rev (takeWhile (\<lambda>c. c \<noteq> CHR ''/'') (rev path))
      in if length p \<ge> LS_DIRSIZ then p else p @ replicate (LS_DIRSIZ - length p) CHR '' '')"

text \<open>What \<open>fstat\<close> gives: type, inode number and size. Types are 1 for a directory, 2 for a file and 3 for a device.\<close>

record ls_stat =
  ls_type :: int
  ls_ino :: nat
  ls_size :: nat

definition ls_line :: "string \<Rightarrow> ls_stat \<Rightarrow> string" where
  "ls_line path st =
     say (line ''%s %d %d %d'') [Str (Some (fmtname path)), Num (of_int (ls_type st)), Num (of_nat (ls_ino st)), Num (of_nat (ls_size st))]"

text \<open>The loop over the entries of a directory, each an inode number and the bytes of the name.\<close>

fun ls_entries :: "(string \<Rightarrow> ls_stat option) \<Rightarrow> string \<Rightarrow> (nat \<times> string) list \<Rightarrow> string" where
  "ls_entries stat path [] = []"
| "ls_entries stat path ((inum, name) # des) =
     (if inum = 0 then ls_entries stat path des
      else
        let buf = path @ ''/'' @ takeWhile (\<lambda>c. c \<noteq> EOS) (take LS_DIRSIZ name)
        in (case stat buf of
              None \<Rightarrow> say (line ''ls: cannot stat %s'') [Str (Some buf)]
            | Some st \<Rightarrow> ls_line buf st) @ ls_entries stat path des)"

definition ls ::
  "(string \<Rightarrow> (ls_stat option \<times> (nat \<times> string) list) option) \<Rightarrow> (string \<Rightarrow> ls_stat option) \<Rightarrow> string \<Rightarrow> string \<times> string" where
  "ls open_file stat path =
     (case open_file path of
        None \<Rightarrow> ([], say (line ''ls: cannot open %s'') [Str (Some path)])
      | Some (st, des) \<Rightarrow>
        (case st of
           None \<Rightarrow> ([], say (line ''ls: cannot stat %s'') [Str (Some path)])
         | Some st \<Rightarrow>
           if ls_type st = 3 \<or> ls_type st = 2 then (ls_line path st, [])
           else if ls_type st = 1 then
             if length path + 1 + LS_DIRSIZ + 1 > 512 then (line ''ls: path too long'', [])
             else (ls_entries stat path des, [])
           else ([], [])))"

definition ls_main ::
  "string list \<Rightarrow> (string \<Rightarrow> (ls_stat option \<times> (nat \<times> string) list) option) \<Rightarrow> (string \<Rightarrow> ls_stat option) \<Rightarrow> run_result" where
  "ls_main argv open_file stat =
     (let rs = map (ls open_file stat) (if length argv < 2 then [''.''] else tl argv)
      in \<lparr>stdout = concat (map fst rs), stderr = concat (map snd rs), status = 0\<rparr>)"

subsection \<open>init\<close>

text \<open>The first process opens the console, three times the same file, and then starts shells for ever. \<open>init_setup\<close> gives the
  calls it makes; \<open>init_wait\<close> is the inner loop on what its calls of \<open>wait\<close> return, and \<open>init_round\<close> one turn of the outer
  loop.\<close>

datatype init_call = InitOpen string | InitMknod string | InitDup int

datatype init_end = Restart | Exit string | Waiting | ChildExec | ChildFailed string

definition init_setup :: "int \<Rightarrow> init_call list" where
  "init_setup fd =
     [InitOpen ''console''] @ (if fd < 0 then [InitMknod ''console'', InitOpen ''console''] else []) @ [InitDup 0, InitDup 0]"

fun init_wait :: "int \<Rightarrow> int list \<Rightarrow> init_end" where
  "init_wait pid [] = Waiting"
| "init_wait pid (wpid # ws) =
     (if wpid = pid then Restart
      else if wpid < 0 then Exit (line ''init: wait returned an error'')
      else init_wait pid ws)"

definition init_round :: "int \<Rightarrow> bool \<Rightarrow> int list \<Rightarrow> string \<times> init_end" where
  "init_round pid exec_ok ws =
     (line ''init: starting sh'',
      if pid < 0 then Exit (line ''init: fork failed'')
      else if pid = 0 then (if exec_ok then ChildExec else ChildFailed (line ''init: exec sh failed''))
      else init_wait pid ws)"

section \<open>What the programs compute\<close>

text \<open>\<open>cat\<close> copies its input, however it is cut into pieces.\<close>

lemma cat_copies:
  assumes "\<And>i. i < length cs \<Longrightarrow> length (cs ! i) \<le> wr (k + i)"
  shows "cat_loop wr k cs err = (concat cs, if err then line ''cat: read error'' else [], err)"
  using assms
proof (induction cs arbitrary: k)
  case (Cons c cs)
  have "length c \<le> wr k" using Cons.prems [of 0] by simp
  moreover have "cat_loop wr (Suc k) cs err = (concat cs, if err then line ''cat: read error'' else [], err)"
    by (rule Cons.IH) (use Cons.prems [of "Suc _"] in simp)
  ultimately show ?case by simp
qed simp

text \<open>The counters of \<open>wc\<close> do not depend on the pieces either: \<open>wc_w\<close> counts the characters that are not blank and follow a blank
  or the start.\<close>

definition word_starts :: "bool \<Rightarrow> string \<Rightarrow> nat" where
  "word_starts inw t = card {i. i < length t \<and> \<not> wc_blank (t ! i) \<and> (if i = 0 then \<not> inw else wc_blank (t ! (i - 1)))}"

lemma word_starts_Cons: "word_starts inw (c # t) = of_bool (\<not> wc_blank c \<and> \<not> inw) + word_starts (\<not> wc_blank c) t"
proof -
  let ?S = "{i. i < length t \<and> \<not> wc_blank (t ! i) \<and> (if i = 0 then wc_blank c else wc_blank (t ! (i - 1)))}"
  have "{i. i < length (c # t) \<and> \<not> wc_blank ((c # t) ! i) \<and> (if i = 0 then \<not> inw else wc_blank ((c # t) ! (i - 1)))} =
      (if \<not> wc_blank c \<and> \<not> inw then {0} else {}) \<union> Suc ` ?S" (is "?l = ?r")
  proof (rule set_eqI)
    fix i
    show "i \<in> ?l \<longleftrightarrow> i \<in> ?r" by (cases i) (auto simp: nth_Cons')
  qed
  moreover have "card (Suc ` ?S) = card ?S" by (rule card_image) simp
  ultimately show ?thesis by (simp add: word_starts_def)
qed

lemma wc_fold:
  "fold wc_char t x = \<lparr>wc_l = wc_l x + count_list t NL, wc_w = wc_w x + word_starts (inword x) t, wc_c = wc_c x + length t,
     inword = (if t = [] then inword x else \<not> wc_blank (last t))\<rparr>"
proof (induction t arbitrary: x)
  case (Cons c t)
  have "wc_blank NL" by (simp add: wc_blank_def)
  then show ?case unfolding fold_simps(2) Cons.IH by (auto simp: wc_char_def Let_def word_starts_Cons)
qed (simp add: word_starts_def)

lemma wc_counts:
  "wc_l (wc_count cs) = count_list (concat cs) NL \<and> wc_w (wc_count cs) = word_starts False (concat cs) \<and>
     wc_c (wc_count cs) = length (concat cs)"
proof -
  have "fold (fold wc_char) cs x = fold wc_char (concat cs) x" for x by (induction cs arbitrary: x) simp_all
  then show ?thesis by (simp add: wc_count_def wc_fold)
qed

text \<open>\<open>init\<close> starts a new shell exactly when the old one has been waited for, however many orphans it has to wait for before.\<close>

lemma init_restarts:
  "init_wait pid ws = Restart \<longleftrightarrow> (\<exists>xs ys. ws = xs @ pid # ys \<and> (\<forall>w\<in>set xs. 0 \<le> w \<and> w \<noteq> pid))"
proof (induction ws)
  case (Cons w ws)
  have "(\<exists>xs ys. w # ws = xs @ pid # ys \<and> (\<forall>w\<in>set xs. 0 \<le> w \<and> w \<noteq> pid)) \<longleftrightarrow>
      w = pid \<or> 0 \<le> w \<and> w \<noteq> pid \<and> (\<exists>xs ys. ws = xs @ pid # ys \<and> (\<forall>w\<in>set xs. 0 \<le> w \<and> w \<noteq> pid))"
    by (fastforce simp: Cons_eq_append_conv)
  then show ?case using Cons.IH by auto
qed simp

end
