(* ===== verification/Spec2Isabelle.thy ===== *)
theory Spec2Isabelle
  imports Asm Spinlock Shell_Print Console_Lines Fs_Dir Boot Ulib User_Tools
begin

text \<open>
  Verification of an xv6-riscv system: the kernel under src/kernel, with its multi-level feedback queue scheduler, clock
  page replacement, swapping to a simulated RAID disk and additional system calls, and the shell, the library
  and the small programs under src/user.

  \<^bold>\<open>The program and how its parts interact.\<close> A process enters the kernel through \<open>uservec\<close> (trampoline.S), which
  saves its registers, and \<open>usertrap\<close> (trap.c), which dispatches
  system calls through the table of syscall.c to sysproc.c and sysfile.c. Process memory is managed by vm.c on pages from
  kalloc.c. When memory runs out kalloc.c chooses a victim by the clock and the queue level of its process, and writes it
  through swap_disk.c; a later fault in \<open>vmfault\<close> brings the page back. Files go through file.c to pipe.c, console.c or
  fs.c; fs.c changes blocks through the log (log.c) in the buffer cache (bio.c), which virtio_disk.c reads and writes.
  proc.c schedules processes and implements sleep and wakeup, on which sleep locks, pipes and the console rest.

  \<^bold>\<open>Conventions.\<close> Every kernel function is a HOL function on one state, a record that each theory extends by the fields of
  its component: \<open>kproc\<close>, \<open>swapdisk\<close>, \<open>kmem\<close>, \<open>kglob\<close>, \<open>ksleep\<close>, \<open>kbio\<close>, \<open>klog\<close>, \<open>kfs\<close>, \<open>kcons\<close>, \<open>kfile\<close>, \<open>kvirtio\<close> and
  \<open>krun\<close>, in this order. The functions are polymorphic in the rest of the state. A call of \<open>panic\<close> is the outcome \<open>Panic\<close>
  of type \<open>res\<close>, as is the dereference of a null pointer, which ends in \<open>panic("kerneltrap")\<close>. A kernel path runs on one
  CPU and sees the spin locks it holds as a set; \<open>acquire\<close> of a held lock panics, as in the code. A function that gives
  up the CPU is split there: the result says that the path sleeps, and a function whose name ends in \<open>_resume\<close> or \<open>_back\<close>
  goes on. Tables indexed by pointers are functions on indices. Memory is a map from 64-bit addresses to bytes, so page
  tables and the free list really are in the pages they describe. Machine words are kept at their width where they can wrap
  around; signed counters are integers.

  \<^bold>\<open>Theories.\<close>
  \<^item> Xv6_Prelude: outcomes, loops, table scans, loads and stores. Riscv_Layout: riscv.h, memlayout.h, param.h. Proc_State:
    proc.h and the locks of a path.
  \<^item> Asm: trampoline.S, swtch.S, kernelvec.S and entry.S as lists of instructions. A trap restores every register of the
    process, a context switch returns to its caller, an interrupt in the kernel keeps the registers.
  \<^item> Spinlock: spinlock.c for any number of CPUs as an interleaved step relation. In every reachable state a lock has at
    most one holder, and the interrupt nesting counts the locks held.
  \<^item> Swap_Disk: swap_disk.c. One RAID mode refines a map from slots to pages, up to the capacity of the mode, which is given
    exactly; the scheduler's choice; parity of RAID 5; and where slots or modes overlap.
  \<^item> Kalloc: kalloc.c. The free list as a pool of pages, the clock's choice, eviction, the way of a page to the disk and
    back, and the accounting of frames.
  \<^item> Pagetable, Vm: vm.c. Page tables as trees in memory; mapping refines a map update; faults restore swapped pages; copies
    between kernel and user memory. Vm_Frame: what page faults and copies leave alone, and buffers in user memory.
  \<^item> Proc, Sysproc: proc.c and sysproc.c, syscall.c. The scheduler's order and fairness, the queue levels, allocation of
    processes. Process: fork, exit, the system call table and trap.c. Boot: start.c, main.c, plic.c, uart.c.
  \<^item> Sleeplock, Bio, Log: sleeplock.c, bio.c, log.c. The cache as a view of the disk; a commit is all or nothing across a
    crash at any point.
  \<^item> Fs: fs.c. Fs_Blocks: the block allocator as a set of used blocks inside a transaction. Fs_Inode: a file as a sequence of
    bytes that \<open>writei\<close> changes and \<open>readi\<close> reads. Fs_Dir: a directory as a map from names to inode numbers.
  \<^item> Console, File, Ring: console.c, uart.c, file.c, pipe.c and their ring buffers. Pipe: a pipe delivers the bytes written, in
    order. Console_Lines: what is typed arrives as edited lines. Exec, Sysfile: exec.c, sysfile.c. Virtio: virtio_disk.c.
  \<^item> Cstring: string.c. Printf: printf.c of kernel and library. Ulib, Fcntl: ulib.c and constants of the library. Shell, Shell_Print:
    sh.c, whose parser inverts a printer of command trees. Grep: grep.c, which prints the lines that the language of the
    pattern asks for. User_Tools: cat, echo, init, kill, ln, ls, mkdir, rm and wc.

  \<^bold>\<open>Interfaces.\<close> The locales state what a component promises its clients, and are interpreted on the model: \<open>page_store\<close>
  (slots of the swap disk, for each RAID mode), \<open>page_pool\<close> (\<open>kalloc\<close> and \<open>kfree\<close>), \<open>block_allocator\<close> (\<open>balloc\<close> and \<open>bfree\<close>),
  \<open>byte_queue\<close> (the ring buffer of a pipe).

  \<^bold>\<open>Bounds and fuel.\<close> Loops end by a measure from the code wherever there is one: loops over addresses because \<open>walk\<close> panics at
  \<open>MAXVA\<close>, copies by the bytes left. Three recursions have no such measure in the code and take fuel: \<open>freewalk\<close> descends at
  most 32 levels (a well-formed table has three), the parser's mutual recursion gets four turns for each character and four
  more, which is shown to be enough for every line, and the chain of descriptors in \<open>free_chain\<close> gets one turn more than
  there are descriptors.

  In the file system theorems a write may add six blocks to the transaction for each block of the file it touches: two for
  the bitmap and the zeroed block, twice, the indirect block and the data; the hypotheses ask for that much room.

  \<^bold>\<open>Not modelled.\<close> The control register accessors of riscv.h, which are single instructions; of them only the values written
  appear, and the translation of addresses is a parameter of Asm, with \<open>sfence.vma\<close> without effect. \<open>tlb_flush_all\<close>, which
  writes to the interrupt controller only. The linker scripts, and usys.pl, which generates the system call stubs. mkfs,
  which runs on the host and writes a file. umalloc.c, whose free list lives in the heap of a process. The test
  programs under src/user, which exercise the system and are not part of it.
\<close>

end
